(* ===== verification/HAL_Prelude.thy ===== *)
theory HAL_Prelude
  imports Main "HOL-Library.Word" "HOL-Library.Monad_Syntax"
begin

text \<open>
  Shared vocabulary of the HAL9000 development: the machine integer types of
  \<open>cal_types.h\<close>, the status codes of \<open>status.h\<close>, the address macros of
  \<open>base.h\<close>, the meaning of the ASSERT macro of \<open>assert.h\<close>, bounds-checked array
  accesses, counted loops, and the automation that the component theories use.

  A function of the code that can stop the system (a failed ASSERT, which halts, or an
  access outside an array, which has no defined result) is modelled with result type
  \<open>'a option\<close>: \<open>None\<close> is that fault. A STATUS that the code returns is an ordinary
  value of type \<open>u32\<close>. Every theorem that says an operation works therefore says that
  its result is \<open>Some\<close>.
\<close>

unbundle bit_operations_syntax

named_theorems run_simps "unfolding of one monadic operation"
named_theorems nat_of_word "transfer of word operations to nat"

section \<open>Machine integers\<close>

type_synonym u8 = "8 word"
type_synonym u16 = "16 word"
type_synonym u32 = "32 word"
type_synonym u64 = "64 word"

abbreviation (input) MAX_BYTE :: u8 where "MAX_BYTE \<equiv> 0xFF"
abbreviation (input) MAX_DWORD :: u32 where "MAX_DWORD \<equiv> 0xFFFFFFFF"
abbreviation (input) MAX_QWORD :: u64 where "MAX_QWORD \<equiv> 0xFFFFFFFFFFFFFFFF"

text \<open>The constants of \<open>base.h\<close>.\<close>

abbreviation (input) PAGE_SIZE :: u64 where "PAGE_SIZE \<equiv> 0x1000"
abbreviation (input) MB_SIZE :: u64 where "MB_SIZE \<equiv> 0x100000"

section \<open>Status codes\<close>

type_synonym STATUS = u32

abbreviation (input) STATUS_SUCCESS :: STATUS where "STATUS_SUCCESS \<equiv> 0"
abbreviation (input) STATUS_UNSUPPORTED :: STATUS where "STATUS_UNSUPPORTED \<equiv> 0xE8000001"
abbreviation (input) STATUS_UNSUCCESSFUL :: STATUS where "STATUS_UNSUCCESSFUL \<equiv> 0xE8000003"
abbreviation (input) STATUS_ELEMENT_NOT_FOUND :: STATUS where "STATUS_ELEMENT_NOT_FOUND \<equiv> 0xE8000004"
abbreviation (input) STATUS_INVALID_PARAMETER1 :: STATUS where "STATUS_INVALID_PARAMETER1 \<equiv> 0xE8000011"
abbreviation (input) STATUS_INVALID_PARAMETER2 :: STATUS where "STATUS_INVALID_PARAMETER2 \<equiv> 0xE8000012"
abbreviation (input) STATUS_INVALID_PARAMETER3 :: STATUS where "STATUS_INVALID_PARAMETER3 \<equiv> 0xE8000013"
abbreviation (input) STATUS_HEAP_TOO_SMALL :: STATUS where "STATUS_HEAP_TOO_SMALL \<equiv> 0xE0200001"
abbreviation (input) STATUS_HEAP_NO_MORE_MEMORY :: STATUS where "STATUS_HEAP_NO_MORE_MEMORY \<equiv> 0xE0200003"
abbreviation (input) STATUS_MEMORY_IS_NOT_RESERVED :: STATUS where "STATUS_MEMORY_IS_NOT_RESERVED \<equiv> 0xE0100006"
abbreviation (input) STATUS_MEMORY_CANNOT_BE_RESERVED :: STATUS where "STATUS_MEMORY_CANNOT_BE_RESERVED \<equiv> 0xE0100009"
abbreviation (input) STATUS_MEMORY_CONFLICTING_ACCESS_RIGHTS :: STATUS where "STATUS_MEMORY_CONFLICTING_ACCESS_RIGHTS \<equiv> 0xE010000C"
abbreviation (input) STATUS_MEMORY_CONFLICTING_CACHEABILITY :: STATUS where "STATUS_MEMORY_CONFLICTING_CACHEABILITY \<equiv> 0xE010000D"
abbreviation (input) STATUS_MEMORY_ALREADY_RESERVED :: STATUS where "STATUS_MEMORY_ALREADY_RESERVED \<equiv> 0xE010000F"
abbreviation (input) STATUS_MEMORY_IS_NOT_COMMITED :: STATUS where "STATUS_MEMORY_IS_NOT_COMMITED \<equiv> 0xE0100010"

text \<open>\<open>SUCCEEDED\<close> looks at the top bit (\<open>FAIL_MASK\<close>) only.\<close>

definition SUCCEEDED :: "STATUS \<Rightarrow> bool" where
  "SUCCEEDED x \<longleftrightarrow> x AND 0x80000000 = 0"

section \<open>Assertions and the option monad\<close>

definition ASSERT :: "bool \<Rightarrow> unit option" where
  "ASSERT c = (if c then Some () else None)"

lemma ASSERT_True [simp]: "ASSERT True = Some ()"
  by (simp add: ASSERT_def)

lemma ASSERT_False [simp]: "ASSERT False = None"
  by (simp add: ASSERT_def)

lemma ASSERT_eq_Some [simp]: "ASSERT c = Some u \<longleftrightarrow> c"
  by (simp add: ASSERT_def)

lemma ASSERT_holds: "c \<Longrightarrow> ASSERT c = Some ()"
  by simp

lemmas bind_Some = Option.bind_eq_Some_conv

section \<open>Arrays with bounds\<close>

definition array_get :: "'a list \<Rightarrow> nat \<Rightarrow> 'a option" where
  "array_get xs i = (if i < length xs then Some (xs ! i) else None)"

definition array_set :: "'a list \<Rightarrow> nat \<Rightarrow> 'a \<Rightarrow> 'a list option" where
  "array_set xs i v = (if i < length xs then Some (xs[i := v]) else None)"

lemma array_get_Some [simp]: "i < length xs \<Longrightarrow> array_get xs i = Some (xs ! i)"
  by (simp add: array_get_def)

lemma array_set_Some [simp]: "i < length xs \<Longrightarrow> array_set xs i v = Some (xs[i := v])"
  by (simp add: array_set_def)

lemma array_get_None [simp]: "\<not> i < length xs \<Longrightarrow> array_get xs i = None"
  by (simp add: array_get_def)

lemma array_set_None [simp]: "\<not> i < length xs \<Longrightarrow> array_set xs i v = None"
  by (simp add: array_set_def)

lemma array_get_conv: "array_get xs i = Some v \<longleftrightarrow> i < length xs \<and> v = xs ! i"
  by (auto simp: array_get_def)

lemma array_set_conv: "array_set xs i v = Some ys \<longleftrightarrow> i < length xs \<and> ys = xs[i := v]"
  by (auto simp: array_set_def)

section \<open>Counted loops\<close>

text \<open>
  \<open>for_upto i n body s\<close> is the loop \<open>for (j = i; j < i + n; ++j) s = body(j, s)\<close>.
\<close>

primrec for_upto :: "nat \<Rightarrow> nat \<Rightarrow> (nat \<Rightarrow> 's \<Rightarrow> 's option) \<Rightarrow> 's \<Rightarrow> 's option" where
  "for_upto i 0 body s = Some s"
| "for_upto i (Suc n) body s = do { s' \<leftarrow> body i s; for_upto (Suc i) n body s' }"

text \<open>The total-correctness rule: the body keeps the invariant and never faults.\<close>

lemma for_upto_rule:
  assumes "P i s"
    and "\<And>j s. i \<le> j \<Longrightarrow> j < i + n \<Longrightarrow> P j s \<Longrightarrow> \<exists>s'. body j s = Some s' \<and> P (Suc j) s'"
  shows "\<exists>s'. for_upto i n body s = Some s' \<and> P (i + n) s'"
  using assms
proof (induction n arbitrary: i s)
  case 0
  then show ?case by simp
next
  case (Suc n)
  from Suc.prems(2)[of i s] Suc.prems(1)
  obtain s' where s': "body i s = Some s'" "P (Suc i) s'" by auto
  have "\<exists>s''. for_upto (Suc i) n body s' = Some s'' \<and> P (Suc i + n) s''"
    using s'(2) Suc.prems(2) by (intro Suc.IH) auto
  with s'(1) show ?case by auto
qed

text \<open>The partial-correctness rule: whatever the loop returns satisfies the invariant.\<close>

lemma for_upto_inv:
  assumes "for_upto i n body s = Some t" and "P i s"
    and "\<And>j s s'. i \<le> j \<Longrightarrow> j < i + n \<Longrightarrow> P j s \<Longrightarrow> body j s = Some s' \<Longrightarrow> P (Suc j) s'"
  shows "P (i + n) t"
  using assms
proof (induction n arbitrary: i s)
  case 0
  then show ?case by simp
next
  case (Suc n)
  from Suc.prems(1) obtain s' where
    s': "body i s = Some s'" "for_upto (Suc i) n body s' = Some t"
    by (auto simp: bind_Some)
  have "P (Suc i) s'" using Suc.prems(2,3) s'(1) by simp
  then have "P (Suc i + n) t"
    using s'(2) Suc.prems(3) by (intro Suc.IH) auto
  then show ?case by simp
qed

section \<open>Addresses\<close>

text \<open>
  \<open>AlignAddressLower\<close>, \<open>AlignAddressUpper\<close>, \<open>IsAddressAligned\<close> and
  \<open>CHECK_BOUNDS\<close> compute on QWORDs and wrap as the macros do.
\<close>

definition AlignAddressLower :: "u64 \<Rightarrow> u64 \<Rightarrow> u64" where
  "AlignAddressLower addr alig = addr AND NOT (alig - 1)"

definition AlignAddressUpper :: "u64 \<Rightarrow> u64 \<Rightarrow> u64" where
  "AlignAddressUpper addr alig = AlignAddressLower (addr + alig - 1) alig"

definition IsAddressAligned :: "u64 \<Rightarrow> u64 \<Rightarrow> bool" where
  "IsAddressAligned addr alig \<longleftrightarrow> addr AND (alig - 1) = 0"

definition CHECK_BOUNDS :: "u64 \<Rightarrow> u64 \<Rightarrow> u64 \<Rightarrow> u64 \<Rightarrow> bool" where
  "CHECK_BOUNDS p ps b s \<longleftrightarrow> b \<le> p \<and> p + ps \<le> b + s"

definition IsBooleanFlagOn :: "'a::len word \<Rightarrow> 'a word \<Rightarrow> bool" where
  "IsBooleanFlagOn x f \<longleftrightarrow> f = x AND f"

definition IsFlagOn :: "'a::len word \<Rightarrow> 'a word \<Rightarrow> bool" where
  "IsFlagOn x f \<longleftrightarrow> x AND f \<noteq> 0"

section \<open>Word arithmetic as natural numbers\<close>

lemma unat_add_small [nat_of_word]:
  "unat (x :: 'a::len word) + unat y < 2 ^ LENGTH('a) \<Longrightarrow> unat (x + y) = unat x + unat y"
  by (simp add: unat_add_lem [symmetric])

lemma unat_sub_small [nat_of_word]:
  "y \<le> x \<Longrightarrow> unat ((x :: 'a::len word) - y) = unat x - unat y"
  by (rule unat_sub)

lemma unat_mult_small [nat_of_word]:
  "unat (x :: 'a::len word) * unat y < 2 ^ LENGTH('a) \<Longrightarrow> unat (x * y) = unat x * unat y"
  by (simp add: unat_mult_lem [symmetric])

lemma unat_of_nat_small [nat_of_word]:
  "n < 2 ^ LENGTH('a) \<Longrightarrow> unat (of_nat n :: 'a::len word) = n"
  by (simp add: unat_of_nat take_bit_nat_eq_self)

lemma unat_lt_u32: "unat (x :: u32) < 4294967296"
  using unsigned_less[of x] by simp

lemma unat_lt_u64: "unat (x :: u64) < 18446744073709551616"
  using unsigned_less[of x] by simp

lemma unat_ucast_up: "unat (ucast (x :: u32) :: u64) = unat x"
  by (simp add: unsigned_ucast_eq take_bit_nat_eq_self order_less_trans [OF unat_lt_u32])

section \<open>Alignment\<close>

lemma unat_take_bit: "unat (take_bit n (x :: 'a::len word)) = unat x mod 2 ^ n"
  by (simp add: unsigned_take_bit_eq flip: take_bit_eq_mod)

lemma take_bit_le_word: "take_bit n (x :: 'a::len word) \<le> x"
  by (simp add: word_le_nat_alt unat_take_bit)

lemma and_not_mask_eq: "(x :: 'a::len word) AND NOT (mask n) = x - take_bit n x"
proof -
  have "(x AND NOT (mask n)) + take_bit n x = (x AND NOT (mask n)) OR take_bit n x"
    by (rule disjunctive_add) (auto simp: bit_simps)
  also have "\<dots> = x"
    by (rule bit_word_eqI) (auto simp: bit_simps)
  finally show ?thesis by (simp add: algebra_simps)
qed

lemma mask_of_alignment: "(2 :: u64) ^ n - 1 = mask n"
  by (simp add: mask_eq_exp_minus_1)

lemma unat_AlignAddressLower:
  "unat (AlignAddressLower a (2 ^ n)) = unat a - unat a mod 2 ^ n"
  unfolding AlignAddressLower_def mask_of_alignment and_not_mask_eq
  by (simp add: unat_sub_small take_bit_le_word unat_take_bit)

lemma IsAddressAligned_iff: "IsAddressAligned a (2 ^ n) \<longleftrightarrow> 2 ^ n dvd unat a"
proof -
  have "a AND (2 ^ n - 1) = 0 \<longleftrightarrow> unat (take_bit n a) = 0"
    unfolding mask_of_alignment take_bit_eq_mask [symmetric] by (simp add: unat_eq_0)
  then show ?thesis
    by (simp add: IsAddressAligned_def unat_take_bit dvd_eq_mod_eq_0)
qed

lemma unat_AlignAddressUpper:
  assumes "unat a + (2 ^ n - 1) < 2 ^ 64" "n < 64"
  shows "unat (AlignAddressUpper a (2 ^ n)) = (unat a + (2 ^ n - 1)) div 2 ^ n * 2 ^ n"
proof -
  have "(2 :: nat) ^ n < 2 ^ 64"
    using assms(2) by (intro power_strict_increasing) auto
  then have p: "unat ((2 :: u64) ^ n) = 2 ^ n"
    using unat_of_nat_small [of "2 ^ n", where 'a = 64] by (simp only: of_nat_power of_nat_numeral) simp
  have "unat (a + 2 ^ n - 1) = unat (a + (2 ^ n - 1))" by (simp add: algebra_simps)
  also have "\<dots> = unat a + unat ((2 :: u64) ^ n - 1)"
    using assms p by (intro unat_add_small) (simp add: unat_sub_small word_le_nat_alt)
  also have "\<dots> = unat a + (2 ^ n - 1)"
    using p by (simp add: unat_sub_small word_le_nat_alt)
  finally have s: "unat (a + 2 ^ n - 1) = unat a + (2 ^ n - 1)" .
  show ?thesis
    unfolding AlignAddressUpper_def unat_AlignAddressLower s
    by (simp add: minus_mod_eq_div_mult)
qed

text \<open>The two alignments the code uses most: bitmap bytes and pages.\<close>

lemma alignments: "(8 :: u64) = 2 ^ 3" "(PAGE_SIZE :: u64) = 2 ^ 12"
  by simp_all

section \<open>Counting processors\<close>

text \<open>How many of the processors (or threads) \<open>C\<close> are at a place with the property \<open>P\<close>.\<close>

definition cnt :: "'c set \<Rightarrow> ('p \<Rightarrow> bool) \<Rightarrow> ('c \<Rightarrow> 'p) \<Rightarrow> nat" where
  "cnt C P pcs = card {c \<in> C. P (pcs c)}"

lemma cnt_split:
  assumes "finite C" "c \<in> C"
  shows "cnt C P pcs = cnt (C - {c}) P pcs + of_bool (P (pcs c))"
proof -
  have "{d \<in> C. P (pcs d)} = {d \<in> C - {c}. P (pcs d)} \<union> {d \<in> {c}. P (pcs d)}" using assms(2) by blast
  moreover have "card ({d \<in> C - {c}. P (pcs d)} \<union> {d \<in> {c}. P (pcs d)})
      = card {d \<in> C - {c}. P (pcs d)} + card {d \<in> {c}. P (pcs d)}"
    using assms(1) by (intro card_Un_disjoint) auto
  moreover have "{d \<in> {c}. P (pcs d)} = (if P (pcs c) then {c} else {})" by auto
  ultimately show ?thesis by (simp add: cnt_def)
qed

lemma cnt_other [simp]: "cnt (C - {c}) P (pcs(c := p)) = cnt (C - {c}) P pcs"
  by (auto simp: cnt_def intro!: arg_cong [where f = card])

lemma cnt_bound: "finite C \<Longrightarrow> c \<in> C \<Longrightarrow> cnt (C - {c}) P pcs < card C"
proof -
  assume C: "finite C" "c \<in> C"
  have "cnt (C - {c}) P pcs \<le> card (C - {c})" unfolding cnt_def using C(1) by (intro card_mono) auto
  also have "\<dots> < card C" using C by (rule card_Diff1_less)
  finally show ?thesis .
qed

lemma cnt_mono: "finite C \<Longrightarrow> (\<And>p. P p \<Longrightarrow> Q p) \<Longrightarrow> cnt C P pcs \<le> cnt C Q pcs"
  unfolding cnt_def by (intro card_mono) auto

lemma cnt_pos: "finite C \<Longrightarrow> c \<in> C \<Longrightarrow> P (pcs c) \<Longrightarrow> 0 < cnt C P pcs"
  unfolding cnt_def by (subst card_gt_0_iff) auto

lemma cnt_two:
  assumes "finite C" "c \<in> C" "d \<in> C" "P (pcs c)" "P (pcs d)" "cnt C P pcs \<le> 1"
  shows "c = d"
proof (rule ccontr)
  assume "c \<noteq> d"
  then have "0 < cnt (C - {c}) P pcs" using assms by (intro cnt_pos [of _ d]) simp_all
  then show False using assms(4,6) cnt_split [OF assms(1,2), of P pcs] by simp
qed

lemma cnt_none: "finite C \<Longrightarrow> cnt C P pcs = 0 \<longleftrightarrow> (\<forall>c \<in> C. \<not> P (pcs c))"
  by (auto simp: cnt_def)

end
