(* ===== verification/CL_Memory.thy ===== *)
theory CL_Memory
  imports HAL_Prelude
begin

text \<open>
  \<open>CommonLib/src/cl_memory.c\<close>: filling, copying, moving, comparing and scanning memory.
  The functions that write work on one memory (a list of bytes) and pointers into it, so
  that overlapping operands alias as they do in the code; NULL is \<open>None\<close>. The functions
  that only read take their operands as separate buffers. Reading or writing outside the
  memory is the fault \<open>None\<close>.
\<close>

section \<open>Operations\<close>

definition cl_memset :: "u8 list \<Rightarrow> nat option \<Rightarrow> u8 \<Rightarrow> u32 \<Rightarrow> u8 list option" where
  "cl_memset mem address v sz =
     (case address of
        None \<Rightarrow> Some mem
      | Some a \<Rightarrow> for_upto 0 (unat sz) (\<lambda>i m. array_set m (a + i) v) mem)"

text \<open>One load and store of \<open>k\<close> bytes: the whole value is read before it is written.\<close>

definition copy_unit :: "nat \<Rightarrow> u8 list \<Rightarrow> nat \<Rightarrow> nat \<Rightarrow> u8 list option" where
  "copy_unit k mem dst src =
     (if src + k \<le> length mem \<and> dst + k \<le> length mem
      then Some (take dst mem @ take k (drop src mem) @ drop (dst + k) mem) else None)"

text \<open>\<open>AsmMovsq\<close> of \<open>cal_assembly.c\<close>: \<open>cld; rep movsq\<close>, eight bytes at a time, upwards.\<close>

definition AsmMovsq :: "u8 list \<Rightarrow> nat \<Rightarrow> nat \<Rightarrow> u64 \<Rightarrow> u8 list option" where
  "AsmMovsq mem dst src count =
     for_upto 0 (unat count) (\<lambda>i m. copy_unit 8 m (dst + 8 * i) (src + 8 * i)) mem"

text \<open>One \<open>if (unalignedCount & k)\<close> step of \<open>cl_memcpy\<close>.\<close>

definition memcpy_tail :: "nat \<Rightarrow> bool \<Rightarrow> u8 list \<times> nat \<times> nat \<Rightarrow> (u8 list \<times> nat \<times> nat) option" where
  "memcpy_tail k c st =
     (case st of (m, d, s) \<Rightarrow>
        if c then do { m' \<leftarrow> copy_unit k m d s; Some (m', d + k, s + k) } else Some st)"

definition cl_memcpy :: "u8 list \<Rightarrow> nat option \<Rightarrow> nat option \<Rightarrow> u64 \<Rightarrow> u8 list option" where
  "cl_memcpy mem Destination Source Count =
     (case (Destination, Source) of
        (Some d, Some s) \<Rightarrow> do {
          let unalignedCount = Count AND 7;
          let alignedCount = Count - unalignedCount;
          st4 \<leftarrow> memcpy_tail 4 (unalignedCount AND 4 \<noteq> 0) (mem, d, s);
          st2 \<leftarrow> memcpy_tail 2 (unalignedCount AND 2 \<noteq> 0) st4;
          st1 \<leftarrow> memcpy_tail 1 (unalignedCount AND 1 \<noteq> 0) st2;
          if alignedCount \<noteq> 0 then do {
            ASSERT (IsAddressAligned alignedCount 8);
            AsmMovsq (fst st1) (d + unat unalignedCount) (s + unat unalignedCount)
              (alignedCount div 8)
          } else Some (fst st1)
        }
      | _ \<Rightarrow> Some mem)"

definition cl_memmove :: "u8 list \<Rightarrow> nat option \<Rightarrow> nat option \<Rightarrow> u64 \<Rightarrow> u8 list option" where
  "cl_memmove mem Destination Source Count =
     (case (Destination, Source) of
        (Some d, Some s) \<Rightarrow>
          for_upto 0 (unat Count)
            (\<lambda>i m. do { b \<leftarrow> array_get m (s + i); array_set m (d + i) b }) mem
      | _ \<Rightarrow> Some mem)"

text \<open>\<open>p1[i] - p2[i]\<close>: both bytes are promoted to int before the subtraction.\<close>

definition byte_diff :: "u8 \<Rightarrow> u8 \<Rightarrow> int" where
  "byte_diff a b = uint a - uint b"

primrec memcmp_loop :: "u8 list \<Rightarrow> u8 list \<Rightarrow> nat \<Rightarrow> nat \<Rightarrow> int option" where
  "memcmp_loop p1 p2 i 0 = Some 0"
| "memcmp_loop p1 p2 i (Suc n) = do {
     a \<leftarrow> array_get p1 i;
     b \<leftarrow> array_get p2 i;
     if a \<noteq> b then Some (byte_diff a b) else memcmp_loop p1 p2 (Suc i) n
   }"

definition cl_memcmp :: "u8 list option \<Rightarrow> u8 list option \<Rightarrow> u32 \<Rightarrow> int option" where
  "cl_memcmp ptr1 ptr2 sz =
     (case (ptr1, ptr2) of
        (Some p1, Some p2) \<Rightarrow> memcmp_loop p1 p2 0 (unat sz)
      | _ \<Rightarrow> Some (sint sz))"

text \<open>\<open>for (i = last; i >= 0; --i)\<close>; the argument is \<open>i + 1\<close>.\<close>

primrec rmemcmp_loop :: "u8 list \<Rightarrow> u8 list \<Rightarrow> nat \<Rightarrow> int option" where
  "rmemcmp_loop p1 p2 0 = Some 0"
| "rmemcmp_loop p1 p2 (Suc i) = do {
     a \<leftarrow> array_get p1 i;
     b \<leftarrow> array_get p2 i;
     if a \<noteq> b then Some (byte_diff a b) else rmemcmp_loop p1 p2 i
   }"

text \<open>The first index is \<open>sz - 1\<close> computed on DWORDs, then widened to INT64.\<close>

definition cl_rmemcmp :: "u8 list option \<Rightarrow> u8 list option \<Rightarrow> u32 \<Rightarrow> int option" where
  "cl_rmemcmp ptr1 ptr2 sz =
     (case (ptr1, ptr2) of
        (Some p1, Some p2) \<Rightarrow> rmemcmp_loop p1 p2 (Suc (unat (sz - 1)))
      | _ \<Rightarrow> Some (sint sz))"

primrec memscan_loop :: "u8 list \<Rightarrow> u8 \<Rightarrow> nat \<Rightarrow> nat \<Rightarrow> nat option" where
  "memscan_loop p v i 0 = Some i"
| "memscan_loop p v i (Suc n) = do {
     b \<leftarrow> array_get p i;
     if b \<noteq> v then Some i else memscan_loop p v (Suc i) n
   }"

definition cl_memscan :: "u8 list option \<Rightarrow> u32 \<Rightarrow> u8 \<Rightarrow> int option" where
  "cl_memscan buffer sz v =
     (case buffer of
        None \<Rightarrow> Some 0
      | Some p \<Rightarrow> do { i \<leftarrow> memscan_loop p v 0 (unat sz); Some (sint (of_nat i :: u32)) })"

section \<open>Filling\<close>

lemma memset_loop:
  assumes "a + n \<le> length mem"
  shows "for_upto 0 n (\<lambda>i m. array_set m (a + i) v) mem
           = Some (take a mem @ replicate n v @ drop (a + n) mem)"
proof -
  let ?P = "\<lambda>j m. m = take a mem @ replicate j v @ drop (a + j) mem"
  have "\<exists>m. for_upto 0 n (\<lambda>i m. array_set m (a + i) v) mem = Some m \<and> ?P (0 + n) m"
  proof (rule for_upto_rule)
    show "?P 0 mem" by simp
  next
    fix j m assume "0 \<le> j" "j < 0 + n" and m: "?P j m"
    with assms have l: "a + j < length mem" by simp
    then have "drop (a + j) mem = mem ! (a + j) # drop (a + Suc j) mem"
      by (simp add: Cons_nth_drop_Suc)
    with l m show "\<exists>m'. array_set m (a + j) v = Some m' \<and> ?P (Suc j) m'"
      by (simp add: list_update_append replicate_append_same [symmetric])
  qed
  then show ?thesis by simp
qed

lemma cl_memset_whole:
  "unat sz \<le> length buf \<Longrightarrow>
   cl_memset buf (Some 0) v sz = Some (replicate (unat sz) v @ drop (unat sz) buf)"
  by (simp add: cl_memset_def memset_loop [of 0, simplified])

section \<open>Copying\<close>

text \<open>What a copy of \<open>n\<close> bytes means.\<close>

definition blit :: "u8 list \<Rightarrow> nat \<Rightarrow> nat \<Rightarrow> nat \<Rightarrow> u8 list" where
  "blit mem dst src n = take dst mem @ take n (drop src mem) @ drop (dst + n) mem"

lemma length_blit [simp]:
  "src + n \<le> length mem \<Longrightarrow> dst + n \<le> length mem \<Longrightarrow> length (blit mem dst src n) = length mem"
  by (simp add: blit_def)

lemma nth_blit:
  "src + n \<le> length mem \<Longrightarrow> dst + n \<le> length mem \<Longrightarrow> i < length mem \<Longrightarrow>
   blit mem dst src n ! i = (if dst \<le> i \<and> i < dst + n then mem ! (src + (i - dst)) else mem ! i)"
  by (auto simp: blit_def nth_append min_absorb2)

lemma blit_0 [simp]: "blit mem dst src 0 = mem"
  by (simp add: blit_def)

text \<open>Copying upwards piece by piece copies the whole, unless the destination lies inside
  the source range above its start.\<close>

lemma blit_blit:
  assumes "src + (a + b) \<le> length mem" "dst + (a + b) \<le> length mem"
    and "dst \<le> src \<or> src + (a + b) \<le> dst"
  shows "blit (blit mem dst src a) (dst + a) (src + a) b = blit mem dst src (a + b)"
  using assms by (intro nth_equalityI) (auto simp: nth_blit)

lemma copy_unit_blit:
  "src + k \<le> length mem \<Longrightarrow> dst + k \<le> length mem \<Longrightarrow>
   copy_unit k mem dst src = Some (blit mem dst src k)"
  by (simp add: copy_unit_def blit_def)

lemma movsq_loop:
  assumes "src + 8 * n \<le> length mem" "dst + 8 * n \<le> length mem"
    and "dst \<le> src \<or> src + 8 * n \<le> dst"
  shows "for_upto 0 n (\<lambda>i m. copy_unit 8 m (dst + 8 * i) (src + 8 * i)) mem
           = Some (blit mem dst src (8 * n))"
proof -
  let ?P = "\<lambda>j m. m = blit mem dst src (8 * j)"
  have "\<exists>m. for_upto 0 n (\<lambda>i m. copy_unit 8 m (dst + 8 * i) (src + 8 * i)) mem = Some m
            \<and> ?P (0 + n) m"
  proof (rule for_upto_rule)
    show "?P 0 mem" by simp
  next
    fix j m assume j: "0 \<le> j" "j < 0 + n" and m: "?P j m"
    have "blit (blit mem dst src (8 * j)) (dst + 8 * j) (src + 8 * j) 8
          = blit mem dst src (8 * j + 8)"
      using assms j by (intro blit_blit) auto
    with assms j m
    show "\<exists>m'. copy_unit 8 m (dst + 8 * j) (src + 8 * j) = Some m' \<and> ?P (Suc j) m'"
      by (simp add: copy_unit_blit algebra_simps)
  qed
  then show ?thesis by simp
qed

lemma memcpy_tail_blit:
  assumes "k' = (if c then k else 0)"
    and "s + (a + k') \<le> length mem" "d + (a + k') \<le> length mem" "d \<le> s \<or> s + (a + k') \<le> d"
  shows "memcpy_tail k c (blit mem d s a, d + a, s + a)
         = Some (blit mem d s (a + k'), d + (a + k'), s + (a + k'))"
  using assms by (auto simp: memcpy_tail_def copy_unit_blit blit_blit add.assoc)

text \<open>The three flag tests of \<open>cl_memcpy\<close> read the binary digits of \<open>Count & 7\<close>.\<close>

lemma low_three_bits:
  fixes x :: u64
  defines "w \<equiv> x AND 7"
  shows "unat w = (if w AND 4 \<noteq> 0 then 4 else 0) + (if w AND 2 \<noteq> 0 then 2 else 0)
                    + (if w AND 1 \<noteq> 0 then 1 else 0)"
proof -
  have "w \<le> 7" unfolding w_def by (rule word_and_le1)
  then have "unat w \<le> 7" by (simp add: word_le_nat_alt)
  then have "unat w \<in> {0, 1, 2, 3, 4, 5, 6, 7}" by auto
  then have "(of_nat (unat w) :: u64) \<in> of_nat ` {0, 1, 2, 3, 4, 5, 6, 7 :: nat}" by (rule imageI)
  then have "w \<in> {0, 1, 2, 3, 4, 5, 6, 7}" by (simp del: insert_iff)
  then show ?thesis by auto
qed

lemma low_bits_aligned:
  fixes x :: u64
  shows "unat (x - (x AND 7)) = 8 * unat ((x - (x AND 7)) div 8)"
    and "IsAddressAligned (x - (x AND 7)) 8"
    and "unat x = unat (x AND 7) + unat (x - (x AND 7))"
proof -
  have x7: "x AND 7 = take_bit 3 x"
    by (simp add: take_bit_eq_mask mask_numeral)
  have u: "unat (x - (x AND 7)) = unat x - unat x mod 8"
    unfolding x7 by (simp add: unat_sub_small take_bit_le_word unat_take_bit)
  then have d: "8 dvd unat (x - (x AND 7))"
    by (simp add: dvd_minus_mod)
  then show "unat (x - (x AND 7)) = 8 * unat ((x - (x AND 7)) div 8)"
    by (simp add: unat_div_distrib)
  show "IsAddressAligned (x - (x AND 7)) 8"
    unfolding alignments(1) IsAddressAligned_iff using d by simp
  show "unat x = unat (x AND 7) + unat (x - (x AND 7))"
    unfolding u unfolding x7 by (simp add: unat_take_bit)
qed

text \<open>
  \<open>cl_memcpy\<close> copies exactly the bytes it is asked to, for every residue of the count
  modulo eight, whenever both ranges lie in memory and the destination does not overlap the
  source from above.
\<close>

lemma cl_memcpy_copies:
  assumes "s + unat Count \<le> length mem" "d + unat Count \<le> length mem"
    and "d \<le> s \<or> s + unat Count \<le> d"
  shows "cl_memcpy mem (Some d) (Some s) Count = Some (blit mem d s (unat Count))"
proof -
  define u where "u = Count AND 7"
  define n4 where "n4 = (if u AND 4 \<noteq> 0 then 4 else 0 :: nat)"
  define n2 where "n2 = (if u AND 2 \<noteq> 0 then 2 else 0 :: nat)"
  define n1 where "n1 = (if u AND 1 \<noteq> 0 then 1 else 0 :: nat)"
  define al where "al = Count - u"
  have u: "unat u = n4 + n2 + n1"
    unfolding u_def n4_def n2_def n1_def by (rule low_three_bits)
  have al: "unat al = 8 * unat (al div 8)" "IsAddressAligned al 8" "unat Count = unat u + unat al"
    unfolding al_def u_def by (rule low_bits_aligned)+
  have room: "s + (n4 + n2 + n1) \<le> length mem" "d + (n4 + n2 + n1) \<le> length mem"
    "d \<le> s \<or> s + (n4 + n2 + n1) \<le> d"
    using assms al(3) u by auto
  have t4: "memcpy_tail 4 (u AND 4 \<noteq> 0) (mem, d, s) = Some (blit mem d s n4, d + n4, s + n4)"
    using memcpy_tail_blit [OF n4_def, of s 0 mem d] room by fastforce
  have t2: "memcpy_tail 2 (u AND 2 \<noteq> 0) (blit mem d s n4, d + n4, s + n4)
            = Some (blit mem d s (n4 + n2), d + (n4 + n2), s + (n4 + n2))"
    using room by (intro memcpy_tail_blit [OF n2_def]) auto
  have t1: "memcpy_tail 1 (u AND 1 \<noteq> 0) (blit mem d s (n4 + n2), d + (n4 + n2), s + (n4 + n2))
            = Some (blit mem d s (n4 + n2 + n1), d + (n4 + n2 + n1), s + (n4 + n2 + n1))"
    using room by (intro memcpy_tail_blit [OF n1_def]) auto
  have m: "AsmMovsq (blit mem d s (unat u)) (d + unat u) (s + unat u) (al div 8)
           = Some (blit (blit mem d s (unat u)) (d + unat u) (s + unat u) (8 * unat (al div 8)))"
    unfolding AsmMovsq_def using assms al by (intro movsq_loop) auto
  have b: "blit (blit mem d s (unat u)) (d + unat u) (s + unat u) (8 * unat (al div 8))
           = blit mem d s (unat Count)"
    unfolding al(3) al(1) [symmetric] using assms al(3) by (intro blit_blit) auto
  have z: "al = 0 \<Longrightarrow> unat Count = unat u" using al(3) by simp
  show ?thesis
    unfolding cl_memcpy_def option.case prod.case Let_def u_def [symmetric] al_def [symmetric]
      t4 t2 t1 Option.bind.bind_lunit fst_conv u [symmetric]
    using m b al(2) z by (cases "al = 0") simp_all
qed

section \<open>Moving\<close>

lemma cl_memmove_copies:
  assumes "s + unat Count \<le> length mem" "d + unat Count \<le> length mem"
    and "d \<le> s \<or> s + unat Count \<le> d"
  shows "cl_memmove mem (Some d) (Some s) Count = Some (blit mem d s (unat Count))"
proof -
  let ?body = "\<lambda>i m. do { b \<leftarrow> array_get m (s + i); array_set m (d + i) b }"
  let ?P = "\<lambda>j m. m = blit mem d s j"
  have "\<exists>m. for_upto 0 (unat Count) ?body mem = Some m \<and> ?P (0 + unat Count) m"
  proof (rule for_upto_rule)
    show "?P 0 mem" by simp
  next
    fix j m assume j: "0 \<le> j" "j < 0 + unat Count" and m: "?P j m"
    have "m[d + j := m ! (s + j)] = blit mem d s (Suc j)"
      unfolding m using assms j by (intro nth_equalityI) (auto simp: nth_blit nth_list_update)
    with assms j m show "\<exists>m'. ?body j m = Some m' \<and> ?P (Suc j) m'"
      by simp
  qed
  then show ?thesis by (simp add: cl_memmove_def)
qed

text \<open>
  The header promises that \<open>cl_memmove\<close> is usable when the areas overlap. When the
  destination starts inside the source the loop reads bytes it has already written.
\<close>

lemma cl_memmove_overlap:
  "cl_memmove [1, 2, 3, 4] (Some 1) (Some 0) 3 = Some [1, 1, 1, 1]"
  "blit [1, 2, 3, 4] 1 0 3 = [1, 1, 2, 3]"
  by code_simp+

section \<open>Comparing\<close>

lemma byte_diff_sign [simp]:
  "byte_diff a b < 0 \<longleftrightarrow> a < b" "0 < byte_diff a b \<longleftrightarrow> b < a" "byte_diff a b = 0 \<longleftrightarrow> a = b"
  by (auto simp: byte_diff_def word_less_def word_uint_eq_iff)

text \<open>The number that a buffer stores when it is read as a little-endian integer, and the
  one it stores when it is read as a big-endian integer.\<close>

fun le_value :: "u8 list \<Rightarrow> nat" where
  "le_value [] = 0"
| "le_value (b # bs) = unat b + 256 * le_value bs"

definition be_value :: "u8 list \<Rightarrow> nat" where
  "be_value bs = le_value (rev bs)"

lemma le_value_append: "le_value (xs @ ys) = le_value xs + 256 ^ length xs * le_value ys"
  by (induction xs) (auto simp: algebra_simps)

lemma unat_byte: "unat (b :: u8) < 256"
  using unsigned_less [of b] by simp

lemma le_value_bound: "le_value xs < 256 ^ length xs"
proof (induction xs)
  case (Cons b bs)
  have "unat b + 256 * le_value bs < 256 * (le_value bs + 1)" using unat_byte [of b] by simp
  also have "\<dots> \<le> 256 * 256 ^ length bs" using Cons.IH by (intro mult_le_mono2) simp
  finally show ?case by simp
qed simp

text \<open>The last byte decides, and equal last bytes leave the decision to the rest.\<close>

lemma le_value_snoc_less:
  assumes "length xs = length ys"
  shows "le_value (xs @ [a]) < le_value (ys @ [b])
         \<longleftrightarrow> a < b \<or> a = b \<and> le_value xs < le_value ys"
proof -
  have sep: "le_value us + 256 ^ length us * unat c < le_value vs + 256 ^ length vs * unat d"
    if "length us = length vs" "c < d" for us vs :: "u8 list" and c d :: u8
  proof -
    have "le_value us + 256 ^ length us * unat c < 256 ^ length us * (unat c + 1)"
      using le_value_bound [of us] by simp
    also have "\<dots> \<le> 256 ^ length us * unat d"
      using that(2) by (intro mult_le_mono2) (simp add: word_less_nat_alt)
    finally show ?thesis using that(1) by simp
  qed
  show ?thesis
    using sep [of xs ys a b] sep [of ys xs b a] assms
    by (cases a b rule: linorder_cases) (auto simp: le_value_append)
qed

lemma le_value_inj: "length xs = length ys \<Longrightarrow> le_value xs = le_value ys \<longleftrightarrow> xs = ys"
proof (induction xs ys rule: rev_induct2)
  case (4 x xs y ys)
  then show ?case
    using le_value_snoc_less [of xs ys x y] le_value_snoc_less [of ys xs y x]
    by (cases x y rule: linorder_cases) (auto simp: le_value_append)
qed auto

text \<open>What a comparison of \<open>n\<close> bytes answers: its sign orders the two numbers, and it is
  zero only for equal bytes.\<close>

definition orders :: "int \<Rightarrow> nat \<Rightarrow> nat \<Rightarrow> bool" where
  "orders r x y \<longleftrightarrow> (r < 0 \<longleftrightarrow> x < y) \<and> (0 < r \<longleftrightarrow> y < x)"

lemma orders_zero: "orders r x y \<Longrightarrow> r = 0 \<longleftrightarrow> x = y"
  by (auto simp: orders_def)

lemma rmemcmp_loop_orders:
  "n \<le> length p1 \<Longrightarrow> n \<le> length p2 \<Longrightarrow>
   \<exists>r. rmemcmp_loop p1 p2 n = Some r \<and> orders r (le_value (take n p1)) (le_value (take n p2))"
proof (induction n)
  case (Suc n)
  then obtain r where r: "rmemcmp_loop p1 p2 n = Some r"
      "orders r (le_value (take n p1)) (le_value (take n p2))"
    by auto
  have "orders (if p1 ! n \<noteq> p2 ! n then byte_diff (p1 ! n) (p2 ! n) else r)
          (le_value (take (Suc n) p1)) (le_value (take (Suc n) p2))"
    using Suc.prems r(2)
    by (auto simp: take_Suc_conv_app_nth le_value_snoc_less orders_def)
  with Suc.prems r(1) show ?case by auto
qed (simp add: orders_def)

lemma cl_rmemcmp_little_endian:
  assumes "0 < sz" "unat sz \<le> length p1" "unat sz \<le> length p2"
  shows "\<exists>r. cl_rmemcmp (Some p1) (Some p2) sz = Some r \<and>
           orders r (le_value (take (unat sz) p1)) (le_value (take (unat sz) p2))"
proof -
  have "Suc (unat (sz - 1)) = unat sz"
    using assms(1) by (simp add: unat_sub_small word_le_nat_alt word_less_nat_alt)
  with rmemcmp_loop_orders [OF assms(2,3)] show ?thesis
    by (simp add: cl_rmemcmp_def)
qed

lemma rmemcmp_loop_fault: "length p1 < n \<Longrightarrow> rmemcmp_loop p1 p2 n = None"
  by (cases n) simp_all

text \<open>With a size of zero the first index is \<open>0 - 1\<close>, which is 4294967295.\<close>

lemma cl_rmemcmp_zero_faults:
  "length p1 < 2 ^ 32 \<Longrightarrow> cl_rmemcmp (Some p1) (Some p2) 0 = None"
proof -
  assume l: "length p1 < 2 ^ 32"
  have "unat (0 - 1 :: u32) = 2 ^ 32 - 1"
    by (simp add: unsigned_minus_1_eq_mask mask_eq_exp_minus_1)
  with l have "length p1 < Suc (unat (0 - 1 :: u32))" by linarith
  then have "rmemcmp_loop p1 p2 (Suc (unat (0 - 1 :: u32))) = None" by (rule rmemcmp_loop_fault)
  then show "cl_rmemcmp (Some p1) (Some p2) 0 = None"
    by (simp only: cl_rmemcmp_def option.case prod.case)
qed

lemma memcmp_loop_orders:
  "i + n \<le> length p1 \<Longrightarrow> i + n \<le> length p2 \<Longrightarrow>
   \<exists>r. memcmp_loop p1 p2 i n = Some r \<and>
       orders r (be_value (take n (drop i p1))) (be_value (take n (drop i p2)))"
proof (induction n arbitrary: i)
  case (Suc n)
  then obtain r where r: "memcmp_loop p1 p2 (Suc i) n = Some r"
      "orders r (be_value (take n (drop (Suc i) p1))) (be_value (take n (drop (Suc i) p2)))"
    by (metis add_Suc_shift)
  have t: "take (Suc n) (drop i p) = p ! i # take n (drop (Suc i) p)" if "i < length p" for p :: "u8 list"
    using that by (simp add: Cons_nth_drop_Suc [symmetric])
  have "orders (if p1 ! i \<noteq> p2 ! i then byte_diff (p1 ! i) (p2 ! i) else r)
          (be_value (take (Suc n) (drop i p1))) (be_value (take (Suc n) (drop i p2)))"
    using Suc.prems r(2)
    by (auto simp: t be_value_def le_value_snoc_less orders_def)
  with Suc.prems r(1) show ?case by auto
qed (simp add: orders_def be_value_def)

lemma cl_memcmp_big_endian:
  assumes "unat sz \<le> length p1" "unat sz \<le> length p2"
  shows "\<exists>r. cl_memcmp (Some p1) (Some p2) sz = Some r \<and>
           orders r (be_value (take (unat sz) p1)) (be_value (take (unat sz) p2))"
  using memcmp_loop_orders [of 0 "unat sz" p1 p2] assms by (simp add: cl_memcmp_def)

lemma memcmp_loop_0_iff:
  "i + n \<le> length p1 \<Longrightarrow> i + n \<le> length p2 \<Longrightarrow>
   memcmp_loop p1 p2 i n = Some 0 \<longleftrightarrow> take n (drop i p1) = take n (drop i p2)"
  by (induction n arbitrary: i) (auto simp: Cons_nth_drop_Suc [symmetric])

section \<open>Scanning\<close>

lemma memscan_loop_run:
  "i + n \<le> length p \<Longrightarrow>
   memscan_loop p v i n = Some (i + length (takeWhile (\<lambda>b. b = v) (take n (drop i p))))"
  by (induction n arbitrary: i) (auto simp: Cons_nth_drop_Suc [symmetric])

text \<open>The scan answers the length of the leading run of \<open>v\<close>, as an int.\<close>

lemma cl_memscan_run:
  assumes "unat sz \<le> length p" "sz < 0x80000000"
  shows "cl_memscan (Some p) sz v
         = Some (int (length (takeWhile (\<lambda>b. b = v) (take (unat sz) p))))"
proof -
  let ?n = "length (takeWhile (\<lambda>b. b = v) (take (unat sz) p))"
  have "?n \<le> unat sz" by (metis length_take length_takeWhile_le min.bounded_iff)
  then have "?n < 2 ^ 31" using assms(2) by (simp add: word_less_nat_alt)
  then have "sint (of_nat ?n :: u32) = int ?n"
    by (simp add: signed_of_nat signed_take_bit_int_eq_self)
  with memscan_loop_run [of 0 "unat sz" p v] assms(1) show ?thesis
    by (simp add: cl_memscan_def)
qed

section \<open>Properties\<close>

text \<open>For every count (whatever its residue modulo eight) \<open>cl_memcpy\<close> returns and copies
  exactly \<open>Count\<close> bytes, provided both ranges are in memory and the destination does not start
  inside the source.\<close>

theorem memcpy_exact:
  assumes "s + unat Count \<le> length mem" "d + unat Count \<le> length mem"
    and "d \<le> s \<or> s + unat Count \<le> d"
  shows "cl_memcpy mem (Some d) (Some s) Count = Some (blit mem d s (unat Count))"
  using assms by (rule cl_memcpy_copies)

lemma memcpy_exact_witness:
  "cl_memcpy (map of_nat [0..<30]) (Some 15) (Some 1) 13
   = Some (blit (map of_nat [0..<30]) 15 1 (unat (13 :: u64)))"
  by (rule memcpy_exact) simp_all

text \<open>\<open>cl_rmemcmp\<close>, which the hash table uses to order keys, compares two buffers as
  little-endian integers: its sign is the order of the two numbers, and it is zero exactly on
  equal numbers.\<close>

theorem rmemcmp_orders_numbers:
  assumes "0 < sz" "unat sz \<le> length p1" "unat sz \<le> length p2"
  shows "\<exists>r. cl_rmemcmp (Some p1) (Some p2) sz = Some r \<and>
           orders r (le_value (take (unat sz) p1)) (le_value (take (unat sz) p2))"
  using assms by (rule cl_rmemcmp_little_endian)

lemma rmemcmp_orders_numbers_witness:
  "\<exists>r. cl_rmemcmp (Some [9, 1, 0]) (Some [3, 2, 0]) 3 = Some r \<and>
     orders r (le_value (take (unat (3 :: u32)) [9, 1, 0])) (le_value (take (unat (3 :: u32)) [3, 2, 0]))"
  by (rule rmemcmp_orders_numbers) simp_all

end
