(* ===== verification/HAL_Interfaces.thy ===== *)
theory HAL_Interfaces
  imports HAL_Prelude
begin

text \<open>
  The contracts between the components, as locales: what the operations of a provider
  promise (the assumptions) and what every client may conclude from that (the lemmas, each
  proved once). The theories of the components interpret them on the model of the code.

    \<^item> \<open>range_allocator\<close>: reserve and release runs of units (the bitmap, the physical
      memory manager); live reservations never overlap.
    \<^item> \<open>fifo\<close>: a queue (the linked list as the kernel's ready and waiting lists use it);
      elements leave in the order in which they came.
    \<^item> \<open>lock\<close>: acquire, try, release and ownership of a lock (spin lock and monitor
      lock, which \<open>LockSystemInit\<close> chooses between); a critical section returns the lock.
    \<^item> \<open>map_store\<close>: a table of key-value pairs (the hash table); it behaves as the
      finite map that its history of updates defines.
    \<^item> \<open>stack_store\<close>: the function table \<open>STACK_INTERFACE\<close> of \<open>stack_interface.h\<close>.
\<close>

section \<open>Range allocators\<close>

datatype 'w request = Acquire 'w | Release 'w 'w

text \<open>A client that keeps the list of what it holds and releases only from that list. An
  acquire that finds no room answers \<open>None\<close> as the base.\<close>

fun serve ::
  "('s \<Rightarrow> 'w \<Rightarrow> ('s \<times> 'w option) option) \<Rightarrow> ('s \<Rightarrow> 'w \<Rightarrow> 'w \<Rightarrow> 's option) \<Rightarrow>
   'w request list \<Rightarrow> 's \<Rightarrow> ('w \<times> 'w) list \<Rightarrow> ('s \<times> ('w \<times> 'w) list) option" where
  "serve acq rel [] s live = Some (s, live)"
| "serve acq rel (Acquire n # rs) s live = do {
     r \<leftarrow> acq s n;
     serve acq rel rs (fst r) (case snd r of None \<Rightarrow> live | Some b \<Rightarrow> (b, n) # live)
   }"
| "serve acq rel (Release b n # rs) s live =
     (if (b, n) \<in> set live then do {
        s' \<leftarrow> rel s b n;
        serve acq rel rs s' (remove1 (b, n) live)
      }
      else serve acq rel rs s live)"

locale range_allocator =
  fixes inv :: "'s \<Rightarrow> bool"
    and used :: "'s \<Rightarrow> nat set"
    and num :: "'w \<Rightarrow> nat"
    and acq :: "'s \<Rightarrow> 'w \<Rightarrow> ('s \<times> 'w option) option"
    and rel :: "'s \<Rightarrow> 'w \<Rightarrow> 'w \<Rightarrow> 's option"
  assumes acq_total: "inv s \<Longrightarrow> \<exists>s' r. acq s n = Some (s', r)"
    and acq_inv: "inv s \<Longrightarrow> acq s n = Some (s', r) \<Longrightarrow> inv s'"
    and acq_none: "inv s \<Longrightarrow> acq s n = Some (s', None) \<Longrightarrow> used s' = used s"
    and acq_some: "inv s \<Longrightarrow> acq s n = Some (s', Some b) \<Longrightarrow>
          0 < num n \<and> used s' = used s \<union> {num b ..< num b + num n} \<and>
          used s \<inter> {num b ..< num b + num n} = {}"
    and rel_some: "inv s \<Longrightarrow> 0 < num n \<Longrightarrow> {num b ..< num b + num n} \<subseteq> used s \<Longrightarrow>
          \<exists>s'. rel s b n = Some s' \<and> inv s' \<and> used s' = used s - {num b ..< num b + num n}"
begin

definition range_of :: "'w \<times> 'w \<Rightarrow> nat set" where
  "range_of p = {num (fst p) ..< num (fst p) + num (snd p)}"

definition live_ok :: "'s \<Rightarrow> ('w \<times> 'w) list \<Rightarrow> bool" where
  "live_ok s live \<longleftrightarrow> (\<forall>p \<in> set live. 0 < num (snd p) \<and> range_of p \<subseteq> used s) \<and>
     sorted_wrt (\<lambda>p q. range_of p \<inter> range_of q = {}) live"

lemma live_ok_Nil: "live_ok s []"
  by (simp add: live_ok_def)

lemma live_ok_Cons:
  "live_ok s (p # live) \<longleftrightarrow> 0 < num (snd p) \<and> range_of p \<subseteq> used s \<and>
     (\<forall>q \<in> set live. range_of p \<inter> range_of q = {}) \<and> live_ok s live"
  by (auto simp: live_ok_def)

lemma live_ok_mono: "live_ok s live \<Longrightarrow> used s \<subseteq> used s' \<Longrightarrow> live_ok s' live"
  by (auto simp: live_ok_def)

lemma live_ok_apart:
  assumes "live_ok s live" "\<forall>q \<in> set live. range_of p \<inter> range_of q = {}"
    and "used s' = used s - range_of p"
  shows "live_ok s' live"
  using assms by (induction live) (auto simp: live_ok_Nil live_ok_Cons)

lemma live_ok_remove:
  assumes "live_ok s live" "p \<in> set live" "used s' = used s - range_of p"
  shows "live_ok s' (remove1 p live)"
  using assms
proof (induction live)
  case (Cons q live)
  show ?case
  proof (cases "p = q")
    case True
    then show ?thesis using Cons.prems live_ok_apart [of s live p s'] by (simp add: live_ok_Cons)
  next
    case False
    then have p: "p \<in> set live" using Cons.prems(2) by simp
    then have d: "range_of q \<inter> range_of p = {}" and q: "range_of q \<subseteq> used s" "0 < num (snd q)"
      and l: "live_ok s live"
      using Cons.prems(1) by (simp_all add: live_ok_Cons)
    have "range_of q \<subseteq> used s'" using d q(1) Cons.prems(3) by blast
    moreover have "live_ok s' (remove1 p live)" using Cons.IH l p Cons.prems(3) by simp
    moreover have "\<forall>r \<in> set (remove1 p live). range_of q \<inter> range_of r = {}"
      using Cons.prems(1) set_remove1_subset [of p live] by (auto simp: live_ok_Cons)
    ultimately show ?thesis using False q(2) by (simp add: live_ok_Cons)
  qed
qed simp

text \<open>Whatever a client asks for, no operation faults and what it holds stays pairwise
  disjoint and inside what the allocator has marked.\<close>

lemma serve_safe:
  assumes "inv s" "live_ok s live"
  shows "\<exists>s' live'. serve acq rel rs s live = Some (s', live') \<and> inv s' \<and> live_ok s' live'"
  using assms
proof (induction rs arbitrary: s live)
  case (Cons r rs)
  show ?case
  proof (cases r)
    case (Acquire n)
    obtain s1 a where a: "acq s n = Some (s1, a)" using acq_total [OF Cons.prems(1)] by blast
    have "live_ok s1 (case a of None \<Rightarrow> live | Some b \<Rightarrow> (b, n) # live)"
    proof (cases a)
      case None
      then have "used s1 = used s" using a acq_none Cons.prems(1) by blast
      then show ?thesis using None Cons.prems(2) live_ok_mono [of s live s1] by simp
    next
      case (Some b)
      have u: "0 < num n" "used s1 = used s \<union> range_of (b, n)" "used s \<inter> range_of (b, n) = {}"
        using acq_some [OF Cons.prems(1) a [unfolded Some]] by (simp_all add: range_of_def)
      have "live_ok s1 live" using Cons.prems(2) u(2) live_ok_mono [of s live s1] by simp
      moreover have "range_of q \<subseteq> used s" if "q \<in> set live" for q
        using that Cons.prems(2) by (auto simp: live_ok_def)
      then have "\<forall>q \<in> set live. range_of (b, n) \<inter> range_of q = {}" using u(3) by blast
      ultimately show ?thesis using Some u by (simp add: live_ok_Cons)
    qed
    moreover have "inv s1" using a acq_inv Cons.prems(1) by blast
    ultimately show ?thesis using Cons.IH a Acquire by simp
  next
    case (Release b n)
    show ?thesis
    proof (cases "(b, n) \<in> set live")
      case True
      then have "0 < num n" "{num b ..< num b + num n} \<subseteq> used s"
        using Cons.prems(2) unfolding live_ok_def by (fastforce simp: range_of_def)+
      then obtain s1 where s1: "rel s b n = Some s1" "inv s1"
        "used s1 = used s - {num b ..< num b + num n}"
        using rel_some Cons.prems(1) by blast
      have "live_ok s1 (remove1 (b, n) live)"
        using True Cons.prems(2) s1(3) by (intro live_ok_remove) (simp_all add: range_of_def)
      with Cons.IH s1 True Release show ?thesis by simp
    next
      case False
      with Cons.IH [OF Cons.prems] Release show ?thesis by simp
    qed
  qed
qed simp

lemma serve_disjoint:
  assumes "inv s" "serve acq rel rs s [] = Some (s', live)" "i < j" "j < length live"
  shows "range_of (live ! i) \<inter> range_of (live ! j) = {}"
  using serve_safe [OF assms(1) live_ok_Nil, of rs] assms(2-4)
  by (auto simp: live_ok_def sorted_wrt_iff_nth_less)

end

section \<open>Queues\<close>

datatype 'a fifo_op = Enq 'a | Deq

text \<open>A run of the queue operations, with the elements taken out, in order.\<close>

fun fifo_run ::
  "('s \<Rightarrow> 'a \<Rightarrow> 's option) \<Rightarrow> ('s \<Rightarrow> ('s \<times> 'a) option) \<Rightarrow> 'a fifo_op list \<Rightarrow> 's \<Rightarrow> ('s \<times> 'a list) option" where
  "fifo_run enq deq [] s = Some (s, [])"
| "fifo_run enq deq (Enq a # ops) s = do { s' \<leftarrow> enq s a; fifo_run enq deq ops s' }"
| "fifo_run enq deq (Deq # ops) s = do {
     r \<leftarrow> deq s;
     t \<leftarrow> fifo_run enq deq ops (fst r);
     Some (fst t, snd r # snd t)
   }"

fun enqueued :: "'a fifo_op list \<Rightarrow> 'a list" where
  "enqueued [] = []"
| "enqueued (Enq a # ops) = a # enqueued ops"
| "enqueued (Deq # ops) = enqueued ops"

text \<open>A schedule that takes nothing out of an empty queue and puts nothing in twice.\<close>

fun fifo_legal :: "'a fifo_op list \<Rightarrow> 'a list \<Rightarrow> bool" where
  "fifo_legal [] xs = True"
| "fifo_legal (Enq a # ops) xs = (a \<notin> set xs \<and> fifo_legal ops (xs @ [a]))"
| "fifo_legal (Deq # ops) xs = (xs \<noteq> [] \<and> fifo_legal ops (tl xs))"

locale fifo =
  fixes holds :: "'s \<Rightarrow> 'a list \<Rightarrow> bool"
    and room :: "'s \<Rightarrow> 'a \<Rightarrow> bool"
    and enq :: "'s \<Rightarrow> 'a \<Rightarrow> 's option"
    and deq :: "'s \<Rightarrow> ('s \<times> 'a) option"
  assumes enq: "holds s xs \<Longrightarrow> a \<notin> set xs \<Longrightarrow> room s a \<Longrightarrow>
        \<exists>s'. enq s a = Some s' \<and> holds s' (xs @ [a]) \<and> (\<forall>b. room s b \<longrightarrow> room s' b)"
    and deq: "holds s (x # xs) \<Longrightarrow>
        \<exists>s'. deq s = Some (s', x) \<and> holds s' xs \<and> (\<forall>b. room s b \<longrightarrow> room s' b)"
begin

lemma run:
  assumes "holds s xs" "fifo_legal ops xs" "\<forall>a \<in> set (enqueued ops). room s a"
  shows "\<exists>s' out ys. fifo_run enq deq ops s = Some (s', out) \<and> holds s' ys \<and>
           xs @ enqueued ops = out @ ys"
  using assms
proof (induction ops arbitrary: s xs)
  case (Cons p ops)
  show ?case
  proof (cases p)
    case (Enq a)
    with Cons.prems obtain s1 where s1: "enq s a = Some s1" "holds s1 (xs @ [a])"
      "\<forall>b. room s b \<longrightarrow> room s1 b" using enq [of s xs a] by auto
    with Cons.IH [of s1 "xs @ [a]"] Cons.prems Enq show ?thesis by auto
  next
    case Deq
    with Cons.prems obtain x ys where xs: "xs = x # ys" "fifo_legal ops ys"
      by (cases xs) auto
    then obtain s1 where s1: "deq s = Some (s1, x)" "holds s1 ys" "\<forall>b. room s b \<longrightarrow> room s1 b"
      using deq Cons.prems(1) by blast
    with Cons.IH [of s1 ys] Cons.prems(3) Deq xs show ?thesis by auto
  qed
qed auto

text \<open>First in, first out.\<close>

lemma run_order:
  assumes "holds s []" "fifo_legal ops []" "\<forall>a \<in> set (enqueued ops). room s a"
  shows "\<exists>s' out ys. fifo_run enq deq ops s = Some (s', out) \<and> enqueued ops = out @ ys"
  using run [OF assms] by auto

end

section \<open>Locks\<close>

text \<open>Seen from one processor \<open>c\<close>: the state holds the lock and the processor's own
  interrupt flag. A faulting or endless acquire has no result.\<close>

locale lock =
  fixes lk_owner :: "'l \<Rightarrow> 'c option"
    and lk_ok :: "'l \<Rightarrow> bool"
    and acquire :: "'c \<Rightarrow> 'l \<Rightarrow> bool \<Rightarrow> ('l \<times> bool \<times> bool) option"
    and try_acquire :: "'c \<Rightarrow> 'l \<Rightarrow> bool \<Rightarrow> ('l \<times> bool \<times> bool \<times> bool) option"
    and release :: "'c \<Rightarrow> 'l \<Rightarrow> bool \<Rightarrow> bool \<Rightarrow> ('l \<times> bool) option"
    and cpu_ok :: "'c \<Rightarrow> bool"
  assumes acquire_free: "lk_ok l \<Longrightarrow> cpu_ok c \<Longrightarrow> lk_owner l = None \<Longrightarrow>
        \<exists>l'. acquire c l intr = Some (l', False, intr) \<and> lk_ok l' \<and> lk_owner l' = Some c"
    and acquire_taken: "lk_ok l \<Longrightarrow> cpu_ok c \<Longrightarrow> lk_owner l = Some d \<Longrightarrow> acquire c l intr = None"
    and try_free: "lk_ok l \<Longrightarrow> cpu_ok c \<Longrightarrow> lk_owner l = None \<Longrightarrow>
        \<exists>l'. try_acquire c l intr = Some (l', False, intr, True) \<and> lk_ok l' \<and> lk_owner l' = Some c"
    and try_taken: "lk_ok l \<Longrightarrow> cpu_ok c \<Longrightarrow> lk_owner l = Some d \<Longrightarrow>
        try_acquire c l intr = Some (l, intr, intr, False)"
    and release_own: "lk_ok l \<Longrightarrow> cpu_ok c \<Longrightarrow> lk_owner l = Some c \<Longrightarrow>
        \<exists>l'. release c l False old = Some (l', old) \<and> lk_ok l' \<and> lk_owner l' = None"
    and release_other: "lk_ok l \<Longrightarrow> cpu_ok c \<Longrightarrow> lk_owner l \<noteq> Some c \<Longrightarrow>
        release c l intr old = None"
begin

text \<open>A critical section: acquire, work, release. It runs the work exactly once, and leaves
  the lock free and the interrupt flag as it was.\<close>

lemma critical_section:
  assumes "lk_ok l" "cpu_ok c" "lk_owner l = None" "work s = Some (s', r)"
  shows "\<exists>l'. do {
           a \<leftarrow> acquire c l intr;
           w \<leftarrow> work s;
           u \<leftarrow> release c (fst a) (fst (snd a)) (snd (snd a));
           Some (u, w)
         } = Some ((l', intr), (s', r)) \<and> lk_ok l' \<and> lk_owner l' = None"
proof -
  obtain l1 where l1: "acquire c l intr = Some (l1, False, intr)" "lk_ok l1" "lk_owner l1 = Some c"
    using acquire_free assms(1-3) by blast
  obtain l2 where l2: "release c l1 False intr = Some (l2, intr)" "lk_ok l2" "lk_owner l2 = None"
    using release_own l1(2,3) assms(2) by blast
  show ?thesis using l1 l2 assms(4) by simp
qed

text \<open>Ownership is exclusive: while one processor owns the lock, another one neither
  acquires nor releases it.\<close>

lemma exclusive:
  assumes "lk_ok l" "cpu_ok c" "cpu_ok d" "lk_owner l = Some d" "c \<noteq> d"
  shows "acquire c l intr = None" "try_acquire c l intr = Some (l, intr, intr, False)"
    "release c l intr old = None"
  using assms acquire_taken try_taken release_other by auto

end

section \<open>Maps\<close>

datatype ('v, 'p) map_op = Ins 'v | Del 'p

fun map_run ::
  "('s \<Rightarrow> 'v \<Rightarrow> ('s \<times> 'v option) option) \<Rightarrow> ('s \<Rightarrow> 'p \<Rightarrow> ('s \<times> 'v option) option) \<Rightarrow>
   ('v, 'p) map_op list \<Rightarrow> 's \<Rightarrow> 's option" where
  "map_run ins del [] s = Some s"
| "map_run ins del (Ins v # ops) s = do { r \<leftarrow> ins s v; map_run ins del ops (fst r) }"
| "map_run ins del (Del p # ops) s = do { r \<leftarrow> del s p; map_run ins del ops (fst r) }"

text \<open>The map that a run of updates and deletions defines; \<open>None\<close> when the client puts an
  element in that is already there, or uses an unreadable key.\<close>

fun map_model ::
  "('v \<Rightarrow> 'k) \<Rightarrow> ('p \<Rightarrow> 'k option) \<Rightarrow> ('v, 'p) map_op list \<Rightarrow> ('k \<Rightarrow> 'v option) \<Rightarrow> ('k \<Rightarrow> 'v option) option" where
  "map_model key ptr [] f = Some f"
| "map_model key ptr (Ins v # ops) f =
     (if v \<in> ran f then None else map_model key ptr ops (f(key v \<mapsto> v)))"
| "map_model key ptr (Del p # ops) f =
     (case ptr p of None \<Rightarrow> None | Some k \<Rightarrow> map_model key ptr ops (f(k := None)))"

fun inserted :: "('v, 'p) map_op list \<Rightarrow> 'v list" where
  "inserted [] = []"
| "inserted (Ins v # ops) = v # inserted ops"
| "inserted (Del p # ops) = inserted ops"

locale map_store =
  fixes repr :: "'s \<Rightarrow> ('k \<Rightarrow> 'v option) \<Rightarrow> bool"
    and slot :: "'s \<Rightarrow> 'v \<Rightarrow> bool"
    and key :: "'v \<Rightarrow> 'k"
    and ptr :: "'p \<Rightarrow> 'k option"
    and ins :: "'s \<Rightarrow> 'v \<Rightarrow> ('s \<times> 'v option) option"
    and look :: "'s \<Rightarrow> 'p \<Rightarrow> 'v option option"
    and del :: "'s \<Rightarrow> 'p \<Rightarrow> ('s \<times> 'v option) option"
  assumes ins: "repr s f \<Longrightarrow> slot s v \<Longrightarrow> v \<notin> ran f \<Longrightarrow>
        \<exists>s'. ins s v = Some (s', f (key v)) \<and> repr s' (f(key v \<mapsto> v)) \<and> (\<forall>w. slot s w \<longrightarrow> slot s' w)"
    and look: "repr s f \<Longrightarrow> ptr p = Some k \<Longrightarrow> look s p = Some (f k)"
    and del: "repr s f \<Longrightarrow> ptr p = Some k \<Longrightarrow>
        \<exists>s'. del s p = Some (s', f k) \<and> repr s' (f(k := None)) \<and> (\<forall>w. slot s w \<longrightarrow> slot s' w)"
begin

lemma run:
  assumes "repr s f" "map_model key ptr ops f = Some g" "\<forall>v \<in> set (inserted ops). slot s v"
  shows "\<exists>s'. map_run ins del ops s = Some s' \<and> repr s' g"
  using assms
proof (induction ops arbitrary: s f)
  case (Cons p ops)
  show ?case
  proof (cases p)
    case (Ins v)
    with Cons.prems obtain s1 where s1: "ins s v = Some (s1, f (key v))" "repr s1 (f(key v \<mapsto> v))"
      "\<forall>w. slot s w \<longrightarrow> slot s1 w"
      using ins [of s f v] by (auto split: if_splits)
    have "map_model key ptr ops (f(key v \<mapsto> v)) = Some g"
      using Cons.prems(2) Ins by (simp split: if_splits)
    moreover have "\<forall>w \<in> set (inserted ops). slot s1 w" using Cons.prems(3) Ins s1(3) by simp
    ultimately have "\<exists>s'. map_run ins del ops s1 = Some s' \<and> repr s' g"
      by (intro Cons.IH [OF s1(2)]) blast+
    then show ?thesis using Ins s1(1) by simp
  next
    case (Del q)
    then obtain k where k: "ptr q = Some k" "map_model key ptr ops (f(k := None)) = Some g"
      using Cons.prems(2) by (auto split: option.splits)
    with del Cons.prems(1) obtain s1 where s1: "del s q = Some (s1, f k)" "repr s1 (f(k := None))"
      "\<forall>w. slot s w \<longrightarrow> slot s1 w" by blast
    have "\<forall>w \<in> set (inserted ops). slot s1 w" using Cons.prems(3) Del s1(3) by simp
    then have "\<exists>s'. map_run ins del ops s1 = Some s' \<and> repr s' g"
      using k(2) by (intro Cons.IH [OF s1(2)]) blast+
    then show ?thesis using Del s1(1) by simp
  qed
qed simp

text \<open>What a lookup answers after any run is what the history says.\<close>

lemma run_look:
  assumes "repr s f" "map_model key ptr ops f = Some g" "\<forall>v \<in> set (inserted ops). slot s v"
    and "ptr p = Some k"
  shows "\<exists>s'. map_run ins del ops s = Some s' \<and> look s' p = Some (g k)"
  using run [OF assms(1-3)] look [OF _ assms(4)] by blast

end

section \<open>Stacks\<close>

datatype 'a stack_op = PushOp 'a | PopOp

fun stack_run ::
  "('s \<Rightarrow> 'a \<Rightarrow> 's option) \<Rightarrow> ('s \<Rightarrow> ('s \<times> 'a option) option) \<Rightarrow> 'a stack_op list \<Rightarrow> 's \<Rightarrow> ('s \<times> 'a option list) option" where
  "stack_run push pop [] s = Some (s, [])"
| "stack_run push pop (PushOp a # ops) s = do { s' \<leftarrow> push s a; stack_run push pop ops s' }"
| "stack_run push pop (PopOp # ops) s = do {
     r \<leftarrow> pop s;
     t \<leftarrow> stack_run push pop ops (fst r);
     Some (fst t, snd r # snd t)
   }"

text \<open>The list that a schedule makes of a list, and what it takes out.\<close>

fun lifo :: "'a stack_op list \<Rightarrow> 'a list \<Rightarrow> 'a list \<times> 'a option list" where
  "lifo [] xs = (xs, [])"
| "lifo (PushOp a # ops) xs = lifo ops (a # xs)"
| "lifo (PopOp # ops) [] = map_prod id (Cons None) (lifo ops [])"
| "lifo (PopOp # ops) (x # xs) = map_prod id (Cons (Some x)) (lifo ops xs)"

text \<open>A schedule that puts nothing in twice and never more than \<open>cap\<close> elements.\<close>

fun lifo_legal :: "nat \<Rightarrow> 'a stack_op list \<Rightarrow> 'a list \<Rightarrow> bool" where
  "lifo_legal cap [] xs = True"
| "lifo_legal cap (PushOp a # ops) xs = (a \<notin> set xs \<and> length xs < cap \<and> lifo_legal cap ops (a # xs))"
| "lifo_legal cap (PopOp # ops) xs = lifo_legal cap ops (tl xs)"

fun pushed :: "'a stack_op list \<Rightarrow> 'a list" where
  "pushed [] = []"
| "pushed (PushOp a # ops) = a # pushed ops"
| "pushed (PopOp # ops) = pushed ops"

locale stack_store =
  fixes holds :: "'s \<Rightarrow> 'a list \<Rightarrow> bool"
    and room :: "'s \<Rightarrow> 'a \<Rightarrow> bool"
    and cap :: nat
    and push :: "'s \<Rightarrow> 'a \<Rightarrow> 's option"
    and pop :: "'s \<Rightarrow> ('s \<times> 'a option) option"
  assumes push: "holds s xs \<Longrightarrow> a \<notin> set xs \<Longrightarrow> room s a \<Longrightarrow> length xs < cap \<Longrightarrow>
        \<exists>s'. push s a = Some s' \<and> holds s' (a # xs) \<and> (\<forall>b. room s b \<longrightarrow> room s' b)"
    and pop_empty: "holds s [] \<Longrightarrow> \<exists>s'. pop s = Some (s', None) \<and> holds s' [] \<and> (\<forall>b. room s b \<longrightarrow> room s' b)"
    and pop: "holds s (x # xs) \<Longrightarrow> \<exists>s'. pop s = Some (s', Some x) \<and> holds s' xs \<and> (\<forall>b. room s b \<longrightarrow> room s' b)"
begin

lemma run:
  assumes "holds s xs" "lifo_legal cap ops xs" "\<forall>a \<in> set (pushed ops). room s a"
  shows "\<exists>s'. stack_run push pop ops s = Some (s', snd (lifo ops xs)) \<and> holds s' (fst (lifo ops xs))"
  using assms
proof (induction ops arbitrary: s xs)
  case (Cons p ops)
  show ?case
  proof (cases p)
    case (PushOp a)
    with Cons.prems obtain s1 where s1: "push s a = Some s1" "holds s1 (a # xs)" "\<forall>b. room s b \<longrightarrow> room s1 b"
      using push [of s xs a] by auto
    with Cons.IH [of s1 "a # xs"] Cons.prems PushOp show ?thesis by auto
  next
    case PopOp
    have "\<exists>s1. pop s = Some (s1, case xs of [] \<Rightarrow> None | x # ys \<Rightarrow> Some x) \<and> holds s1 (tl xs) \<and> (\<forall>b. room s b \<longrightarrow> room s1 b)"
      using pop_empty [of s] pop [of s "hd xs" "tl xs"] Cons.prems(1) by (cases xs) simp_all
    then obtain s1 where s1: "pop s = Some (s1, case xs of [] \<Rightarrow> None | x # ys \<Rightarrow> Some x)" "holds s1 (tl xs)"
      "\<forall>b. room s b \<longrightarrow> room s1 b" by blast
    then obtain s2 where "stack_run push pop ops s1 = Some (s2, snd (lifo ops (tl xs)))" "holds s2 (fst (lifo ops (tl xs)))"
      using Cons.IH [of s1 "tl xs"] Cons.prems PopOp by auto
    then show ?thesis using s1(1) PopOp by (cases xs) auto
  qed
qed auto

end

section \<open>Address maps\<close>

text \<open>A partial map that is changed range by range: what \<open>img r\<close> maps is added, or taken away. Adding a
  range may use up to \<open>cost r\<close> of the room that is left.\<close>

datatype 'r range_op = MapOp 'r | UnmapOp 'r

fun range_run :: "('s \<Rightarrow> 'r \<Rightarrow> 's option) \<Rightarrow> ('s \<Rightarrow> 'r \<Rightarrow> 's option) \<Rightarrow> 'r range_op list \<Rightarrow> 's \<Rightarrow> 's option" where
  "range_run add del [] s = Some s"
| "range_run add del (MapOp r # ops) s = Option.bind (add s r) (range_run add del ops)"
| "range_run add del (UnmapOp r # ops) s = Option.bind (del s r) (range_run add del ops)"

fun range_after :: "('r \<Rightarrow> 'v \<rightharpoonup> 't) \<Rightarrow> 'r range_op list \<Rightarrow> ('v \<rightharpoonup> 't) \<Rightarrow> ('v \<rightharpoonup> 't)" where
  "range_after img [] m = m"
| "range_after img (MapOp r # ops) m = range_after img ops (m ++ img r)"
| "range_after img (UnmapOp r # ops) m = range_after img ops (m |` (- dom (img r)))"

fun op_range :: "'r range_op \<Rightarrow> 'r" where
  "op_range (MapOp r) = r"
| "op_range (UnmapOp r) = r"

fun range_cost :: "('r \<Rightarrow> nat) \<Rightarrow> 'r range_op list \<Rightarrow> nat" where
  "range_cost cost [] = 0"
| "range_cost cost (MapOp r # ops) = cost r + range_cost cost ops"
| "range_cost cost (UnmapOp r # ops) = range_cost cost ops"

locale address_map =
  fixes ok :: "'s \<Rightarrow> bool"
    and view :: "'s \<Rightarrow> 'v \<rightharpoonup> 't"
    and room :: "'s \<Rightarrow> nat"
    and cost :: "'r \<Rightarrow> nat"
    and good :: "'r \<Rightarrow> bool"
    and img :: "'r \<Rightarrow> 'v \<rightharpoonup> 't"
    and add :: "'s \<Rightarrow> 'r \<Rightarrow> 's option"
    and del :: "'s \<Rightarrow> 'r \<Rightarrow> 's option"
  assumes add: "ok s \<Longrightarrow> good r \<Longrightarrow> cost r \<le> room s \<Longrightarrow>
        \<exists>s'. add s r = Some s' \<and> ok s' \<and> view s' = view s ++ img r \<and> room s \<le> room s' + cost r"
    and del: "ok s \<Longrightarrow> good r \<Longrightarrow>
        \<exists>s'. del s r = Some s' \<and> ok s' \<and> view s' = view s |` (- dom (img r)) \<and> room s \<le> room s'"
begin

text \<open>Any sequence of operations on good ranges does to the view what it does to a partial map.\<close>

lemma run:
  assumes "ok s" "\<forall>p \<in> set ops. good (op_range p)" "range_cost cost ops \<le> room s"
  shows "\<exists>s'. range_run add del ops s = Some s' \<and> ok s' \<and> view s' = range_after img ops (view s)"
  using assms
proof (induction ops arbitrary: s)
  case (Cons p ops)
  show ?case
  proof (cases p)
    case (MapOp r)
    then obtain s1 where s1: "add s r = Some s1" "ok s1" "view s1 = view s ++ img r" "room s \<le> room s1 + cost r"
      using add [of s r] Cons.prems by auto
    moreover have "range_cost cost ops \<le> room s1" using s1(4) Cons.prems(3) MapOp by simp
    ultimately show ?thesis using Cons.IH [of s1] Cons.prems(2) MapOp by simp
  next
    case (UnmapOp r)
    then obtain s1 where s1: "del s r = Some s1" "ok s1" "view s1 = view s |` (- dom (img r))" "room s \<le> room s1"
      using del [of s r] Cons.prems by auto
    moreover have "range_cost cost ops \<le> room s1" using s1(4) Cons.prems(3) UnmapOp by simp
    ultimately show ?thesis using Cons.IH [of s1] Cons.prems(2) UnmapOp by simp
  qed
qed simp

text \<open>Adding a range where nothing was and taking it away again.\<close>

lemma roundtrip:
  assumes "ok s" "good r" "cost r \<le> room s" "dom (img r) \<inter> dom (view s) = {}"
  shows "\<exists>s1 s2. add s r = Some s1 \<and> view s1 = view s ++ img r \<and> del s1 r = Some s2 \<and> ok s2 \<and> view s2 = view s"
proof -
  obtain s1 where s1: "add s r = Some s1" "ok s1" "view s1 = view s ++ img r" using add [OF assms(1-3)] by blast
  obtain s2 where s2: "del s1 r = Some s2" "ok s2" "view s2 = view s1 |` (- dom (img r))" using del [OF s1(2) assms(2)] by blast
  have "(view s ++ img r) |` (- dom (img r)) = view s"
  proof
    fix v
    show "((view s ++ img r) |` (- dom (img r))) v = view s v"
    proof (cases "v \<in> dom (img r)")
      case True
      then have "v \<notin> dom (view s)" using assms(4) by blast
      then show ?thesis using True by (simp add: domIff)
    next
      case False
      then show ?thesis by (simp add: map_add_dom_app_simps(3))
    qed
  qed
  then show ?thesis using s1 s2 by simp
qed

end


end
