(* ===== verification/CL_List.thy ===== *)
theory CL_List
  imports HAL_Interfaces
begin

text \<open>
  \<open>CommonLib/src/list.c\<close>: the intrusive, circular, doubly linked list used by every
  subsystem. The links live in a store from addresses to \<open>LIST_ENTRY\<close> structures, as in
  the code: nothing in the model keeps two links consistent except the operations. A read
  or a write through an address that holds no entry (NULL among them) is a fault. The loops
  follow \<open>Flink\<close> until they meet the head again, so on a corrupted list they need not end;
  they are \<open>partial_function (option)\<close>, where \<open>None\<close> is also ``does not return''.

  \<open>is_list m h xs\<close> says that the ring that starts at the head \<open>h\<close> consists of exactly
  the entries \<open>xs\<close>; every operation is shown to compute on \<open>xs\<close>, and to leave every
  other address alone. The \<open>ASSERT(_ValidateListEntry(...))\<close> of debug builds is shown to
  hold on every such list.
\<close>

section \<open>Store and operations\<close>

record list_entry =
  Flink :: u64
  Blink :: u64

type_synonym list_mem = "u64 \<Rightarrow> list_entry option"

definition get_Flink :: "list_mem \<Rightarrow> u64 \<Rightarrow> u64 option" where
  "get_Flink m p = map_option Flink (m p)"

definition get_Blink :: "list_mem \<Rightarrow> u64 \<Rightarrow> u64 option" where
  "get_Blink m p = map_option Blink (m p)"

definition set_Flink :: "list_mem \<Rightarrow> u64 \<Rightarrow> u64 \<Rightarrow> list_mem option" where
  "set_Flink m p v = (case m p of None \<Rightarrow> None | Some e \<Rightarrow> Some (m(p \<mapsto> e\<lparr>Flink := v\<rparr>)))"

definition set_Blink :: "list_mem \<Rightarrow> u64 \<Rightarrow> u64 \<Rightarrow> list_mem option" where
  "set_Blink m p v = (case m p of None \<Rightarrow> None | Some e \<Rightarrow> Some (m(p \<mapsto> e\<lparr>Blink := v\<rparr>)))"

definition ValidateListEntry :: "list_mem \<Rightarrow> u64 \<Rightarrow> bool option" where
  "ValidateListEntry m Entry = do {
     f \<leftarrow> get_Flink m Entry;
     fb \<leftarrow> get_Blink m f;
     if fb \<noteq> Entry then Some False
     else do {
       b \<leftarrow> get_Blink m Entry;
       bf \<leftarrow> get_Flink m b;
       Some (bf = Entry)
     }
   }"

definition InitializeListHead :: "list_mem \<Rightarrow> u64 \<Rightarrow> list_mem option" where
  "InitializeListHead m ListHead = do {
     m1 \<leftarrow> set_Blink m ListHead ListHead;
     set_Flink m1 ListHead ListHead
   }"

definition IsListEmpty :: "list_mem \<Rightarrow> u64 \<Rightarrow> bool option" where
  "IsListEmpty m ListHead = do { f \<leftarrow> get_Flink m ListHead; Some (f = ListHead) }"

definition RemoveEntryList :: "list_mem \<Rightarrow> u64 \<Rightarrow> (list_mem \<times> bool) option" where
  "RemoveEntryList m Entry = do {
     f \<leftarrow> get_Flink m Entry;
     b \<leftarrow> get_Blink m Entry;
     m1 \<leftarrow> set_Flink m b f;
     m2 \<leftarrow> set_Blink m1 f b;
     Some (m2, f = b)
   }"

definition RemoveHeadList :: "list_mem \<Rightarrow> u64 \<Rightarrow> (list_mem \<times> u64) option" where
  "RemoveHeadList m ListHead = do {
     e \<leftarrow> get_Flink m ListHead;
     f \<leftarrow> get_Flink m e;
     m1 \<leftarrow> set_Flink m ListHead f;
     m2 \<leftarrow> set_Blink m1 f ListHead;
     Some (m2, e)
   }"

definition RemoveTailList :: "list_mem \<Rightarrow> u64 \<Rightarrow> (list_mem \<times> u64) option" where
  "RemoveTailList m ListHead = do {
     e \<leftarrow> get_Blink m ListHead;
     b \<leftarrow> get_Blink m e;
     m1 \<leftarrow> set_Blink m ListHead b;
     m2 \<leftarrow> set_Flink m1 b ListHead;
     Some (m2, e)
   }"

definition InsertTailList :: "list_mem \<Rightarrow> u64 \<Rightarrow> u64 \<Rightarrow> list_mem option" where
  "InsertTailList m ListHead Entry = do {
     b \<leftarrow> get_Blink m ListHead;
     m1 \<leftarrow> set_Flink m Entry ListHead;
     m2 \<leftarrow> set_Blink m1 Entry b;
     m3 \<leftarrow> set_Flink m2 b Entry;
     set_Blink m3 ListHead Entry
   }"

definition InsertHeadList :: "list_mem \<Rightarrow> u64 \<Rightarrow> u64 \<Rightarrow> list_mem option" where
  "InsertHeadList m ListHead Entry = do {
     f \<leftarrow> get_Flink m ListHead;
     m1 \<leftarrow> set_Flink m Entry f;
     m2 \<leftarrow> set_Blink m1 Entry ListHead;
     m3 \<leftarrow> set_Blink m2 f Entry;
     set_Flink m3 ListHead Entry
   }"

text \<open>The loop of \<open>InsertOrderedList\<close>: the entry before which to insert. The comparison
  function of the caller is a function of the two addresses and may itself fault.\<close>

partial_function (option) ordered_place ::
  "list_mem \<Rightarrow> u64 \<Rightarrow> u64 \<Rightarrow> (u64 \<Rightarrow> u64 \<Rightarrow> int option) \<Rightarrow> u64 \<Rightarrow> u64 option" where
  "ordered_place m ListHead Entry CompareFunction pCurrentEntry =
     (if pCurrentEntry = ListHead then Some pCurrentEntry
      else do {
        c \<leftarrow> CompareFunction Entry pCurrentEntry;
        if c < 0 then Some pCurrentEntry
        else do {
          f \<leftarrow> get_Flink m pCurrentEntry;
          ordered_place m ListHead Entry CompareFunction f
        }
      })"

definition InsertOrderedList ::
  "list_mem \<Rightarrow> u64 \<Rightarrow> u64 \<Rightarrow> (u64 \<Rightarrow> u64 \<Rightarrow> int option) \<Rightarrow> list_mem option" where
  "InsertOrderedList m ListHead Entry CompareFunction = do {
     f \<leftarrow> get_Flink m ListHead;
     p \<leftarrow> ordered_place m ListHead Entry CompareFunction f;
     InsertTailList m p Entry
   }"

partial_function (option) elem_by_index :: "list_mem \<Rightarrow> u64 \<Rightarrow> u32 \<Rightarrow> u32 \<Rightarrow> u64 \<Rightarrow> u64 option" where
  "elem_by_index m ListHead ListIndex index pCurEntry =
     (if pCurEntry = ListHead then Some 0
      else do {
        ASSERT (pCurEntry \<noteq> 0);
        if index = ListIndex then Some pCurEntry
        else do {
          f \<leftarrow> get_Flink m pCurEntry;
          elem_by_index m ListHead ListIndex (index + 1) f
        }
      })"

text \<open>NULL is the address 0.\<close>

definition GetListElemByIndex :: "list_mem \<Rightarrow> u64 \<Rightarrow> u32 \<Rightarrow> u64 option" where
  "GetListElemByIndex m ListHead ListIndex =
     (if ListHead = 0 then Some 0
      else do { f \<leftarrow> get_Flink m ListHead; elem_by_index m ListHead ListIndex 0 f })"

partial_function (option) list_count :: "list_mem \<Rightarrow> u64 \<Rightarrow> u32 \<Rightarrow> u64 \<Rightarrow> u32 option" where
  "list_count m ListHead count pCurEntry =
     (if pCurEntry = ListHead then Some count
      else do {
        ASSERT (pCurEntry \<noteq> 0);
        f \<leftarrow> get_Flink m pCurEntry;
        list_count m ListHead (count + 1) f
      })"

definition ListSize :: "list_mem \<Rightarrow> u64 \<Rightarrow> u32 option" where
  "ListSize m ListHead =
     (if ListHead = 0 then Some MAX_DWORD
      else do { f \<leftarrow> get_Flink m ListHead; list_count m ListHead 0 f })"

text \<open>The function that \<open>ForEachElementExecute\<close> calls may change the store and the rest
  of the state \<open>'s\<close>; the next entry is read after the call.\<close>

partial_function (option) for_each_loop ::
  "(u64 \<Rightarrow> list_mem \<times> 's \<Rightarrow> ((list_mem \<times> 's) \<times> STATUS) option) \<Rightarrow> bool \<Rightarrow> u64 \<Rightarrow>
   STATUS \<Rightarrow> u64 \<Rightarrow> list_mem \<times> 's \<Rightarrow> ((list_mem \<times> 's) \<times> STATUS) option" where
  "for_each_loop Function AllMustSucceed ListHead status pCur st =
     (if pCur = ListHead then Some (st, status)
      else do {
        ASSERT (pCur \<noteq> 0);
        r \<leftarrow> Function pCur st;
        if AllMustSucceed \<and> \<not> SUCCEEDED (snd r) then Some r
        else do {
          f \<leftarrow> get_Flink (fst (fst r)) pCur;
          for_each_loop Function AllMustSucceed ListHead (snd r) f (fst r)
        }
      })"

definition ForEachElementExecute ::
  "list_mem \<times> 's \<Rightarrow> u64 \<Rightarrow> (u64 \<Rightarrow> list_mem \<times> 's \<Rightarrow> ((list_mem \<times> 's) \<times> STATUS) option) option \<Rightarrow>
   bool \<Rightarrow> ((list_mem \<times> 's) \<times> STATUS) option" where
  "ForEachElementExecute st ListHead Function AllMustSucceed =
     (if ListHead = 0 then Some (st, STATUS_INVALID_PARAMETER1)
      else case Function of
        None \<Rightarrow> Some (st, STATUS_INVALID_PARAMETER2)
      | Some fn \<Rightarrow> do {
          f \<leftarrow> get_Flink (fst st) ListHead;
          for_each_loop fn AllMustSucceed ListHead STATUS_SUCCESS f st
        })"

text \<open>The comparison function of \<open>ListSearchForElement\<close> may write its context \<open>'c\<close>.\<close>

partial_function (option) search_loop ::
  "list_mem \<Rightarrow> u64 \<Rightarrow> u64 \<Rightarrow> bool \<Rightarrow> (u64 \<Rightarrow> u64 \<Rightarrow> 'c \<Rightarrow> ('c \<times> int) option) \<Rightarrow> u64 \<Rightarrow> 'c \<Rightarrow>
   ('c \<times> u64) option" where
  "search_loop m ListHead ElementToSearchFor IsListOrdered CompareFunction pCurEntry ctx =
     (if pCurEntry = ListHead then Some (ctx, 0)
      else do {
        r \<leftarrow> CompareFunction pCurEntry ElementToSearchFor ctx;
        if snd r = 0 then Some (fst r, pCurEntry)
        else if IsListOrdered \<and> 0 < snd r then Some (fst r, 0)
        else do {
          f \<leftarrow> get_Flink m pCurEntry;
          search_loop m ListHead ElementToSearchFor IsListOrdered CompareFunction f (fst r)
        }
      })"

definition ListSearchForElement ::
  "list_mem \<Rightarrow> u64 \<Rightarrow> u64 \<Rightarrow> bool \<Rightarrow> (u64 \<Rightarrow> u64 \<Rightarrow> 'c \<Rightarrow> ('c \<times> int) option) option \<Rightarrow> 'c \<Rightarrow>
   ('c \<times> u64) option" where
  "ListSearchForElement m ListHead ElementToSearchFor IsListOrdered CompareFunction ctx =
     (if ListHead = 0 then Some (ctx, 0)
      else if ElementToSearchFor = 0 then Some (ctx, 0)
      else case CompareFunction of
        None \<Rightarrow> Some (ctx, 0)
      | Some cmp \<Rightarrow> do {
          f \<leftarrow> get_Flink m ListHead;
          search_loop m ListHead ElementToSearchFor IsListOrdered cmp f ctx
        })"

text \<open>The loops are executable.\<close>

declare ordered_place.simps [code]
declare elem_by_index.simps [code]
declare list_count.simps [code]
declare for_each_loop.simps [code]
declare search_loop.simps [code]

record list_iterator =
  it_ListHead :: u64
  it_CurrentEntry :: u64

definition ListIteratorInit :: "list_mem \<Rightarrow> u64 \<Rightarrow> list_iterator option" where
  "ListIteratorInit m List = do {
     ASSERT (List \<noteq> 0);
     f \<leftarrow> get_Flink m List;
     Some \<lparr>it_ListHead = List, it_CurrentEntry = f\<rparr>
   }"

definition ListIteratorNext :: "list_mem \<Rightarrow> list_iterator \<Rightarrow> (list_iterator \<times> u64) option" where
  "ListIteratorNext m it =
     (if it_CurrentEntry it \<noteq> it_ListHead it then do {
        f \<leftarrow> get_Flink m (it_CurrentEntry it);
        Some (it\<lparr>it_CurrentEntry := f\<rparr>, it_CurrentEntry it)
      }
      else Some (it, 0))"

section \<open>Reading and writing links\<close>

text \<open>The two link fields are independent maps.\<close>

lemma set_Flink_run:
  assumes "get_Flink m p \<noteq> None"
  obtains m' where "set_Flink m p v = Some m'" "get_Flink m' = (get_Flink m)(p \<mapsto> v)"
    "get_Blink m' = get_Blink m" "\<And>q. q \<noteq> p \<Longrightarrow> m' q = m q"
proof -
  obtain e where "m p = Some e" using assms by (auto simp: get_Flink_def)
  then show thesis
    by (intro that [of "m(p \<mapsto> e\<lparr>Flink := v\<rparr>)"])
      (auto simp: set_Flink_def get_Flink_def get_Blink_def fun_eq_iff)
qed

lemma set_Blink_run:
  assumes "get_Blink m p \<noteq> None"
  obtains m' where "set_Blink m p v = Some m'" "get_Blink m' = (get_Blink m)(p \<mapsto> v)"
    "get_Flink m' = get_Flink m" "\<And>q. q \<noteq> p \<Longrightarrow> m' q = m q"
proof -
  obtain e where "m p = Some e" using assms by (auto simp: get_Blink_def)
  then show thesis
    by (intro that [of "m(p \<mapsto> e\<lparr>Blink := v\<rparr>)"])
      (auto simp: set_Blink_def get_Flink_def get_Blink_def fun_eq_iff)
qed

lemma get_Blink_mapped: "get_Blink m p = None \<longleftrightarrow> get_Flink m p = None"
  by (simp add: get_Blink_def get_Flink_def)

section \<open>Rings\<close>

fun links :: "list_mem \<Rightarrow> u64 list \<Rightarrow> bool" where
  "links m (a # b # ps) \<longleftrightarrow> get_Flink m a = Some b \<and> get_Blink m b = Some a \<and> links m (b # ps)"
| "links m ps \<longleftrightarrow> True"

lemma links_split:
  "links m (ps @ a # qs) \<longleftrightarrow> links m (ps @ [a]) \<and> links m (a # qs)"
proof (induction ps)
  case (Cons p ps)
  then show ?case by (cases ps) auto
qed simp

lemma links_cong:
  "\<lbrakk>\<And>a. a \<in> set (butlast ps) \<Longrightarrow> get_Flink m' a = get_Flink m a;
    \<And>b. b \<in> set (tl ps) \<Longrightarrow> get_Blink m' b = get_Blink m b\<rbrakk> \<Longrightarrow> links m' ps = links m ps"
  by (induction m ps rule: links.induct) auto

text \<open>A ring: a closed path of non-null, mapped, pairwise different entries. It is written
  as the path from the head back to the head.\<close>

definition ring :: "list_mem \<Rightarrow> u64 list \<Rightarrow> bool" where
  "ring m r \<longleftrightarrow> links m r \<and> 0 \<notin> set r \<and> distinct (butlast r) \<and> distinct (tl r)"

definition is_list :: "list_mem \<Rightarrow> u64 \<Rightarrow> u64 list \<Rightarrow> bool" where
  "is_list m h xs \<longleftrightarrow> ring m (h # xs @ [h])"

lemma is_list_distinct: "is_list m h xs \<Longrightarrow> distinct (h # xs)"
  by (auto simp: is_list_def ring_def butlast_append)

lemma is_list_not_null: "is_list m h xs \<Longrightarrow> 0 \<notin> set (h # xs)"
  by (auto simp: is_list_def ring_def)

lemma ring_links:
  assumes "ring m (ps @ a # b # qs)"
  shows "get_Flink m a = Some b" "get_Blink m b = Some a"
  using assms by (simp_all add: ring_def links_split [of m ps a "b # qs"])

text \<open>Two neighbours \<open>a\<close>, \<open>b\<close> of a ring are each written once: what precedes \<open>a\<close> and what
  follows \<open>b\<close> does not see the two writes.\<close>

lemma ring_relink:
  assumes r: "ring m (ps @ a # mid @ b # qs)"
    and F: "\<And>q. q \<in> set ps \<union> set (butlast (b # qs)) \<Longrightarrow> get_Flink m' q = get_Flink m q"
    and B: "\<And>q. q \<in> set (tl (ps @ [a])) \<union> set qs \<Longrightarrow> get_Blink m' q = get_Blink m q"
    and new: "links m' (a # mid' @ [b])"
  shows "links m' (ps @ a # mid' @ b # qs)"
proof -
  have l: "links m (ps @ a # mid @ b # qs)" using r by (simp add: ring_def)
  then have "links m (ps @ [a])" by (simp only: links_split [of m ps a "mid @ b # qs"])
  moreover have "links m (b # qs)"
    using l links_split [of m "ps @ a # mid" b qs] by (simp only: append_Cons append_assoc simp_thms)
  moreover have "links m' (ps @ [a]) = links m (ps @ [a])"
    using F B by (intro links_cong) (simp_all only: butlast_snoc UnI1)
  moreover have "links m' (b # qs) = links m (b # qs)"
    using F B by (intro links_cong) (simp_all only: list.sel(3) UnI2)
  ultimately have "links m' (ps @ [a])" "links m' ((a # mid') @ b # qs)"
    using new links_split [of m' "a # mid'" b qs] by (simp_all only: append_Cons simp_thms)
  then show ?thesis
    using links_split [of m' ps a "mid' @ b # qs"] by (simp only: append_Cons simp_thms)
qed

lemma ring_neighbours:
  assumes "ring m (ps @ a # mid @ b # qs)"
  shows "a \<notin> set ps \<union> set (butlast (b # qs))" "b \<notin> set (tl (ps @ [a])) \<union> set qs"
proof -
  have d1: "distinct (butlast (ps @ a # mid @ b # qs))" and d2: "distinct (tl (ps @ a # mid @ b # qs))"
    using assms by (auto simp: ring_def)
  show "a \<notin> set ps \<union> set (butlast (b # qs))"
    using d1 by (auto simp: butlast_append)
  have "tl (ps @ a # mid @ b # qs) = tl (ps @ [a]) @ mid @ b # qs"
    by (cases ps) auto
  with d2 show "b \<notin> set (tl (ps @ [a])) \<union> set qs" by auto
qed

section \<open>Insertion\<close>

lemma in_tl: "x \<in> set (tl xs) \<Longrightarrow> x \<in> set xs"
  by (cases xs) auto

text \<open>Insertion before \<open>p\<close>, wherever \<open>p\<close> stands in the ring; only the new entry and its
  two neighbours are written.\<close>

lemma InsertTailList_ring:
  assumes r: "ring m (ps @ a # p # qs)" and e: "e \<notin> set (ps @ a # p # qs)" "e \<noteq> 0" "m e \<noteq> None"
  obtains m' where "InsertTailList m p e = Some m'" "ring m' (ps @ a # e # p # qs)"
    "\<And>q. q \<notin> {e, a, p} \<Longrightarrow> m' q = m q"
proof -
  note lk = ring_links [OF r]
  note nb = ring_neighbours [of m ps a "[]", simplified, OF r]
  have e1: "get_Flink m e \<noteq> None" "get_Blink m e \<noteq> None"
    using e(3) by (auto simp: get_Flink_def get_Blink_def)
  obtain m1 where m1: "set_Flink m e p = Some m1" "get_Flink m1 = (get_Flink m)(e \<mapsto> p)"
    "get_Blink m1 = get_Blink m" "\<And>q. q \<noteq> e \<Longrightarrow> m1 q = m q"
    using set_Flink_run [OF e1(1)] by blast
  have "get_Blink m1 e \<noteq> None" using m1(3) e1(2) by simp
  then obtain m2 where m2: "set_Blink m1 e a = Some m2" "get_Blink m2 = (get_Blink m1)(e \<mapsto> a)"
    "get_Flink m2 = get_Flink m1" "\<And>q. q \<noteq> e \<Longrightarrow> m2 q = m1 q"
    using set_Blink_run by blast
  have "get_Flink m2 a \<noteq> None" using m2(3) m1(2) lk(1) by simp
  then obtain m3 where m3: "set_Flink m2 a e = Some m3" "get_Flink m3 = (get_Flink m2)(a \<mapsto> e)"
    "get_Blink m3 = get_Blink m2" "\<And>q. q \<noteq> a \<Longrightarrow> m3 q = m2 q"
    using set_Flink_run by blast
  have "get_Blink m3 p \<noteq> None" using m3(3) m2(2) m1(3) lk(2) by simp
  then obtain m4 where m4: "set_Blink m3 p e = Some m4" "get_Blink m4 = (get_Blink m3)(p \<mapsto> e)"
    "get_Flink m4 = get_Flink m3" "\<And>q. q \<noteq> p \<Longrightarrow> m4 q = m3 q"
    using set_Blink_run by blast
  have F: "get_Flink m4 = (get_Flink m)(e \<mapsto> p, a \<mapsto> e)"
    and B: "get_Blink m4 = (get_Blink m)(e \<mapsto> a, p \<mapsto> e)"
    using m1 m2 m3 m4 by auto
  have "InsertTailList m p e = Some m4"
    using lk m1(1) m2(1) m3(1) m4(1) by (simp add: InsertTailList_def)
  moreover have "links m4 (ps @ a # [e] @ p # qs)"
  proof (rule ring_relink [of m ps a "[]"])
    show "ring m (ps @ a # [] @ p # qs)" using r by simp
    show "get_Flink m4 q = get_Flink m q" if "q \<in> set ps \<union> set (butlast (p # qs))" for q
      using that nb e(1) by (auto simp: F dest: in_set_butlastD split: if_splits)
    show "get_Blink m4 q = get_Blink m q" if "q \<in> set (tl (ps @ [a])) \<union> set qs" for q
      using that nb e(1) in_tl [of e "ps @ [a]"] by (auto simp: B)
    show "links m4 (a # [e] @ [p])" using e(1) F B by auto
  qed
  moreover have "ring m (ps @ a # p # qs) \<Longrightarrow> distinct (butlast (ps @ a # e # p # qs)) \<and>
      distinct (tl (ps @ a # e # p # qs)) \<and> 0 \<notin> set (ps @ a # e # p # qs)"
    using e(1,2) unfolding ring_def by (cases ps) (auto simp: butlast_append dest: in_set_butlastD)
  ultimately show thesis
    using r m1(4) m2(4) m3(4) m4(4) by (intro that [of m4]) (auto simp: ring_def)
qed

lemma InsertTailList_list:
  assumes "is_list m h xs" "e \<notin> set (h # xs)" "e \<noteq> 0" "m e \<noteq> None"
  obtains m' where "InsertTailList m h e = Some m'" "is_list m' h (xs @ [e])"
    "\<And>q. q \<notin> set (e # h # xs) \<Longrightarrow> m' q = m q"
proof -
  obtain ps a where pa: "h # xs = ps @ [a]" by (cases "h # xs" rule: rev_cases) auto
  then have d: "h # xs @ [h] = ps @ a # h # []" "set (h # xs) = set (ps @ [a])"
    by (metis append_Cons append_assoc append_Nil) (simp only: pa)
  obtain m' where m': "InsertTailList m h e = Some m'" "ring m' (ps @ a # e # h # [])"
    "\<And>q. q \<notin> {e, a, h} \<Longrightarrow> m' q = m q"
  proof (rule InsertTailList_ring [of m ps a h "[]" e])
    show "ring m (ps @ a # h # [])" using assms(1) d(1) by (simp only: is_list_def)
    show "e \<notin> set (ps @ a # h # [])" using assms(2) d(2) by auto
  qed (use assms(3,4) in auto)
  have "h # (xs @ [e]) @ [h] = ps @ a # e # h # []"
    using pa by (metis append_Cons append_assoc append_Nil)
  with m'(2) have "is_list m' h (xs @ [e])" by (simp only: is_list_def)
  moreover have "a \<in> set (h # xs)" using d(2) by simp
  then have "m' q = m q" if "q \<notin> set (e # h # xs)" for q
    using that by (intro m'(3)) auto
  ultimately show thesis using m'(1) by (intro that)
qed

lemma InsertHeadList_is_tail:
  assumes "get_Flink m h = Some b" "get_Blink m b = Some h" "e \<noteq> h" "e \<noteq> b"
  shows "InsertHeadList m h e = InsertTailList m b e"
proof (cases "m e")
  case None
  with assms show ?thesis
    by (simp add: InsertHeadList_def InsertTailList_def set_Flink_def)
next
  case (Some x)
  have "m b \<noteq> None" "m h \<noteq> None" using assms(1,2) by (auto simp: get_Flink_def get_Blink_def)
  with Some assms show ?thesis
    by (auto simp: InsertHeadList_def InsertTailList_def set_Flink_def set_Blink_def fun_eq_iff)
qed

lemma InsertHeadList_list:
  assumes "is_list m h xs" "e \<notin> set (h # xs)" "e \<noteq> 0" "m e \<noteq> None"
  obtains m' where "InsertHeadList m h e = Some m'" "is_list m' h (e # xs)"
    "\<And>q. q \<notin> set (e # h # xs) \<Longrightarrow> m' q = m q"
proof -
  obtain b qs where bq: "xs @ [h] = b # qs" by (cases "xs @ [h]") auto
  have b: "b \<in> set (h # xs)" by (metis bq list.set_intros(1) rotate1.simps(2) set_rotate1)
  have r: "ring m ([] @ h # b # qs)" using assms(1) bq by (simp add: is_list_def)
  then have "get_Flink m h = Some b" "get_Blink m b = Some h" by (rule ring_links)+
  moreover have "e \<noteq> h" "e \<noteq> b" using assms(2) b by auto
  ultimately have eq: "InsertHeadList m h e = InsertTailList m b e"
    by (rule InsertHeadList_is_tail)
  have "e \<notin> set ([] @ h # b # qs)" using assms(2) bq by (metis append_Nil insert_iff list.simps(15) rotate1.simps(2) set_rotate1)
  then obtain m' where m': "InsertTailList m b e = Some m'" "ring m' ([] @ h # e # b # qs)"
    "\<And>q. q \<notin> {e, h, b} \<Longrightarrow> m' q = m q"
    using InsertTailList_ring [OF r, of e] assms(3,4) by blast
  have "m' q = m q" if "q \<notin> set (e # h # xs)" for q
    using that b by (intro m'(3)) auto
  with m'(1,2) eq bq show thesis by (intro that [of m']) (simp_all add: is_list_def)
qed

section \<open>Removal\<close>

lemma RemoveEntryList_ring:
  assumes r: "ring m (ps @ a # e # b # qs)"
  obtains m' where "RemoveEntryList m e = Some (m', b = a)" "ring m' (ps @ a # b # qs)"
    "\<And>q. q \<notin> {a, b} \<Longrightarrow> m' q = m q"
proof -
  have lk: "get_Flink m a = Some e" "get_Blink m e = Some a" using r by (rule ring_links)+
  have "ring m ((ps @ [a]) @ e # b # qs)" using r by simp
  then have lk2: "get_Flink m e = Some b" "get_Blink m b = Some e" by (rule ring_links)+
  note nb = ring_neighbours [of m ps a "[e]", simplified, OF r]
  have "get_Flink m a \<noteq> None" using lk(1) by simp
  then obtain m1 where m1: "set_Flink m a b = Some m1" "get_Flink m1 = (get_Flink m)(a \<mapsto> b)"
    "get_Blink m1 = get_Blink m" "\<And>q. q \<noteq> a \<Longrightarrow> m1 q = m q"
    using set_Flink_run by blast
  have "get_Blink m1 b \<noteq> None" using m1(3) lk2(2) by simp
  then obtain m2 where m2: "set_Blink m1 b a = Some m2" "get_Blink m2 = (get_Blink m1)(b \<mapsto> a)"
    "get_Flink m2 = get_Flink m1" "\<And>q. q \<noteq> b \<Longrightarrow> m2 q = m1 q"
    using set_Blink_run by blast
  have F: "get_Flink m2 = (get_Flink m)(a \<mapsto> b)" and B: "get_Blink m2 = (get_Blink m)(b \<mapsto> a)"
    using m1 m2 by auto
  have "RemoveEntryList m e = Some (m2, b = a)"
    using lk lk2 m1(1) m2(1) by (simp add: RemoveEntryList_def)
  moreover have "links m2 (ps @ a # [] @ b # qs)"
  proof (rule ring_relink [of m ps a "[e]"])
    show "ring m (ps @ a # [e] @ b # qs)" using r by simp
    show "get_Flink m2 q = get_Flink m q" if "q \<in> set ps \<union> set (butlast (b # qs))" for q
      using that nb by (auto simp: F split: if_splits)
    show "get_Blink m2 q = get_Blink m q" if "q \<in> set (tl (ps @ [a])) \<union> set qs" for q
      using that nb by (auto simp: B)
    show "links m2 (a # [] @ [b])" using F B by auto
  qed
  moreover have "distinct (butlast (ps @ a # b # qs)) \<and> distinct (tl (ps @ a # b # qs)) \<and>
      0 \<notin> set (ps @ a # b # qs)"
    using r unfolding ring_def by (cases ps) (auto simp: butlast_append split: if_splits)
  ultimately show thesis
    using m1(4) m2(4) by (intro that [of m2]) (auto simp: ring_def)
qed

text \<open>The answer of \<open>RemoveEntryList\<close> is that the list is now empty.\<close>

lemma RemoveEntryList_list:
  assumes "is_list m h (xs @ e # ys)"
  obtains m' where "RemoveEntryList m e = Some (m', xs @ ys = [])" "is_list m' h (xs @ ys)"
    "\<And>q. q \<notin> set (h # xs @ ys) \<Longrightarrow> m' q = m q"
proof -
  obtain ps a where pa: "h # xs = ps @ [a]" by (cases "h # xs" rule: rev_cases) auto
  obtain b qs where bq: "ys @ [h] = b # qs" by (cases "ys @ [h]") auto
  have r: "ring m (ps @ a # e # b # qs)"
    using assms pa bq unfolding is_list_def by (metis append_Cons append_assoc append_Nil)
  then obtain m' where m': "RemoveEntryList m e = Some (m', b = a)" "ring m' (ps @ a # b # qs)"
    "\<And>q. q \<notin> {a, b} \<Longrightarrow> m' q = m q"
    using RemoveEntryList_ring [OF r] by blast
  have a: "a \<in> set (h # xs)" by (metis pa in_set_conv_decomp)
  have b: "b \<in> set (h # ys)" by (metis bq list.set_intros(1) rotate1.simps(2) set_rotate1)
  have "b = a \<longleftrightarrow> xs @ ys = []"
  proof
    have "distinct (h # xs @ ys)" using is_list_distinct [OF assms] by auto
    moreover assume "b = a"
    ultimately have "a = h" using a b by auto
    then have "xs = []" "ys = []"
      using \<open>b = a\<close> \<open>distinct (h # xs @ ys)\<close> pa bq
      by (metis append_is_Nil_conv butlast.simps(2) butlast_snoc distinct.simps(2) hd_append2 in_set_conv_decomp last.simps last_in_set last_snoc list.sel(1) Un_iff set_append,
        metis Cons_eq_append_conv \<open>distinct (h # xs @ ys)\<close> distinct.simps(2) in_set_conv_decomp_first Un_iff set_append append_eq_Cons_conv)
    then show "xs @ ys = []" by simp
  next
    assume "xs @ ys = []"
    with pa bq show "b = a" by auto
  qed
  moreover have "is_list m' h (xs @ ys)"
    using m'(2) pa bq unfolding is_list_def by (metis append_Cons append_assoc append_Nil)
  moreover have "m' q = m q" if "q \<notin> set (h # xs @ ys)" for q
    using that a b by (intro m'(3)) auto
  ultimately show thesis using m'(1) by (intro that [of m']) simp_all
qed

text \<open>The neighbours of an entry.\<close>

lemma is_list_Flink:
  assumes "is_list m h (xs @ x # ys)"
  shows "get_Flink m x = Some (hd (ys @ [h]))"
proof -
  obtain b qs where bq: "ys @ [h] = b # qs" by (cases "ys @ [h]") auto
  then have "ring m ((h # xs) @ x # b # qs)" using assms by (simp add: is_list_def)
  then show ?thesis using bq ring_links(1) [of m "h # xs" x b qs] by simp
qed

lemma is_list_first: "is_list m h xs \<Longrightarrow> get_Flink m h = Some (hd (xs @ [h]))"
proof -
  obtain b qs where bq: "xs @ [h] = b # qs" by (cases "xs @ [h]") auto
  assume "is_list m h xs"
  then have "ring m ([] @ h # b # qs)" using bq by (simp add: is_list_def)
  then show ?thesis using bq ring_links(1) [of m "[]" h b qs] by simp
qed

lemma is_list_Blink_first: "is_list m h (x # xs) \<Longrightarrow> get_Blink m x = Some h"
  using ring_links(2) [of m "[]" h x "xs @ [h]"] by (simp add: is_list_def)

lemma is_list_last:
  assumes "is_list m h (xs @ [x])"
  shows "get_Blink m h = Some x" "get_Flink m x = Some h" "get_Blink m x = Some (last (h # xs))"
proof -
  have r: "ring m ((h # xs) @ x # h # [])" using assms by (simp add: is_list_def)
  show "get_Blink m h = Some x" "get_Flink m x = Some h"
    using r ring_links [of m "h # xs" x h "[]"] by simp_all
  obtain ps a where pa: "h # xs = ps @ [a]" by (cases "h # xs" rule: rev_cases) auto
  then have "ring m (ps @ a # x # [h])" using r by (metis append_Cons append_assoc append_Nil)
  then have "get_Blink m x = Some a" by (rule ring_links)
  then show "get_Blink m x = Some (last (h # xs))" by (simp add: pa)
qed

lemma RemoveHeadList_list:
  assumes "is_list m h (x # xs)"
  obtains m' where "RemoveHeadList m h = Some (m', x)" "is_list m' h xs"
    "\<And>q. q \<notin> set (h # xs) \<Longrightarrow> m' q = m q"
proof -
  obtain m' where m': "RemoveEntryList m x = Some (m', xs = [])" "is_list m' h xs"
    "\<And>q. q \<notin> set (h # xs) \<Longrightarrow> m' q = m q"
    using RemoveEntryList_list [of m h "[]" x xs] assms by auto
  moreover have "get_Flink m h = Some x" "get_Blink m x = Some h"
    using is_list_first [OF assms] is_list_Blink_first [OF assms] by simp_all
  ultimately have "RemoveHeadList m h = Some (m', x)"
    by (auto simp: RemoveEntryList_def RemoveHeadList_def bind_Some)
  with m' show thesis by (intro that)
qed

lemma set_Flink_Blink_comm:
  "do { m1 \<leftarrow> set_Blink m p u; set_Flink m1 q v } = do { m1 \<leftarrow> set_Flink m q v; set_Blink m1 p u }"
  by (auto simp: set_Flink_def set_Blink_def fun_eq_iff split: option.splits)

lemma RemoveTailList_list:
  assumes "is_list m h (xs @ [x])"
  obtains m' where "RemoveTailList m h = Some (m', x)" "is_list m' h xs"
    "\<And>q. q \<notin> set (h # xs) \<Longrightarrow> m' q = m q"
proof -
  note lk = is_list_last [OF assms]
  obtain m' where m': "RemoveEntryList m x = Some (m', xs = [])" "is_list m' h xs"
    "\<And>q. q \<notin> set (h # xs) \<Longrightarrow> m' q = m q"
    using RemoveEntryList_list [OF assms] by auto
  then have "do { m1 \<leftarrow> set_Flink m (last (h # xs)) h; set_Blink m1 h (last (h # xs)) } = Some m'"
    using lk by (auto simp: RemoveEntryList_def bind_Some)
  then have "do { m1 \<leftarrow> set_Blink m h (last (h # xs)); set_Flink m1 (last (h # xs)) h } = Some m'"
    by (simp only: set_Flink_Blink_comm)
  then have "RemoveTailList m h = Some (m', x)"
    using lk by (auto simp: RemoveTailList_def bind_Some)
  with m' show thesis by (intro that)
qed

text \<open>On an empty list both removals answer the head and change nothing, as documented.\<close>

lemma is_list_empty: "is_list m h [] \<longleftrightarrow> h \<noteq> 0 \<and> get_Flink m h = Some h \<and> get_Blink m h = Some h"
  by (auto simp: is_list_def ring_def)

lemma set_same:
  "get_Flink m p = Some v \<Longrightarrow> set_Flink m p v = Some m"
  "get_Blink m p = Some v \<Longrightarrow> set_Blink m p v = Some m"
  by (auto simp: get_Flink_def get_Blink_def set_Flink_def set_Blink_def fun_eq_iff)

lemma Remove_empty:
  assumes "is_list m h []"
  shows "RemoveHeadList m h = Some (m, h)" "RemoveTailList m h = Some (m, h)"
  using assms by (simp_all add: is_list_empty RemoveHeadList_def RemoveTailList_def set_same)

lemma InitializeListHead_list:
  assumes "h \<noteq> 0" "m h \<noteq> None"
  obtains m' where "InitializeListHead m h = Some m'" "is_list m' h []" "\<And>q. q \<noteq> h \<Longrightarrow> m' q = m q"
proof -
  obtain m1 where m1: "set_Blink m h h = Some m1" "get_Blink m1 = (get_Blink m)(h \<mapsto> h)"
    "get_Flink m1 = get_Flink m" "\<And>q. q \<noteq> h \<Longrightarrow> m1 q = m q"
    using set_Blink_run [of m h h] assms(2) by (auto simp: get_Blink_def)
  obtain m2 where m2: "set_Flink m1 h h = Some m2" "get_Flink m2 = (get_Flink m1)(h \<mapsto> h)"
    "get_Blink m2 = get_Blink m1" "\<And>q. q \<noteq> h \<Longrightarrow> m2 q = m1 q"
    using set_Flink_run [of m1 h h] m1(3) assms(2) by (auto simp: get_Flink_def)
  from m1 m2 assms(1) show thesis
    by (intro that [of m2]) (simp_all add: InitializeListHead_def is_list_empty)
qed

lemma IsListEmpty_list: "is_list m h xs \<Longrightarrow> IsListEmpty m h = Some (xs = [])"
  using is_list_first [of m h xs] is_list_distinct [of m h xs]
  by (cases xs) (auto simp: IsListEmpty_def)

text \<open>The assertion of debug builds holds for the head and for every entry.\<close>

lemma ValidateListEntry_ring:
  assumes "ring m (ps @ a # e # b # qs)"
  shows "ValidateListEntry m e = Some True"
proof -
  have "ring m ((ps @ [a]) @ e # b # qs)" using assms by simp
  then show ?thesis
    using ring_links [OF assms] ring_links [of m "ps @ [a]" e b qs] by (simp add: ValidateListEntry_def)
qed

lemma ValidateListEntry_list:
  assumes "is_list m h xs" "e \<in> set (h # xs)"
  shows "ValidateListEntry m e = Some True"
proof (cases "e = h")
  case True
  obtain b qs where bq: "xs @ [h] = b # qs" by (cases "xs @ [h]") auto
  obtain ps a where pa: "h # xs = ps @ [a]" by (cases "h # xs" rule: rev_cases) auto
  have "ring m ([] @ h # b # qs)" using assms(1) bq by (simp add: is_list_def)
  moreover have "ring m (ps @ a # h # [])"
    using assms(1) pa unfolding is_list_def by (metis append_Cons append_assoc append_Nil)
  ultimately show ?thesis
    using True ring_links [of m "[]" h b qs] ring_links [of m ps a h "[]"]
    by (simp add: ValidateListEntry_def)
next
  case False
  then obtain us vs where uv: "xs = us @ e # vs" using assms(2) by (auto simp: in_set_conv_decomp)
  obtain b qs where bq: "vs @ [h] = b # qs" by (cases "vs @ [h]") auto
  obtain ps a where pa: "h # us = ps @ [a]" by (cases "h # us" rule: rev_cases) auto
  have "ring m (ps @ a # e # b # qs)"
    using assms(1) uv pa bq unfolding is_list_def by (metis append_Cons append_assoc append_Nil)
  then show ?thesis by (rule ValidateListEntry_ring)
qed

section \<open>Traversal\<close>

lemma is_list_not_head: "is_list m h (xs @ x # ys) \<Longrightarrow> x \<noteq> h \<and> x \<noteq> 0"
  using is_list_distinct [of m h "xs @ x # ys"] is_list_not_null [of m h "xs @ x # ys"] by auto

text \<open>Every walk stands at the first of the entries \<open>ys\<close> that are left, or at the head.\<close>

lemma ordered_place_list:
  assumes "is_list m h (xs @ ys)" "\<And>y. y \<in> set ys \<Longrightarrow> cmp e y = Some (c y)"
  shows "ordered_place m h e cmp (hd (ys @ [h])) = Some (hd (dropWhile (\<lambda>y. c y \<ge> 0) ys @ [h]))"
  using assms
proof (induction ys arbitrary: xs)
  case Nil
  then show ?case by (simp add: ordered_place.simps)
next
  case (Cons y ys)
  have "ordered_place m h e cmp (hd (ys @ [h])) = Some (hd (dropWhile (\<lambda>y. c y \<ge> 0) ys @ [h]))"
    using Cons.prems by (intro Cons.IH [of "xs @ [y]"]) simp_all
  then show ?case
    using is_list_not_head [OF Cons.prems(1)] is_list_Flink [OF Cons.prems(1)] Cons.prems(2) [of y]
    by (simp add: ordered_place.simps [of m h e cmp y] not_less)
qed

lemma InsertOrderedList_list:
  assumes "is_list m h xs" "e \<notin> set (h # xs)" "e \<noteq> 0" "m e \<noteq> None"
    and "\<And>x. x \<in> set xs \<Longrightarrow> cmp e x = Some (c x)"
  obtains m' where "InsertOrderedList m h e cmp = Some m'"
    "is_list m' h (takeWhile (\<lambda>x. c x \<ge> 0) xs @ e # dropWhile (\<lambda>x. c x \<ge> 0) xs)"
    "\<And>q. q \<notin> set (e # h # xs) \<Longrightarrow> m' q = m q"
proof -
  let ?l = "takeWhile (\<lambda>x. c x \<ge> 0) xs" and ?r = "dropWhile (\<lambda>x. c x \<ge> 0) xs"
  obtain ps a where pa: "h # ?l = ps @ [a]" by (cases "h # ?l" rule: rev_cases) auto
  obtain b qs where bq: "?r @ [h] = b # qs" by (cases "?r @ [h]") auto
  have all: "h # xs @ [h] = ps @ a # b # qs"
    using pa bq takeWhile_dropWhile_id [of "\<lambda>x. c x \<ge> 0" xs]
    by (metis append_Cons append_assoc append_Nil)
  have "ordered_place m h e cmp (hd (xs @ [h])) = Some b"
    using ordered_place_list [of m h "[]" xs cmp e c] assms(1,5) bq by simp
  then have eq: "InsertOrderedList m h e cmp = InsertTailList m b e"
    using is_list_first [OF assms(1)] by (simp add: InsertOrderedList_def)
  have r: "ring m (ps @ a # b # qs)" using assms(1) all by (simp only: is_list_def)
  have s: "set (ps @ a # b # qs) = set (h # xs)" using all [symmetric] by simp
  obtain m' where m': "InsertTailList m b e = Some m'" "ring m' (ps @ a # e # b # qs)"
    "\<And>q. q \<notin> {e, a, b} \<Longrightarrow> m' q = m q"
    using InsertTailList_ring [OF r, of e] assms(2-4) s by blast
  have "h # (?l @ e # ?r) @ [h] = ps @ a # e # b # qs"
    using pa bq by (metis append_Cons append_assoc append_Nil)
  then have "is_list m' h (?l @ e # ?r)" using m'(2) by (simp only: is_list_def)
  moreover have "m' q = m q" if "q \<notin> set (e # h # xs)" for q
    using that s by (intro m'(3)) auto
  ultimately show thesis using m'(1) eq by (intro that [of m']) simp_all
qed

lemma elem_by_index_list:
  assumes "is_list m h (xs @ ys)" "unat i + length ys < 2 ^ 32" "i \<le> n"
  shows "elem_by_index m h n i (hd (ys @ [h]))
         = Some (if unat n < unat i + length ys then ys ! (unat n - unat i) else 0)"
  using assms
proof (induction ys arbitrary: xs i)
  case Nil
  then show ?case by (simp add: elem_by_index.simps word_le_nat_alt)
next
  case (Cons y ys)
  note y = is_list_not_head [OF Cons.prems(1)] is_list_Flink [OF Cons.prems(1)]
  have step: "elem_by_index m h n i y = (if i = n then Some y else elem_by_index m h n (i + 1) (hd (ys @ [h])))"
    using y by (simp add: elem_by_index.simps [of m h n i y])
  show ?case
  proof (cases "i = n")
    case True
    with step show ?thesis by simp
  next
    case False
    have u: "unat (i + 1) = Suc (unat i)" using Cons.prems(2) by (simp add: unat_add_small)
    have lt: "unat i < unat n"
      using False Cons.prems(3) by (simp add: word_le_nat_alt word_unat_eq_iff)
    have "elem_by_index m h n (i + 1) (hd (ys @ [h]))
          = Some (if unat n < unat (i + 1) + length ys then ys ! (unat n - unat (i + 1)) else 0)"
      using Cons.prems u lt by (intro Cons.IH [of "xs @ [y]"]) (simp_all add: word_le_nat_alt)
    with step False u lt show ?thesis by (simp add: nth_Cons')
  qed
qed

lemma GetListElemByIndex_list:
  assumes "is_list m h xs" "length xs < 2 ^ 32"
  shows "GetListElemByIndex m h n = Some (if unat n < length xs then xs ! unat n else 0)"
  using elem_by_index_list [of m h "[]" xs 0 n] assms is_list_first [OF assms(1)] is_list_not_null [OF assms(1)]
  by (auto simp: GetListElemByIndex_def)

lemma list_count_list:
  assumes "is_list m h (xs @ ys)"
  shows "list_count m h n (hd (ys @ [h])) = Some (n + of_nat (length ys))"
  using assms
proof (induction ys arbitrary: xs n)
  case Nil
  then show ?case by (simp add: list_count.simps)
next
  case (Cons y ys)
  note y = is_list_not_head [OF Cons.prems(1)] is_list_Flink [OF Cons.prems(1)]
  have "list_count m h (n + 1) (hd (ys @ [h])) = Some (n + 1 + of_nat (length ys))"
    using Cons.prems by (intro Cons.IH [of "xs @ [y]"]) simp
  with y show ?case by (simp add: list_count.simps [of m h n y] algebra_simps)
qed

lemma ListSize_list: "is_list m h xs \<Longrightarrow> ListSize m h = Some (of_nat (length xs))"
  using list_count_list [of m h "[]" xs 0] is_list_first [of m h xs] is_list_not_null [of m h xs]
  by (simp add: ListSize_def)

text \<open>The answer that \<open>ForEachElementExecute\<close> owes: the entries in order, each on the state
  the one before left, up to the first failure when all must succeed.\<close>

primrec execute_all :: "(u64 \<Rightarrow> 't \<Rightarrow> ('t \<times> STATUS) option) \<Rightarrow> bool \<Rightarrow> u64 list \<Rightarrow> STATUS \<Rightarrow> 't \<Rightarrow> ('t \<times> STATUS) option" where
  "execute_all f must [] status st = Some (st, status)"
| "execute_all f must (x # xs) status st = do {
     r \<leftarrow> f x st;
     if must \<and> \<not> SUCCEEDED (snd r) then Some r else execute_all f must xs (snd r) (fst r)
   }"

lemma for_each_loop_list:
  assumes "is_list (fst st) h (xs @ ys)"
    and keep: "\<And>y st st' s. y \<in> set ys \<Longrightarrow> is_list (fst st) h (xs @ ys) \<Longrightarrow> f y st = Some (st', s) \<Longrightarrow>
                 is_list (fst st') h (xs @ ys)"
  shows "for_each_loop f must h status (hd (ys @ [h])) st = execute_all f must ys status st"
  using assms
proof (induction ys arbitrary: xs st status)
  case Nil
  then show ?case by (simp add: for_each_loop.simps)
next
  case (Cons y ys)
  have nx: "get_Flink (fst st') y = Some (hd (ys @ [h])) \<and>
      for_each_loop f must h s (hd (ys @ [h])) st' = execute_all f must ys s st'"
    if "f y st = Some (st', s)" for st' s
  proof -
    have l: "is_list (fst st') h (xs @ y # ys)"
      using Cons.prems(2) [OF _ Cons.prems(1) that] by simp
    moreover have "for_each_loop f must h s (hd (ys @ [h])) st' = execute_all f must ys s st'"
    proof (rule Cons.IH [of st' "xs @ [y]"])
      show "is_list (fst st') h ((xs @ [y]) @ ys)" using l by simp
      show "is_list (fst sb) h ((xs @ [y]) @ ys)"
        if "z \<in> set ys" "is_list (fst sa) h ((xs @ [y]) @ ys)" "f z sa = Some (sb, s')" for z sa sb s'
        using that Cons.prems(2) [of z sa sb s'] by simp
    qed
    ultimately show ?thesis using is_list_Flink by blast
  qed
  show ?case
    using is_list_not_head [OF Cons.prems(1)] nx
    by (cases "f y st") (auto simp: for_each_loop.simps [of f must h status y st])
qed

lemma ForEachElementExecute_list:
  assumes "is_list (fst st) h xs"
    and "\<And>y st st' s. y \<in> set xs \<Longrightarrow> is_list (fst st) h xs \<Longrightarrow> f y st = Some (st', s) \<Longrightarrow>
           is_list (fst st') h xs"
  shows "ForEachElementExecute st h (Some f) must = execute_all f must xs STATUS_SUCCESS st"
  using for_each_loop_list [of st h "[]" xs f must STATUS_SUCCESS] assms
    is_list_first [OF assms(1)] is_list_not_null [OF assms(1)]
  by (simp add: ForEachElementExecute_def)

text \<open>The search on the sequence of entries; in an ordered list it stops at the first larger
  element.\<close>

primrec search_seq :: "(u64 \<Rightarrow> 'c \<Rightarrow> ('c \<times> int) option) \<Rightarrow> bool \<Rightarrow> u64 list \<Rightarrow> 'c \<Rightarrow> ('c \<times> u64) option" where
  "search_seq cmp ord [] ctx = Some (ctx, 0)"
| "search_seq cmp ord (x # xs) ctx = do {
     r \<leftarrow> cmp x ctx;
     if snd r = 0 then Some (fst r, x)
     else if ord \<and> 0 < snd r then Some (fst r, 0)
     else search_seq cmp ord xs (fst r)
   }"

lemma search_loop_list:
  assumes "is_list m h (xs @ ys)"
  shows "search_loop m h e ord cmp (hd (ys @ [h])) ctx = search_seq (\<lambda>x. cmp x e) ord ys ctx"
  using assms
proof (induction ys arbitrary: xs ctx)
  case Nil
  then show ?case by (simp add: search_loop.simps)
next
  case (Cons y ys)
  have "search_loop m h e ord cmp (hd (ys @ [h])) c = search_seq (\<lambda>x. cmp x e) ord ys c" for c
    using Cons.prems by (intro Cons.IH [of "xs @ [y]"]) simp_all
  then show ?case
    using is_list_not_head [OF Cons.prems] is_list_Flink [OF Cons.prems]
    by (cases "cmp y e ctx") (auto simp: search_loop.simps [of m h e ord cmp y])
qed

lemma ListSearchForElement_list:
  assumes "is_list m h xs" "e \<noteq> 0"
  shows "ListSearchForElement m h e ord (Some cmp) ctx = search_seq (\<lambda>x. cmp x e) ord xs ctx"
  using search_loop_list [of m h "[]" xs e ord cmp ctx] assms is_list_first [OF assms(1)]
    is_list_not_null [OF assms(1)]
  by (simp add: ListSearchForElement_def)

text \<open>The links of a list depend on its own entries only.\<close>

lemma is_list_frame:
  assumes "is_list m h xs" "\<And>q. q \<in> set (h # xs) \<Longrightarrow> m' q = m q"
  shows "is_list m' h xs"
proof -
  have "links m' (h # xs @ [h]) = links m (h # xs @ [h])"
    using assms(2) by (intro links_cong) (auto simp: get_Flink_def get_Blink_def dest!: in_set_butlastD)
  with assms(1) show ?thesis by (simp add: is_list_def ring_def)
qed

lemma is_list_Blink:
  assumes "is_list m h (us @ w # vs)"
  shows "get_Blink m w = Some (last (h # us))"
proof -
  obtain ps a where pa: "h # us = ps @ [a]" by (cases "h # us" rule: rev_cases) auto
  then have "ring m (ps @ a # w # (vs @ [h]))"
    using assms unfolding is_list_def by (metis append_Cons append_assoc append_Nil)
  then have "get_Blink m w = Some a" by (rule ring_links)
  then show ?thesis by (simp add: pa)
qed

text \<open>Insertion behind any entry of a list.\<close>

lemma InsertHeadList_after:
  assumes "is_list m h (us @ vs)" "e \<notin> set (h # us @ vs)" "e \<noteq> 0" "m e \<noteq> None"
  obtains m' where "InsertHeadList m (last (h # us)) e = Some m'" "is_list m' h (us @ e # vs)"
    "\<And>q. q \<notin> set (e # h # us @ vs) \<Longrightarrow> m' q = m q"
proof -
  obtain ps a where pa: "h # us = ps @ [a]" by (cases "h # us" rule: rev_cases) auto
  obtain b qs where bq: "vs @ [h] = b # qs" by (cases "vs @ [h]") auto
  have all: "h # (us @ vs) @ [h] = ps @ a # b # qs"
    using pa bq by (metis append_Cons append_assoc append_Nil)
  have r: "ring m (ps @ a # b # qs)" using assms(1) all by (simp only: is_list_def)
  have s: "set (ps @ a # b # qs) = set (h # us @ vs)" using all [symmetric] by auto
  have ab: "a \<in> set (ps @ a # b # qs)" "b \<in> set (ps @ a # b # qs)" by auto
  then have ne: "e \<noteq> a" "e \<noteq> b" using assms(2) s by metis+
  have eq: "InsertHeadList m a e = InsertTailList m b e"
    using ring_links [OF r] ne by (rule InsertHeadList_is_tail)
  have "e \<notin> set (ps @ a # b # qs)" using assms(2) s by metis
  then obtain m' where m': "InsertTailList m b e = Some m'" "ring m' (ps @ a # e # b # qs)"
    "\<And>q. q \<notin> {e, a, b} \<Longrightarrow> m' q = m q"
    using InsertTailList_ring [OF r, of e] assms(3,4) by blast
  have "h # (us @ e # vs) @ [h] = ps @ a # e # b # qs"
    using pa bq by (metis append_Cons append_assoc append_Nil)
  then have "is_list m' h (us @ e # vs)" using m'(2) by (simp only: is_list_def)
  moreover have "m' q = m q" if "q \<notin> set (e # h # us @ vs)" for q
  proof (rule m'(3))
    have "q \<noteq> e" "q \<notin> set (ps @ a # b # qs)" using that s by auto
    then show "q \<notin> {e, a, b}" using ab by blast
  qed
  moreover have "last (h # us) = a" using pa by simp
  ultimately show thesis using m'(1) eq by (intro that [of m']) simp_all
qed

section \<open>Iterators\<close>

text \<open>An iterator over \<open>ys\<close>, the entries that it has still to hand out.\<close>

definition iterates :: "list_mem \<Rightarrow> u64 \<Rightarrow> list_iterator \<Rightarrow> u64 list \<Rightarrow> bool" where
  "iterates m h it ys \<longleftrightarrow> it_ListHead it = h \<and> it_CurrentEntry it = hd (ys @ [h]) \<and>
     (\<exists>xs. is_list m h (xs @ ys))"

lemma ListIteratorInit_list:
  "is_list m h xs \<Longrightarrow> \<exists>it. ListIteratorInit m h = Some it \<and> iterates m h it xs"
  using is_list_first [of m h xs] is_list_not_null [of m h xs]
  by (auto simp: ListIteratorInit_def iterates_def intro: exI [of _ "[]"])

lemma ListIteratorNext_Nil: "iterates m h it [] \<Longrightarrow> ListIteratorNext m it = Some (it, 0)"
  by (simp add: iterates_def ListIteratorNext_def)

text \<open>The iterator has moved on when it hands an entry out, so the caller may remove that
  entry before it asks for the next one.\<close>

lemma ListIteratorNext_remove:
  assumes "is_list m h (xs @ y # ys)" "it_ListHead it = h" "it_CurrentEntry it = y"
  obtains it' m' e where "ListIteratorNext m it = Some (it', y)" "iterates m h it' ys"
    "RemoveEntryList m y = Some (m', e)" "is_list m' h (xs @ ys)" "iterates m' h it' ys"
    "\<And>q. q \<notin> set (h # xs @ ys) \<Longrightarrow> m' q = m q"
proof -
  let ?it = "it\<lparr>it_CurrentEntry := hd (ys @ [h])\<rparr>"
  obtain m' where m': "RemoveEntryList m y = Some (m', xs @ ys = [])" "is_list m' h (xs @ ys)"
    "\<And>q. q \<notin> set (h # xs @ ys) \<Longrightarrow> m' q = m q"
    using RemoveEntryList_list [OF assms(1)] by blast
  have "ListIteratorNext m it = Some (?it, y)"
    using assms is_list_not_head [OF assms(1)] is_list_Flink [OF assms(1)]
    by (simp add: ListIteratorNext_def)
  moreover have "iterates m h ?it ys"
    using assms by (auto simp: iterates_def intro: exI [of _ "xs @ [y]"])
  moreover have "iterates m' h ?it ys" using assms(2) m'(2) by (auto simp: iterates_def)
  ultimately show thesis using m' by (intro that [of ?it m' "xs @ ys = []"]) simp_all
qed

section \<open>The list as a queue\<close>

definition list_room :: "u64 \<Rightarrow> list_mem \<Rightarrow> u64 \<Rightarrow> bool" where
  "list_room h m e \<longleftrightarrow> e \<noteq> 0 \<and> e \<noteq> h \<and> m e \<noteq> None"

text \<open>No operation unmaps an entry.\<close>

lemma set_mapped:
  "set_Flink m p v = Some m' \<Longrightarrow> m' q = None \<longleftrightarrow> m q = None"
  "set_Blink m p v = Some m' \<Longrightarrow> m' q = None \<longleftrightarrow> m q = None"
  by (auto simp: set_Flink_def set_Blink_def split: option.splits if_splits)

lemma ops_mapped:
  "InsertTailList m h e = Some m' \<Longrightarrow> m' q = None \<longleftrightarrow> m q = None"
  "RemoveHeadList m h = Some (m', x) \<Longrightarrow> m' q = None \<longleftrightarrow> m q = None"
  by (auto simp: InsertTailList_def RemoveHeadList_def bind_Some dest!: set_mapped [where q = q])

interpretation lq: fifo "\<lambda>m xs. is_list m h xs" "list_room h" "\<lambda>m e. InsertTailList m h e"
  "\<lambda>m. RemoveHeadList m h" for h
proof (unfold_locales, goal_cases)
  case (1 m xs e)
  then obtain m' where "InsertTailList m h e = Some m'" "is_list m' h (xs @ [e])"
    using InsertTailList_list [of m h xs e] by (auto simp: list_room_def)
  then show ?case using ops_mapped(1) [of m h e m'] by (auto simp: list_room_def simp del: not_None_eq)
next
  case (2 m x xs)
  then obtain m' where "RemoveHeadList m h = Some (m', x)" "is_list m' h xs"
    by (rule RemoveHeadList_list)
  then show ?case using ops_mapped(2) [of m h m' x] by (auto simp: list_room_def simp del: not_None_eq)
qed

section \<open>Properties\<close>

text \<open>C39: a list used with \<open>InsertTailList\<close> and \<open>RemoveHeadList\<close>, as the ready and waiting lists
  of the scheduler are, is a queue: over any run that takes nothing out of an empty list and
  inserts no entry twice, no operation faults and the entries leave in the order of their
  insertion.\<close>

theorem list_is_fifo:
  assumes "is_list m h []" "fifo_legal ops []"
    and "\<forall>a \<in> set (enqueued ops). a \<noteq> 0 \<and> a \<noteq> h \<and> m a \<noteq> None"
  shows "\<exists>m' out ys. fifo_run (\<lambda>m e. InsertTailList m h e) (\<lambda>m. RemoveHeadList m h) ops m
           = Some (m', out) \<and> enqueued ops = out @ ys"
  using assms lq.run_order [of m h ops] by (simp add: list_room_def)

definition sample_mem :: list_mem where
  "sample_mem = [0x10 \<mapsto> \<lparr>Flink = 0x10, Blink = 0x10\<rparr>, 0x20 \<mapsto> \<lparr>Flink = 0, Blink = 0\<rparr>,
                 0x30 \<mapsto> \<lparr>Flink = 0, Blink = 0\<rparr>, 0x40 \<mapsto> \<lparr>Flink = 0, Blink = 0\<rparr>]"

lemma sample_list: "is_list sample_mem 0x10 []"
  by (simp add: is_list_empty sample_mem_def get_Flink_def get_Blink_def)

lemma list_is_fifo_witness:
  "\<exists>m' out ys. fifo_run (\<lambda>m e. InsertTailList m 0x10 e) (\<lambda>m. RemoveHeadList m 0x10)
       [Enq 0x20, Enq 0x40, Deq, Enq 0x30, Deq] sample_mem = Some (m', out) \<and>
     enqueued [Enq 0x20, Enq 0x40, Deq, Enq 0x30, Deq] = out @ ys"
  by (rule list_is_fifo [OF sample_list]) (simp_all add: sample_mem_def)

text \<open>C40: the documented removal idiom is safe: when an iterator over the rest \<open>y # ys\<close> of a list
  hands \<open>y\<close> out, removing \<open>y\<close> leaves a well-formed list of exactly the other entries, changes no
  other address, and the iterator goes on with \<open>ys\<close>.\<close>

theorem remove_while_iterating:
  assumes "is_list m h (xs @ y # ys)" "it_ListHead it = h" "it_CurrentEntry it = y"
  shows "\<exists>it' m'. ListIteratorNext m it = Some (it', y) \<and>
           RemoveEntryList m y = Some (m', xs @ ys = []) \<and> is_list m' h (xs @ ys) \<and>
           iterates m' h it' ys \<and> (\<forall>q. q \<notin> set (h # xs @ ys) \<longrightarrow> m' q = m q)"
proof -
  obtain it' m' e where r: "ListIteratorNext m it = Some (it', y)"
    "RemoveEntryList m y = Some (m', e)" "is_list m' h (xs @ ys)" "iterates m' h it' ys"
    "\<And>q. q \<notin> set (h # xs @ ys) \<Longrightarrow> m' q = m q"
    using ListIteratorNext_remove [OF assms] by metis
  obtain m2 where "RemoveEntryList m y = Some (m2, xs @ ys = [])"
    using RemoveEntryList_list [OF assms(1)] by blast
  with r show ?thesis by auto
qed

definition sample_mem1 :: list_mem where
  "sample_mem1 = sample_mem(0x10 \<mapsto> \<lparr>Flink = 0x20, Blink = 0x30\<rparr>, 0x20 \<mapsto> \<lparr>Flink = 0x30, Blink = 0x10\<rparr>,
     0x30 \<mapsto> \<lparr>Flink = 0x10, Blink = 0x20\<rparr>)"

lemma sample_list1: "is_list sample_mem1 0x10 ([] @ 0x20 # [0x30])"
  by (simp add: is_list_def ring_def sample_mem1_def sample_mem_def get_Flink_def get_Blink_def)

lemma remove_while_iterating_witness:
  "\<exists>it' m'. ListIteratorNext sample_mem1 \<lparr>it_ListHead = 0x10, it_CurrentEntry = 0x20\<rparr> = Some (it', 0x20) \<and>
     RemoveEntryList sample_mem1 0x20 = Some (m', [] @ [0x30 :: u64] = []) \<and> is_list m' 0x10 ([] @ [0x30]) \<and>
     iterates m' 0x10 it' [0x30] \<and> (\<forall>q. q \<notin> set (0x10 # [] @ [0x30]) \<longrightarrow> m' q = sample_mem1 q)"
  by (rule remove_while_iterating [OF sample_list1]) simp_all

text \<open>\<open>InsertOrderedList\<close> keeps a list sorted by the keys that the comparison function
  compares, puts the new entry after the entries of equal key, and touches nothing but the
  entry and the list.\<close>

theorem insert_ordered_sorted:
  fixes key :: "u64 \<Rightarrow> int"
  assumes "is_list m h xs" "e \<notin> set (h # xs)" "e \<noteq> 0" "m e \<noteq> None" "sorted (map key xs)"
  shows "\<exists>m' us vs. InsertOrderedList m h e (\<lambda>a b. Some (key a - key b)) = Some m' \<and>
           is_list m' h (us @ e # vs) \<and> xs = us @ vs \<and> sorted (map key (us @ e # vs)) \<and>
           (\<forall>v \<in> set vs. key e < key v) \<and> (\<forall>q. q \<notin> set (e # h # xs) \<longrightarrow> m' q = m q)"
proof -
  let ?P = "\<lambda>x. 0 \<le> key e - key x"
  let ?us = "takeWhile ?P xs" and ?vs = "dropWhile ?P xs"
  obtain m' where m': "InsertOrderedList m h e (\<lambda>a b. Some (key a - key b)) = Some m'"
    "is_list m' h (?us @ e # ?vs)" "\<And>q. q \<notin> set (e # h # xs) \<Longrightarrow> m' q = m q"
    using InsertOrderedList_list [OF assms(1-4), of "\<lambda>a b. Some (key a - key b)" "\<lambda>x. key e - key x"]
    by auto
  have us: "\<forall>u \<in> set ?us. key u \<le> key e" by (auto dest: set_takeWhileD)
  have s: "sorted (map key (?us @ ?vs))" using assms(5) by simp
  have vs: "\<forall>v \<in> set ?vs. key e < key v"
  proof (cases ?vs)
    case (Cons w ws)
    then have "key e < key w" using hd_dropWhile [of ?P xs] by simp
    moreover have "\<forall>v \<in> set ?vs. key w \<le> key v"
      using s unfolding map_append sorted_append Cons by auto
    ultimately show ?thesis by fastforce
  next
    case Nil
    then show ?thesis by (simp only: set_simps ball_simps)
  qed
  have "sorted (map key us) \<Longrightarrow> sorted (map key vs) \<Longrightarrow> \<forall>u \<in> set us. key u \<le> key e \<Longrightarrow>
      \<forall>v \<in> set vs. key e < key v \<Longrightarrow> sorted (map key (us @ e # vs))" for us vs
    by (auto simp: sorted_append intro: less_imp_le) (meson less_imp_le order_trans)
  then have "sorted (map key (?us @ e # ?vs))"
    using s us vs unfolding map_append sorted_append by blast
  with m' vs show ?thesis by (intro exI [of _ m'] exI [of _ ?us] exI [of _ ?vs]) auto
qed

lemma insert_ordered_sorted_witness:
  "\<exists>m' us vs. InsertOrderedList sample_mem1 0x10 0x40 (\<lambda>a b. Some (uint a - uint b)) = Some m' \<and>
     is_list m' 0x10 (us @ 0x40 # vs) \<and> [0x20, 0x30] = us @ vs \<and> sorted (map uint (us @ 0x40 # vs)) \<and>
     (\<forall>v \<in> set vs. uint (0x40 :: u64) < uint v) \<and>
     (\<forall>q. q \<notin> set (0x40 # 0x10 # [0x20, 0x30]) \<longrightarrow> m' q = sample_mem1 q)"
  by (rule insert_ordered_sorted) (use sample_list1 in \<open>simp_all add: sample_mem1_def sample_mem_def\<close>)

text \<open>\<open>ForEachElementExecute\<close> calls the function on every entry in list order, each call on
  the state that the one before it left, and returns after the first failure when all must
  succeed; the function may change the store as long as the list stays as it is.\<close>

theorem for_each_in_order:
  assumes "is_list (fst st) h xs"
    and "\<And>y st st' s. y \<in> set xs \<Longrightarrow> is_list (fst st) h xs \<Longrightarrow> f y st = Some (st', s) \<Longrightarrow>
           is_list (fst st') h xs"
  shows "ForEachElementExecute st h (Some f) must = execute_all f must xs STATUS_SUCCESS st"
  using assms by (rule ForEachElementExecute_list)

lemma for_each_in_order_witness:
  "ForEachElementExecute (sample_mem1, 0 :: u64) 0x10 (Some (\<lambda>y (m, n). Some ((m, n + y), 0))) True
   = execute_all (\<lambda>y (m, n). Some ((m, n + y), 0)) True [0x20, 0x30] STATUS_SUCCESS (sample_mem1, 0)"
  by (rule for_each_in_order) (use sample_list1 in auto)

end
