(* ===== verification/CL_HashTable.thy ===== *)
theory CL_HashTable
  imports CL_Memory CL_List
begin

text \<open>
  \<open>CommonLib/src/hash_table.c\<close>: the chained hash table that keeps, for example, the open
  handles of a process. A bucket is a list of \<open>list.c\<close> sorted by key, where keys are byte
  strings compared by \<open>cl_rmemcmp\<close>. The key bytes live in a byte memory (the operations
  only read it); the links live in the store of \<open>CL_List\<close>. The hash function is a field of
  the table, as in the code; the two that the code provides are modelled.

  The abstraction \<open>ht_map\<close> sends a key to its entry. Insertion, lookup and removal are shown
  to be update, lookup and deletion on that map, for any hash function that is a function of
  the key bytes.
\<close>

section \<open>State and operations\<close>

type_synonym byte_mem = "u64 \<Rightarrow> u8 option"

fun read_bytes :: "byte_mem \<Rightarrow> u64 \<Rightarrow> nat \<Rightarrow> u8 list option" where
  "read_bytes km a 0 = Some []"
| "read_bytes km a (Suc n) = do { b \<leftarrow> km a; bs \<leftarrow> read_bytes km (a + 1) n; Some (b # bs) }"

record hash_table =
  MaxKeys :: u32
  KeySize :: u32
  NumberOfElements :: u32
  OffsetToKey :: u32
  HashFunc :: "byte_mem \<Rightarrow> u64 \<Rightarrow> u32 \<Rightarrow> u32 \<Rightarrow> u64 option"
  TableData :: u64

text \<open>The address of \<open>TableData->Entries[i]\<close>: a \<open>LIST_ENTRY\<close> has 16 bytes.\<close>

definition Entries :: "hash_table \<Rightarrow> u64 \<Rightarrow> u64" where
  "Entries ht i = TableData ht + 16 * i"

definition HashTableObtainKeyAddress :: "hash_table \<Rightarrow> u64 \<Rightarrow> u64 option" where
  "HashTableObtainKeyAddress ht Element = do {
     ASSERT (Element \<noteq> 0);
     Some (Element + scast (OffsetToKey ht))
   }"

text \<open>\<open>HASH_ELEM_SEARCH_CTX\<close>.\<close>

record search_ctx =
  PlaceholderEntry :: u64
  Result :: int

definition HashTableSearchElem ::
  "byte_mem \<Rightarrow> hash_table \<Rightarrow> u64 \<Rightarrow> u64 \<Rightarrow> search_ctx \<Rightarrow> (search_ctx \<times> int) option" where
  "HashTableSearchElem km ht FirstElem SecondElem ctx = do {
     ASSERT (FirstElem \<noteq> 0);
     ASSERT (SecondElem \<noteq> 0);
     a \<leftarrow> HashTableObtainKeyAddress ht FirstElem;
     k1 \<leftarrow> read_bytes km a (unat (KeySize ht));
     k2 \<leftarrow> read_bytes km SecondElem (unat (KeySize ht));
     r \<leftarrow> cl_rmemcmp (Some k1) (Some k2) (KeySize ht);
     Some (\<lparr>PlaceholderEntry = FirstElem, Result = r\<rparr>, r)
   }"

definition HashTableSearchKeyInBucket ::
  "byte_mem \<Rightarrow> list_mem \<Rightarrow> hash_table \<Rightarrow> u64 \<Rightarrow> u64 \<Rightarrow> (bool \<times> u64) option" where
  "HashTableSearchKeyInBucket km m ht Bucket Key = do {
     ASSERT (Bucket \<noteq> 0);
     ASSERT (Key \<noteq> 0);
     r \<leftarrow> ListSearchForElement m Bucket Key True (Some (HashTableSearchElem km ht))
            \<lparr>PlaceholderEntry = Bucket, Result = 0\<rparr>;
     ASSERT (snd r \<noteq> 0 \<longrightarrow> snd r = PlaceholderEntry (fst r));
     ASSERT (snd r \<noteq> 0 \<longrightarrow> Result (fst r) = 0);
     p \<leftarrow> (if 0 < Result (fst r) then get_Blink m (PlaceholderEntry (fst r))
           else Some (PlaceholderEntry (fst r)));
     Some (snd r \<noteq> 0, p)
   }"

text \<open>\<open>MAX_DWORD / sizeof(HASH_ENTRY)\<close> is 0x0FFFFFFF.\<close>

definition HashTablePreinit ::
  "u32 \<Rightarrow> u32 \<Rightarrow> (byte_mem \<Rightarrow> u64 \<Rightarrow> u32 \<Rightarrow> u32 \<Rightarrow> u64 option) \<Rightarrow> (hash_table \<times> u32) option" where
  "HashTablePreinit maxKeys keySize nullFunc = do {
     ASSERT (0 < maxKeys \<and> maxKeys < 0xFFFFFFFF div 16);
     Some (\<lparr>MaxKeys = maxKeys, KeySize = keySize, NumberOfElements = 0, OffsetToKey = 0,
            HashFunc = nullFunc, TableData = 0\<rparr>, maxKeys * 16)
   }"

definition HashTableInit ::
  "list_mem \<Rightarrow> hash_table \<Rightarrow> u64 \<Rightarrow> (byte_mem \<Rightarrow> u64 \<Rightarrow> u32 \<Rightarrow> u32 \<Rightarrow> u64 option) option \<Rightarrow> u32 \<Rightarrow>
   (list_mem \<times> hash_table) option" where
  "HashTableInit m ht tableData HashFunction offsetToKey = do {
     ASSERT (tableData \<noteq> 0);
     f \<leftarrow> HashFunction;
     let ht' = ht\<lparr>TableData := tableData, HashFunc := f, OffsetToKey := offsetToKey\<rparr>;
     m' \<leftarrow> for_upto 0 (unat (MaxKeys ht)) (\<lambda>i m. InitializeListHead m (Entries ht' (of_nat i))) m;
     Some (m', ht')
   }"

definition HashTableSize :: "hash_table \<Rightarrow> u32" where
  "HashTableSize ht = NumberOfElements ht"

definition HashTableRemoveEntry ::
  "list_mem \<Rightarrow> hash_table \<Rightarrow> u64 \<Rightarrow> (list_mem \<times> hash_table) option" where
  "HashTableRemoveEntry m ht Element = do {
     ASSERT (Element \<noteq> 0);
     r \<leftarrow> RemoveEntryList m Element;
     Some (fst r, ht\<lparr>NumberOfElements := NumberOfElements ht - 1\<rparr>)
   }"

definition HashTableInsert ::
  "byte_mem \<Rightarrow> list_mem \<Rightarrow> hash_table \<Rightarrow> u64 \<Rightarrow> (list_mem \<times> hash_table \<times> u64) option" where
  "HashTableInsert km m ht Element = do {
     ASSERT (Element \<noteq> 0);
     pKey \<leftarrow> HashTableObtainKeyAddress ht Element;
     hIndex \<leftarrow> HashFunc ht km pKey (KeySize ht) (MaxKeys ht);
     ASSERT (hIndex < ucast (MaxKeys ht));
     s \<leftarrow> HashTableSearchKeyInBucket km m ht (Entries ht hIndex) pKey;
     m1 \<leftarrow> InsertHeadList m (snd s) Element;
     if fst s then do {
       r \<leftarrow> RemoveEntryList m1 (snd s);
       Some (fst r, ht, snd s)
     }
     else Some (m1, ht\<lparr>NumberOfElements := NumberOfElements ht + 1\<rparr>, 0)
   }"

definition HashTableLookup :: "byte_mem \<Rightarrow> list_mem \<Rightarrow> hash_table \<Rightarrow> u64 \<Rightarrow> u64 option" where
  "HashTableLookup km m ht Key = do {
     ASSERT (Key \<noteq> 0);
     hIndex \<leftarrow> HashFunc ht km Key (KeySize ht) (MaxKeys ht);
     s \<leftarrow> HashTableSearchKeyInBucket km m ht (Entries ht hIndex) Key;
     Some (if fst s then snd s else 0)
   }"

definition HashTableRemove ::
  "byte_mem \<Rightarrow> list_mem \<Rightarrow> hash_table \<Rightarrow> u64 \<Rightarrow> (list_mem \<times> hash_table \<times> u64) option" where
  "HashTableRemove km m ht Key = do {
     ASSERT (Key \<noteq> 0);
     e \<leftarrow> HashTableLookup km m ht Key;
     if e \<noteq> 0 then do {
       r \<leftarrow> HashTableRemoveEntry m ht e;
       Some (fst r, snd r, e)
     }
     else Some (m, ht, e)
   }"

record hash_iterator =
  KeyIndex :: u32
  CurrentKeyIterator :: list_iterator

definition HashTableIteratorInit :: "list_mem \<Rightarrow> hash_table \<Rightarrow> hash_iterator option" where
  "HashTableIteratorInit m ht = do {
     li \<leftarrow> ListIteratorInit m (Entries ht 0);
     Some \<lparr>KeyIndex = 0, CurrentKeyIterator = li\<rparr>
   }"

text \<open>After the last bucket the loop initialises the list iterator once more, on
  \<open>Entries[MaxKeys]\<close>.\<close>

partial_function (option) HashTableIteratorNext ::
  "list_mem \<Rightarrow> hash_table \<Rightarrow> hash_iterator \<Rightarrow> (hash_iterator \<times> u64) option" where
  "HashTableIteratorNext m ht it =
     (if KeyIndex it < MaxKeys ht then do {
        r \<leftarrow> ListIteratorNext m (CurrentKeyIterator it);
        if snd r \<noteq> 0 then Some (it\<lparr>CurrentKeyIterator := fst r\<rparr>, snd r)
        else do {
          li \<leftarrow> ListIteratorInit m (Entries ht (ucast (KeyIndex it + 1)));
          HashTableIteratorNext m ht \<lparr>KeyIndex = KeyIndex it + 1, CurrentKeyIterator = li\<rparr>
        }
      }
      else Some (it, 0))"

partial_function (option) clear_loop ::
  "(u64 \<Rightarrow> list_mem \<Rightarrow> list_mem option) option \<Rightarrow> list_mem \<Rightarrow> hash_table \<Rightarrow> hash_iterator \<Rightarrow>
   (list_mem \<times> hash_table) option" where
  "clear_loop FreeFunction m ht it = do {
     r \<leftarrow> HashTableIteratorNext m ht it;
     if snd r \<noteq> 0 then do {
       s \<leftarrow> HashTableRemoveEntry m ht (snd r);
       m' \<leftarrow> (case FreeFunction of None \<Rightarrow> Some (fst s) | Some f \<Rightarrow> f (snd r) (fst s));
       clear_loop FreeFunction m' (snd s) (fst r)
     }
     else Some (m, ht)
   }"

text \<open>The loops are executable.\<close>

declare HashTableIteratorNext.simps [code]
declare clear_loop.simps [code]

definition HashTableClear ::
  "list_mem \<Rightarrow> hash_table \<Rightarrow> (u64 \<Rightarrow> list_mem \<Rightarrow> list_mem option) option \<Rightarrow> (list_mem \<times> hash_table) option" where
  "HashTableClear m ht FreeFunction = do {
     it \<leftarrow> HashTableIteratorInit m ht;
     clear_loop FreeFunction m ht it
   }"

text \<open>The two hash functions copy the key into a QWORD of the stack frame; the eight bytes of
  that variable end the modelled memory, so a longer key is a fault.\<close>

definition load_key :: "byte_mem \<Rightarrow> u64 \<Rightarrow> u32 \<Rightarrow> u64 option" where
  "load_key km Key KeyLength = do {
     ASSERT (Key \<noteq> 0);
     bs \<leftarrow> read_bytes km Key (unat KeyLength);
     mem \<leftarrow> cl_memcpy (bs @ replicate 8 0) (Some (length bs)) (Some 0) (ucast KeyLength);
     Some (of_nat (le_value (drop (length bs) mem)))
   }"

definition HashFuncGenericIncremental :: "byte_mem \<Rightarrow> u64 \<Rightarrow> u32 \<Rightarrow> u32 \<Rightarrow> u64 option" where
  "HashFuncGenericIncremental km Key KeyLength maxKeys = do {
     keyValue \<leftarrow> load_key km Key KeyLength;
     ASSERT (maxKeys \<noteq> 0);
     Some (keyValue mod ucast maxKeys)
   }"

abbreviation (input) HASH_UNIVERSAL_A :: u64 where "HASH_UNIVERSAL_A \<equiv> 1701"
abbreviation (input) HASH_UNIVERSAL_B :: u64 where "HASH_UNIVERSAL_B \<equiv> 59"
abbreviation (input) HASH_UNIVERSAL_P :: u64 where "HASH_UNIVERSAL_P \<equiv> 10007"

definition HashFuncUniversal :: "byte_mem \<Rightarrow> u64 \<Rightarrow> u32 \<Rightarrow> u32 \<Rightarrow> u64 option" where
  "HashFuncUniversal km Key KeyLength maxKeys = do {
     keyValue \<leftarrow> load_key km Key KeyLength;
     let result = keyValue mod HASH_UNIVERSAL_P;
     ASSERT (result < MAX_QWORD div HASH_UNIVERSAL_A - HASH_UNIVERSAL_B);
     ASSERT (maxKeys \<noteq> 0);
     Some ((HASH_UNIVERSAL_A * result + HASH_UNIVERSAL_B) mod HASH_UNIVERSAL_P mod ucast maxKeys)
   }"

section \<open>Hash functions\<close>

lemma length_read_bytes: "read_bytes km a n = Some bs \<Longrightarrow> length bs = n"
  by (induction n arbitrary: a bs) (auto simp: bind_Some)

text \<open>A usable hash function: total on readable keys, a function of the key bytes, in range.\<close>

definition hash_ok :: "hash_table \<Rightarrow> (u8 list \<Rightarrow> u64) \<Rightarrow> bool" where
  "hash_ok ht h \<longleftrightarrow> (\<forall>km a bs. a \<noteq> 0 \<longrightarrow> read_bytes km a (unat (KeySize ht)) = Some bs \<longrightarrow>
     HashFunc ht km a (KeySize ht) (MaxKeys ht) = Some (h bs) \<and> h bs < ucast (MaxKeys ht))"

lemma le_value_zeros [simp]: "le_value (bs @ replicate n 0) = le_value bs"
proof -
  have "le_value (replicate n 0) = 0" by (induction n) auto
  then show ?thesis by (simp add: le_value_append)
qed

lemma load_key_run:
  assumes "a \<noteq> 0" "read_bytes km a (unat n) = Some bs" "n \<le> 8"
  shows "load_key km a n = Some (of_nat (le_value bs))"
proof -
  have l: "length bs = unat n" using assms(2) by (rule length_read_bytes)
  have n: "unat (ucast n :: u64) = unat n" by (rule unat_ucast_up)
  have le: "unat n \<le> 8" using assms(3) by (simp add: word_le_nat_alt)
  have "cl_memcpy (bs @ replicate 8 0) (Some (length bs)) (Some 0) (ucast n)
        = Some (blit (bs @ replicate 8 0) (length bs) 0 (unat n))"
    using cl_memcpy_copies [of 0 "ucast n" "bs @ replicate 8 0" "length bs"] n l le by simp
  moreover have "drop (length bs) (blit (bs @ replicate 8 0) (length bs) 0 (unat n))
        = bs @ replicate (8 - unat n) 0"
    using l by (simp add: blit_def)
  ultimately show ?thesis using assms(1,2) by (simp add: load_key_def)
qed

lemma ucast_max_pos: "n \<noteq> 0 \<Longrightarrow> (0 :: u64) < ucast (n :: u32)"
  by (simp add: word_less_nat_alt unat_ucast_up unat_gt_0)

lemma hash_ok_incremental:
  assumes "HashFunc ht = HashFuncGenericIncremental" "KeySize ht \<le> 8" "MaxKeys ht \<noteq> 0"
  shows "hash_ok ht (\<lambda>bs. of_nat (le_value bs) mod ucast (MaxKeys ht))"
  using assms ucast_max_pos [OF assms(3)]
  by (auto simp: hash_ok_def HashFuncGenericIncremental_def load_key_run word_mod_less_divisor)

lemma hash_ok_universal:
  assumes "HashFunc ht = HashFuncUniversal" "KeySize ht \<le> 8" "MaxKeys ht \<noteq> 0"
  shows "hash_ok ht (\<lambda>bs. (HASH_UNIVERSAL_A * (of_nat (le_value bs) mod HASH_UNIVERSAL_P) + HASH_UNIVERSAL_B)
           mod HASH_UNIVERSAL_P mod ucast (MaxKeys ht))"
proof -
  have "x mod HASH_UNIVERSAL_P < MAX_QWORD div HASH_UNIVERSAL_A - HASH_UNIVERSAL_B" for x
  proof -
    have "x mod HASH_UNIVERSAL_P < HASH_UNIVERSAL_P" by (rule word_mod_less_divisor) simp
    also have "HASH_UNIVERSAL_P \<le> MAX_QWORD div HASH_UNIVERSAL_A - HASH_UNIVERSAL_B" by simp
    finally show ?thesis .
  qed
  then show ?thesis
    using assms ucast_max_pos [OF assms(3)]
    by (simp add: hash_ok_def HashFuncUniversal_def load_key_run word_mod_less_divisor Let_def)
qed

section \<open>Searching a bucket\<close>

text \<open>The key of an entry, as bytes and as the number that the order of a bucket compares.\<close>

definition key_of :: "byte_mem \<Rightarrow> hash_table \<Rightarrow> u64 \<Rightarrow> u8 list option" where
  "key_of km ht e = read_bytes km (e + scast (OffsetToKey ht)) (unat (KeySize ht))"

definition key_num :: "byte_mem \<Rightarrow> hash_table \<Rightarrow> u64 \<Rightarrow> nat" where
  "key_num km ht e = le_value (the (key_of km ht e))"

lemma SearchElem_run:
  assumes "e \<noteq> 0" "key_of km ht e = Some ke" "Key \<noteq> 0"
    and "read_bytes km Key (unat (KeySize ht)) = Some k" "0 < KeySize ht"
  shows "\<exists>r. HashTableSearchElem km ht e Key ctx = Some (\<lparr>PlaceholderEntry = e, Result = r\<rparr>, r) \<and>
           orders r (key_num km ht e) (le_value k)"
proof -
  have l: "length ke = unat (KeySize ht)" "length k = unat (KeySize ht)"
    using assms(2,4) by (auto simp: key_of_def dest: length_read_bytes)
  then obtain r where "cl_rmemcmp (Some ke) (Some k) (KeySize ht) = Some r"
    "orders r (le_value ke) (le_value k)"
    using cl_rmemcmp_little_endian [OF assms(5), of ke k] by auto
  then show ?thesis
    using assms
    by (simp add: HashTableSearchElem_def HashTableObtainKeyAddress_def key_of_def key_num_def)
qed

text \<open>The search of a sorted bucket for the number \<open>n\<close>: which entry it ends on and with which
  sign. \<open>us\<close> are the entries below \<open>n\<close>.\<close>

lemma search_bucket_seq:
  assumes keys: "\<And>e. e \<in> set (us @ vs) \<Longrightarrow> e \<noteq> 0 \<and> key_of km ht e \<noteq> None"
    and key: "Key \<noteq> 0" "read_bytes km Key (unat (KeySize ht)) = Some k" "0 < KeySize ht"
    and us: "\<And>u. u \<in> set us \<Longrightarrow> key_num km ht u < le_value k"
    and vs: "\<And>w ws. vs = w # ws \<Longrightarrow> le_value k \<le> key_num km ht w"
    and res: "res \<le> 0"
  shows "\<exists>r. r \<le> 0 \<and> search_seq (\<lambda>x. HashTableSearchElem km ht x Key) True (us @ vs)
           \<lparr>PlaceholderEntry = p, Result = res\<rparr> =
         (case vs of [] \<Rightarrow> Some (\<lparr>PlaceholderEntry = last (p # us), Result = r\<rparr>, 0)
          | w # ws \<Rightarrow>
              if key_num km ht w = le_value k then Some (\<lparr>PlaceholderEntry = w, Result = 0\<rparr>, w)
              else Some (\<lparr>PlaceholderEntry = w, Result = 1 - r\<rparr>, 0))"
  using keys us res
proof (induction us arbitrary: p res)
  case Nil
  show ?case
  proof (cases vs)
    case Nil
    with \<open>res \<le> 0\<close> show ?thesis by auto
  next
    case (Cons w ws)
    then have w: "w \<noteq> 0" "\<exists>kw. key_of km ht w = Some kw" using Nil.prems(1)[of w] by auto
    then obtain kw where kw: "key_of km ht w = Some kw" by blast
    obtain r where r: "HashTableSearchElem km ht w Key \<lparr>PlaceholderEntry = p, Result = res\<rparr>
        = Some (\<lparr>PlaceholderEntry = w, Result = r\<rparr>, r)" "orders r (key_num km ht w) (le_value k)"
      using SearchElem_run [OF w(1) kw key] by blast
    have "0 \<le> r" using r(2) vs [OF Cons] by (auto simp: orders_def)
    moreover have "r = 0 \<longleftrightarrow> key_num km ht w = le_value k" using orders_zero [OF r(2)] .
    ultimately show ?thesis
      using Cons r(1) by (intro exI [of _ "if r = 0 then 0 else 1 - r"]) auto
  qed
next
  case (Cons u us)
  then have u: "u \<noteq> 0" "\<exists>ku. key_of km ht u = Some ku" using Cons.prems(1)[of u] by auto
  then obtain ku where ku: "key_of km ht u = Some ku" by blast
  obtain r where r: "HashTableSearchElem km ht u Key \<lparr>PlaceholderEntry = p, Result = res\<rparr>
      = Some (\<lparr>PlaceholderEntry = u, Result = r\<rparr>, r)" "orders r (key_num km ht u) (le_value k)"
    using SearchElem_run [OF u(1) ku key] by blast
  have neg: "r < 0" using r(2) Cons.prems(2) [of u] by (auto simp: orders_def)
  then have s: "search_seq (\<lambda>x. HashTableSearchElem km ht x Key) True ((u # us) @ vs)
        \<lparr>PlaceholderEntry = p, Result = res\<rparr>
      = search_seq (\<lambda>x. HashTableSearchElem km ht x Key) True (us @ vs)
        \<lparr>PlaceholderEntry = u, Result = r\<rparr>"
    using r(1) by simp
  have l: "last (p # u # us) = last (u # us)" by simp
  have "r \<le> 0" using neg by simp
  then show ?case
    unfolding s l using Cons.prems(1,2) by (intro Cons.IH) simp_all
qed

lemma SearchKeyInBucket_run:
  assumes l: "is_list m B (us @ vs)"
    and keys: "\<And>e. e \<in> set (us @ vs) \<Longrightarrow> key_of km ht e \<noteq> None"
    and key: "Key \<noteq> 0" "read_bytes km Key (unat (KeySize ht)) = Some k" "0 < KeySize ht"
    and us: "\<And>u. u \<in> set us \<Longrightarrow> key_num km ht u < le_value k"
    and vs: "\<And>w ws. vs = w # ws \<Longrightarrow> le_value k \<le> key_num km ht w"
  shows "HashTableSearchKeyInBucket km m ht B Key =
    Some (case vs of w # ws \<Rightarrow> if key_num km ht w = le_value k then (True, w) else (False, last (B # us))
          | [] \<Rightarrow> (False, last (B # us)))"
proof -
  have nz: "e \<noteq> 0" if "e \<in> set (B # us @ vs)" for e
    using is_list_not_null [OF l] that by metis
  let ?S = "search_seq (\<lambda>x. HashTableSearchElem km ht x Key) True (us @ vs) \<lparr>PlaceholderEntry = B, Result = 0\<rparr>"
  have S: "ListSearchForElement m B Key True (Some (HashTableSearchElem km ht))
        \<lparr>PlaceholderEntry = B, Result = 0\<rparr> = ?S"
    by (rule ListSearchForElement_list [OF l key(1)])
  obtain r where r: "r \<le> 0" "?S = (case vs of [] \<Rightarrow> Some (\<lparr>PlaceholderEntry = last (B # us), Result = r\<rparr>, 0)
          | w # ws \<Rightarrow>
              if key_num km ht w = le_value k then Some (\<lparr>PlaceholderEntry = w, Result = 0\<rparr>, w)
              else Some (\<lparr>PlaceholderEntry = w, Result = 1 - r\<rparr>, 0))"
    using search_bucket_seq [where us = us and vs = vs and km = km and ht = ht and Key = Key and k = k
        and p = B and res = 0] nz keys key us vs by fastforce
  have b: "B \<noteq> 0" using nz by simp
  show ?thesis
  proof (cases vs)
    case Nil
    then show ?thesis
      using S r b key(1) by (simp add: HashTableSearchKeyInBucket_def)
  next
    case (Cons w ws)
    have w0: "w \<noteq> 0" using nz Cons by simp
    have "get_Blink m w = Some (last (B # us))"
      using is_list_Blink [of m B us w ws] l Cons by simp
    then show ?thesis
      using Cons S r b w0 key(1) by (auto simp: HashTableSearchKeyInBucket_def)
  qed
qed

section \<open>The table\<close>

text \<open>\<open>bs\<close> are the buckets. Entries of different buckets do not share memory, each is sorted by
  key and holds only keys of its hash value.\<close>

definition bucket_ok ::
  "byte_mem \<Rightarrow> list_mem \<Rightarrow> hash_table \<Rightarrow> (u8 list \<Rightarrow> u64) \<Rightarrow> nat \<Rightarrow> u64 list \<Rightarrow> bool" where
  "bucket_ok km m ht h i xs \<longleftrightarrow> is_list m (Entries ht (of_nat i)) xs \<and>
     sorted_wrt (\<lambda>x y. key_num km ht x < key_num km ht y) xs \<and>
     (\<forall>e \<in> set xs. \<exists>k. key_of km ht e = Some k \<and> unat (h k) = i \<and> e + scast (OffsetToKey ht) \<noteq> 0)"

definition nodes :: "hash_table \<Rightarrow> u64 list list \<Rightarrow> nat \<Rightarrow> u64 set" where
  "nodes ht bs i = insert (Entries ht (of_nat i)) (set (bs ! i))"

definition ht_ok ::
  "byte_mem \<Rightarrow> list_mem \<Rightarrow> hash_table \<Rightarrow> (u8 list \<Rightarrow> u64) \<Rightarrow> u64 list list \<Rightarrow> bool" where
  "ht_ok km m ht h bs \<longleftrightarrow> length bs = unat (MaxKeys ht) \<and> 0 < KeySize ht \<and> hash_ok ht h \<and>
     NumberOfElements ht = of_nat (length (concat bs)) \<and>
     (\<forall>i < length bs. bucket_ok km m ht h i (bs ! i)) \<and>
     (\<forall>i < length bs. \<forall>j < length bs. i \<noteq> j \<longrightarrow> nodes ht bs i \<inter> nodes ht bs j = {})"

text \<open>The map that the table represents, from key bytes to entries.\<close>

definition ht_map :: "byte_mem \<Rightarrow> hash_table \<Rightarrow> u64 list list \<Rightarrow> u8 list \<Rightarrow> u64 option" where
  "ht_map km ht bs k = List.find (\<lambda>e. key_of km ht e = Some k) (concat bs)"

lemma bucket_key_inj:
  assumes "key_of km ht x = Some k" "key_of km ht y = Some k'"
  shows "key_num km ht x = key_num km ht y \<longleftrightarrow> k = k'"
proof -
  have "length k = length k'" using assms by (auto simp: key_of_def dest!: length_read_bytes)
  then show ?thesis using assms by (simp add: key_num_def le_value_inj)
qed

lemma find_None: "\<forall>x \<in> set xs. \<not> P x \<Longrightarrow> List.find P xs = None"
  by (induction xs) auto

lemma find_append: "List.find P (xs @ ys) = (case List.find P xs of None \<Rightarrow> List.find P ys | Some x \<Rightarrow> Some x)"
  by (induction xs) auto

text \<open>Only the bucket of the hash value can hold a key.\<close>

lemma find_concat:
  assumes "i < length bs" "\<And>j e. j < length bs \<Longrightarrow> j \<noteq> i \<Longrightarrow> e \<in> set (bs ! j) \<Longrightarrow> \<not> P e"
  shows "List.find P (concat bs) = List.find P (bs ! i)"
proof -
  have s: "bs = take i bs @ bs ! i # drop (Suc i) bs" using assms(1) by (rule id_take_nth_drop)
  have "\<not> P e" if "e \<in> set (concat (take i bs))" for e
    using that assms by (auto simp: in_set_conv_nth) (metis in_set_conv_nth less_trans nat_neq_iff)
  then have a: "List.find P (concat (take i bs)) = None" by (intro find_None) blast
  have "\<not> P e" if e: "e \<in> set (concat (drop (Suc i) bs))" for e
  proof -
    obtain xs where xs: "xs \<in> set (drop (Suc i) bs)" "e \<in> set xs" using e by auto
    then obtain q where q: "q < length (drop (Suc i) bs)" "drop (Suc i) bs ! q = xs"
      by (auto simp: in_set_conv_nth)
    then have "bs ! (Suc i + q) = xs" "Suc i + q < length bs" by auto
    with xs(2) assms(2) [of "Suc i + q" e] show ?thesis by auto
  qed
  then have b: "List.find P (concat (drop (Suc i) bs)) = None" by (intro find_None) blast
  have "concat bs = concat (take i bs) @ bs ! i @ concat (drop (Suc i) bs)"
    by (subst s) simp
  with a b show ?thesis by (simp add: find_append split: option.splits)
qed

lemma ht_map_bucket:
  assumes "ht_ok km m ht h bs" "i < length bs" "unat (h k) = i"
  shows "ht_map km ht bs k = List.find (\<lambda>e. key_of km ht e = Some k) (bs ! i)"
  unfolding ht_map_def
proof (rule find_concat [OF assms(2)])
  fix j e assume j: "j < length bs" "j \<noteq> i" and e: "e \<in> set (bs ! j)"
  have "bucket_ok km m ht h j (bs ! j)" using assms(1) j(1) by (simp add: ht_ok_def)
  then obtain k' where "key_of km ht e = Some k'" "unat (h k') = j"
    using e by (auto simp: bucket_ok_def)
  with assms(3) j(2) show "\<not> key_of km ht e = Some k" by auto
qed

lemma hash_index:
  assumes "ht_ok km m ht h bs" "Key \<noteq> 0" "read_bytes km Key (unat (KeySize ht)) = Some k"
  shows "HashFunc ht km Key (KeySize ht) (MaxKeys ht) = Some (h k)" "h k < ucast (MaxKeys ht)"
    "unat (h k) < length bs" "(of_nat (unat (h k)) :: u64) = h k"
proof -
  show f: "HashFunc ht km Key (KeySize ht) (MaxKeys ht) = Some (h k)" "h k < ucast (MaxKeys ht)"
    using assms by (auto simp: ht_ok_def hash_ok_def)
  then show "unat (h k) < length bs"
    using assms(1) by (simp add: ht_ok_def word_less_nat_alt unat_ucast_up)
  show "(of_nat (unat (h k)) :: u64) = h k" by simp
qed

text \<open>The bucket of a key, cut at the place of the key.\<close>

lemma bucket_cut:
  assumes "bucket_ok km m ht h i xs"
  obtains us vs where "xs = us @ vs" "\<And>u. u \<in> set us \<Longrightarrow> key_num km ht u < n"
    "\<And>w ws. vs = w # ws \<Longrightarrow> n \<le> key_num km ht w"
    "\<And>w ws v. vs = w # ws \<Longrightarrow> v \<in> set ws \<Longrightarrow> n < key_num km ht v"
    "\<And>u v. u \<in> set us \<Longrightarrow> v \<in> set vs \<Longrightarrow> key_num km ht u < key_num km ht v"
proof -
  let ?P = "\<lambda>e. key_num km ht e < n"
  let ?us = "takeWhile ?P xs" and ?vs = "dropWhile ?P xs"
  have s: "sorted_wrt (\<lambda>x y. key_num km ht x < key_num km ht y) (?us @ ?vs)"
    using assms by (simp add: bucket_ok_def)
  have w: "n \<le> key_num km ht w" if "?vs = w # ws" for w ws
    using that hd_dropWhile [of ?P xs] by simp
  moreover have "n < key_num km ht v" if "?vs = w # ws" "v \<in> set ws" for w ws v
    using s that(2) w [OF that(1)] unfolding sorted_wrt_append that(1) by fastforce
  moreover have "key_num km ht u < key_num km ht v" if "u \<in> set ?us" "v \<in> set ?vs" for u v
    using s that unfolding sorted_wrt_append by blast
  ultimately show thesis by (intro that [of ?us ?vs]) (auto dest: set_takeWhileD)
qed

text \<open>The outcome of every search: found as the first of the upper part, or not in the bucket.\<close>

lemma search_outcome:
  assumes ok: "ht_ok km m ht h bs" and key: "Key \<noteq> 0" "read_bytes km Key (unat (KeySize ht)) = Some k"
  obtains us vs where "bs ! unat (h k) = us @ vs"
    "\<forall>u \<in> set us. key_num km ht u < le_value k"
    "case ht_map km ht bs k of
       Some e \<Rightarrow> (\<exists>ws. vs = e # ws \<and> key_of km ht e = Some k \<and> (\<forall>v \<in> set ws. le_value k < key_num km ht v)) \<and>
         HashTableSearchKeyInBucket km m ht (Entries ht (h k)) Key = Some (True, e)
     | None \<Rightarrow> (\<forall>v \<in> set vs. le_value k < key_num km ht v) \<and>
         HashTableSearchKeyInBucket km m ht (Entries ht (h k)) Key
           = Some (False, last (Entries ht (h k) # us))"
proof -
  define i where "i = unat (h k)"
  note hi = hash_index [OF ok key]
  have i: "i < length bs" using hi(3) by (simp add: i_def)
  have b: "bucket_ok km m ht h i (bs ! i)" using ok i by (simp add: ht_ok_def)
  obtain us vs where uv: "bs ! i = us @ vs" "\<And>u. u \<in> set us \<Longrightarrow> key_num km ht u < le_value k"
    "\<And>w ws. vs = w # ws \<Longrightarrow> le_value k \<le> key_num km ht w"
    "\<And>w ws v. vs = w # ws \<Longrightarrow> v \<in> set ws \<Longrightarrow> le_value k < key_num km ht v"
    "\<And>u v. u \<in> set us \<Longrightarrow> v \<in> set vs \<Longrightarrow> key_num km ht u < key_num km ht v"
    using bucket_cut [OF b, of "le_value k"] by blast
  have lst: "is_list m (Entries ht (h k)) (us @ vs)"
    using b uv(1) hi(4) by (simp add: bucket_ok_def i_def)
  have ks: "key_of km ht e \<noteq> None" if "e \<in> set (us @ vs)" for e
    using b uv(1) that by (auto simp: bucket_ok_def)
  have ksz: "0 < KeySize ht" using ok by (simp add: ht_ok_def)
  note srch = SearchKeyInBucket_run [OF lst ks key ksz uv(2,3)]
  have kk: "key_of km ht e = Some k \<longleftrightarrow> key_num km ht e = le_value k" if e: "e \<in> set (us @ vs)" for e
  proof -
    obtain ke where ke: "key_of km ht e = Some ke" using ks [OF e] by auto
    then have "length ke = length k" using key(2) by (auto simp: key_of_def dest!: length_read_bytes)
    then show ?thesis using ke by (auto simp: key_num_def le_value_inj)
  qed
  have m: "ht_map km ht bs k = List.find (\<lambda>e. key_of km ht e = Some k) (us @ vs)"
    using ht_map_bucket [OF ok i] uv(1) by (simp add: i_def)
  have u0: "List.find (\<lambda>e. key_of km ht e = Some k) us = None"
    using uv(2) kk by (intro find_None) fastforce
  have v0: "List.find (\<lambda>e. key_of km ht e = Some k) ws = None" if "vs = w # ws" for w ws
    using uv(4) [OF that] kk that by (intro find_None) fastforce
  show thesis
  proof (rule that [of us vs])
    show "bs ! unat (h k) = us @ vs" using uv(1) by (simp add: i_def)
    show "case ht_map km ht bs k of
       Some e \<Rightarrow> (\<exists>ws. vs = e # ws \<and> key_of km ht e = Some k \<and> (\<forall>v \<in> set ws. le_value k < key_num km ht v)) \<and>
         HashTableSearchKeyInBucket km m ht (Entries ht (h k)) Key = Some (True, e)
     | None \<Rightarrow> (\<forall>v \<in> set vs. le_value k < key_num km ht v) \<and>
         HashTableSearchKeyInBucket km m ht (Entries ht (h k)) Key
           = Some (False, last (Entries ht (h k) # us))"
    proof (cases vs)
      case Nil
      then show ?thesis using srch m u0 by simp
    next
      case (Cons w ws)
      have kw: "key_of km ht w = Some k \<longleftrightarrow> key_num km ht w = le_value k" using kk Cons by simp
      show ?thesis
      proof (cases "key_num km ht w = le_value k")
        case True
        then have "ht_map km ht bs k = Some w" using m u0 kw Cons by (simp add: find_append)
        with True kw Cons srch uv(4) show ?thesis by simp
      next
        case False
        then have "ht_map km ht bs k = None" using m u0 kw v0 [OF Cons] Cons by (simp add: find_append)
        moreover have "le_value k < key_num km ht w" using False uv(3) [OF Cons] by simp
        ultimately show ?thesis using False Cons srch uv(4) by simp
      qed
    qed
  qed (use uv in blast)+
qed

section \<open>Lookup\<close>

lemma HashTableLookup_run:
  assumes "ht_ok km m ht h bs" "Key \<noteq> 0" "read_bytes km Key (unat (KeySize ht)) = Some k"
  shows "HashTableLookup km m ht Key = Some (case ht_map km ht bs k of None \<Rightarrow> 0 | Some e \<Rightarrow> e)"
proof -
  note hi = hash_index [OF assms]
  obtain us vs where "case ht_map km ht bs k of
       Some e \<Rightarrow> (\<exists>ws. vs = e # ws \<and> key_of km ht e = Some k \<and> (\<forall>v \<in> set ws. le_value k < key_num km ht v)) \<and>
         HashTableSearchKeyInBucket km m ht (Entries ht (h k)) Key = Some (True, e)
     | None \<Rightarrow> (\<forall>v \<in> set vs. le_value k < key_num km ht v) \<and>
         HashTableSearchKeyInBucket km m ht (Entries ht (h k)) Key
           = Some (False, last (Entries ht (h k) # us))"
    by (rule search_outcome [OF assms])
  then show ?thesis
    using assms(2) hi by (auto simp: HashTableLookup_def split: option.splits)
qed

section \<open>Insertion and removal\<close>

lemma count_irrelevant [simp]:
  "key_of km (ht\<lparr>NumberOfElements := n\<rparr>) = key_of km ht"
  "key_num km (ht\<lparr>NumberOfElements := n\<rparr>) = key_num km ht"
  "Entries (ht\<lparr>NumberOfElements := n\<rparr>) = Entries ht"
  "nodes (ht\<lparr>NumberOfElements := n\<rparr>) = nodes ht"
  "bucket_ok km m (ht\<lparr>NumberOfElements := n\<rparr>) = bucket_ok km m ht"
  "hash_ok (ht\<lparr>NumberOfElements := n\<rparr>) = hash_ok ht"
  "ht_map km (ht\<lparr>NumberOfElements := n\<rparr>) = ht_map km ht"
  by (simp_all add: key_of_def key_num_def Entries_def nodes_def bucket_ok_def hash_ok_def ht_map_def fun_eq_iff)

lemma length_concat_update:
  assumes "i < length bs"
  shows "length (concat (bs[i := xs])) + length (bs ! i) = length (concat bs) + length xs"
proof -
  have "concat bs = concat (take i bs) @ bs ! i @ concat (drop (Suc i) bs)"
    by (subst id_take_nth_drop [OF assms]) simp
  moreover have "concat (bs[i := xs]) = concat (take i bs) @ xs @ concat (drop (Suc i) bs)"
    using assms by (simp add: upd_conv_take_nth_drop)
  ultimately show ?thesis by simp
qed

text \<open>Replacing one bucket, whose new entries \<open>E\<close> belong to no other bucket.\<close>

lemma ht_ok_update:
  assumes ok: "ht_ok km m ht h bs" and i: "i < length bs"
    and b: "bucket_ok km m' ht h i xs" and sub: "set xs \<subseteq> set (bs ! i) \<union> E"
    and fresh: "\<And>j. j < length bs \<Longrightarrow> E \<inter> nodes ht bs j = {}"
    and frame: "\<And>q. q \<notin> E \<union> nodes ht bs i \<Longrightarrow> m' q = m q"
    and n: "n = of_nat (length (concat (bs[i := xs])))"
  shows "ht_ok km m' (ht\<lparr>NumberOfElements := n\<rparr>) h (bs[i := xs])"
proof -
  have dis: "nodes ht bs i' \<inter> nodes ht bs j = {}" if "i' < length bs" "j < length bs" "i' \<noteq> j" for i' j
    using ok that by (simp add: ht_ok_def)
  have nd: "nodes ht (bs[i := xs]) j \<subseteq> (if j = i then nodes ht bs i \<union> E else nodes ht bs j)"
    if "j < length bs" for j
    using sub i that by (auto simp: nodes_def)
  have bo: "bucket_ok km m' ht h j (bs[i := xs] ! j)" if j: "j < length bs" for j
  proof (cases "j = i")
    case True
    with b i show ?thesis by simp
  next
    case False
    have bj: "bucket_ok km m ht h j (bs ! j)" using ok j by (simp add: ht_ok_def)
    have fr: "m' q = m q" if "q \<in> set (Entries ht (of_nat j) # bs ! j)" for q
    proof (rule frame)
      have "q \<in> nodes ht bs j" using that by (simp add: nodes_def)
      then show "q \<notin> E \<union> nodes ht bs i" using fresh [OF j] dis [OF j i False] by blast
    qed
    have "is_list m (Entries ht (of_nat j)) (bs ! j)" using bj by (simp add: bucket_ok_def)
    then have "is_list m' (Entries ht (of_nat j)) (bs ! j)" using fr by (rule is_list_frame)
    with bj False show ?thesis by (simp add: bucket_ok_def)
  qed
  have "nodes ht (bs[i := xs]) i' \<inter> nodes ht (bs[i := xs]) j = {}"
    if ij: "i' < length bs" "j < length bs" "i' \<noteq> j" for i' j
  proof -
    note d = dis [OF ij] fresh [OF ij(1)] fresh [OF ij(2)] nd [OF ij(1)] nd [OF ij(2)]
    show ?thesis
    proof (cases "i' = i")
      case True
      then have "j \<noteq> i" using ij(3) by simp
      then have "nodes ht (bs[i := xs]) i' \<subseteq> nodes ht bs i' \<union> E" "nodes ht (bs[i := xs]) j \<subseteq> nodes ht bs j"
        using d(4,5) True by auto
      then show ?thesis using d(1,3) by blast
    next
      case False
      then have "nodes ht (bs[i := xs]) i' \<subseteq> nodes ht bs i'" "nodes ht (bs[i := xs]) j \<subseteq> nodes ht bs j \<union> E"
        using d(4,5) by (auto split: if_splits)
      then show ?thesis using d(1,2) by blast
    qed
  qed
  moreover have "length (bs[i := xs]) = length bs" by simp
  moreover have "length bs = unat (MaxKeys ht)" "0 < KeySize ht" "hash_ok ht h"
    using ok by (simp_all add: ht_ok_def)
  ultimately show ?thesis using bo n by (simp add: ht_ok_def)
qed

lemma ht_map_out:
  assumes "ht_ok km m ht h bs" "\<not> unat (h k) < length bs"
  shows "ht_map km ht bs k = None"
  unfolding ht_map_def
proof (intro find_None ballI notI)
  fix e assume "e \<in> set (concat bs)" and k: "key_of km ht e = Some k"
  then obtain xs where "xs \<in> set bs" and ex: "e \<in> set xs" by auto
  then obtain j where j: "j < length bs" "bs ! j = xs" by (auto simp: in_set_conv_nth)
  then have "bucket_ok km m ht h j xs" using assms(1) by (auto simp: ht_ok_def)
  then have "unat (h k) = j" using ex k by (auto simp: bucket_ok_def)
  with j have "unat (h k) < length bs" by simp
  with assms(2) show False by simp
qed

lemma ht_map_update:
  assumes ok: "ht_ok km m ht h bs" and ok': "ht_ok km m' (ht\<lparr>NumberOfElements := n\<rparr>) h (bs[i := xs])"
    and i: "i < length bs" "unat (h k) = i"
    and other: "\<And>k'. k' \<noteq> k \<Longrightarrow> List.find (\<lambda>e. key_of km ht e = Some k') xs
                    = List.find (\<lambda>e. key_of km ht e = Some k') (bs ! i)"
    and same: "List.find (\<lambda>e. key_of km ht e = Some k) xs = r"
  shows "ht_map km ht (bs[i := xs]) = (ht_map km ht bs)(k := r)"
proof
  fix k'
  show "ht_map km ht (bs[i := xs]) k' = ((ht_map km ht bs)(k := r)) k'"
  proof (cases "unat (h k') < length bs")
    case True
    have a: "ht_map km ht (bs[i := xs]) k' = List.find (\<lambda>e. key_of km ht e = Some k') (bs[i := xs] ! unat (h k'))"
      using ht_map_bucket [OF ok', of "unat (h k')" k'] True by simp
    have b: "ht_map km ht bs k' = List.find (\<lambda>e. key_of km ht e = Some k') (bs ! unat (h k'))"
      using ht_map_bucket [OF ok] True by simp
    show ?thesis
      using a b i other same by (cases "k' = k"; cases "unat (h k') = i") auto
  next
    case False
    then have "k' \<noteq> k" using i by auto
    with False show ?thesis using ht_map_out [OF ok] ht_map_out [OF ok', of k'] by simp
  qed
qed

text \<open>Putting a fresh entry \<open>e\<close> of key \<open>k\<close> in the place of the entries \<open>mid\<close> of that key.\<close>

lemma set_concat_update:
  assumes "i < length bs" "set xs \<subseteq> insert e (set (bs ! i))"
  shows "set (concat (bs[i := xs])) \<subseteq> insert e (set (concat bs))"
proof -
  have "concat bs = concat (take i bs) @ bs ! i @ concat (drop (Suc i) bs)"
    by (subst id_take_nth_drop [OF assms(1)]) simp
  moreover have "concat (bs[i := xs]) = concat (take i bs) @ xs @ concat (drop (Suc i) bs)"
    using assms(1) by (simp add: upd_conv_take_nth_drop)
  ultimately have "set (concat (bs[i := xs])) \<union> set (bs ! i) = set (concat bs) \<union> set xs"
    by (simp only: set_append) blast
  then show ?thesis using assms(2) \<open>concat bs = _\<close> by auto
qed

lemma ht_put:
  assumes ok: "ht_ok km m ht h bs" and i: "i < length bs" "unat (h k) = i"
    and cut: "bs ! i = us @ mid @ vs" "\<forall>x \<in> set mid. key_of km ht x = Some k"
      "\<forall>x \<in> set us. key_of km ht x \<noteq> Some k"
    and ke: "key_of km ht e = Some k" and fresh: "\<And>j. j < length bs \<Longrightarrow> e \<notin> nodes ht bs j"
    and b: "bucket_ok km m' ht h i (us @ e # vs)"
    and frame: "\<And>q. q \<notin> insert e (nodes ht bs i) \<Longrightarrow> m' q = m q"
    and n: "n = of_nat (length (concat (bs[i := us @ e # vs])))"
  shows "ht_ok km m' (ht\<lparr>NumberOfElements := n\<rparr>) h (bs[i := us @ e # vs])"
    and "ht_map km ht (bs[i := us @ e # vs]) = (ht_map km ht bs)(k \<mapsto> e)"
    and "set (concat (bs[i := us @ e # vs])) \<subseteq> insert e (set (concat bs))"
proof -
  show ok': "ht_ok km m' (ht\<lparr>NumberOfElements := n\<rparr>) h (bs[i := us @ e # vs])"
  proof (rule ht_ok_update [OF ok i(1) b, where E = "{e}"])
    show "set (us @ e # vs) \<subseteq> set (bs ! i) \<union> {e}" using cut(1) by auto
    show "{e} \<inter> nodes ht bs j = {}" if "j < length bs" for j using fresh [OF that] by simp
    show "m' q = m q" if "q \<notin> {e} \<union> nodes ht bs i" for q using that by (intro frame) simp
  qed (rule n)
  have mid: "List.find (\<lambda>x. key_of km ht x = Some k') mid = None" if "k' \<noteq> k" for k'
    using cut(2) that by (intro find_None) auto
  show "ht_map km ht (bs[i := us @ e # vs]) = (ht_map km ht bs)(k \<mapsto> e)"
  proof (rule ht_map_update [OF ok ok' i])
    show "List.find (\<lambda>x. key_of km ht x = Some k') (us @ e # vs)
        = List.find (\<lambda>x. key_of km ht x = Some k') (bs ! i)" if "k' \<noteq> k" for k'
      using that ke mid [OF that] unfolding cut(1) by (simp add: find_append split: option.splits)
    show "List.find (\<lambda>x. key_of km ht x = Some k) (us @ e # vs) = Some e"
      using ke cut(3) by (simp add: find_append find_None)
  qed
  show "set (concat (bs[i := us @ e # vs])) \<subseteq> insert e (set (concat bs))"
    using cut(1) by (intro set_concat_update [OF i(1)]) auto
qed

text \<open>The new bucket is sorted.\<close>

lemma bucket_ok_put:
  assumes b: "bucket_ok km m ht h i (us @ mid @ vs)"
    and l: "is_list m' (Entries ht (of_nat i)) (us @ e # vs)"
    and ke: "key_of km ht e = Some k" "unat (h k) = i" "e + scast (OffsetToKey ht) \<noteq> 0"
    and us: "\<forall>u \<in> set us. key_num km ht u < le_value k"
    and vs: "\<forall>v \<in> set vs. le_value k < key_num km ht v"
  shows "bucket_ok km m' ht h i (us @ e # vs)"
proof -
  have kn: "key_num km ht e = le_value k" using ke(1) by (simp add: key_num_def)
  have "sorted_wrt (\<lambda>x y. key_num km ht x < key_num km ht y) (us @ e # vs)"
    using b us vs kn by (auto simp: bucket_ok_def sorted_wrt_append)
  with b l ke show ?thesis by (auto simp: bucket_ok_def)
qed

text \<open>The state of an insertion once the bucket has been cut at the key.\<close>

lemma insert_cut:
  assumes ok: "ht_ok km m ht h bs" and e: "e \<noteq> 0" "e + scast (OffsetToKey ht) \<noteq> 0"
    and ke: "key_of km ht e = Some k"
  obtains us vs where "bs ! unat (h k) = us @ vs"
    "\<forall>u \<in> set us. key_num km ht u < le_value k" "\<forall>u \<in> set us. key_of km ht u \<noteq> Some k"
    "unat (h k) < length bs" "is_list m (Entries ht (h k)) (us @ vs)"
    "nodes ht bs (unat (h k)) = set (Entries ht (h k) # us @ vs)"
    "bucket_ok km m ht h (unat (h k)) (us @ vs)"
    "HashTableInsert km m ht e = do {
       s \<leftarrow> HashTableSearchKeyInBucket km m ht (Entries ht (h k)) (e + scast (OffsetToKey ht));
       m1 \<leftarrow> InsertHeadList m (snd s) e;
       if fst s then do { r \<leftarrow> RemoveEntryList m1 (snd s); Some (fst r, ht, snd s) }
       else Some (m1, ht\<lparr>NumberOfElements := NumberOfElements ht + 1\<rparr>, 0) }"
    "case ht_map km ht bs k of
       Some w \<Rightarrow> (\<exists>ws. vs = w # ws \<and> key_of km ht w = Some k \<and> (\<forall>v \<in> set ws. le_value k < key_num km ht v)) \<and>
         HashTableSearchKeyInBucket km m ht (Entries ht (h k)) (e + scast (OffsetToKey ht)) = Some (True, w)
     | None \<Rightarrow> (\<forall>v \<in> set vs. le_value k < key_num km ht v) \<and>
         HashTableSearchKeyInBucket km m ht (Entries ht (h k)) (e + scast (OffsetToKey ht))
           = Some (False, last (Entries ht (h k) # us))"
proof -
  have rk: "read_bytes km (e + scast (OffsetToKey ht)) (unat (KeySize ht)) = Some k"
    using ke by (simp add: key_of_def)
  note hi = hash_index [OF ok e(2) rk]
  have b: "bucket_ok km m ht h (unat (h k)) (bs ! unat (h k))"
    using ok hi(3) by (simp add: ht_ok_def)
  have pre: "HashTableInsert km m ht e = do {
       s \<leftarrow> HashTableSearchKeyInBucket km m ht (Entries ht (h k)) (e + scast (OffsetToKey ht));
       m1 \<leftarrow> InsertHeadList m (snd s) e;
       if fst s then do { r \<leftarrow> RemoveEntryList m1 (snd s); Some (fst r, ht, snd s) }
       else Some (m1, ht\<lparr>NumberOfElements := NumberOfElements ht + 1\<rparr>, 0) }"
    using e(1) hi(1,2) by (simp add: HashTableInsert_def HashTableObtainKeyAddress_def)
  show thesis
  proof (rule search_outcome [OF ok e(2) rk], rule that)
    fix us vs
    assume a: "bs ! unat (h k) = us @ vs" "\<forall>u \<in> set us. key_num km ht u < le_value k"
    show "bs ! unat (h k) = us @ vs" "\<forall>u \<in> set us. key_num km ht u < le_value k" by fact+
    show "\<forall>u \<in> set us. key_of km ht u \<noteq> Some k" using a(2) by (fastforce simp: key_num_def)
    show "is_list m (Entries ht (h k)) (us @ vs)" "bucket_ok km m ht h (unat (h k)) (us @ vs)"
      using b a(1) hi(4) by (simp_all add: bucket_ok_def)
    show "nodes ht bs (unat (h k)) = set (Entries ht (h k) # us @ vs)"
      using a(1) hi(4) by (simp add: nodes_def)
  qed (use hi(3) pre in auto)
qed

definition insert_post ::
  "byte_mem \<Rightarrow> list_mem \<Rightarrow> hash_table \<Rightarrow> (u8 list \<Rightarrow> u64) \<Rightarrow> u64 list list \<Rightarrow> u64 \<Rightarrow> u8 list \<Rightarrow>
   list_mem \<Rightarrow> hash_table \<Rightarrow> u64 list list \<Rightarrow> bool" where
  "insert_post km m ht h bs e k m' ht' bs' \<longleftrightarrow>
     (\<exists>n. ht' = ht\<lparr>NumberOfElements := n\<rparr>) \<and> ht_ok km m' ht' h bs' \<and>
     ht_map km ht' bs' = (ht_map km ht bs)(k \<mapsto> e) \<and>
     set (concat bs') \<subseteq> insert e (set (concat bs)) \<and>
     (\<forall>q. q \<noteq> e \<longrightarrow> q \<notin> (\<Union>j < length bs. nodes ht bs j) \<longrightarrow> m' q = m q)"

text \<open>Insertion is update: the old entry of the key, if any, leaves the table and is returned.\<close>

lemma HashTableInsert_new:
  assumes ok: "ht_ok km m ht h bs" and e: "e \<noteq> 0" "m e \<noteq> None" "e + scast (OffsetToKey ht) \<noteq> 0"
    and ke: "key_of km ht e = Some k" and fresh: "\<And>j. j < length bs \<Longrightarrow> e \<notin> nodes ht bs j"
    and none: "ht_map km ht bs k = None"
  shows "\<exists>m' ht' bs'. HashTableInsert km m ht e = Some (m', ht', 0) \<and> insert_post km m ht h bs e k m' ht' bs'"
proof -
  let ?B = "Entries ht (h k)" and ?i = "unat (h k)"
  obtain us vs where c: "bs ! ?i = us @ vs" "\<forall>u \<in> set us. key_num km ht u < le_value k"
    "\<forall>u \<in> set us. key_of km ht u \<noteq> Some k" and i: "?i < length bs" and l: "is_list m ?B (us @ vs)"
    and ni: "nodes ht bs ?i = set (?B # us @ vs)" and b: "bucket_ok km m ht h ?i (us @ vs)"
    and pre: "HashTableInsert km m ht e = do {
       s \<leftarrow> HashTableSearchKeyInBucket km m ht ?B (e + scast (OffsetToKey ht));
       m1 \<leftarrow> InsertHeadList m (snd s) e;
       if fst s then do { r \<leftarrow> RemoveEntryList m1 (snd s); Some (fst r, ht, snd s) }
       else Some (m1, ht\<lparr>NumberOfElements := NumberOfElements ht + 1\<rparr>, 0) }"
    and res: "case ht_map km ht bs k of
       Some w \<Rightarrow> (\<exists>ws. vs = w # ws \<and> key_of km ht w = Some k \<and> (\<forall>v \<in> set ws. le_value k < key_num km ht v)) \<and>
         HashTableSearchKeyInBucket km m ht ?B (e + scast (OffsetToKey ht)) = Some (True, w)
     | None \<Rightarrow> (\<forall>v \<in> set vs. le_value k < key_num km ht v) \<and>
         HashTableSearchKeyInBucket km m ht ?B (e + scast (OffsetToKey ht)) = Some (False, last (?B # us))"
    by (rule insert_cut [OF ok e(1,3) ke])
  have r: "\<forall>v \<in> set vs. le_value k < key_num km ht v"
      "HashTableSearchKeyInBucket km m ht ?B (e + scast (OffsetToKey ht)) = Some (False, last (?B # us))"
    using res unfolding none option.case by blast+
  have en: "e \<notin> set (?B # us @ vs)" using fresh [OF i] ni by simp
  obtain m1 where m1: "InsertHeadList m (last (?B # us)) e = Some m1" "is_list m1 ?B (us @ e # vs)"
    "\<And>q. q \<notin> set (e # ?B # us @ vs) \<Longrightarrow> m1 q = m q"
    using InsertHeadList_after [OF l en e(1,2)] by blast
  let ?bs = "bs[?i := us @ e # vs]"
  have n: "NumberOfElements ht + 1 = of_nat (length (concat ?bs))"
    using length_concat_update [OF i, of "us @ e # vs"] c(1) ok by (simp add: ht_ok_def)
  have b': "bucket_ok km m1 ht h ?i (us @ e # vs)"
    using bucket_ok_put [of km m ht h ?i us "[]" vs m1 e k] b m1(2) ke e(3) c(2) r(1) by simp
  have fr: "m1 q = m q" if "q \<notin> insert e (nodes ht bs ?i)" for q
    using that ni by (intro m1(3)) auto
  have "bs ! ?i = us @ [] @ vs" using c(1) by simp
  note put = ht_put [OF ok i refl this _ c(3) ke fresh b' fr n, simplified]
  have "insert_post km m ht h bs e k m1 (ht\<lparr>NumberOfElements := NumberOfElements ht + 1\<rparr>) ?bs"
    using put fr i unfolding insert_post_def by auto
  then show ?thesis using pre r(2) m1(1) by auto
qed

lemma HashTableInsert_replace:
  assumes ok: "ht_ok km m ht h bs" and e: "e \<noteq> 0" "m e \<noteq> None" "e + scast (OffsetToKey ht) \<noteq> 0"
    and ke: "key_of km ht e = Some k" and fresh: "\<And>j. j < length bs \<Longrightarrow> e \<notin> nodes ht bs j"
    and some: "ht_map km ht bs k = Some w"
  shows "\<exists>m' ht' bs'. HashTableInsert km m ht e = Some (m', ht', w) \<and> insert_post km m ht h bs e k m' ht' bs'"
proof -
  let ?B = "Entries ht (h k)" and ?i = "unat (h k)"
  obtain us vs where c: "bs ! ?i = us @ vs" "\<forall>u \<in> set us. key_num km ht u < le_value k"
    "\<forall>u \<in> set us. key_of km ht u \<noteq> Some k" and i: "?i < length bs" and l: "is_list m ?B (us @ vs)"
    and ni: "nodes ht bs ?i = set (?B # us @ vs)" and b: "bucket_ok km m ht h ?i (us @ vs)"
    and pre: "HashTableInsert km m ht e = do {
       s \<leftarrow> HashTableSearchKeyInBucket km m ht ?B (e + scast (OffsetToKey ht));
       m1 \<leftarrow> InsertHeadList m (snd s) e;
       if fst s then do { r \<leftarrow> RemoveEntryList m1 (snd s); Some (fst r, ht, snd s) }
       else Some (m1, ht\<lparr>NumberOfElements := NumberOfElements ht + 1\<rparr>, 0) }"
    and res: "case ht_map km ht bs k of
       Some w \<Rightarrow> (\<exists>ws. vs = w # ws \<and> key_of km ht w = Some k \<and> (\<forall>v \<in> set ws. le_value k < key_num km ht v)) \<and>
         HashTableSearchKeyInBucket km m ht ?B (e + scast (OffsetToKey ht)) = Some (True, w)
     | None \<Rightarrow> (\<forall>v \<in> set vs. le_value k < key_num km ht v) \<and>
         HashTableSearchKeyInBucket km m ht ?B (e + scast (OffsetToKey ht)) = Some (False, last (?B # us))"
    by (rule insert_cut [OF ok e(1,3) ke])
  obtain ws where r: "vs = w # ws" "key_of km ht w = Some k" "\<forall>v \<in> set ws. le_value k < key_num km ht v"
      "HashTableSearchKeyInBucket km m ht ?B (e + scast (OffsetToKey ht)) = Some (True, w)"
    using res unfolding some option.case by blast
  have l2: "is_list m ?B ((us @ [w]) @ ws)" and en: "e \<notin> set (?B # (us @ [w]) @ ws)"
    using l r(1) fresh [OF i] ni by simp_all
  obtain m1 where m1: "InsertHeadList m (last (?B # us @ [w])) e = Some m1"
    "is_list m1 ?B ((us @ [w]) @ e # ws)" "\<And>q. q \<notin> set (e # ?B # (us @ [w]) @ ws) \<Longrightarrow> m1 q = m q"
    using InsertHeadList_after [OF l2 en e(1,2)] by blast
  have "is_list m1 ?B (us @ w # e # ws)" using m1(2) by simp
  then obtain m2 where m2: "RemoveEntryList m1 w = Some (m2, us @ e # ws = [])"
    "is_list m2 ?B (us @ e # ws)" "\<And>q. q \<notin> set (?B # us @ e # ws) \<Longrightarrow> m2 q = m1 q"
    using RemoveEntryList_list [of m1 ?B us w "e # ws"] by blast
  have fr: "m2 q = m q" if "q \<notin> insert e (nodes ht bs ?i)" for q
    using that ni r(1) m1(3) [of q] m2(3) [of q] by auto
  let ?bs = "bs[?i := us @ e # ws]"
  have n: "NumberOfElements ht = of_nat (length (concat ?bs))"
    using length_concat_update [OF i, of "us @ e # ws"] c(1) r(1) ok by (simp add: ht_ok_def)
  have b': "bucket_ok km m2 ht h ?i (us @ e # ws)"
    using bucket_ok_put [of km m ht h ?i us "[w]" ws m2 e k] b m2(2) ke e(3) c(2) r(1,3) by simp
  have "bs ! ?i = us @ [w] @ ws" "\<forall>x \<in> set [w]. key_of km ht x = Some k" using c(1) r(1,2) by simp_all
  note put = ht_put [OF ok i refl this c(3) ke fresh b' fr n]
  have same: "ht = ht\<lparr>NumberOfElements := NumberOfElements ht\<rparr>" by simp
  then have "insert_post km m ht h bs e k m2 ht ?bs"
    using put fr i unfolding insert_post_def by (auto intro: exI [of _ "NumberOfElements ht"])
  then show ?thesis using pre r(4) m1(1) m2(1) by auto
qed

lemma HashTableInsert_run:
  assumes "ht_ok km m ht h bs" "e \<noteq> 0" "m e \<noteq> None" "e + scast (OffsetToKey ht) \<noteq> 0"
    and "key_of km ht e = Some k" and "\<And>j. j < length bs \<Longrightarrow> e \<notin> nodes ht bs j"
  shows "\<exists>m' ht' bs'. HashTableInsert km m ht e
             = Some (m', ht', case ht_map km ht bs k of None \<Rightarrow> 0 | Some w \<Rightarrow> w) \<and>
           insert_post km m ht h bs e k m' ht' bs'"
  using HashTableInsert_new [OF assms] HashTableInsert_replace [OF assms]
  by (cases "ht_map km ht bs k") simp_all

text \<open>Removal is deletion.\<close>

lemma HashTableRemove_run:
  assumes ok: "ht_ok km m ht h bs" and key: "Key \<noteq> 0" "read_bytes km Key (unat (KeySize ht)) = Some k"
  shows "\<exists>m' ht' bs'. HashTableRemove km m ht Key
             = Some (m', ht', case ht_map km ht bs k of None \<Rightarrow> 0 | Some w \<Rightarrow> w) \<and>
           (\<exists>n. ht' = ht\<lparr>NumberOfElements := n\<rparr>) \<and> ht_ok km m' ht' h bs' \<and>
           ht_map km ht' bs' = (ht_map km ht bs)(k := None) \<and>
           set (concat bs') \<subseteq> set (concat bs) \<and> length bs' = length bs \<and>
           (\<forall>q. q \<notin> (\<Union>j < length bs. nodes ht bs j) \<longrightarrow> m' q = m q)"
proof (cases "ht_map km ht bs k")
  case None
  then have "HashTableRemove km m ht Key = Some (m, ht, 0)"
    using HashTableLookup_run [OF ok key] key(1) by (simp add: HashTableRemove_def)
  then show ?thesis
    using None ok by (intro exI [of _ m] exI [of _ ht] exI [of _ bs]) (auto intro: exI [of _ "NumberOfElements ht"])
next
  case (Some w)
  let ?i = "unat (h k)"
  note hi = hash_index [OF ok key]
  obtain us vs where uv1: "bs ! ?i = us @ vs" "\<forall>u \<in> set us. key_num km ht u < le_value k"
    and res: "case ht_map km ht bs k of
       Some e \<Rightarrow> (\<exists>ws. vs = e # ws \<and> key_of km ht e = Some k \<and> (\<forall>v \<in> set ws. le_value k < key_num km ht v)) \<and>
         HashTableSearchKeyInBucket km m ht (Entries ht (h k)) Key = Some (True, e)
     | None \<Rightarrow> (\<forall>v \<in> set vs. le_value k < key_num km ht v) \<and>
         HashTableSearchKeyInBucket km m ht (Entries ht (h k)) Key
           = Some (False, last (Entries ht (h k) # us))"
    by (rule search_outcome [OF ok key])
  then obtain ws where uv: "bs ! ?i = us @ vs" "\<forall>u \<in> set us. key_num km ht u < le_value k"
    "vs = w # ws" "key_of km ht w = Some k" "\<forall>v \<in> set ws. le_value k < key_num km ht v"
    using uv1 unfolding Some option.case by blast
  have "bucket_ok km m ht h ?i (bs ! ?i)" using ok hi(3) unfolding ht_ok_def by blast
  then have b: "bucket_ok km m ht h ?i (us @ w # ws)" using uv(1,3) by simp
  then have w0: "w \<noteq> 0" using is_list_not_head unfolding bucket_ok_def by blast
  obtain m' where m': "RemoveEntryList m w = Some (m', us @ ws = [])"
    "is_list m' (Entries ht (of_nat ?i)) (us @ ws)"
    "\<And>q. q \<notin> set (Entries ht (of_nat ?i) # us @ ws) \<Longrightarrow> m' q = m q"
    using RemoveEntryList_list b unfolding bucket_ok_def by metis
  let ?n = "NumberOfElements ht - 1" and ?bs = "bs[?i := us @ ws]"
  have n: "?n = of_nat (length (concat ?bs))"
  proof -
    have "length (concat bs) = Suc (length (concat ?bs))"
      using length_concat_update [OF hi(3), of "us @ ws"] uv(1,3) by simp
    then have "NumberOfElements ht = of_nat (Suc (length (concat ?bs)))"
      using ok by (simp only: ht_ok_def)
    then show ?thesis by simp
  qed
  have b': "bucket_ok km m' ht h ?i (us @ ws)"
    using b m'(2) by (auto simp: bucket_ok_def sorted_wrt_append)
  have fr: "m' q = m q" if "q \<notin> {} \<union> nodes ht bs ?i" for q
    using that uv(1,3) by (intro m'(3)) (auto simp: nodes_def)
  have ok': "ht_ok km m' (ht\<lparr>NumberOfElements := ?n\<rparr>) h ?bs"
    using uv(1,3) by (intro ht_ok_update [OF ok hi(3) b' _ _ fr n]) auto
  have mp: "ht_map km ht ?bs = (ht_map km ht bs)(k := None)"
  proof (rule ht_map_update [OF ok ok' hi(3) refl])
    show "List.find (\<lambda>x. key_of km ht x = Some k') (us @ ws)
        = List.find (\<lambda>x. key_of km ht x = Some k') (bs ! ?i)" if "k' \<noteq> k" for k'
      using that uv(1,3,4) by (simp add: find_append split: option.splits)
    show "List.find (\<lambda>x. key_of km ht x = Some k) (us @ ws) = None"
      using uv(2,5) by (intro find_None) (fastforce simp: key_num_def)
  qed
  have sub: "set (concat ?bs) \<subseteq> insert w (set (concat bs))"
    using uv(1,3) by (intro set_concat_update [OF hi(3)]) auto
  moreover have "w \<in> set (concat bs)" using uv(1,3) hi(3) nth_mem [OF hi(3)] by force
  ultimately have "set (concat ?bs) \<subseteq> set (concat bs)" by blast
  moreover have "HashTableRemove km m ht Key = Some (m', ht\<lparr>NumberOfElements := ?n\<rparr>, w)"
    using HashTableLookup_run [OF ok key] Some key(1) w0 m'(1)
    by (simp add: HashTableRemove_def HashTableRemoveEntry_def)
  ultimately show ?thesis
    using Some ok' mp fr hi(3)
    by (intro exI [of _ m'] exI [of _ "ht\<lparr>NumberOfElements := ?n\<rparr>"] exI [of _ ?bs]) auto
qed

section \<open>Initialisation\<close>

lemma Entries_index: "Entries ht (of_nat i) = TableData ht + 16 * of_nat i"
  by (simp add: Entries_def)

text \<open>A table block of \<open>n\<close> entries: mapped, without NULL, and without wrap-around.\<close>

definition table_block :: "list_mem \<Rightarrow> u64 \<Rightarrow> nat \<Rightarrow> bool" where
  "table_block m a n \<longleftrightarrow> 0 < a \<and> unat a + 16 * n < 2 ^ 64 \<and> (\<forall>i < n. m (a + 16 * of_nat i) \<noteq> None)"

lemma unat_entry:
  assumes "unat a + 16 * n < 2 ^ 64" "i < n"
  shows "unat (a + 16 * of_nat i :: u64) = unat a + 16 * i"
proof -
  have "(16 * of_nat i :: u64) = of_nat (16 * i)" by simp
  then have "unat (16 * of_nat i :: u64) = 16 * i"
    using assms unat_of_nat_small [of "16 * i", where 'a = 64] by simp
  then show ?thesis using assms by (simp add: unat_add_small)
qed

lemma HashTableInit_run:
  assumes f: "hash_ok (ht\<lparr>TableData := a, HashFunc := f, OffsetToKey := off\<rparr>) h"
    and ht: "0 < KeySize ht" "NumberOfElements ht = 0" and blk: "table_block m a (unat (MaxKeys ht))"
  shows "\<exists>m'. HashTableInit m ht a (Some f) off
             = Some (m', ht\<lparr>TableData := a, HashFunc := f, OffsetToKey := off\<rparr>) \<and>
           ht_ok km m' (ht\<lparr>TableData := a, HashFunc := f, OffsetToKey := off\<rparr>) h
             (replicate (unat (MaxKeys ht)) []) \<and>
           (\<forall>q. m' q = None \<longleftrightarrow> m q = None)"
proof -
  let ?ht = "ht\<lparr>TableData := a, HashFunc := f, OffsetToKey := off\<rparr>" and ?n = "unat (MaxKeys ht)"
  let ?e = "\<lambda>i. a + 16 * of_nat i :: u64"
  have E: "Entries ?ht (of_nat i) = ?e i" for i by (simp add: Entries_def)
  have u: "unat (?e i) = unat a + 16 * i" if "i < ?n" for i
    using blk that by (intro unat_entry) (auto simp: table_block_def)
  have inj: "?e i \<noteq> ?e j" if "i < ?n" "j < ?n" "i \<noteq> j" for i j
    using u [OF that(1)] u [OF that(2)] that(3) by auto
  have "0 < unat a" using blk by (simp add: table_block_def word_less_nat_alt)
  then have nz: "?e i \<noteq> 0" if "i < ?n" for i
    using u [OF that] by (metis add_gr_0 less_numeral_extra(3) unat_0)
  let ?P = "\<lambda>j m'. (\<forall>i < j. is_list m' (?e i) []) \<and> (\<forall>q. m' q = None \<longleftrightarrow> m q = None)"
  have "\<exists>m'. for_upto 0 ?n (\<lambda>i m. InitializeListHead m (Entries ?ht (of_nat i))) m = Some m' \<and> ?P (0 + ?n) m'"
  proof (rule for_upto_rule)
    show "?P 0 m" by simp
  next
    fix j m1 assume j: "0 \<le> j" "j < 0 + ?n" and P: "?P j m1"
    have "m1 (?e j) \<noteq> None" using P j blk by (simp add: table_block_def)
    then obtain m2 where m2: "InitializeListHead m1 (?e j) = Some m2" "is_list m2 (?e j) []"
      "\<And>q. q \<noteq> ?e j \<Longrightarrow> m2 q = m1 q"
      using InitializeListHead_list [of "?e j" m1] nz j by auto
    have "is_list m2 (?e i) []" if "i < Suc j" for i
    proof (cases "i = j")
      case False
      then have "?e i \<noteq> ?e j" using that j inj by simp
      then show ?thesis
        using P that False m2(3) [of "?e i"] by (auto simp: is_list_empty get_Flink_def get_Blink_def)
    qed (use m2 in simp)
    moreover have "m2 (?e j) \<noteq> None" using m2(2) by (auto simp: is_list_empty get_Flink_def)
    then have "m2 q = None \<longleftrightarrow> m q = None" for q
      using P m2(3) [of q] \<open>m1 (?e j) \<noteq> None\<close> by (cases "q = ?e j") auto
    ultimately show "\<exists>s'. InitializeListHead m1 (Entries ?ht (of_nat j)) = Some s' \<and> ?P (Suc j) s'"
      using m2(1) E by auto
  qed
  then obtain m' where m': "for_upto 0 ?n (\<lambda>i m. InitializeListHead m (Entries ?ht (of_nat i))) m = Some m'"
    "\<forall>i < ?n. is_list m' (?e i) []" "\<forall>q. m' q = None \<longleftrightarrow> m q = None" by auto
  have "a \<noteq> 0" using blk by (auto simp: table_block_def)
  moreover have "bucket_ok km m' ?ht h i (replicate ?n [] ! i)" if "i < ?n" for i
    using m'(2) that by (simp add: bucket_ok_def E)
  moreover have "nodes ?ht (replicate ?n []) i = {?e i}" if "i < ?n" for i
    using that by (simp add: nodes_def E)
  ultimately have "a \<noteq> 0" "ht_ok km m' ?ht h (replicate ?n [])"
    using f ht inj unfolding ht_ok_def by (simp_all add: concat_replicate_trivial)
  then show ?thesis using m' by (simp add: HashTableInit_def Let_def)
qed

section \<open>Iteration\<close>

text \<open>An iterator in bucket \<open>i\<close> with \<open>ys\<close> left there; \<open>rest\<close> is everything that it has still to
  hand out.\<close>

definition hash_iterates :: "list_mem \<Rightarrow> hash_table \<Rightarrow> u64 list list \<Rightarrow> hash_iterator \<Rightarrow> u64 list \<Rightarrow> bool" where
  "hash_iterates m ht bs it rest \<longleftrightarrow>
     (let i = unat (KeyIndex it) in
      (i < length bs \<and> (\<exists>ys. iterates m (Entries ht (of_nat i)) (CurrentKeyIterator it) ys \<and>
         rest = ys @ concat (drop (Suc i) bs))) \<or> i = length bs \<and> rest = [])"

lemma ucast_index: "(ucast (i :: u32) :: u64) = of_nat (unat i)"
  by (simp add: unsigned_ucast_eq)

lemma HashTableIteratorInit_run:
  assumes "ht_ok km m ht h bs" "bs \<noteq> []"
  shows "\<exists>it. HashTableIteratorInit m ht = Some it \<and> hash_iterates m ht bs it (concat bs)"
proof -
  have "bucket_ok km m ht h 0 (bs ! 0)"
    using assms unfolding ht_ok_def by (metis length_greater_0_conv)
  then have "is_list m (Entries ht 0) (bs ! 0)" by (simp add: bucket_ok_def)
  then obtain li where li: "ListIteratorInit m (Entries ht 0) = Some li" "iterates m (Entries ht 0) li (bs ! 0)"
    using ListIteratorInit_list by blast
  have "concat bs = bs ! 0 @ concat (drop 1 bs)" using assms(2) by (cases bs) auto
  with li assms(2) show ?thesis by (auto simp: HashTableIteratorInit_def hash_iterates_def Let_def)
qed

lemma iterates_next:
  assumes "iterates m H it (y # ys)"
  shows "\<exists>it'. ListIteratorNext m it = Some (it', y) \<and> iterates m H it' ys \<and> y \<noteq> 0"
proof -
  obtain xs where l: "is_list m H (xs @ y # ys)" and it: "it_ListHead it = H" "it_CurrentEntry it = y"
    using assms by (auto simp: iterates_def)
  obtain it' where "ListIteratorNext m it = Some (it', y)" "iterates m H it' ys"
    using ListIteratorNext_remove [OF l it] by metis
  with is_list_not_head [OF l] show ?thesis by blast
qed

text \<open>The loop moves to \<open>Entries[MaxKeys]\<close> before it stops, so the end is reached only if that
  address can be read.\<close>

lemma HashTableIteratorNext_run:
  assumes "ht_ok km m ht h bs" "hash_iterates m ht bs it rest" "Entries ht (ucast (MaxKeys ht)) \<noteq> 0"
  shows "case rest of
      x # xs \<Rightarrow> \<exists>it'. HashTableIteratorNext m ht it = Some (it', x) \<and> x \<noteq> 0 \<and> hash_iterates m ht bs it' xs
    | [] \<Rightarrow> if unat (KeyIndex it) < length bs \<and> m (Entries ht (ucast (MaxKeys ht))) = None
        then HashTableIteratorNext m ht it = None
        else \<exists>it'. HashTableIteratorNext m ht it = Some (it', 0)"
  using assms(2)
proof (induction "length bs - unat (KeyIndex it)" arbitrary: it)
  case 0
  then have "rest = []" "unat (KeyIndex it) = length bs"
    by (auto simp: hash_iterates_def Let_def)
  moreover have "\<not> KeyIndex it < MaxKeys ht"
    using 0 assms(1) by (auto simp: ht_ok_def word_less_nat_alt)
  ultimately show ?case by (simp add: HashTableIteratorNext.simps [of m ht it])
next
  case (Suc d)
  let ?i = "unat (KeyIndex it)"
  have lb: "length bs = unat (MaxKeys ht)" using assms(1) by (simp add: ht_ok_def)
  have lt: "?i < length bs" using Suc.hyps(2) by simp
  then have c: "KeyIndex it < MaxKeys ht" using lb by (simp add: word_less_nat_alt)
  obtain ys where ys: "iterates m (Entries ht (of_nat ?i)) (CurrentKeyIterator it) ys"
    "rest = ys @ concat (drop (Suc ?i) bs)"
    using Suc.prems lt by (auto simp: hash_iterates_def Let_def)
  have nz: "iterates m H li us \<Longrightarrow> H \<noteq> 0" for H li us
    using is_list_not_null by (fastforce simp: iterates_def)
  show ?case
  proof (cases ys)
    case (Cons y zs)
    then obtain li where li: "ListIteratorNext m (CurrentKeyIterator it) = Some (li, y)"
      "iterates m (Entries ht (of_nat ?i)) li zs" "y \<noteq> 0"
      using iterates_next [of m "Entries ht (of_nat ?i)" "CurrentKeyIterator it" y zs] ys(1) by blast
    then have "HashTableIteratorNext m ht it = Some (it\<lparr>CurrentKeyIterator := li\<rparr>, y)"
      using c by (simp add: HashTableIteratorNext.simps [of m ht it])
    moreover have "hash_iterates m ht bs (it\<lparr>CurrentKeyIterator := li\<rparr>) (zs @ concat (drop (Suc ?i) bs))"
      using li(2) lt by (auto simp: hash_iterates_def Let_def)
    ultimately show ?thesis using ys(2) Cons li(3) by simp
  next
    case Nil
    then have nx: "ListIteratorNext m (CurrentKeyIterator it) = Some (CurrentKeyIterator it, 0)"
      using ListIteratorNext_Nil ys(1) by blast
    have u: "unat (KeyIndex it + 1) = Suc ?i"
      using lt lb unat_lt_u32 [of "MaxKeys ht"] by (simp add: unat_add_small)
    let ?H = "Entries ht (ucast (KeyIndex it + 1))"
    have H: "?H = Entries ht (of_nat (Suc ?i))" by (simp only: ucast_index u)
    have step: "HashTableIteratorNext m ht it = do {
        li \<leftarrow> ListIteratorInit m ?H;
        HashTableIteratorNext m ht \<lparr>KeyIndex = KeyIndex it + 1, CurrentKeyIterator = li\<rparr> }"
      using c nx by (simp add: HashTableIteratorNext.simps [of m ht it])
    show ?thesis
    proof (cases "Suc ?i < length bs")
      case True
      then have "bucket_ok km m ht h (Suc ?i) (bs ! Suc ?i)" using assms(1) by (simp add: ht_ok_def)
      then have "is_list m ?H (bs ! Suc ?i)" unfolding H by (simp add: bucket_ok_def)
      then obtain li where li: "ListIteratorInit m ?H = Some li" "iterates m ?H li (bs ! Suc ?i)"
        using ListIteratorInit_list by blast
      let ?it = "\<lparr>KeyIndex = KeyIndex it + 1, CurrentKeyIterator = li\<rparr>"
      have "hash_iterates m ht bs ?it rest"
        using li(2) u True ys(2) Nil Cons_nth_drop_Suc [OF True, symmetric]
        by (auto simp: hash_iterates_def Let_def H)
      then have "case rest of
          x # xs \<Rightarrow> \<exists>it'. HashTableIteratorNext m ht ?it = Some (it', x) \<and> x \<noteq> 0 \<and> hash_iterates m ht bs it' xs
        | [] \<Rightarrow> if unat (KeyIndex ?it) < length bs \<and> m (Entries ht (ucast (MaxKeys ht))) = None
            then HashTableIteratorNext m ht ?it = None
            else \<exists>it'. HashTableIteratorNext m ht ?it = Some (it', 0)"
        using Suc.hyps u by (intro Suc.hyps(1)) simp_all
      then show ?thesis using step li(1) u True lt by (cases rest) (simp_all split: if_splits)
    next
      case False
      then have e: "Suc ?i = length bs" using lt by simp
      then have r: "rest = []" using ys(2) Nil by simp
      have k: "KeyIndex it + 1 = MaxKeys ht" using e u lb by (simp add: word_unat_eq_iff)
      have end_: "HashTableIteratorNext m ht \<lparr>KeyIndex = MaxKeys ht, CurrentKeyIterator = li\<rparr>
          = Some (\<lparr>KeyIndex = MaxKeys ht, CurrentKeyIterator = li\<rparr>, 0)" for li
        by (simp add: HashTableIteratorNext.simps)
      show ?thesis
        using step r lt assms(3) unfolding k
        by (cases "m (Entries ht (ucast (MaxKeys ht)))")
          (simp_all add: ListIteratorInit_def get_Flink_def end_)
    qed
  qed
qed

section \<open>The table as a map\<close>

lemma find_unique:
  assumes "e \<in> set xs" "P e" "\<forall>x \<in> set xs. P x \<longrightarrow> x = e"
  shows "List.find P xs = Some e"
  using assms
proof (induction xs)
  case (Cons x xs)
  show ?case
  proof (cases "P x")
    case True
    with Cons.prems(3) have "x = e" by (meson list.set_intros(1))
    with True show ?thesis by (simp only: find.simps if_True)
  next
    case False
    with Cons.prems(1,2) have "e \<in> set xs" by auto
    then have "List.find P xs = Some e" using Cons.prems(2,3) by (intro Cons.IH) (meson list.set_intros(2))+
    with False show ?thesis by (simp only: find.simps if_False)
  qed
qed simp

text \<open>Every entry of the table is found under its key.\<close>

lemma ht_map_entry:
  assumes ok: "ht_ok km m ht h bs" and e: "e \<in> set (concat bs)"
  shows "\<exists>k. key_of km ht e = Some k \<and> ht_map km ht bs k = Some e \<and> e \<noteq> 0"
proof -
  obtain xs where "xs \<in> set bs" and ex: "e \<in> set xs" using e by auto
  then obtain j where j: "j < length bs" "bs ! j = xs" by (auto simp: in_set_conv_nth)
  then have b: "bucket_ok km m ht h j xs" using ok unfolding ht_ok_def by blast
  then obtain k where k: "key_of km ht e = Some k" "unat (h k) = j"
    using ex by (auto simp: bucket_ok_def)
  have s: "sorted_wrt (\<lambda>x y. key_num km ht x < key_num km ht y) xs"
    using b by (simp add: bucket_ok_def)
  have uniq: "x = e" if "x \<in> set xs" "key_of km ht x = Some k" for x
  proof (rule ccontr)
    assume ne: "x \<noteq> e"
    note xin = that(1)
    have n: "key_num km ht x = key_num km ht e" using that(2) k(1) by (simp add: key_num_def)
    obtain p where p: "p < length xs" "xs ! p = x" using xin unfolding in_set_conv_nth by blast
    obtain q where q: "q < length xs" "xs ! q = e" using ex unfolding in_set_conv_nth by blast
    note pq = p q
    with ne have "p < q \<or> q < p" by (metis nat_neq_iff)
    then show False
      using sorted_wrt_nth_less [OF s] pq n by (metis less_irrefl)
  qed
  have "List.find (\<lambda>x. key_of km ht x = Some k) xs = Some e"
    using ex k(1)
  proof (rule find_unique)
    show "\<forall>x \<in> set xs. key_of km ht x = Some k \<longrightarrow> x = e" using uniq by blast
  qed
  then have "ht_map km ht bs k = Some e" using ht_map_bucket [OF ok j(1) k(2)] j(2) by simp
  moreover have "is_list m (Entries ht (of_nat j)) xs" using b by (simp only: bucket_ok_def)
  then have "e \<noteq> 0" using is_list_not_null ex by (metis list.set_intros(2))
  ultimately show ?thesis using k(1) by blast
qed

lemma ht_map_Some_entry: "ht_map km ht bs k = Some e \<Longrightarrow> e \<in> set (concat bs)"
  unfolding ht_map_def by (metis find_Some_iff nth_mem)

lemma hash_ops_mapped:
  "HashTableInsert km m ht e = Some (m', ht', w) \<Longrightarrow> m' q = None \<longleftrightarrow> m q = None"
  "HashTableRemove km m ht p = Some (m', ht', w) \<Longrightarrow> m' q = None \<longleftrightarrow> m q = None"
  by (auto simp: HashTableInsert_def HashTableRemove_def HashTableRemoveEntry_def InsertHeadList_def
      RemoveEntryList_def bind_Some split: if_splits dest!: set_mapped [where q = q])

definition none_if_null :: "u64 \<Rightarrow> u64 option" where
  "none_if_null p = (if p = 0 then None else Some p)"

definition hash_insert ::
  "byte_mem \<Rightarrow> list_mem \<times> hash_table \<Rightarrow> u64 \<Rightarrow> ((list_mem \<times> hash_table) \<times> u64 option) option" where
  "hash_insert km s e = do {
     r \<leftarrow> HashTableInsert km (fst s) (snd s) e;
     Some ((fst r, fst (snd r)), none_if_null (snd (snd r)))
   }"

definition hash_lookup :: "byte_mem \<Rightarrow> list_mem \<times> hash_table \<Rightarrow> u64 \<Rightarrow> u64 option option" where
  "hash_lookup km s p = do { r \<leftarrow> HashTableLookup km (fst s) (snd s) p; Some (none_if_null r) }"

definition hash_remove ::
  "byte_mem \<Rightarrow> list_mem \<times> hash_table \<Rightarrow> u64 \<Rightarrow> ((list_mem \<times> hash_table) \<times> u64 option) option" where
  "hash_remove km s p = do {
     r \<leftarrow> HashTableRemove km (fst s) (snd s) p;
     Some ((fst r, fst (snd r)), none_if_null (snd (snd r)))
   }"

text \<open>\<open>ht0\<close> fixes everything of the table but its element count.\<close>

definition hash_repr ::
  "byte_mem \<Rightarrow> hash_table \<Rightarrow> (u8 list \<Rightarrow> u64) \<Rightarrow> list_mem \<times> hash_table \<Rightarrow> (u8 list \<Rightarrow> u64 option) \<Rightarrow> bool" where
  "hash_repr km ht0 h s f \<longleftrightarrow> (\<exists>n bs. snd s = ht0\<lparr>NumberOfElements := n\<rparr> \<and>
     ht_ok km (fst s) (snd s) h bs \<and> f = ht_map km (snd s) bs)"

definition hash_slot :: "byte_mem \<Rightarrow> hash_table \<Rightarrow> list_mem \<times> hash_table \<Rightarrow> u64 \<Rightarrow> bool" where
  "hash_slot km ht0 s e \<longleftrightarrow> e \<noteq> 0 \<and> fst s e \<noteq> None \<and> e + scast (OffsetToKey ht0) \<noteq> 0 \<and>
     key_of km ht0 e \<noteq> None \<and> (\<forall>i < unat (MaxKeys ht0). e \<noteq> Entries ht0 (of_nat i))"

definition hash_ptr :: "byte_mem \<Rightarrow> hash_table \<Rightarrow> u64 \<Rightarrow> u8 list option" where
  "hash_ptr km ht0 p = (if p = 0 then None else read_bytes km p (unat (KeySize ht0)))"

lemma none_if_null_map:
  assumes "ht_ok km m ht h bs"
  shows "none_if_null (case ht_map km ht bs k of None \<Rightarrow> 0 | Some w \<Rightarrow> w) = ht_map km ht bs k"
  using ht_map_entry [OF assms] ht_map_Some_entry
  by (fastforce simp: none_if_null_def split: option.splits)

lemma hash_insert_run:
  assumes "hash_repr km ht0 h s f" "hash_slot km ht0 s e" "e \<notin> ran f"
  shows "\<exists>s'. hash_insert km s e = Some (s', f (the (key_of km ht0 e))) \<and>
     hash_repr km ht0 h s' (f(the (key_of km ht0 e) \<mapsto> e)) \<and>
     (\<forall>w. hash_slot km ht0 s w \<longrightarrow> hash_slot km ht0 s' w)"
proof -
  obtain m ht where s: "s = (m, ht)" by (cases s)
  obtain n bs where ht: "ht = ht0\<lparr>NumberOfElements := n\<rparr>" and ok: "ht_ok km m ht h bs"
    and f: "f = ht_map km ht bs" using assms(1) s by (auto simp: hash_repr_def)
  obtain k where k: "key_of km ht e = Some k" using assms(2) ht by (auto simp: hash_slot_def)
  have e: "e \<noteq> 0" "m e \<noteq> None" "e + scast (OffsetToKey ht) \<noteq> 0"
    using assms(2) ht s by (simp_all add: hash_slot_def)
  have "e \<notin> set (concat bs)" using assms(3) f ht_map_entry [OF ok] by (auto simp: ran_def)
  moreover have "length bs = unat (MaxKeys ht0)" using ok ht by (simp add: ht_ok_def)
  ultimately have "e \<notin> nodes ht bs j" if "j < length bs" for j
    using that assms(2) ht nth_mem [of j bs] by (auto simp: nodes_def hash_slot_def)
  then obtain m' ht' bs' where r: "HashTableInsert km m ht e
      = Some (m', ht', case ht_map km ht bs k of None \<Rightarrow> 0 | Some w \<Rightarrow> w)"
    "insert_post km m ht h bs e k m' ht' bs'"
    using HashTableInsert_run [OF ok e k] by blast
  obtain n' where n': "ht' = ht0\<lparr>NumberOfElements := n'\<rparr>" using r(2) ht by (auto simp: insert_post_def)
  have "hash_repr km ht0 h (m', ht') (f(k \<mapsto> e))"
    using r(2) f n' by (auto simp: hash_repr_def insert_post_def)
  moreover have "hash_slot km ht0 s w \<longrightarrow> hash_slot km ht0 (m', ht') w" for w
    using hash_ops_mapped(1) [OF r(1), of w] s by (simp add: hash_slot_def)
  moreover have "the (key_of km ht0 e) = k" using k ht by simp
  moreover have "hash_insert km s e = Some ((m', ht'), f k)"
    using r(1) s f none_if_null_map [OF ok] by (simp add: hash_insert_def)
  ultimately show ?thesis by auto
qed

lemma hash_remove_run:
  assumes "hash_repr km ht0 h s f" "hash_ptr km ht0 p = Some k"
  shows "\<exists>s'. hash_remove km s p = Some (s', f k) \<and> hash_repr km ht0 h s' (f(k := None)) \<and>
     (\<forall>w. hash_slot km ht0 s w \<longrightarrow> hash_slot km ht0 s' w)"
proof -
  obtain m ht where s: "s = (m, ht)" by (cases s)
  obtain n bs where ht: "ht = ht0\<lparr>NumberOfElements := n\<rparr>" and ok: "ht_ok km m ht h bs"
    and f: "f = ht_map km ht bs" using assms(1) s by (auto simp: hash_repr_def)
  have p: "p \<noteq> 0" "read_bytes km p (unat (KeySize ht)) = Some k"
    using assms(2) ht by (auto simp: hash_ptr_def split: if_splits)
  obtain m' ht' bs' n' where r: "HashTableRemove km m ht p
      = Some (m', ht', case ht_map km ht bs k of None \<Rightarrow> 0 | Some w \<Rightarrow> w)"
    "ht' = ht\<lparr>NumberOfElements := n'\<rparr>" "ht_ok km m' ht' h bs'"
    "ht_map km ht' bs' = (ht_map km ht bs)(k := None)"
    using HashTableRemove_run [OF ok p] by blast
  have "hash_repr km ht0 h (m', ht') (f(k := None))"
    using r f ht by (auto simp: hash_repr_def)
  moreover have "hash_slot km ht0 s w \<longrightarrow> hash_slot km ht0 (m', ht') w" for w
    using hash_ops_mapped(2) [OF r(1), of w] s by (simp add: hash_slot_def)
  moreover have "hash_remove km s p = Some ((m', ht'), f k)"
    using r(1) s f none_if_null_map [OF ok] by (simp add: hash_remove_def)
  ultimately show ?thesis by auto
qed

lemma hash_lookup_run:
  assumes "hash_repr km ht0 h s f" "hash_ptr km ht0 p = Some k"
  shows "hash_lookup km s p = Some (f k)"
proof -
  obtain m ht where s: "s = (m, ht)" by (cases s)
  obtain n bs where ht: "ht = ht0\<lparr>NumberOfElements := n\<rparr>" and ok: "ht_ok km m ht h bs"
    and f: "f = ht_map km ht bs" using assms(1) s by (auto simp: hash_repr_def)
  have p: "p \<noteq> 0" "read_bytes km p (unat (KeySize ht)) = Some k"
    using assms(2) ht by (auto simp: hash_ptr_def split: if_splits)
  then show ?thesis
    using HashTableLookup_run [OF ok p] none_if_null_map [OF ok] s f by (simp add: hash_lookup_def)
qed

interpretation hm: map_store "hash_repr km ht0 h" "hash_slot km ht0" "\<lambda>e. the (key_of km ht0 e)"
  "hash_ptr km ht0" "hash_insert km" "hash_lookup km" "hash_remove km" for km ht0 h
  by unfold_locales (rule hash_insert_run hash_lookup_run hash_remove_run; assumption)+

section \<open>Properties\<close>

text \<open>C36: over any run of insertions and removals on a well-formed table (with entries that are
  mapped, readable, not the table itself, and not inserted while they are in), no operation
  faults, and a lookup afterwards answers exactly what the history says: the last entry
  inserted under that key and not removed since, or NULL.\<close>

theorem hash_table_is_map:
  assumes "hash_repr km ht0 h s f"
    and "map_model (\<lambda>e. the (key_of km ht0 e)) (hash_ptr km ht0) ops f = Some g"
    and "\<forall>e \<in> set (inserted ops). hash_slot km ht0 s e" and "hash_ptr km ht0 p = Some k"
  shows "\<exists>s'. map_run (hash_insert km) (hash_remove km) ops s = Some s' \<and>
     hash_lookup km s' p = Some (g k)"
  using assms by (rule hm.run_look)

definition sample_keys :: byte_mem where
  "sample_keys = [0x208 \<mapsto> 7, 0x209 \<mapsto> 1, 0x308 \<mapsto> 3, 0x309 \<mapsto> 2, 0x408 \<mapsto> 7, 0x409 \<mapsto> 1]"

definition sample_table :: hash_table where
  "sample_table = \<lparr>MaxKeys = 2, KeySize = 2, NumberOfElements = 0, OffsetToKey = 8,
     HashFunc = HashFuncUniversal, TableData = 0x100\<rparr>"

definition sample_links :: list_mem where
  "sample_links = [0x100 \<mapsto> \<lparr>Flink = 0x100, Blink = 0x100\<rparr>, 0x110 \<mapsto> \<lparr>Flink = 0x110, Blink = 0x110\<rparr>,
     0x200 \<mapsto> \<lparr>Flink = 0, Blink = 0\<rparr>, 0x300 \<mapsto> \<lparr>Flink = 0, Blink = 0\<rparr>, 0x400 \<mapsto> \<lparr>Flink = 0, Blink = 0\<rparr>]"

definition sample_hash :: "u8 list \<Rightarrow> u64" where
  "sample_hash bs = (1701 * (of_nat (le_value bs) mod 10007) + 59) mod 10007 mod 2"

lemma sample_ht_ok: "ht_ok sample_keys sample_links sample_table sample_hash [[], []]"
proof -
  have h: "hash_ok sample_table sample_hash"
    using hash_ok_universal [of sample_table] by (simp add: sample_table_def sample_hash_def [abs_def])
  have E: "Entries sample_table 0 = 0x100" "Entries sample_table 1 = 0x110"
    by (simp_all add: Entries_def sample_table_def)
  have l: "is_list sample_links 0x100 []" "is_list sample_links 0x110 []"
    by (simp_all add: is_list_empty get_Flink_def get_Blink_def sample_links_def)
  have n: "unat (MaxKeys sample_table) = 2" "0 < KeySize sample_table" "NumberOfElements sample_table = 0"
    by (simp_all add: sample_table_def)
  show ?thesis
    using h E l n by (simp add: ht_ok_def bucket_ok_def nodes_def All_less_Suc)
qed

lemma sample_table_ok: "hash_repr sample_keys sample_table sample_hash (sample_links, sample_table) (\<lambda>_. None)"
proof -
  have "sample_table = sample_table\<lparr>NumberOfElements := 0\<rparr>" by (simp add: sample_table_def)
  then show ?thesis
    unfolding hash_repr_def using sample_ht_ok
    by (intro exI [of _ 0] exI [of _ "[[], []]"]) (simp add: ht_map_def fun_eq_iff)
qed

lemma sample_key_values:
  "key_of sample_keys sample_table 0x200 = Some [7, 1]" "key_of sample_keys sample_table 0x300 = Some [3, 2]"
  "key_of sample_keys sample_table 0x400 = Some [7, 1]" "hash_ptr sample_keys sample_table 0x208 = Some [7, 1]"
  by code_simp+

lemma sample_slots:
  "e \<in> {0x200, 0x300, 0x400} \<Longrightarrow> hash_slot sample_keys sample_table (sample_links, sample_table) e"
  using sample_key_values
  by (auto simp: hash_slot_def sample_links_def sample_table_def Entries_def less_2_cases_iff)

lemma hash_table_is_map_witness:
  "\<exists>s'. map_run (hash_insert sample_keys) (hash_remove sample_keys) [Ins 0x200, Ins 0x300, Ins 0x400]
      (sample_links, sample_table) = Some s' \<and>
    hash_lookup sample_keys s' 0x208 = Some ([[7 :: u8, 1] \<mapsto> 0x200, [3, 2] \<mapsto> 0x300, [7, 1] \<mapsto> 0x400] [7, 1])"
  by (rule hash_table_is_map [OF sample_table_ok _ _ sample_key_values(4),
        where g = "[[7, 1] \<mapsto> 0x200, [3, 2] \<mapsto> 0x300, [7, 1] \<mapsto> 0x400]"])
    (simp_all add: sample_key_values sample_slots ran_def)

text \<open>Iteration hands out every entry of the table exactly once, bucket by bucket, provided
  that the 16 bytes after the last bucket can be read; when they cannot, the call that should
  answer NULL reads \<open>Entries[MaxKeys]\<close>, outside the table, and faults.\<close>

theorem hash_iteration:
  assumes "ht_ok km m ht h bs" "hash_iterates m ht bs it rest" "Entries ht (ucast (MaxKeys ht)) \<noteq> 0"
  shows "case rest of
      x # xs \<Rightarrow> \<exists>it'. HashTableIteratorNext m ht it = Some (it', x) \<and> x \<noteq> 0 \<and> hash_iterates m ht bs it' xs
    | [] \<Rightarrow> if unat (KeyIndex it) < length bs \<and> m (Entries ht (ucast (MaxKeys ht))) = None
        then HashTableIteratorNext m ht it = None
        else \<exists>it'. HashTableIteratorNext m ht it = Some (it', 0)"
  using assms by (rule HashTableIteratorNext_run)

definition sample_iterator :: hash_iterator where
  "sample_iterator = \<lparr>KeyIndex = 0, CurrentKeyIterator = \<lparr>it_ListHead = 0x100, it_CurrentEntry = 0x100\<rparr>\<rparr>"

lemma hash_iteration_witness: "HashTableIteratorNext sample_links sample_table sample_iterator = None"
proof -
  have l: "is_list sample_links 0x100 []"
    by (simp add: is_list_empty get_Flink_def get_Blink_def sample_links_def)
  then have "hash_iterates sample_links sample_table [[], []] sample_iterator []"
    by (auto simp: hash_iterates_def iterates_def Entries_def sample_table_def sample_iterator_def)
  from hash_iteration [OF sample_ht_ok this] show ?thesis
    by (simp add: sample_table_def sample_links_def sample_iterator_def Entries_def)
qed

end
