(* ===== verification/CL_Bitmap.thy ===== *)
theory CL_Bitmap
  imports CL_Memory HAL_Interfaces
begin

text \<open>
  \<open>CommonLib/src/bitmap.c\<close>: the bitmap behind the physical memory manager, the virtual
  address reservations of \<open>vmm.c\<close>, the PID allocator and the swap file. A
  \<open>PBITMAP\<close> is a \<open>bitmap option\<close>, so that \<open>ASSERT(NULL != Bitmap)\<close> is the
  first binding of an operation; an operation that writes returns the updated structure.
  The abstraction \<open>bits\<close> is the list of the \<open>BitCount\<close> bits; the lemmas show
  that every operation computes on that list what its name says.
\<close>

section \<open>State and operations\<close>

record bitmap =
  BitmapBuffer :: "u8 list option"
  BufferSize :: u32
  BitCount :: u32

abbreviation (input) BITMAP_ENTRY_BITS :: u32 where "BITMAP_ENTRY_BITS \<equiv> 8"

definition BitmapPreinit :: "bitmap option \<Rightarrow> u32 \<Rightarrow> (bitmap \<times> u32) option" where
  "BitmapPreinit Bitmap NumberOfElements = do {
     _ \<leftarrow> Bitmap;
     ASSERT (0 \<noteq> NumberOfElements);
     let sz = ucast (AlignAddressUpper (ucast NumberOfElements) 8 div 8);
     Some (\<lparr>BitmapBuffer = None, BufferSize = sz, BitCount = NumberOfElements\<rparr>, sz)
   }"

definition BitmapInitEx :: "bitmap option \<Rightarrow> u8 list option \<Rightarrow> bool \<Rightarrow> bitmap option" where
  "BitmapInitEx Bitmap Buffer Set = do {
     b \<leftarrow> Bitmap;
     buf \<leftarrow> Buffer;
     buf' \<leftarrow> cl_memset buf (Some 0) (if Set then MAX_BYTE else 0) (BufferSize b);
     Some (b\<lparr>BitmapBuffer := Some buf'\<rparr>)
   }"

definition BitmapUninit :: "bitmap option \<Rightarrow> bitmap option" where
  "BitmapUninit Bitmap = do {
     _ \<leftarrow> Bitmap;
     Some \<lparr>BitmapBuffer = None, BufferSize = 0, BitCount = 0\<rparr>
   }"

definition BitmapGetMaxElementCount :: "bitmap option \<Rightarrow> u32 option" where
  "BitmapGetMaxElementCount Bitmap = do { b \<leftarrow> Bitmap; Some (BitCount b) }"

definition BitmapChangeBit :: "u8 list option \<Rightarrow> u32 \<Rightarrow> bool \<Rightarrow> u8 list option" where
  "BitmapChangeBit Buffer Index Set = do {
     buf \<leftarrow> Buffer;
     let byteIndex = unat (Index div BITMAP_ENTRY_BITS);
     let bitIndex = unat (Index mod BITMAP_ENTRY_BITS);
     old \<leftarrow> array_get buf byteIndex;
     array_set buf byteIndex
       (if Set then old OR push_bit bitIndex 1 else old AND NOT (push_bit bitIndex 1))
   }"

definition BitmapChangeBits :: "u8 list option \<Rightarrow> u32 \<Rightarrow> bool \<Rightarrow> u32 \<Rightarrow> u8 list option option" where
  "BitmapChangeBits Buffer Index Set Count =
     for_upto 0 (unat Count)
       (\<lambda>i buf. do { buf' \<leftarrow> BitmapChangeBit buf (Index + of_nat i) Set; Some (Some buf') }) Buffer"

definition BitmapGetBit :: "u8 list option \<Rightarrow> u32 \<Rightarrow> bool option" where
  "BitmapGetBit Buffer Index = do {
     buf \<leftarrow> Buffer;
     v \<leftarrow> array_get buf (unat (Index div BITMAP_ENTRY_BITS));
     Some (IsBooleanFlagOn v (push_bit (unat (Index mod BITMAP_ENTRY_BITS)) 1))
   }"

definition BitmapSetBitValue :: "bitmap option \<Rightarrow> u32 \<Rightarrow> bool \<Rightarrow> bitmap option" where
  "BitmapSetBitValue Bitmap Index Set = do {
     b \<leftarrow> Bitmap;
     ASSERT (Index < BitCount b);
     buf \<leftarrow> BitmapChangeBit (BitmapBuffer b) Index Set;
     Some (b\<lparr>BitmapBuffer := Some buf\<rparr>)
   }"

definition BitmapGetBitValue :: "bitmap option \<Rightarrow> u32 \<Rightarrow> bool option" where
  "BitmapGetBitValue Bitmap Index = do {
     b \<leftarrow> Bitmap;
     ASSERT (Index < BitCount b);
     BitmapGetBit (BitmapBuffer b) Index
   }"

definition BitmapSetBitsValue :: "bitmap option \<Rightarrow> u32 \<Rightarrow> u32 \<Rightarrow> bool \<Rightarrow> bitmap option" where
  "BitmapSetBitsValue Bitmap Index Count Set = do {
     b \<leftarrow> Bitmap;
     ASSERT (Index < BitCount b);
     ASSERT (Index \<le> BitCount b - Count);
     buf \<leftarrow> BitmapChangeBits (BitmapBuffer b) Index Set Count;
     Some (b\<lparr>BitmapBuffer := buf\<rparr>)
   }"

text \<open>The inner loop of \<open>_BitmapScanInternal\<close>; \<open>n\<close> positions are left.\<close>

primrec scan_window :: "u8 list option \<Rightarrow> bool \<Rightarrow> u32 \<Rightarrow> nat \<Rightarrow> nat \<Rightarrow> bool option" where
  "scan_window Buffer Set i j 0 = Some True"
| "scan_window Buffer Set i j (Suc n) = do {
     v \<leftarrow> BitmapGetBit Buffer (i + of_nat j);
     if Set \<noteq> v then Some False else scan_window Buffer Set i (Suc j) n
   }"

text \<open>Its outer loop; \<open>n\<close> start positions are left.\<close>

primrec scan_starts :: "u8 list option \<Rightarrow> bool \<Rightarrow> u32 \<Rightarrow> u32 \<Rightarrow> nat \<Rightarrow> u32 option" where
  "scan_starts Buffer Set ConsecutiveBits i 0 = Some MAX_DWORD"
| "scan_starts Buffer Set ConsecutiveBits i (Suc n) = do {
     found \<leftarrow> scan_window Buffer Set i 0 (unat ConsecutiveBits);
     if found then Some i else scan_starts Buffer Set ConsecutiveBits (i + 1) n
   }"

definition BitmapScanInternal :: "bitmap option \<Rightarrow> u32 \<Rightarrow> u32 \<Rightarrow> u32 \<Rightarrow> bool \<Rightarrow> u32 option" where
  "BitmapScanInternal Bitmap StartIndex FirstInvalidBitIndex ConsecutiveBits Set = do {
     b \<leftarrow> Bitmap;
     ASSERT (0 \<noteq> ConsecutiveBits);
     ASSERT (StartIndex \<le> FirstInvalidBitIndex);
     ASSERT (FirstInvalidBitIndex \<le> BitCount b);
     if FirstInvalidBitIndex - StartIndex < ConsecutiveBits then Some MAX_DWORD
     else do {
       let lastIndex = FirstInvalidBitIndex - ConsecutiveBits;
       scan_starts (BitmapBuffer b) Set ConsecutiveBits StartIndex
         (Suc (unat lastIndex) - unat StartIndex)
     }
   }"

definition BitmapScanFromTo :: "bitmap option \<Rightarrow> u32 \<Rightarrow> u32 \<Rightarrow> u32 \<Rightarrow> bool \<Rightarrow> u32 option" where
  "BitmapScanFromTo Bitmap Index FirstInvalidBitIndex ConsecutiveBits Set =
     (case Bitmap of
        None \<Rightarrow> Some MAX_DWORD
      | Some b \<Rightarrow>
          if 0 = ConsecutiveBits then Some MAX_DWORD
          else if Index > FirstInvalidBitIndex \<or> FirstInvalidBitIndex > BitCount b
          then Some MAX_DWORD
          else BitmapScanInternal Bitmap Index FirstInvalidBitIndex ConsecutiveBits Set)"

text \<open>\<open>BitmapScan\<close> and \<open>BitmapScanFrom\<close> read \<open>Bitmap->BitCount\<close> before any
  check, so a NULL bitmap is a fault there.\<close>

definition BitmapScan :: "bitmap option \<Rightarrow> u32 \<Rightarrow> bool \<Rightarrow> u32 option" where
  "BitmapScan Bitmap ConsecutiveBits Set = do {
     b \<leftarrow> Bitmap;
     BitmapScanFromTo Bitmap 0 (BitCount b) ConsecutiveBits Set
   }"

definition BitmapScanFrom :: "bitmap option \<Rightarrow> u32 \<Rightarrow> u32 \<Rightarrow> bool \<Rightarrow> u32 option" where
  "BitmapScanFrom Bitmap Index ConsecutiveBits Set = do {
     b \<leftarrow> Bitmap;
     BitmapScanFromTo Bitmap Index (BitCount b) ConsecutiveBits Set
   }"

definition BitmapScanFromToAndFlip ::
  "bitmap option \<Rightarrow> u32 \<Rightarrow> u32 \<Rightarrow> u32 \<Rightarrow> bool \<Rightarrow> (bitmap option \<times> u32) option" where
  "BitmapScanFromToAndFlip Bitmap Index FirstInvalidBitIndex ConsecutiveBits Set =
     (case Bitmap of
        None \<Rightarrow> Some (None, MAX_DWORD)
      | Some b \<Rightarrow>
          if 0 = ConsecutiveBits then Some (Some b, MAX_DWORD)
          else if Index > FirstInvalidBitIndex \<or> FirstInvalidBitIndex > BitCount b
          then Some (Some b, MAX_DWORD)
          else do {
            bitmapIndex \<leftarrow> BitmapScanInternal Bitmap Index FirstInvalidBitIndex ConsecutiveBits Set;
            if MAX_DWORD = bitmapIndex then Some (Some b, MAX_DWORD)
            else do {
              buf \<leftarrow> BitmapChangeBits (BitmapBuffer b) bitmapIndex (\<not> Set) ConsecutiveBits;
              Some (Some (b\<lparr>BitmapBuffer := buf\<rparr>), bitmapIndex)
            }
          })"

definition BitmapScanAndFlip :: "bitmap option \<Rightarrow> u32 \<Rightarrow> bool \<Rightarrow> (bitmap option \<times> u32) option" where
  "BitmapScanAndFlip Bitmap ConsecutiveBits Set = do {
     b \<leftarrow> Bitmap;
     BitmapScanFromToAndFlip Bitmap 0 (BitCount b) ConsecutiveBits Set
   }"

definition BitmapScanFromAndFlip ::
  "bitmap option \<Rightarrow> u32 \<Rightarrow> u32 \<Rightarrow> bool \<Rightarrow> (bitmap option \<times> u32) option" where
  "BitmapScanFromAndFlip Bitmap Index ConsecutiveBits Set = do {
     b \<leftarrow> Bitmap;
     BitmapScanFromToAndFlip Bitmap Index (BitCount b) ConsecutiveBits Set
   }"

section \<open>Abstraction and invariant\<close>

definition bit_at :: "u8 list \<Rightarrow> nat \<Rightarrow> bool" where
  "bit_at buf i = bit (buf ! (i div 8)) (i mod 8)"

definition bits :: "bitmap \<Rightarrow> bool list" where
  "bits b = map (bit_at (the (BitmapBuffer b))) [0..<unat (BitCount b)]"

definition bitmap_ok :: "bitmap \<Rightarrow> bool" where
  "bitmap_ok b \<longleftrightarrow> 0 < BitCount b \<and> unat (BufferSize b) = (unat (BitCount b) + 7) div 8 \<and>
     (case BitmapBuffer b of None \<Rightarrow> False | Some buf \<Rightarrow> unat (BufferSize b) \<le> length buf)"

lemma length_bits [simp]: "length (bits b) = unat (BitCount b)"
  by (simp add: bits_def)

lemma nth_bits [simp]: "i < unat (BitCount b) \<Longrightarrow> bits b ! i = bit_at (the (BitmapBuffer b)) i"
  by (simp add: bits_def)

lemma bitmap_okE:
  assumes "bitmap_ok b"
  obtains buf where "BitmapBuffer b = Some buf" "(unat (BitCount b) + 7) div 8 \<le> length buf"
    "0 < BitCount b" "unat (BufferSize b) = (unat (BitCount b) + 7) div 8"
  using assms by (auto simp: bitmap_ok_def split: option.splits)

section \<open>Single bits\<close>

lemma IsBooleanFlagOn_exp [simp]:
  assumes "r < 8"
  shows "IsBooleanFlagOn (v :: u8) (2 ^ r) \<longleftrightarrow> bit v r"
proof -
  have "v AND 2 ^ r = (if bit v r then 2 ^ r else 0)"
    by (rule bit_word_eqI) (auto simp: bit_simps)
  moreover have "(2 :: u8) ^ r \<noteq> 0" using assms by simp
  ultimately show ?thesis by (auto simp: IsBooleanFlagOn_def)
qed

lemma unat_div_8: "unat ((i :: u32) div 8) = unat i div 8"
  by (simp add: unat_div_distrib)

lemma unat_mod_8: "unat ((i :: u32) mod 8) = unat i mod 8"
  by (simp add: unat_mod_distrib)

lemma BitmapGetBit_at:
  "unat i div 8 < length buf \<Longrightarrow> BitmapGetBit (Some buf) i = Some (bit_at buf (unat i))"
  by (simp add: BitmapGetBit_def unat_div_8 unat_mod_8 bit_at_def)

lemma BitmapChangeBit_at:
  assumes "unat i div 8 < length buf"
  obtains buf' where "BitmapChangeBit (Some buf) i v = Some buf'" "length buf' = length buf"
    "\<And>j. j div 8 < length buf \<Longrightarrow> bit_at buf' j = (if j = unat i then v else bit_at buf j)"
proof -
  let ?k = "unat i div 8" and ?r = "unat i mod 8"
  let ?new = "if v then buf ! ?k OR push_bit ?r 1 else buf ! ?k AND NOT (push_bit ?r 1)"
  have c: "BitmapChangeBit (Some buf) i v = Some (buf[?k := ?new])"
    using assms by (simp add: BitmapChangeBit_def unat_div_8 unat_mod_8 Let_def)
  have b: "bit ?new q = (if q = ?r then v else bit (buf ! ?k) q)" if "q < 8" for q
    using that by (auto simp: bit_simps)
  have "bit_at (buf[?k := ?new]) j = (if j = unat i then v else bit_at buf j)"
    if "j div 8 < length buf" for j
  proof (cases "j div 8 = ?k")
    case True
    moreover have "j = unat i \<longleftrightarrow> j mod 8 = ?r"
      using True by (metis div_mult_mod_eq)
    ultimately show ?thesis using assms b [of "j mod 8"] by (simp add: bit_at_def)
  next
    case False
    then show ?thesis by (auto simp: bit_at_def)
  qed
  with c show thesis by (intro that [of "buf[?k := ?new]"]) auto
qed

lemma BitmapChangeBits_at:
  assumes "unat i + unat n \<le> 8 * length buf" "unat i + unat n \<le> 2 ^ 32"
  obtains buf' where "BitmapChangeBits (Some buf) i v n = Some (Some buf')" "length buf' = length buf"
    "\<And>j. j div 8 < length buf \<Longrightarrow>
       bit_at buf' j = (if unat i \<le> j \<and> j < unat i + unat n then v else bit_at buf j)"
proof -
  let ?body = "\<lambda>k buf. do { buf' \<leftarrow> BitmapChangeBit buf (i + of_nat k) v; Some (Some buf') }"
  let ?P = "\<lambda>k ob. \<exists>b. ob = Some b \<and> length b = length buf \<and> (\<forall>j. j div 8 < length buf \<longrightarrow>
       bit_at b j = (if unat i \<le> j \<and> j < unat i + k then v else bit_at buf j))"
  have "\<exists>ob. for_upto 0 (unat n) ?body (Some buf) = Some ob \<and> ?P (0 + unat n) ob"
  proof (rule for_upto_rule)
    show "?P 0 (Some buf)" by auto
  next
    fix k ob assume k: "0 \<le> k" "k < 0 + unat n" and "?P k ob"
    then obtain b where ob: "ob = Some b" and lb: "length b = length buf" and
      b: "\<And>j. j div 8 < length buf \<Longrightarrow>
            bit_at b j = (if unat i \<le> j \<and> j < unat i + k then v else bit_at buf j)"
      by auto
    have u: "unat (i + of_nat k) = unat i + k"
      using k assms(2) by (simp add: unat_add_small unat_of_nat_small)
    have "(unat i + k) div 8 < length b" using k assms(1) lb by (simp add: less_mult_imp_div_less)
    with u have "unat (i + of_nat k) div 8 < length b" by simp
    then obtain b' where b': "BitmapChangeBit (Some b) (i + of_nat k) v = Some b'"
      "length b' = length b"
      "\<And>j. j div 8 < length b \<Longrightarrow> bit_at b' j = (if j = unat i + k then v else bit_at b j)"
      using BitmapChangeBit_at [of "i + of_nat k" b v] u by metis
    then show "\<exists>s'. ?body k ob = Some s' \<and> ?P (Suc k) s'"
      using ob lb b by (auto simp: less_Suc_eq)
  qed
  then show thesis
    by (auto simp: BitmapChangeBits_def intro: that)
qed

section \<open>Initialisation, single bits and ranges\<close>

lemma buffer_size:
  "unat (ucast (AlignAddressUpper (ucast (n :: u32)) 8 div 8) :: u32) = (unat n + 7) div 8"
proof -
  have n: "unat (ucast n :: u64) = unat n" by (rule unat_ucast_up)
  have "unat (AlignAddressUpper (ucast n) (2 ^ 3)) = (unat n + 7) div 8 * 8"
    using unat_lt_u32 [of n] by (subst unat_AlignAddressUpper) (simp_all add: n)
  then have "unat (AlignAddressUpper (ucast n) 8 div 8) = (unat n + 7) div 8"
    unfolding alignments(1) by (simp add: unat_div_distrib)
  moreover have "(unat n + 7) div 8 < 2 ^ 32" using unat_lt_u32 [of n] by simp
  ultimately show ?thesis
    by (simp add: unsigned_ucast_eq take_bit_nat_eq_self)
qed

lemma BitmapPreinit_run:
  "n \<noteq> 0 \<Longrightarrow> \<exists>b. BitmapPreinit (Some b0) n = Some (b, BufferSize b) \<and> BitCount b = n \<and>
     unat (BufferSize b) = (unat n + 7) div 8"
  by (simp add: BitmapPreinit_def Let_def buffer_size)

lemma bit_at_replicate:
  "i < 8 * n \<Longrightarrow> bit_at (replicate n (if v then MAX_BYTE else 0) @ xs) i = v"
proof -
  have "bit (0xFF :: u8) q" if "q < 8" for q
  proof -
    have m: "(0xFF :: u8) = mask 8" by (simp add: mask_eq_exp_minus_1)
    show ?thesis unfolding m using that by (simp add: bit_mask_iff)
  qed
  moreover assume "i < 8 * n"
  ultimately show ?thesis
    by (simp add: bit_at_def nth_append less_mult_imp_div_less mult.commute)
qed

lemma BitmapInitEx_run:
  assumes "BitCount b \<noteq> 0" "unat (BufferSize b) = (unat (BitCount b) + 7) div 8"
    and "unat (BufferSize b) \<le> length buf"
  shows "\<exists>b'. BitmapInitEx (Some b) (Some buf) v = Some b' \<and> bitmap_ok b' \<and>
           BitCount b' = BitCount b \<and> bits b' = replicate (unat (BitCount b)) v"
proof -
  let ?buf = "replicate (unat (BufferSize b)) (if v then MAX_BYTE else 0) @ drop (unat (BufferSize b)) buf"
  have r: "BitmapInitEx (Some b) (Some buf) v = Some (b\<lparr>BitmapBuffer := Some ?buf\<rparr>)"
    using assms(3) by (simp add: BitmapInitEx_def cl_memset_whole)
  have "bits (b\<lparr>BitmapBuffer := Some ?buf\<rparr>) = replicate (unat (BitCount b)) v"
    using assms(2) by (intro nth_equalityI) (simp_all add: bit_at_replicate)
  with r assms show ?thesis
    by (auto simp: bitmap_ok_def word_neq_0_conv)
qed

lemma in_buffer: "i < n \<Longrightarrow> i div 8 < (n + 7) div (8 :: nat)"
  by (simp add: less_eq_div_iff_mult_less_eq Suc_le_eq [symmetric])

lemma BitmapGetBitValue_run:
  assumes "bitmap_ok b" "i < BitCount b"
  shows "BitmapGetBitValue (Some b) i = Some (bits b ! unat i)"
proof -
  have i: "unat i < unat (BitCount b)" using assms(2) by (simp add: word_less_nat_alt)
  obtain buf where "BitmapBuffer b = Some buf" "(unat (BitCount b) + 7) div 8 \<le> length buf"
    using assms(1) by (rule bitmap_okE)
  then show ?thesis
    using in_buffer [OF i] assms(2) i by (simp add: BitmapGetBitValue_def BitmapGetBit_at)
qed

lemma BitmapChangeBits_bits:
  assumes "bitmap_ok b" "unat i + unat n \<le> unat (BitCount b)"
  obtains buf where "BitmapChangeBits (BitmapBuffer b) i v n = Some (Some buf)"
    "bitmap_ok (b\<lparr>BitmapBuffer := Some buf\<rparr>)"
    "bits (b\<lparr>BitmapBuffer := Some buf\<rparr>)
       = take (unat i) (bits b) @ replicate (unat n) v @ drop (unat i + unat n) (bits b)"
proof -
  obtain buf where buf: "BitmapBuffer b = Some buf" "(unat (BitCount b) + 7) div 8 \<le> length buf"
    using assms(1) by (rule bitmap_okE)
  have "unat i + unat n \<le> 8 * length buf" "unat i + unat n \<le> 2 ^ 32"
    using assms(2) buf(2) unat_lt_u32 [of "BitCount b"] by (linarith, simp)
  then obtain buf' where buf': "BitmapChangeBits (Some buf) i v n = Some (Some buf')"
    "length buf' = length buf"
    "\<And>j. j div 8 < length buf \<Longrightarrow>
       bit_at buf' j = (if unat i \<le> j \<and> j < unat i + unat n then v else bit_at buf j)"
    using BitmapChangeBits_at [of i n buf v] by blast
  have "bits (b\<lparr>BitmapBuffer := Some buf'\<rparr>)
        = take (unat i) (bits b) @ replicate (unat n) v @ drop (unat i + unat n) (bits b)"
    (is "?l = ?r")
  proof (rule nth_equalityI)
    show "length ?l = length ?r" using assms(2) by simp
  next
    fix j assume "j < length ?l"
    then have j: "j < unat (BitCount b)" by simp
    then have "j div 8 < length buf" using buf(2) in_buffer order_less_le_trans by blast
    then show "?l ! j = ?r ! j"
      using j assms(2) buf(1) buf'(3) [of j] by (auto simp: nth_append)
  qed
  moreover have "bitmap_ok (b\<lparr>BitmapBuffer := Some buf'\<rparr>)"
    using assms(1) buf(1) buf'(2) by (simp add: bitmap_ok_def)
  ultimately show thesis using buf(1) buf'(1) by (intro that [of buf']) simp_all
qed

lemma BitmapSetBitsValue_run:
  assumes "bitmap_ok b" "i < BitCount b" "unat i + unat n \<le> unat (BitCount b)"
  shows "\<exists>b'. BitmapSetBitsValue (Some b) i n v = Some b' \<and> bitmap_ok b' \<and>
     BitCount b' = BitCount b \<and>
     bits b' = take (unat i) (bits b) @ replicate (unat n) v @ drop (unat i + unat n) (bits b)"
proof -
  have "n \<le> BitCount b" using assms(3) by (simp add: word_le_nat_alt)
  then have "unat (BitCount b - n) = unat (BitCount b) - unat n" by (rule unat_sub_small)
  then have a: "i \<le> BitCount b - n" using assms(3) by (simp add: word_le_nat_alt)
  obtain buf where buf: "BitmapChangeBits (BitmapBuffer b) i v n = Some (Some buf)"
    "bitmap_ok (b\<lparr>BitmapBuffer := Some buf\<rparr>)"
    "bits (b\<lparr>BitmapBuffer := Some buf\<rparr>)
       = take (unat i) (bits b) @ replicate (unat n) v @ drop (unat i + unat n) (bits b)"
    using assms(1,3) by (rule BitmapChangeBits_bits)
  show ?thesis
    using assms(2) a buf by (simp add: BitmapSetBitsValue_def)
qed

lemma BitmapSetBitValue_run:
  assumes "bitmap_ok b" "i < BitCount b"
  shows "\<exists>b'. BitmapSetBitValue (Some b) i v = Some b' \<and> bitmap_ok b' \<and>
     BitCount b' = BitCount b \<and> bits b' = (bits b)[unat i := v]"
proof -
  have i: "unat i < unat (BitCount b)" using assms(2) by (simp add: word_less_nat_alt)
  obtain buf where buf: "BitmapBuffer b = Some buf" "(unat (BitCount b) + 7) div 8 \<le> length buf"
    using assms(1) by (rule bitmap_okE)
  have "unat i div 8 < length buf" using in_buffer [OF i] buf(2) by simp
  then obtain buf' where buf': "BitmapChangeBit (Some buf) i v = Some buf'"
    "length buf' = length buf"
    "\<And>j. j div 8 < length buf \<Longrightarrow> bit_at buf' j = (if j = unat i then v else bit_at buf j)"
    by (rule BitmapChangeBit_at) auto
  have "bits (b\<lparr>BitmapBuffer := Some buf'\<rparr>) = (bits b)[unat i := v]"
  proof (rule nth_equalityI)
    fix j assume "j < length (bits (b\<lparr>BitmapBuffer := Some buf'\<rparr>))"
    then have j: "j < unat (BitCount b)" by simp
    then have "j div 8 < length buf" using buf(2) in_buffer order_less_le_trans by blast
    then show "bits (b\<lparr>BitmapBuffer := Some buf'\<rparr>) ! j = (bits b)[unat i := v] ! j"
      using j i buf(1) buf'(3) [of j] by (auto simp: nth_list_update)
  qed simp
  then show ?thesis
    using assms buf buf'(1,2) by (simp add: BitmapSetBitValue_def bitmap_ok_def)
qed

section \<open>Scanning\<close>

text \<open>A run of \<open>n\<close> bits equal to \<open>v\<close> at position \<open>i\<close>; and the answer that a
  scan of the positions \<open>[from, to)\<close> owes: the lowest start of such a run inside the
  range, or \<open>MAX_DWORD\<close> when there is none.\<close>

definition run_at :: "bool list \<Rightarrow> nat \<Rightarrow> nat \<Rightarrow> bool \<Rightarrow> bool" where
  "run_at bs i n v \<longleftrightarrow> take n (drop i bs) = replicate n v"

definition scan_answer :: "bool list \<Rightarrow> nat \<Rightarrow> nat \<Rightarrow> nat \<Rightarrow> bool \<Rightarrow> u32 \<Rightarrow> bool" where
  "scan_answer bs lo hi n v r \<longleftrightarrow>
     (if r = MAX_DWORD then \<forall>k. lo \<le> k \<longrightarrow> k + n \<le> hi \<longrightarrow> \<not> run_at bs k n v
      else lo \<le> unat r \<and> unat r + n \<le> hi \<and> run_at bs (unat r) n v \<and>
           (\<forall>k. lo \<le> k \<longrightarrow> k < unat r \<longrightarrow> \<not> run_at bs k n v))"

lemma run_at_Suc:
  "i < length bs \<Longrightarrow> run_at bs i (Suc n) v \<longleftrightarrow> bs ! i = v \<and> run_at bs (Suc i) n v"
  by (auto simp: run_at_def Cons_nth_drop_Suc [symmetric])

lemma run_at_nth: "run_at bs i n v \<Longrightarrow> i + n \<le> length bs \<Longrightarrow> k < n \<Longrightarrow> bs ! (i + k) = v"
  unfolding run_at_def by (metis add_leD1 nth_drop nth_replicate nth_take)

lemma run_at_iff: "i + n \<le> length bs \<Longrightarrow> run_at bs i n v \<longleftrightarrow> (\<forall>k<n. bs ! (i + k) = v)"
  by (auto simp: run_at_nth) (auto simp: run_at_def intro!: nth_equalityI)

lemma scan_window_run:
  assumes "bitmap_ok b" "unat i + (j + n) \<le> unat (BitCount b)"
  shows "scan_window (BitmapBuffer b) v i j n = Some (run_at (bits b) (unat i + j) n v)"
  using assms(2)
proof (induction n arbitrary: j)
  case 0
  then show ?case by (simp add: run_at_def)
next
  case (Suc n)
  obtain buf where buf: "BitmapBuffer b = Some buf" "(unat (BitCount b) + 7) div 8 \<le> length buf"
    using assms(1) by (rule bitmap_okE)
  have u: "unat (i + of_nat j) = unat i + j"
    using Suc.prems unat_lt_u32 [of "BitCount b"] by (simp add: unat_add_small unat_of_nat_small)
  have "(unat i + j) div 8 < length buf"
    using Suc.prems in_buffer [of "unat i + j" "unat (BitCount b)"] buf(2) by simp
  then have "BitmapGetBit (BitmapBuffer b) (i + of_nat j) = Some (bits b ! (unat i + j))"
    using Suc.prems buf(1) u BitmapGetBit_at [of "i + of_nat j" buf] by simp
  with Suc show ?case by (auto simp: run_at_Suc)
qed

lemma scan_answer_step:
  assumes "\<not> run_at bs lo n v" "scan_answer bs (Suc lo) hi n v r"
  shows "scan_answer bs lo hi n v r"
  using assms unfolding scan_answer_def
  by (cases "r = MAX_DWORD") (simp_all, metis Suc_leI le_neq_implies_less, metis Suc_leD Suc_leI le_neq_implies_less)

lemma scan_starts_run:
  assumes "bitmap_ok b" "unat i + k + unat n \<le> Suc (unat (BitCount b))" "n \<noteq> 0"
  shows "\<exists>r. scan_starts (BitmapBuffer b) v n i k = Some r \<and>
           scan_answer (bits b) (unat i) (unat i + k + unat n - 1) (unat n) v r"
  using assms(2)
proof (induction k arbitrary: i)
  case 0
  have "0 < unat n" using assms(3) by (simp add: unat_gt_0)
  then show ?case by (auto simp: scan_answer_def)
next
  case (Suc k)
  have n: "0 < unat n" using assms(3) by (simp add: unat_gt_0)
  have w: "scan_window (BitmapBuffer b) v i 0 (unat n) = Some (run_at (bits b) (unat i) (unat n) v)"
    using assms(1) Suc.prems scan_window_run [of b i 0 "unat n" v] by simp
  show ?case
  proof (cases "run_at (bits b) (unat i) (unat n) v")
    case True
    have "unat i < 2 ^ 32 - 1" using Suc.prems n unat_lt_u32 [of "BitCount b"] by simp
    then have "i \<noteq> MAX_DWORD" by auto
    with w True n show ?thesis by (auto simp: scan_answer_def)
  next
    case False
    have u: "unat (i + 1) = Suc (unat i)"
      using Suc.prems n unat_lt_u32 [of "BitCount b"] by (simp add: unat_add_small)
    have "\<exists>r. scan_starts (BitmapBuffer b) v n (i + 1) k = Some r \<and>
            scan_answer (bits b) (unat (i + 1)) (unat (i + 1) + k + unat n - 1) (unat n) v r"
      using Suc.prems u by (intro Suc.IH) simp
    then obtain r where r: "scan_starts (BitmapBuffer b) v n (i + 1) k = Some r"
      "scan_answer (bits b) (Suc (unat i)) (unat i + Suc k + unat n - 1) (unat n) v r"
      unfolding u by auto
    have "scan_answer (bits b) (unat i) (unat i + Suc k + unat n - 1) (unat n) v r"
      using False r(2) by (rule scan_answer_step)
    with w False r(1) show ?thesis by auto
  qed
qed

lemma BitmapScanInternal_run:
  assumes "bitmap_ok b" "n \<noteq> 0" "i \<le> hi" "hi \<le> BitCount b"
  shows "\<exists>r. BitmapScanInternal (Some b) i hi n v = Some r \<and>
           scan_answer (bits b) (unat i) (unat hi) (unat n) v r"
proof (cases "hi - i < n")
  case True
  then have "unat hi - unat i < unat n"
    using assms(3) by (simp add: word_less_nat_alt unat_sub_small)
  with True assms show ?thesis
    by (auto simp: BitmapScanInternal_def scan_answer_def)
next
  case False
  then have le: "unat n \<le> unat hi - unat i"
    using assms(3) by (simp add: not_less word_le_nat_alt unat_sub_small)
  have ih: "unat i \<le> unat hi" "unat hi \<le> unat (BitCount b)" "0 < unat n"
    using assms by (simp_all add: word_le_nat_alt unat_gt_0)
  then have l: "unat (hi - n) = unat hi - unat n"
    using le by (intro unat_sub_small) (simp add: word_le_nat_alt)
  let ?k = "Suc (unat hi - unat n) - unat i"
  have k: "unat i + ?k + unat n = Suc (unat hi)" using le ih by simp
  then obtain r where "scan_starts (BitmapBuffer b) v n i ?k = Some r"
    "scan_answer (bits b) (unat i) (unat hi) (unat n) v r"
    using scan_starts_run [OF assms(1), of i ?k n v] assms(2) ih by auto
  with False assms l show ?thesis by (simp add: BitmapScanInternal_def Let_def)
qed

lemma BitmapScanFromTo_run:
  assumes "bitmap_ok b" "n \<noteq> 0" "i \<le> hi" "hi \<le> BitCount b"
  shows "\<exists>r. BitmapScanFromTo (Some b) i hi n v = Some r \<and>
           scan_answer (bits b) (unat i) (unat hi) (unat n) v r"
  using BitmapScanInternal_run [OF assms] assms by (auto simp: BitmapScanFromTo_def)

lemma scan_answer_found:
  assumes "scan_answer bs lo hi n v r" "r \<noteq> MAX_DWORD"
  shows "lo \<le> unat r" "unat r + n \<le> hi" "run_at bs (unat r) n v"
  using assms by (auto simp: scan_answer_def)

text \<open>Scan and flip: the answer of the scan, and the found run (nothing, when there is none)
  gets the other value.\<close>

lemma BitmapScanFromToAndFlip_run:
  assumes "bitmap_ok b" "n \<noteq> 0" "i \<le> hi" "hi \<le> BitCount b"
  shows "\<exists>b' r. BitmapScanFromToAndFlip (Some b) i hi n v = Some (Some b', r) \<and>
           bitmap_ok b' \<and> BitCount b' = BitCount b \<and>
           scan_answer (bits b) (unat i) (unat hi) (unat n) v r \<and>
           bits b' = (if r = MAX_DWORD then bits b
                      else take (unat r) (bits b) @ replicate (unat n) (\<not> v)
                             @ drop (unat r + unat n) (bits b))"
proof -
  obtain r where r: "BitmapScanInternal (Some b) i hi n v = Some r"
    "scan_answer (bits b) (unat i) (unat hi) (unat n) v r"
    using BitmapScanInternal_run [OF assms] by blast
  show ?thesis
  proof (cases "r = MAX_DWORD")
    case True
    with r assms show ?thesis by (simp add: BitmapScanFromToAndFlip_def)
  next
    case False
    have "unat r + unat n \<le> unat (BitCount b)"
      using scan_answer_found(2) [OF r(2) False] assms(4) by (simp add: word_le_nat_alt)
    then obtain buf where "BitmapChangeBits (BitmapBuffer b) r (\<not> v) n = Some (Some buf)"
      "bitmap_ok (b\<lparr>BitmapBuffer := Some buf\<rparr>)"
      "bits (b\<lparr>BitmapBuffer := Some buf\<rparr>)
         = take (unat r) (bits b) @ replicate (unat n) (\<not> v) @ drop (unat r + unat n) (bits b)"
      using BitmapChangeBits_bits [OF assms(1), of r n "\<not> v"] by blast
    moreover have "\<not> hi < i" "\<not> BitCount b < hi" using assms(3,4) by simp_all
    ultimately show ?thesis
      using False r assms(1,2) by (simp add: BitmapScanFromToAndFlip_def)
  qed
qed

text \<open>The range check of \<open>BitmapSetBitsValue\<close> subtracts before it compares: a count above
  \<open>BitCount\<close> wraps and passes, and the write leaves the bitmap.\<close>

lemma BitmapSetBitsValue_wraps:
  "BitmapSetBitsValue (Some \<lparr>BitmapBuffer = Some [0, 0], BufferSize = 1, BitCount = 8\<rparr>) 0 9 True
   = Some \<lparr>BitmapBuffer = Some [0xFF, 1], BufferSize = 1, BitCount = 8\<rparr>"
  by code_simp

section \<open>The bitmap as an allocator\<close>

text \<open>Clients reserve with a scan for clear bits that it then sets, and release by clearing
  the run. The units in use are the set bits.\<close>

definition bitmap_reserve :: "bitmap \<Rightarrow> u32 \<Rightarrow> (bitmap \<times> u32 option) option" where
  "bitmap_reserve b n = do {
     r \<leftarrow> BitmapScanAndFlip (Some b) n False;
     b' \<leftarrow> fst r;
     Some (b', if snd r = MAX_DWORD then None else Some (snd r))
   }"

definition bitmap_release :: "bitmap \<Rightarrow> u32 \<Rightarrow> u32 \<Rightarrow> bitmap option" where
  "bitmap_release b i n = BitmapSetBitsValue (Some b) i n False"

definition set_bits_of :: "bitmap \<Rightarrow> nat set" where
  "set_bits_of b = {i. i < length (bits b) \<and> bits b ! i}"

lemma set_bits_fill:
  assumes "bits b' = take i (bits b) @ replicate n v @ drop (i + n) (bits b)" "i + n \<le> length (bits b)"
  shows "set_bits_of b' = (if v then set_bits_of b \<union> {i ..< i + n} else set_bits_of b - {i ..< i + n})"
  using assms by (auto simp: set_bits_of_def nth_append min_absorb2)

lemma run_clear:
  assumes "run_at (bits b) i n False" "i + n \<le> length (bits b)"
  shows "set_bits_of b \<inter> {i ..< i + n} = {}"
proof -
  have "\<not> bits b ! k" if "i \<le> k" "k < i + n" for k
    using assms that run_at_nth [of "bits b" i n False "k - i"] by simp
  then show ?thesis by (auto simp: set_bits_of_def simp del: nth_bits)
qed

lemma bitmap_reserve_run:
  assumes "bitmap_ok b"
  shows "\<exists>b' r. bitmap_reserve b n = Some (b', r) \<and> bitmap_ok b' \<and> BitCount b' = BitCount b \<and>
     (case r of
        None \<Rightarrow> bits b' = bits b \<and>
          (n = 0 \<or> (\<forall>k. k + unat n \<le> unat (BitCount b) \<longrightarrow> \<not> run_at (bits b) k (unat n) False))
      | Some i \<Rightarrow> n \<noteq> 0 \<and> unat i + unat n \<le> unat (BitCount b) \<and> run_at (bits b) (unat i) (unat n) False \<and>
          bits b' = take (unat i) (bits b) @ replicate (unat n) True @ drop (unat i + unat n) (bits b))"
proof (cases "n = 0")
  case True
  with assms show ?thesis
    by (simp add: bitmap_reserve_def BitmapScanAndFlip_def BitmapScanFromToAndFlip_def)
next
  case False
  obtain b' r where r: "BitmapScanFromToAndFlip (Some b) 0 (BitCount b) n False = Some (Some b', r)"
    "bitmap_ok b'" "BitCount b' = BitCount b"
    "scan_answer (bits b) 0 (unat (BitCount b)) (unat n) False r"
    "bits b' = (if r = MAX_DWORD then bits b
       else take (unat r) (bits b) @ replicate (unat n) True @ drop (unat r + unat n) (bits b))"
    using BitmapScanFromToAndFlip_run [OF assms False, of 0 "BitCount b" False] by auto
  show ?thesis
  proof (cases "r = MAX_DWORD")
    case True
    with r False show ?thesis
      by (simp add: bitmap_reserve_def BitmapScanAndFlip_def scan_answer_def)
  next
    case notmax: False
    then have "bitmap_reserve b n = Some (b', Some r)"
      using r(1) by (simp add: bitmap_reserve_def BitmapScanAndFlip_def)
    with notmax r False scan_answer_found [OF r(4) notmax] show ?thesis by simp
  qed
qed

interpretation bm: range_allocator bitmap_ok set_bits_of "unat :: u32 \<Rightarrow> nat"
  bitmap_reserve bitmap_release
proof (unfold_locales, goal_cases)
  case (1 s n)
  then show ?case using bitmap_reserve_run [of s n] by auto
next
  case (2 s n s' r)
  then show ?case using bitmap_reserve_run [of s n] by auto
next
  case (3 s n s')
  then show ?case using bitmap_reserve_run [of s n] by (auto simp: set_bits_of_def)
next
  case (4 s n s' b)
  then have a: "n \<noteq> 0" "unat b + unat n \<le> length (bits s)" "run_at (bits s) (unat b) (unat n) False"
    "bits s' = take (unat b) (bits s) @ replicate (unat n) True @ drop (unat b + unat n) (bits s)"
    using bitmap_reserve_run [of s n] by auto
  from a(1) have "0 < unat n" by (simp add: unat_gt_0)
  with run_clear [OF a(3,2)] set_bits_fill [OF a(4,2)] show ?case by simp
next
  case (5 s n b)
  have "unat b + unat n - 1 \<in> set_bits_of s" using 5(2,3) by auto
  then have le: "unat b + unat n \<le> unat (BitCount s)" using 5(2) by (auto simp: set_bits_of_def)
  then have "b < BitCount s" using 5(2) by (simp add: word_less_nat_alt)
  then obtain s' where "bitmap_release s b n = Some s'" "bitmap_ok s'"
    "bits s' = take (unat b) (bits s) @ replicate (unat n) False @ drop (unat b + unat n) (bits s)"
    using BitmapSetBitsValue_run [OF 5(1) _ le, of False] by (auto simp: bitmap_release_def)
  then show ?case using set_bits_fill [of s' "unat b" s "unat n" False] le by auto
qed

section \<open>Properties\<close>

text \<open>C38: on a well-formed bitmap, \<open>BitmapScanFromToAndFlip\<close> never faults; it answers the lowest
  run of the asked length and value inside the range, or \<open>MAX_DWORD\<close> when there is none, and
  it flips exactly the bits of that run (none, when there is none).\<close>

theorem scan_and_flip_first_fit:
  assumes "bitmap_ok b" "n \<noteq> 0" "i \<le> hi" "hi \<le> BitCount b"
  shows "\<exists>b' r. BitmapScanFromToAndFlip (Some b) i hi n v = Some (Some b', r) \<and>
           bitmap_ok b' \<and> BitCount b' = BitCount b \<and>
           scan_answer (bits b) (unat i) (unat hi) (unat n) v r \<and>
           bits b' = (if r = MAX_DWORD then bits b
                      else take (unat r) (bits b) @ replicate (unat n) (\<not> v)
                             @ drop (unat r + unat n) (bits b))"
  using assms by (rule BitmapScanFromToAndFlip_run)

definition sample_bitmap :: bitmap where
  "sample_bitmap = \<lparr>BitmapBuffer = Some [0x13, 0x00], BufferSize = 2, BitCount = 12\<rparr>"

lemma sample_bitmap_ok: "bitmap_ok sample_bitmap"
  by code_simp

lemma scan_and_flip_first_fit_witness:
  "\<exists>b' r. BitmapScanFromToAndFlip (Some sample_bitmap) 0 12 3 False = Some (Some b', r) \<and>
     bitmap_ok b' \<and> BitCount b' = BitCount sample_bitmap \<and>
     scan_answer (bits sample_bitmap) (unat (0 :: u32)) (unat (12 :: u32)) (unat (3 :: u32)) False r \<and>
     bits b' = (if r = MAX_DWORD then bits sample_bitmap
                else take (unat r) (bits sample_bitmap) @ replicate (unat (3 :: u32)) (\<not> False)
                       @ drop (unat r + unat (3 :: u32)) (bits sample_bitmap))"
  by (rule scan_and_flip_first_fit [OF sample_bitmap_ok]) (simp_all add: sample_bitmap_def)

text \<open>C37: any client that reserves runs of bits with scan-and-flip and releases with
  \<open>BitmapClearBits\<close> only what it holds never meets a fault, and at every moment the runs that
  it holds are pairwise disjoint.\<close>

theorem bitmap_client_disjoint:
  assumes "bitmap_ok b"
  shows "\<exists>b' live. serve bitmap_reserve bitmap_release rs b [] = Some (b', live) \<and> bitmap_ok b' \<and>
     (\<forall>i j. i < j \<longrightarrow> j < length live \<longrightarrow>
        {unat (fst (live ! i)) ..< unat (fst (live ! i)) + unat (snd (live ! i))} \<inter>
        {unat (fst (live ! j)) ..< unat (fst (live ! j)) + unat (snd (live ! j))} = {})"
  using bm.serve_safe [OF assms bm.live_ok_Nil, of rs] bm.serve_disjoint [OF assms]
  unfolding bm.range_of_def by blast

lemma bitmap_client_disjoint_witness:
  "\<exists>b' live. serve bitmap_reserve bitmap_release [Acquire 3, Acquire 2, Release 5 3, Acquire 6]
       sample_bitmap [] = Some (b', live) \<and> bitmap_ok b' \<and>
     (\<forall>i j. i < j \<longrightarrow> j < length live \<longrightarrow>
        {unat (fst (live ! i)) ..< unat (fst (live ! i)) + unat (snd (live ! i))} \<inter>
        {unat (fst (live ! j)) ..< unat (fst (live ! j)) + unat (snd (live ! j))} = {})"
  by (rule bitmap_client_disjoint [OF sample_bitmap_ok])

text \<open>\<open>BitmapSetBits\<close> and \<open>BitmapClearBits\<close> write exactly the bits of the given range: the
  bits before it and after it keep their values, on every well-formed bitmap and in-range
  argument.\<close>

theorem set_bits_exact:
  assumes "bitmap_ok b" "i < BitCount b" "unat i + unat n \<le> unat (BitCount b)"
  shows "\<exists>b'. BitmapSetBitsValue (Some b) i n v = Some b' \<and> bitmap_ok b' \<and>
     BitCount b' = BitCount b \<and>
     bits b' = take (unat i) (bits b) @ replicate (unat n) v @ drop (unat i + unat n) (bits b)"
  using assms by (rule BitmapSetBitsValue_run)

lemma set_bits_exact_witness:
  "\<exists>b'. BitmapSetBitsValue (Some sample_bitmap) 5 4 True = Some b' \<and> bitmap_ok b' \<and>
     BitCount b' = BitCount sample_bitmap \<and>
     bits b' = take (unat (5 :: u32)) (bits sample_bitmap) @ replicate (unat (4 :: u32)) True
                 @ drop (unat (5 :: u32) + unat (4 :: u32)) (bits sample_bitmap)"
  by (rule set_bits_exact [OF sample_bitmap_ok]) (simp_all add: sample_bitmap_def)

end
