(* ===== verification/CL_Heap.thy ===== *)
theory CL_Heap
  imports CL_List
begin

text \<open>
  \<open>CommonLib/src/cl_heap.c\<close>: the kernel heap. Allocations form a list ordered by address;
  each is a \<open>HEAP_ENTRY\<close> header, the data and a \<open>HEAP_TAIL\<close>. New allocations go behind the
  last one (\<open>FreeAddress\<close>) while there is room and into the gaps between two entries after
  that; the search for a gap starts where the last gap was filled
  (\<open>EntryToRestartSearch\<close>).

  The state holds the fields of \<open>HEAP_HEADER\<close> and the memory of the heap, by type: the
  entries, the tails, the link cells (\<open>LIST_ENTRY\<close> at offset 16 of an entry, and at offset 56
  of the header) and the data bytes. The structures that the code writes never overlap,
  which is what the invariant \<open>heap_ok\<close> says.
\<close>

section \<open>State and operations\<close>

abbreviation (input) HEAP_MINIMUM_SIZE :: u64 where "HEAP_MINIMUM_SIZE \<equiv> 0x10000"
abbreviation (input) HEAP_MAGIC :: u32 where "HEAP_MAGIC \<equiv> 0xACE2302E"
abbreviation (input) HEAP_FREE_PATTERN :: u8 where "HEAP_FREE_PATTERN \<equiv> 0xAF"
abbreviation (input) HEAP_DEFAULT_ALIGNMENT :: u32 where "HEAP_DEFAULT_ALIGNMENT \<equiv> 16"
abbreviation (input) PoolAllocateZeroMemory :: u32 where "PoolAllocateZeroMemory \<equiv> 2"
abbreviation (input) PoolAllocatePanicIfFail :: u32 where "PoolAllocatePanicIfFail \<equiv> 4"

text \<open>\<open>sizeof(HEAP_ENTRY)\<close>, \<open>sizeof(HEAP_TAIL)\<close> and \<open>sizeof(HEAP_HEADER)\<close>.\<close>

abbreviation (input) ENTRY_SIZE :: u64 where "ENTRY_SIZE \<equiv> 0x20"
abbreviation (input) TAIL_SIZE :: u64 where "TAIL_SIZE \<equiv> 4"
abbreviation (input) HEADER_SIZE :: u64 where "HEADER_SIZE \<equiv> 0x48"

record heap_entry =
  e_Magic :: u32
  e_Tag :: u32
  e_Size :: u32
  e_Offset :: u32

record heap =
  h_Magic :: u32
  HeapSizeMaximum :: u64
  HeapSizeRemaining :: u64
  BaseAddress :: u64
  FreeAddress :: u64
  HeapNumberOfAllocations :: u64
  EntryToRestartSearch :: u64
  h_entries :: "u64 \<Rightarrow> heap_entry option"
  h_tails :: "u64 \<Rightarrow> u32 option"
  h_links :: list_mem
  h_data :: "u64 \<Rightarrow> u8"

definition HeapAllocations :: "heap \<Rightarrow> u64" where
  "HeapAllocations h = BaseAddress h + 0x38"

text \<open>The list cell of an entry, and \<open>CONTAINING_RECORD\<close> back from it.\<close>

definition ListEntry_of :: "u64 \<Rightarrow> u64" where
  "ListEntry_of p = p + 0x10"

definition heap_record :: "u64 \<Rightarrow> u64" where
  "heap_record c = c - 0x10"

text \<open>\<open>memset\<close> on the data bytes of the heap.\<close>

definition fill :: "(u64 \<Rightarrow> u8) \<Rightarrow> u64 \<Rightarrow> u8 \<Rightarrow> u64 \<Rightarrow> u64 \<Rightarrow> u8" where
  "fill d a v n = (\<lambda>q. if q - a < n then v else d q)"

definition ClHeapInit ::
  "heap \<Rightarrow> u64 \<Rightarrow> u64 \<Rightarrow> (heap \<times> STATUS) option" where
  "ClHeapInit h Base MemoryAvailable =
     (if Base = 0 then Some (h, STATUS_INVALID_PARAMETER1)
      else if MemoryAvailable < HEAP_MINIMUM_SIZE then Some (h, STATUS_HEAP_TOO_SMALL)
      else do {
        let h' = h\<lparr>h_Magic := HEAP_MAGIC, BaseAddress := Base, HeapSizeMaximum := MemoryAvailable,
          HeapSizeRemaining := MemoryAvailable - HEADER_SIZE, HeapNumberOfAllocations := 0,
          EntryToRestartSearch := Base + 0x38, FreeAddress := Base + HEADER_SIZE\<rparr>;
        lm \<leftarrow> InitializeListHead (h_links h) (HeapAllocations h');
        Some (h'\<lparr>h_links := lm\<rparr>, STATUS_SUCCESS)
      })"

text \<open>Returns the heap, the entry (moved up to the alignment) and the address behind its tail,
  or 0 when it does not fit. \<open>heapEntrySize\<close> is a DWORD.\<close>

definition InitHeapEntry ::
  "heap \<Rightarrow> u64 \<Rightarrow> u32 \<Rightarrow> u32 \<Rightarrow> u32 \<Rightarrow> bool \<Rightarrow> u64 \<Rightarrow> (heap \<times> u64 \<times> u64) option" where
  "InitHeapEntry h pHeapEntry Tag sz Alignment AddToLinkedList SizeAvailable = (
     let unalignedDataAddress = pHeapEntry + ENTRY_SIZE;
         dataAddress = AlignAddressUpper unalignedDataAddress (ucast Alignment);
         heapEntrySize = (sz + 0x24 :: u32)
     in
     if SizeAvailable < dataAddress - unalignedDataAddress + ucast heapEntrySize
     then Some (h, pHeapEntry, 0)
     else do {
       let q = dataAddress - ENTRY_SIZE;
       lm \<leftarrow> (if AddToLinkedList then InsertTailList (h_links h) (HeapAllocations h) (ListEntry_of q)
             else Some (h_links h));
       let pHeapTail = dataAddress + ucast sz;
       Some (h\<lparr>h_entries := (h_entries h)(q \<mapsto>
                 \<lparr>e_Magic = HEAP_MAGIC, e_Tag = Tag, e_Size = sz, e_Offset = ucast (dataAddress - q)\<rparr>),
               h_links := lm,
               h_tails := (h_tails h)(pHeapTail \<mapsto> HEAP_MAGIC),
               HeapSizeRemaining := HeapSizeRemaining h - ucast heapEntrySize,
               HeapNumberOfAllocations := HeapNumberOfAllocations h + 1\<rparr>,
             q, pHeapTail + TAIL_SIZE)
     })"

definition ValidateHeapEntry :: "heap \<Rightarrow> u64 \<Rightarrow> u32 \<Rightarrow> bool option" where
  "ValidateHeapEntry h p Tag = do {
     ASSERT (p \<noteq> 0);
     ASSERT (Tag \<noteq> 0);
     e \<leftarrow> h_entries h p;
     let totalSize = (0x20 + e_Size e + 4 :: u32);
     t \<leftarrow> h_tails h (p + ucast totalSize - TAIL_SIZE);
     Some (e_Magic e = HEAP_MAGIC \<and> t = HEAP_MAGIC \<and> e_Tag e \<noteq> 0 \<and> Tag = e_Tag e)
   }"

text \<open>The loop over the gaps. \<open>pCurHeapEntry\<close> is assigned only when neither pointer is the list
  head, and \<open>next_loop\<close> copies it to \<open>pPreviousHeapEntry\<close> whether or not it was.\<close>

partial_function (option) gap_search ::
  "heap \<Rightarrow> u32 \<Rightarrow> u32 \<Rightarrow> u32 \<Rightarrow> u64 \<Rightarrow> u64 \<Rightarrow> u64 \<Rightarrow> u64 \<Rightarrow> u64 \<Rightarrow> (heap \<times> u64 option) option" where
  "gap_search h sz Tag alignment sizeRequired pPrevious pPreviousHeap pCur pCurHeap =
     (if EntryToRestartSearch h = pCur then Some (h, None)
      else if pCur = HeapAllocations h \<or> pPrevious = HeapAllocations h then do {
        f \<leftarrow> get_Flink (h_links h) pCur;
        gap_search h sz Tag alignment sizeRequired pCur pCurHeap f pCurHeap
      }
      else do {
        ASSERT (pPreviousHeap \<noteq> 0);
        let cur = heap_record pCur;
        pe \<leftarrow> h_entries h pPreviousHeap;
        let startAddress = pPreviousHeap + ENTRY_SIZE + ucast (e_Size pe) + TAIL_SIZE;
        let sizeBetweenEntries = cur - startAddress;
        if sint sizeRequired \<le> sint sizeBetweenEntries then do {
          r \<leftarrow> InitHeapEntry h startAddress Tag sz alignment False sizeBetweenEntries;
          if snd (snd r) = 0 then do {
            f \<leftarrow> get_Flink (h_links h) pCur;
            gap_search h sz Tag alignment sizeRequired pCur cur f cur
          }
          else do {
            v \<leftarrow> ValidateHeapEntry (fst r) pPreviousHeap (e_Tag pe);
            ASSERT v;
            lm \<leftarrow> InsertHeadList (h_links (fst r)) pPrevious (ListEntry_of (fst (snd r)));
            Some ((fst r)\<lparr>h_links := lm, EntryToRestartSearch := ListEntry_of (fst (snd r))\<rparr>,
                  Some (fst (snd r)))
          }
        }
        else do {
          f \<leftarrow> get_Flink (h_links h) pCur;
          gap_search h sz Tag alignment sizeRequired pCur cur f cur
        }
      })"

text \<open>The loops are executable.\<close>

declare gap_search.simps [code]

text \<open>The body of the \<open>__try\<close> block: the new entry, or a status.\<close>

definition heap_place ::
  "heap \<Rightarrow> u32 \<Rightarrow> u32 \<Rightarrow> u32 \<Rightarrow> (heap \<times> u64 option \<times> STATUS) option" where
  "heap_place h AllocationSize Tag AllocationAlignment =
     (if AllocationSize = 0 then Some (h, None, STATUS_INVALID_PARAMETER2)
      else if Tag = 0 then Some (h, None, STATUS_INVALID_PARAMETER3)
      else do {
        let alignment = (if AllocationAlignment = 0 then HEAP_DEFAULT_ALIGNMENT else AllocationAlignment);
        let sizeRequired = ucast AllocationSize + ENTRY_SIZE + TAIL_SIZE;
        if HeapSizeRemaining h < sizeRequired then Some (h, None, STATUS_HEAP_NO_MORE_MEMORY)
        else do {
          let remainingSizeUntilEnd = BaseAddress h + HeapSizeMaximum h - FreeAddress h - ENTRY_SIZE;
          r \<leftarrow> (if sint sizeRequired \<le> sint remainingSizeUntilEnd
               then InitHeapEntry h (FreeAddress h) Tag AllocationSize alignment True remainingSizeUntilEnd
               else Some (h, 0, 0));
          if snd (snd r) \<noteq> 0
          then Some ((fst r)\<lparr>FreeAddress := snd (snd r)\<rparr>, Some (fst (snd r)), STATUS_SUCCESS)
          else do {
            let remainingSizeBeforeCurrent = HeapSizeRemaining h - remainingSizeUntilEnd - ENTRY_SIZE;
            if sint remainingSizeBeforeCurrent < sint sizeRequired
            then Some (h, None, STATUS_HEAP_NO_MORE_MEMORY)
            else do {
              empty \<leftarrow> IsListEmpty (h_links h) (HeapAllocations h);
              ASSERT (\<not> empty);
              prev \<leftarrow> get_Flink (h_links h) (EntryToRestartSearch h);
              cur \<leftarrow> get_Flink (h_links h) prev;
              s \<leftarrow> gap_search h AllocationSize Tag alignment sizeRequired prev (heap_record prev) cur 0;
              Some (fst s, snd s,
                if snd s = None then STATUS_HEAP_NO_MORE_MEMORY else STATUS_SUCCESS)
            }
          }
        }
      })"

definition ClHeapAllocatePoolWithTag ::
  "heap \<Rightarrow> u32 \<Rightarrow> u32 \<Rightarrow> u32 \<Rightarrow> u32 \<Rightarrow> (heap \<times> u64) option" where
  "ClHeapAllocatePoolWithTag h Flags AllocationSize Tag AllocationAlignment = do {
     r \<leftarrow> heap_place h AllocationSize Tag AllocationAlignment;
     mappedAddress \<leftarrow> (case fst (snd r) of
         None \<Rightarrow> Some 0
       | Some q \<Rightarrow> do { e \<leftarrow> h_entries (fst r) q; Some (q + ucast (e_Offset e)) });
     ASSERT (IsFlagOn Flags PoolAllocatePanicIfFail \<longrightarrow> SUCCEEDED (snd (snd r)) \<and> mappedAddress \<noteq> 0);
     let h' = (if SUCCEEDED (snd (snd r)) \<and> IsFlagOn Flags PoolAllocateZeroMemory
               then (fst r)\<lparr>h_data := fill (h_data (fst r)) mappedAddress 0 (ucast AllocationSize)\<rparr>
               else fst r);
     Some (h', mappedAddress)
   }"

text \<open>The freed entry, its tail, its list cell and its data are overwritten with the pattern.\<close>

definition ClHeapFreePoolWithTag :: "heap \<Rightarrow> u64 \<Rightarrow> u32 \<Rightarrow> heap option" where
  "ClHeapFreePoolWithTag h MemoryAddress Tag = do {
     ASSERT (MemoryAddress \<noteq> 0);
     ASSERT (Tag \<noteq> 0);
     let p = MemoryAddress - ENTRY_SIZE;
     e \<leftarrow> h_entries h p;
     let endAddress = MemoryAddress + ucast (e_Size e) + TAIL_SIZE;
     v \<leftarrow> ValidateHeapEntry h p Tag;
     ASSERT v;
     b \<leftarrow> get_Blink (h_links h) (ListEntry_of p);
     previousAddress \<leftarrow> (if b = HeapAllocations h then Some (BaseAddress h + HEADER_SIZE)
       else do {
         pe \<leftarrow> h_entries h (heap_record b);
         Some (heap_record b + ENTRY_SIZE + ucast (e_Size pe) + TAIL_SIZE)
       });
     r \<leftarrow> RemoveEntryList (h_links h) (ListEntry_of p);
     let heapEntrySize = (ucast (e_Size e) + ENTRY_SIZE + TAIL_SIZE :: u64);
     ASSERT (heapEntrySize \<le> 0xFFFFFFFF);
     Some (h\<lparr>h_links := (fst r)(ListEntry_of p \<mapsto> \<lparr>Flink = 0xAFAFAFAFAFAFAFAF, Blink = 0xAFAFAFAFAFAFAFAF\<rparr>),
             h_entries := (h_entries h)(p \<mapsto>
               \<lparr>e_Magic = 0xAFAFAFAF, e_Tag = 0xAFAFAFAF, e_Size = 0xAFAFAFAF, e_Offset = 0xAFAFAFAF\<rparr>),
             h_tails := (h_tails h)(MemoryAddress + ucast (e_Size e) \<mapsto> 0xAFAFAFAF),
             h_data := fill (h_data h) p HEAP_FREE_PATTERN heapEntrySize,
             HeapSizeRemaining := HeapSizeRemaining h + heapEntrySize,
             HeapNumberOfAllocations := HeapNumberOfAllocations h - 1,
             FreeAddress := (if endAddress = FreeAddress h then previousAddress else FreeAddress h)\<rparr>)
   }"

section \<open>Arithmetic\<close>

text \<open>\<open>AlignAddressUpper\<close> moves up by less than the alignment, whether or not that is a power of
  two.\<close>

lemma AlignAddressUpper_bounds:
  assumes "unat a + unat al < 2 ^ 64" "al \<noteq> 0"
  shows "unat a \<le> unat (AlignAddressUpper a al)" "unat (AlignAddressUpper a al) < unat a + unat al"
proof -
  have al: "0 < unat al" using assms(2) by (simp add: unat_gt_0)
  have m: "unat (al - 1) = unat al - 1"
    using assms(2) by (rule unat_minus_one)
  have s: "unat (a + al - 1) = unat a + unat al - 1"
  proof -
    have "unat (a + (al - 1)) = unat a + unat (al - 1)"
      using assms(1) m al by (intro unat_add_small) simp
    then show ?thesis using m al by (simp add: algebra_simps)
  qed
  let ?x = "a + al - 1" and ?m = "al - 1"
  have "(?x AND NOT ?m) + (?x AND ?m) = (?x AND NOT ?m) OR (?x AND ?m)"
    by (rule disjunctive_add) (auto simp: bit_simps)
  also have "\<dots> = ?x" by (rule bit_word_eqI) (auto simp: bit_simps)
  finally have e: "?x AND NOT ?m = ?x - (?x AND ?m)" by (simp add: algebra_simps)
  have le: "?x AND ?m \<le> ?x" "?x AND ?m \<le> ?m" by (simp_all add: word_and_le1 word_and_le2)
  have u: "unat (AlignAddressUpper a al) = unat ?x - unat (?x AND ?m)"
    unfolding AlignAddressUpper_def AlignAddressLower_def e using le(1) by (rule unat_sub_small)
  have "unat (?x AND ?m) \<le> unat al - 1" using le(2) m by (simp add: word_le_nat_alt)
  with u s al show "unat a \<le> unat (AlignAddressUpper a al)" "unat (AlignAddressUpper a al) < unat a + unat al"
    by linarith+
qed

lemma sint_small:
  assumes "unat (x :: u64) < 2 ^ 63"
  shows "sint x = int (unat x)"
proof -
  have u: "uint x = int (unat x)" by simp
  have "int (unat x) < int (2 ^ 63)" using assms by (simp only: of_nat_less_iff)
  then have "uint x < 2 ^ 63" unfolding u [symmetric] by (simp only: of_nat_power of_nat_numeral)
  moreover have "- (2 ^ 63) \<le> uint x" by (rule order_trans [of _ 0]) simp_all
  ultimately have "signed_take_bit 63 (uint x) = uint x" by (intro signed_take_bit_int_eq_self)
  moreover have "sint x = signed_take_bit 63 (uint x)" by (simp add: sint_uint)
  ultimately show ?thesis using u by metis
qed

lemma sint_diff_nonneg:
  "unat (y :: u64) \<le> unat x \<Longrightarrow> unat x - unat y < 2 ^ 63 \<Longrightarrow> sint (x - y) = int (unat x - unat y)"
  by (simp add: sint_small unat_sub_small word_le_nat_alt)

lemma sint_diff_neg:
  assumes "unat (x :: u64) < unat y" "unat y - unat x < 2 ^ 63"
  shows "sint (x - y) < 0"
proof -
  have k: "sint (word_of_int k :: u64) = signed_take_bit 63 k" for k
    by (simp add: signed_of_int)
  have "uint x - uint y = - int (unat y - unat x)" using assms(1) by simp
  moreover have "x - y = word_of_int (uint x - uint y)" by simp
  ultimately have "sint (x - y) = signed_take_bit 63 (- int (unat y - unat x))"
    using k by metis
  also have "\<dots> = - int (unat y - unat x)"
    using assms(2) by (intro signed_take_bit_int_eq_self) simp_all
  finally have s: "sint (x - y) = - int (unat y - unat x)" .
  have "0 < int (unat y - unat x)" using assms(1) by (simp only: of_nat_0_less_iff zero_less_diff)
  with s show ?thesis by linarith
qed

section \<open>Invariant\<close>

text \<open>The bytes that an entry occupies, header and tail included.\<close>

definition esz :: "heap \<Rightarrow> u64 \<Rightarrow> nat" where
  "esz h p = 36 + unat (e_Size (the (h_entries h p)))"

definition entry_ok :: "heap \<Rightarrow> u64 \<Rightarrow> bool" where
  "entry_ok h p \<longleftrightarrow> (\<exists>e. h_entries h p = Some e \<and> e_Magic e = HEAP_MAGIC \<and> e_Tag e \<noteq> 0 \<and>
     e_Offset e = 0x20 \<and> unat (e_Size e) + 36 < 2 ^ 32 \<and>
     h_tails h (p + ENTRY_SIZE + ucast (e_Size e)) = Some HEAP_MAGIC)"

text \<open>Entries in address order, without overlap, from \<open>lo\<close> on; and where the last one ends.\<close>

fun packed :: "heap \<Rightarrow> nat \<Rightarrow> u64 list \<Rightarrow> bool" where
  "packed h lo [] = True"
| "packed h lo (p # ps) = (lo \<le> unat p \<and> entry_ok h p \<and> packed h (unat p + esz h p) ps)"

fun end_of :: "heap \<Rightarrow> nat \<Rightarrow> u64 list \<Rightarrow> nat" where
  "end_of h lo [] = lo"
| "end_of h lo (p # ps) = end_of h (unat p + esz h p) ps"

text \<open>The first address behind the header, and the end of the heap.\<close>

definition heap_lo :: "heap \<Rightarrow> nat" where
  "heap_lo h = unat (BaseAddress h) + 72"

definition heap_hi :: "heap \<Rightarrow> nat" where
  "heap_hi h = unat (BaseAddress h) + unat (HeapSizeMaximum h)"

definition heap_ok :: "heap \<Rightarrow> u64 list \<Rightarrow> bool" where
  "heap_ok h es \<longleftrightarrow> BaseAddress h \<noteq> 0 \<and> heap_hi h + 2 ^ 34 \<le> 2 ^ 64 \<and> unat (HeapSizeMaximum h) < 2 ^ 62 \<and>
     is_list (h_links h) (HeapAllocations h) (map ListEntry_of es) \<and>
     packed h (heap_lo h) es \<and> unat (FreeAddress h) = end_of h (heap_lo h) es \<and>
     unat (FreeAddress h) \<le> heap_hi h \<and>
     (\<forall>q. unat (BaseAddress h) \<le> unat q \<longrightarrow> unat q < heap_hi h \<longrightarrow> h_links h q \<noteq> None) \<and>
     unat (HeapSizeRemaining h) + sum_list (map (esz h) es) + 72 = unat (HeapSizeMaximum h) \<and>
     HeapNumberOfAllocations h = of_nat (length es) \<and>
     EntryToRestartSearch h \<in> set (HeapAllocations h # map ListEntry_of es)"

lemma heap_okD:
  assumes "heap_ok h es"
  shows "BaseAddress h \<noteq> 0" "heap_hi h + 2 ^ 34 \<le> 2 ^ 64" "unat (HeapSizeMaximum h) < 2 ^ 62"
    "is_list (h_links h) (HeapAllocations h) (map ListEntry_of es)"
    "packed h (heap_lo h) es" "unat (FreeAddress h) = end_of h (heap_lo h) es"
    "unat (FreeAddress h) \<le> heap_hi h"
    "unat (BaseAddress h) \<le> unat q \<Longrightarrow> unat q < heap_hi h \<Longrightarrow> h_links h q \<noteq> None"
    "unat (HeapSizeRemaining h) + sum_list (map (esz h) es) + 72 = unat (HeapSizeMaximum h)"
    "HeapNumberOfAllocations h = of_nat (length es)"
    "EntryToRestartSearch h \<in> set (HeapAllocations h # map ListEntry_of es)"
  using assms unfolding heap_ok_def by blast+

lemma packed_append: "packed h lo (xs @ ys) \<longleftrightarrow> packed h lo xs \<and> packed h (end_of h lo xs) ys"
  by (induction xs arbitrary: lo) auto

lemma end_of_append: "end_of h lo (xs @ ys) = end_of h (end_of h lo xs) ys"
  by (induction xs arbitrary: lo) auto

lemma end_of_le: "packed h lo es \<Longrightarrow> lo + sum_list (map (esz h) es) \<le> end_of h lo es"
  by (induction es arbitrary: lo) fastforce+

lemma packed_bounds:
  assumes "packed h lo es" "p \<in> set es"
  shows "lo \<le> unat p" "unat p + esz h p \<le> end_of h lo es" "entry_ok h p"
proof -
  obtain us vs where es: "es = us @ p # vs" using assms(2) by (auto simp: in_set_conv_decomp)
  have "packed h lo us" "end_of h lo us \<le> unat p" "entry_ok h p" "packed h (unat p + esz h p) vs"
    using assms(1) unfolding es packed_append by simp_all
  moreover have "end_of h lo es = end_of h (unat p + esz h p) vs" unfolding es end_of_append by simp
  ultimately show "lo \<le> unat p" "unat p + esz h p \<le> end_of h lo es" "entry_ok h p"
    using end_of_le [of h lo us] end_of_le [of h "unat p + esz h p" vs] by linarith+
qed

text \<open>The places that an entry reads: its header and its tail.\<close>

definition entry_same :: "heap \<Rightarrow> heap \<Rightarrow> u64 \<Rightarrow> bool" where
  "entry_same h h' p \<longleftrightarrow> h_entries h' p = h_entries h p \<and>
     (\<forall>e. h_entries h p = Some e \<longrightarrow> h_tails h' (p + ENTRY_SIZE + ucast (e_Size e))
        = h_tails h (p + ENTRY_SIZE + ucast (e_Size e)))"

lemma entry_same_ok: "entry_same h h' p \<Longrightarrow> entry_ok h' p = entry_ok h p"
  by (auto simp: entry_same_def entry_ok_def)

lemma packed_frame:
  assumes "\<forall>p \<in> set es. entry_same h h' p"
  shows "packed h' lo es = packed h lo es" "end_of h' lo es = end_of h lo es"
    "map (esz h') es = map (esz h) es"
proof -
  have e: "esz h' p = esz h p" if "p \<in> set es" for p
    using assms that by (simp add: entry_same_def esz_def)
  have k: "entry_ok h' p = entry_ok h p" if "p \<in> set es" for p
    using assms that by (simp add: entry_same_ok)
  show "packed h' lo es = packed h lo es" "end_of h' lo es = end_of h lo es"
    using k e by (induction es arbitrary: lo) simp_all
  show "map (esz h') es = map (esz h) es" using e by simp
qed

text \<open>Addresses inside a well-formed heap do not wrap.\<close>

lemma unat_entry_offset:
  assumes "unat (p :: u64) + 2 ^ 33 < 2 ^ 64" "n < 2 ^ 33"
  shows "unat (p + of_nat n) = unat p + n"
  using assms by (simp add: unat_add_small unat_of_nat_small)

lemma unat_tail:
  assumes "unat (p :: u64) + 2 ^ 33 < 2 ^ 64"
  shows "unat (p + ENTRY_SIZE + ucast (s :: u32)) = unat p + 32 + unat s"
proof -
  note lt = unat_lt_u32 [of s]
  have "unat (p + 0x20) = unat p + 32" using unat_entry_offset [OF assms, of 32] by simp
  then show ?thesis using assms lt unat_ucast_up [of s] by (subst unat_add_small) simp_all
qed

lemma unat_end:
  assumes "unat (p :: u64) + 2 ^ 33 < 2 ^ 64"
  shows "unat (p + ENTRY_SIZE + ucast (s :: u32) + TAIL_SIZE) = unat p + 36 + unat s"
proof -
  note lt = unat_lt_u32 [of s]
  show ?thesis using assms lt unat_tail [OF assms, of s] by (subst unat_add_small) simp_all
qed

text \<open>The heap after a new entry has been written at \<open>q\<close>.\<close>

definition placed :: "heap \<Rightarrow> u64 \<Rightarrow> u32 \<Rightarrow> u32 \<Rightarrow> list_mem \<Rightarrow> heap" where
  "placed h q Tag sz lm = h\<lparr>
     h_entries := (h_entries h)(q \<mapsto> \<lparr>e_Magic = HEAP_MAGIC, e_Tag = Tag, e_Size = sz, e_Offset = 0x20\<rparr>),
     h_links := lm,
     h_tails := (h_tails h)(q + ENTRY_SIZE + ucast sz \<mapsto> HEAP_MAGIC),
     HeapSizeRemaining := HeapSizeRemaining h - ucast (sz + 0x24),
     HeapNumberOfAllocations := HeapNumberOfAllocations h + 1\<rparr>"

definition aligned_entry :: "u64 \<Rightarrow> u32 \<Rightarrow> u64" where
  "aligned_entry p al = AlignAddressUpper (p + ENTRY_SIZE) (ucast al) - ENTRY_SIZE"

lemma aligned_entry_bounds:
  assumes "unat p + 2 ^ 33 < 2 ^ 64" "al \<noteq> 0"
  shows "unat p \<le> unat (aligned_entry p al)" "unat (aligned_entry p al) < unat p + unat al"
    "unat (AlignAddressUpper (p + ENTRY_SIZE) (ucast al)) = unat (aligned_entry p al) + 32"
proof -
  have a: "unat al < 2 ^ 32" using unat_lt_u32 [of al] by simp
  have u: "unat (p + ENTRY_SIZE) = unat p + 32"
    using unat_entry_offset [OF assms(1), of 32] by simp
  have al: "unat (ucast al :: u64) = unat al" by (rule unat_ucast_up)
  have "(ucast al :: u64) \<noteq> 0" using assms(2) al by (metis unat_0 unat_eq_zero)
  then have b: "unat p + 32 \<le> unat (AlignAddressUpper (p + ENTRY_SIZE) (ucast al))"
    "unat (AlignAddressUpper (p + ENTRY_SIZE) (ucast al)) < unat p + 32 + unat al"
    using AlignAddressUpper_bounds [of "p + ENTRY_SIZE" "ucast al"] u al a assms(1) by auto
  then have "unat (aligned_entry p al) = unat (AlignAddressUpper (p + ENTRY_SIZE) (ucast al)) - 32"
    unfolding aligned_entry_def by (subst unat_sub_small) (simp_all add: word_le_nat_alt)
  with b show "unat p \<le> unat (aligned_entry p al)" "unat (aligned_entry p al) < unat p + unat al"
    "unat (AlignAddressUpper (p + ENTRY_SIZE) (ucast al)) = unat (aligned_entry p al) + 32"
    by simp_all
qed

lemma InitHeapEntry_eq:
  assumes "unat p + 2 ^ 33 < 2 ^ 64" "al \<noteq> 0" "unat sz + 36 < 2 ^ 32"
  shows "InitHeapEntry h p Tag sz al add S =
    (let q = aligned_entry p al in
     if unat S < (unat q - unat p) + (unat sz + 36) then Some (h, p, 0)
     else do {
       lm \<leftarrow> (if add then InsertTailList (h_links h) (HeapAllocations h) (ListEntry_of q)
             else Some (h_links h));
       Some (placed h q Tag sz lm, q, q + ENTRY_SIZE + ucast sz + TAIL_SIZE)
     })"
proof -
  let ?d = "AlignAddressUpper (p + ENTRY_SIZE) (ucast al)" and ?q = "aligned_entry p al"
  note b = aligned_entry_bounds [OF assms(1,2)]
  have al: "unat al < 2 ^ 32" using unat_lt_u32 [of al] by simp
  have up: "unat (p + ENTRY_SIZE) = unat p + 32"
    using unat_entry_offset [OF assms(1), of 32] by simp
  have d: "unat (?d - (p + ENTRY_SIZE)) = unat ?q - unat p"
    using b up by (subst unat_sub_small) (simp_all add: word_le_nat_alt)
  have s: "unat (sz + 0x24) = unat sz + 36" using assms(3) by (simp add: unat_add_small)
  then have s64: "unat (ucast (sz + 0x24) :: u64) = unat sz + 36" by (simp add: unat_ucast_up)
  have "unat (?d - (p + ENTRY_SIZE) + ucast (sz + 0x24)) = (unat ?q - unat p) + (unat sz + 36)"
    using d s64 b(2) al assms(3) by (subst unat_add_small) simp_all
  then have c: "S < ?d - (p + ENTRY_SIZE) + ucast (sz + 0x24) \<longleftrightarrow> unat S < (unat ?q - unat p) + (unat sz + 36)"
    by (simp only: word_less_nat_alt)
  have dq: "?d - ENTRY_SIZE = ?q" "?d = ?q + ENTRY_SIZE" by (simp_all add: aligned_entry_def)
  show ?thesis
    unfolding InitHeapEntry_def Let_def c dq(1)
    by (simp add: placed_def dq(2))
qed


section \<open>A new entry\<close>

text \<open>The room behind the entries \<open>us\<close>: up to the next entry, or up to the end of the heap.\<close>

definition room_end :: "heap \<Rightarrow> u64 list \<Rightarrow> nat" where
  "room_end h vs = (case vs of [] \<Rightarrow> heap_hi h | v # _ \<Rightarrow> unat v)"

lemma packed_other_lo: "packed h lo vs \<Longrightarrow> vs \<noteq> [] \<Longrightarrow> lo' \<le> unat (hd vs) \<Longrightarrow> packed h lo' vs"
  by (cases vs) simp_all

lemma end_of_other_lo: "vs \<noteq> [] \<Longrightarrow> end_of h lo vs = end_of h lo' vs"
  by (cases vs) simp_all

text \<open>The entries of a heap are inside it, and far from the end of the address space.\<close>

lemma heap_entry_bounds:
  assumes "heap_ok h es" "p \<in> set es"
  shows "heap_lo h \<le> unat p" "unat p + esz h p \<le> unat (FreeAddress h)" "entry_ok h p"
    "unat p + 2 ^ 33 < 2 ^ 64" "unat p + esz h p \<le> heap_hi h"
proof -
  note k = heap_okD(5-7,2) [OF assms(1)]
  show b: "heap_lo h \<le> unat p" "unat p + esz h p \<le> unat (FreeAddress h)" "entry_ok h p"
    using packed_bounds [OF k(1) assms(2)] k(2) by simp_all
  show "unat p + esz h p \<le> heap_hi h" using b(2) k(3) by linarith
  show "unat p + 2 ^ 33 < 2 ^ 64" using b(2) k(3,4) by simp
qed

lemma unat_tail_esz:
  assumes "heap_ok h es" "p \<in> set es" "h_entries h p = Some e"
  shows "unat (p + ENTRY_SIZE + ucast (e_Size e)) + 4 = unat p + esz h p"
  using unat_tail [OF heap_entry_bounds(4) [OF assms(1,2)], of "e_Size e"] assms(3)
  by (simp add: esz_def)

lemma placed_fields [simp]:
  "BaseAddress (placed h q Tag sz lm) = BaseAddress h"
  "HeapSizeMaximum (placed h q Tag sz lm) = HeapSizeMaximum h"
  "h_links (placed h q Tag sz lm) = lm"
  "FreeAddress (placed h q Tag sz lm) = FreeAddress h"
  "EntryToRestartSearch (placed h q Tag sz lm) = EntryToRestartSearch h"
  "h_data (placed h q Tag sz lm) = h_data h"
  by (simp_all add: placed_def)

text \<open>Where a new entry may go: behind \<open>us\<close>, with its whole size before what follows.\<close>

definition fits :: "heap \<Rightarrow> u64 list \<Rightarrow> u64 \<Rightarrow> u32 \<Rightarrow> u64 list \<Rightarrow> bool" where
  "fits h us q sz vs \<longleftrightarrow> end_of h (heap_lo h) us \<le> unat q \<and> unat q + 36 + unat sz \<le> room_end h vs \<and>
     unat sz + 36 < 2 ^ 32"

lemma fits_bounds:
  assumes "heap_ok h (us @ vs)" "fits h us q sz vs"
  shows "unat q + 36 + unat sz \<le> heap_hi h"
    "unat q + 2 ^ 33 < 2 ^ 64" "heap_lo h \<le> unat q"
    "p \<in> set us \<Longrightarrow> unat p + esz h p \<le> unat q" "p \<in> set vs \<Longrightarrow> unat q + 36 + unat sz \<le> unat p"
proof -
  have k: "packed h (heap_lo h) us" "packed h (end_of h (heap_lo h) us) vs"
    "heap_hi h + 2 ^ 34 \<le> 2 ^ 64"
    using heap_okD(5,2) [OF assms(1)] by (simp_all add: packed_append)
  have f: "end_of h (heap_lo h) us \<le> unat q" "unat q + 36 + unat sz \<le> room_end h vs"
    using assms(2) by (simp_all only: fits_def)
  have v: "room_end h vs \<le> unat p" if "p \<in> set vs" for p
  proof (cases vs)
    case (Cons v ws)
    then have "packed h (unat v + esz h v) ws" using k(2) by simp
    then show ?thesis using that packed_bounds(1) [of h "unat v + esz h v" ws p]
      by (auto simp: Cons room_end_def)
  qed (use that in simp)
  show b: "unat q + 36 + unat sz \<le> heap_hi h"
  proof (cases vs)
    case (Cons a ws)
    then have "a \<in> set (us @ vs)" "a \<in> set vs" by simp_all
    with heap_entry_bounds(5) [OF assms(1), of a] v [of a] f(2) show ?thesis by linarith
  qed (use f(2) in \<open>simp add: room_end_def\<close>)
  show "unat q + 2 ^ 33 < 2 ^ 64" using b k(3) by simp
  show "heap_lo h \<le> unat q" using f(1) end_of_le [OF k(1)] by linarith
  show "unat p + esz h p \<le> unat q" if "p \<in> set us" using f(1) packed_bounds(2) [OF k(1) that] by linarith
  show "unat q + 36 + unat sz \<le> unat p" if "p \<in> set vs" using f(2) v [OF that] by linarith
qed

lemma placed_same:
  assumes "heap_ok h (us @ vs)" "fits h us q sz vs" "p \<in> set (us @ vs)"
  shows "p \<noteq> q" "entry_same h (placed h q Tag sz lm) p"
proof -
  note fb = fits_bounds [OF assms(1,2)]
  have qt: "unat (q + ENTRY_SIZE + ucast sz) = unat q + 32 + unat sz" using unat_tail [OF fb(2)] .
  have sep: "unat p + esz h p \<le> unat q \<or> unat q + 36 + unat sz \<le> unat p"
    using assms(3) fb(4,5) by auto
  moreover have "36 \<le> esz h p" by (simp add: esz_def)
  ultimately show ne: "p \<noteq> q" by auto
  have t: "p + ENTRY_SIZE + ucast (e_Size e) \<noteq> q + ENTRY_SIZE + ucast sz" if "h_entries h p = Some e" for e
  proof -
    have "unat (p + ENTRY_SIZE + ucast (e_Size e)) + 4 = unat p + esz h p"
      using unat_tail_esz [OF assms(1,3) that] .
    then have "unat (p + ENTRY_SIZE + ucast (e_Size e)) \<noteq> unat (q + ENTRY_SIZE + ucast sz)"
      using sep qt \<open>36 \<le> esz h p\<close> by linarith
    then show ?thesis by metis
  qed
  show "entry_same h (placed h q Tag sz lm) p"
    using ne t unfolding entry_same_def placed_def by simp
qed

lemma placed_entry: "entry_ok (placed h q Tag sz lm) q \<longleftrightarrow> Tag \<noteq> 0 \<and> unat sz + 36 < 2 ^ 32"
  "esz (placed h q Tag sz lm) q = 36 + unat sz"
  by (simp_all add: entry_ok_def placed_def esz_def)

text \<open>Fields that no entry reads.\<close>

lemma entry_same_fields [simp]:
  "entry_same h (h'\<lparr>FreeAddress := F\<rparr>) p = entry_same h h' p"
  "entry_same h (h'\<lparr>EntryToRestartSearch := r\<rparr>) p = entry_same h h' p"
  "entry_same h (h'\<lparr>h_data := d\<rparr>) p = entry_same h h' p"
  "entry_same h (h'\<lparr>h_links := lm\<rparr>) p = entry_same h h' p"
  "entry_ok (h'\<lparr>FreeAddress := F\<rparr>) p = entry_ok h' p"
  "entry_ok (h'\<lparr>EntryToRestartSearch := r\<rparr>) p = entry_ok h' p"
  "esz (h'\<lparr>FreeAddress := F\<rparr>) p = esz h' p"
  "esz (h'\<lparr>EntryToRestartSearch := r\<rparr>) p = esz h' p"
  by (simp_all add: entry_same_def entry_ok_def esz_def)

lemma placed_ok:
  assumes ok: "heap_ok h (us @ vs)" and f: "fits h us q sz vs" and T: "Tag \<noteq> 0"
    and l: "is_list lm (HeapAllocations h) (map ListEntry_of (us @ q # vs))"
    and m: "\<And>c. h_links h c \<noteq> None \<Longrightarrow> lm c \<noteq> None"
    and F: "F = (if vs = [] then q + ENTRY_SIZE + ucast sz + TAIL_SIZE else FreeAddress h)"
    and r: "r \<in> set (HeapAllocations h # map ListEntry_of (us @ q # vs))"
  defines "h' \<equiv> (placed h q Tag sz lm)\<lparr>FreeAddress := F, EntryToRestartSearch := r\<rparr>"
  shows "heap_ok h' (us @ q # vs)"
proof -
  note D = heap_okD [OF ok] and fb = fits_bounds [OF ok f]
  have ff: "end_of h (heap_lo h) us \<le> unat q" "unat q + 36 + unat sz \<le> room_end h vs" "unat sz + 36 < 2 ^ 32"
    using f by (simp_all only: fits_def)
  have lo: "heap_lo h' = heap_lo h" "heap_hi h' = heap_hi h" "HeapAllocations h' = HeapAllocations h"
    "h_links h' = lm" "FreeAddress h' = F" "EntryToRestartSearch h' = r" "BaseAddress h' = BaseAddress h"
    "HeapSizeMaximum h' = HeapSizeMaximum h"
    by (simp_all add: h'_def heap_lo_def heap_hi_def HeapAllocations_def)
  have same: "entry_same h h' p" if "p \<in> set (us @ vs)" for p
    using placed_same(2) [OF ok f that] by (simp add: h'_def)
  have us: "packed h' lo' us = packed h lo' us" "end_of h' lo' us = end_of h lo' us"
    "map (esz h') us = map (esz h) us" for lo'
    using same by (intro packed_frame ballI, simp)+
  have vs: "packed h' lo' vs = packed h lo' vs" "end_of h' lo' vs = end_of h lo' vs"
    "map (esz h') vs = map (esz h) vs" for lo'
    using same by (intro packed_frame ballI, simp)+
  have q: "entry_ok h' q" "esz h' q = 36 + unat sz" using T ff(3) by (simp_all add: h'_def placed_entry)
  have pu: "packed h (heap_lo h) us" and pv: "packed h (end_of h (heap_lo h) us) vs"
    using D(5) by (simp_all add: packed_append)
  have pv': "packed h (unat q + (36 + unat sz)) vs"
  proof (cases vs)
    case (Cons v ws)
    then have "unat q + (36 + unat sz) \<le> unat v" using ff(2) by (simp add: room_end_def)
    then show ?thesis using pv Cons packed_other_lo [OF pv, of "unat q + (36 + unat sz)"] by simp
  qed simp
  have P: "packed h' (heap_lo h') (us @ q # vs)"
    using pu pv' ff(1) q by (simp add: packed_append us vs lo)
  have E: "end_of h' (heap_lo h') (us @ q # vs) = unat F"
  proof (cases "vs = []")
    case True
    then show ?thesis using unat_end [OF fb(2), of sz] by (simp add: end_of_append q F)
  next
    case False
    have "end_of h' (heap_lo h') (us @ q # vs) = end_of h (unat q + (36 + unat sz)) vs"
      by (simp add: end_of_append q vs)
    also have "\<dots> = end_of h (heap_lo h) (us @ vs)"
      unfolding end_of_append by (rule end_of_other_lo [OF False])
    finally show ?thesis using D(6) False by (simp add: F)
  qed
  have F2: "unat F \<le> heap_hi h"
  proof (cases "vs = []")
    case True
    then show ?thesis using unat_end [OF fb(2), of sz] fb(1) by (simp add: F)
  qed (simp add: F D(7))
  have S: "sum_list (map (esz h') (us @ q # vs)) = sum_list (map (esz h) (us @ vs)) + (36 + unat sz)"
    by (simp add: us vs q)
  have "heap_lo h + sum_list (map (esz h') (us @ q # vs)) \<le> heap_hi h"
    using end_of_le [OF P] E F2 lo by simp
  then have room: "72 + sum_list (map (esz h) (us @ vs)) + (36 + unat sz) \<le> unat (HeapSizeMaximum h)"
    using S by (simp add: heap_lo_def heap_hi_def)
  have "unat (sz + 0x24) = unat sz + 36" using ff(3) by (simp add: unat_add_small)
  then have s64: "unat (ucast (sz + 0x24) :: u64) = unat sz + 36" by (simp add: unat_ucast_up)
  have "unat sz + 36 \<le> unat (HeapSizeRemaining h)" using room D(9) by linarith
  then have "unat (HeapSizeRemaining h - ucast (sz + 0x24)) = unat (HeapSizeRemaining h) - (unat sz + 36)"
    using s64 unat_sub_small [of "ucast (sz + 0x24)" "HeapSizeRemaining h"] by (simp add: word_le_nat_alt)
  then have R: "unat (HeapSizeRemaining h') + sum_list (map (esz h') (us @ q # vs)) + 72 = unat (HeapSizeMaximum h')"
    using S room D(9) by (simp add: h'_def placed_def)
  have N: "HeapNumberOfAllocations h' = of_nat (length (us @ q # vs))"
    using D(10) by (simp add: h'_def placed_def)
  have M: "\<forall>c. unat (BaseAddress h) \<le> unat c \<longrightarrow> unat c < heap_hi h \<longrightarrow> lm c \<noteq> None"
    using D(8) m by blast
  show ?thesis
    unfolding heap_ok_def lo
    by (intro conjI D(1-3) l P [unfolded lo] E [unfolded lo, symmetric] F2 M R [unfolded lo] N r)
qed

text \<open>The list cell of a new entry is inside the heap and not in use.\<close>

lemma ListEntry_inj [simp]: "ListEntry_of p = ListEntry_of q \<longleftrightarrow> p = q"
  by (simp add: ListEntry_of_def)

lemma heap_record_cell [simp]: "heap_record (ListEntry_of p) = p"
  by (simp add: ListEntry_of_def heap_record_def)

lemma new_cell:
  assumes ok: "heap_ok h (us @ vs)" and f: "fits h us q sz vs"
  shows "ListEntry_of q \<notin> set (HeapAllocations h # map ListEntry_of (us @ vs))"
    "ListEntry_of q \<noteq> 0" "h_links h (ListEntry_of q) \<noteq> None"
proof -
  note fb = fits_bounds [OF ok f] and D = heap_okD [OF ok]
  have c: "unat (ListEntry_of q) = unat q + 16"
    using unat_entry_offset [OF fb(2), of 16] by (simp add: ListEntry_of_def)
  have b: "heap_lo h = unat (BaseAddress h) + 72" by (simp add: heap_lo_def)
  have "unat (HeapAllocations h) = unat (BaseAddress h) + 56"
    using unat_entry_offset [of "BaseAddress h" 56] fb(2,3) b by (simp add: HeapAllocations_def)
  then have "ListEntry_of q \<noteq> HeapAllocations h" using c fb(3) b by auto
  moreover have "q \<notin> set (us @ vs)" using placed_same(1) [OF ok f] by auto
  ultimately show "ListEntry_of q \<notin> set (HeapAllocations h # map ListEntry_of (us @ vs))" by auto
  show "ListEntry_of q \<noteq> 0" using c by auto
  show "h_links h (ListEntry_of q) \<noteq> None" using fb(1,3) b c by (intro D(8)) simp_all
qed

lemma InsertHeadList_mapped:
  "InsertHeadList m h e = Some m' \<Longrightarrow> m' q = None \<longleftrightarrow> m q = None"
  by (auto simp: InsertHeadList_def bind_Some dest!: set_mapped [where q = q])

text \<open>\<open>InitHeapEntry\<close> at the end of the entries \<open>us\<close>, given exactly the room that is there.\<close>

lemma InitHeapEntry_fits:
  assumes ok: "heap_ok h (us @ vs)" and p: "unat p = end_of h (heap_lo h) us" and al: "al \<noteq> 0"
    and sz: "unat sz + 36 < 2 ^ 32" and S: "unat p + unat S \<le> room_end h vs" and e: "vs = [] \<or> \<not> add"
  shows "InitHeapEntry h p Tag sz al add S = Some (h, p, 0) \<or>
    (\<exists>q lm. q = aligned_entry p al \<and> fits h us q sz vs \<and>
       q + ENTRY_SIZE + ucast sz + TAIL_SIZE \<noteq> 0 \<and>
       InitHeapEntry h p Tag sz al add S = Some (placed h q Tag sz lm, q, q + ENTRY_SIZE + ucast sz + TAIL_SIZE) \<and>
       (if add then is_list lm (HeapAllocations h) (map ListEntry_of (us @ [q])) \<and>
          (\<forall>c. h_links h c \<noteq> None \<longrightarrow> lm c \<noteq> None)
        else lm = h_links h))"
proof -
  note D = heap_okD [OF ok]
  have pu: "packed h (heap_lo h) us" "packed h (unat p) vs" using D(5) p by (simp_all add: packed_append)
  have "end_of h (heap_lo h) us \<le> end_of h (unat p) vs" using end_of_le [OF pu(2)] p by linarith
  then have "unat p \<le> heap_hi h" using D(6,7) p by (simp add: end_of_append)
  then have pb: "unat p + 2 ^ 33 < 2 ^ 64" using D(2) by simp
  let ?q = "aligned_entry p al"
  note ab = aligned_entry_bounds [OF pb al] and eq = InitHeapEntry_eq [OF pb al sz]
  show ?thesis
  proof (cases "unat S < (unat ?q - unat p) + (unat sz + 36)")
    case True
    then show ?thesis by (simp add: eq)
  next
    case False
    have f: "fits h us ?q sz vs" unfolding fits_def using ab(1) p S sz False by linarith
    note fb = fits_bounds [OF ok f] and nc = new_cell [OF ok f]
    have nz: "?q + ENTRY_SIZE + ucast sz + TAIL_SIZE \<noteq> 0"
      using unat_end [OF fb(2), of sz] by (metis add_is_0 unat_0 zero_neq_numeral)
    show ?thesis
    proof (cases add)
      case True
      with e have v: "vs = []" by simp
      have l: "is_list (h_links h) (HeapAllocations h) (map ListEntry_of us)"
        "ListEntry_of ?q \<notin> set (HeapAllocations h # map ListEntry_of us)"
        using D(4) nc(1) v by simp_all
      obtain lm where lm: "InsertTailList (h_links h) (HeapAllocations h) (ListEntry_of ?q) = Some lm"
        "is_list lm (HeapAllocations h) (map ListEntry_of us @ [ListEntry_of ?q])"
        using InsertTailList_list [OF l nc(2,3)] by blast
      have "lm c = None \<longleftrightarrow> h_links h c = None" for c using ops_mapped(1) [OF lm(1)] .
      with lm f nz True False show ?thesis
        by (intro disjI2 exI [of _ ?q] exI [of _ lm]) (simp add: eq Let_def)
    qed (use f nz False in \<open>simp add: eq Let_def\<close>)
  qed
qed

section \<open>The search for a gap\<close>

abbreviation (input) required :: "u32 \<Rightarrow> u64" where
  "required sz \<equiv> ucast sz + ENTRY_SIZE + TAIL_SIZE"

definition gap_found :: "heap \<Rightarrow> u64 list \<Rightarrow> u32 \<Rightarrow> u32 \<Rightarrow> u32 \<Rightarrow> u64 \<Rightarrow> heap \<Rightarrow> bool" where
  "gap_found h es sz Tag al q h' \<longleftrightarrow> (\<exists>us vs lm p. es = us @ vs \<and> vs \<noteq> [] \<and> fits h us q sz vs \<and>
     is_list lm (HeapAllocations h) (map ListEntry_of (us @ q # vs)) \<and>
     (\<forall>c. h_links h c \<noteq> None \<longrightarrow> lm c \<noteq> None) \<and> unat p = end_of h (heap_lo h) us \<and> q = aligned_entry p al \<and>
     h' = (placed h q Tag sz lm)\<lparr>EntryToRestartSearch := ListEntry_of q\<rparr>)"

text \<open>Every entry of a heap has its successor behind its list cell.\<close>

lemma heap_Flink:
  assumes "heap_ok h (us @ v # vs)"
  shows "get_Flink (h_links h) (ListEntry_of v) = Some (hd (map ListEntry_of vs @ [HeapAllocations h]))"
    "ListEntry_of v \<noteq> HeapAllocations h"
  using heap_okD(4) [OF assms] is_list_Flink [of "h_links h" "HeapAllocations h" "map ListEntry_of us"]
    is_list_not_head [of "h_links h" "HeapAllocations h" "map ListEntry_of us"] by simp_all

lemma heap_Flink_head:
  "heap_ok h es \<Longrightarrow> get_Flink (h_links h) (HeapAllocations h) = Some (hd (map ListEntry_of es @ [HeapAllocations h]))"
  by (rule is_list_first, rule heap_okD(4))

lemma gap_stop: "gap_search h sz Tag al n pp ph (EntryToRestartSearch h) ch = Some (h, None)"
  by (simp add: gap_search.simps)

lemma gap_skip:
  assumes "pc \<noteq> EntryToRestartSearch h" "pc = HeapAllocations h \<or> pp = HeapAllocations h"
    "get_Flink (h_links h) pc = Some f"
  shows "gap_search h sz Tag al n pp ph pc ch = gap_search h sz Tag al n pc ch f ch"
  using assms by (subst gap_search.simps) auto

text \<open>The end of an entry, as the code computes it, and the distance to the next one.\<close>

lemma entry_end:
  assumes ok: "heap_ok h es" and p: "p \<in> set es" and e: "h_entries h p = Some pe"
  shows "unat (p + ENTRY_SIZE + ucast (e_Size pe) + TAIL_SIZE) = unat p + esz h p"
  using unat_end [OF heap_entry_bounds(4) [OF ok p], of "e_Size pe"] e by (simp add: esz_def)

lemma unat_required: "unat (required sz) = unat sz + 36"
proof -
  note lt = unat_lt_u32 [of sz]
  have "unat (ucast sz + 0x20 :: u64) = unat sz + 32"
    using lt unat_ucast_up [of sz] by (subst unat_add_small) simp_all
  then show ?thesis using lt by (subst unat_add_small) simp_all
qed

lemma sint_required: "sint (required sz) = int (unat sz + 36)"
proof -
  have "unat (required sz) < 2 ^ 63" unfolding unat_required using unat_lt_u32 [of sz] by simp
  then show ?thesis using sint_small unat_required by metis
qed

lemma ValidateHeapEntry_ok:
  assumes "entry_ok h p" "h_entries h p = Some e" "p \<noteq> 0"
    "unat p + 2 ^ 33 < 2 ^ 64"
  shows "ValidateHeapEntry h p (e_Tag e) = Some True"
proof -
  have "unat (e_Size e) + 36 < 2 ^ 32" using assms(1,2) by (simp add: entry_ok_def)
  then have "unat (0x20 + e_Size e + 4) = unat (e_Size e) + 36"
    by (simp add: unat_add_small)
  then have "unat (ucast (0x20 + e_Size e + 4) :: u64) = unat (required (e_Size e))"
    using unat_required [of "e_Size e"] by (simp add: unat_ucast_up)
  then have "(ucast (0x20 + e_Size e + 4) :: u64) = required (e_Size e)" by (rule word_unat_eq_iff [THEN iffD2])
  then have "p + ucast (0x20 + e_Size e + 4) - TAIL_SIZE = p + ENTRY_SIZE + ucast (e_Size e)"
    by (simp add: algebra_simps)
  then show ?thesis using assms(1-3) unfolding ValidateHeapEntry_def Let_def
    by (auto simp only: entry_ok_def bind.bind_lunit ASSERT_holds option.inject) simp
qed

text \<open>The distance from the end of an entry \<open>p\<close> to an entry \<open>v\<close>, as the code computes it: the
  gap when \<open>v\<close> comes later, negative when it comes earlier.\<close>

lemma gap_between:
  assumes ok: "heap_ok h es" and p: "p \<in> set es" and v: "v \<in> set es" and e: "h_entries h p = Some pe"
  shows "unat p + esz h p \<le> unat v \<Longrightarrow>
      sint (v - (p + ENTRY_SIZE + ucast (e_Size pe) + TAIL_SIZE)) = int (unat v - (unat p + esz h p)) \<and>
      unat (v - (p + ENTRY_SIZE + ucast (e_Size pe) + TAIL_SIZE)) = unat v - (unat p + esz h p)"
    "unat v < unat p + esz h p \<Longrightarrow> sint (v - (p + ENTRY_SIZE + ucast (e_Size pe) + TAIL_SIZE)) < 0"
proof -
  let ?e = "p + ENTRY_SIZE + ucast (e_Size pe) + TAIL_SIZE"
  have u: "unat ?e = unat p + esz h p" using entry_end [OF ok p e] .
  note bp = heap_entry_bounds [OF ok p] and bv = heap_entry_bounds [OF ok v]
  have m: "unat (HeapSizeMaximum h) < 2 ^ 62" using heap_okD(3) [OF ok] .
  have b: "heap_hi h = unat (BaseAddress h) + unat (HeapSizeMaximum h)"
    "heap_lo h = unat (BaseAddress h) + 72" by (simp_all add: heap_hi_def heap_lo_def)
  have d: "unat ?e < unat v + 2 ^ 63" "unat v < unat ?e + 2 ^ 63"
    unfolding u using bp(1,5) bv(1,5) b m by simp_all
  show "sint (v - ?e) = int (unat v - (unat p + esz h p)) \<and> unat (v - ?e) = unat v - (unat p + esz h p)"
    if "unat p + esz h p \<le> unat v"
    using that d u sint_diff_nonneg [of ?e v] unat_sub_small [of ?e v] by (simp add: word_le_nat_alt)
  show "sint (v - ?e) < 0" if "unat v < unat p + esz h p"
    using that d u by (intro sint_diff_neg) simp_all
qed

lemma gap_step:
  assumes "pc \<noteq> EntryToRestartSearch h" "pc \<noteq> HeapAllocations h" "pp \<noteq> HeapAllocations h"
    "ph \<noteq> 0" "h_entries h ph = Some pe" "s = ph + ENTRY_SIZE + ucast (e_Size pe) + TAIL_SIZE"
  shows "sint (heap_record pc - s) < sint n \<or>
      InitHeapEntry h s Tag sz al False (heap_record pc - s) = Some (h, s, 0) \<Longrightarrow>
      get_Flink (h_links h) pc = Some f \<Longrightarrow>
      gap_search h sz Tag al n pp ph pc c = gap_search h sz Tag al n pc (heap_record pc) f (heap_record pc)"
    "sint n \<le> sint (heap_record pc - s) \<Longrightarrow>
      InitHeapEntry h s Tag sz al False (heap_record pc - s) = Some (h1, q, t) \<Longrightarrow> t \<noteq> 0 \<Longrightarrow>
      ValidateHeapEntry h1 ph (e_Tag pe) = Some True \<Longrightarrow>
      InsertHeadList (h_links h1) pp (ListEntry_of q) = Some lm \<Longrightarrow>
      gap_search h sz Tag al n pp ph pc c
        = Some (h1\<lparr>h_links := lm, EntryToRestartSearch := ListEntry_of q\<rparr>, Some q)"
  using assms by (auto simp: gap_search.simps [of h sz Tag al n pp ph pc c] Let_def)

lemma gap_here:
  assumes ok: "heap_ok h (us @ v # vs)" and us: "us \<noteq> []" and r: "EntryToRestartSearch h \<noteq> ListEntry_of v"
    and T: "Tag \<noteq> 0" and al: "al \<noteq> 0" and sz: "unat sz + 36 < 2 ^ 32"
  shows "(\<exists>h' q. gap_search h sz Tag al (required sz) (ListEntry_of (last us)) (last us) (ListEntry_of v) c
             = Some (h', Some q) \<and> gap_found h (us @ v # vs) sz Tag al q h') \<or>
    gap_search h sz Tag al (required sz) (ListEntry_of (last us)) (last us) (ListEntry_of v) c
      = gap_search h sz Tag al (required sz) (ListEntry_of v) v (hd (map ListEntry_of vs @ [HeapAllocations h])) v"
    (is "?found \<or> ?next")
proof -
  obtain us' p where up: "us = us' @ [p]" using us by (cases us rule: rev_cases) auto
  have pm: "p \<in> set (us @ v # vs)" "v \<in> set (us @ v # vs)" by (simp_all add: up)
  note bp = heap_entry_bounds [OF ok pm(1)] and D = heap_okD [OF ok]
  obtain pe where pe: "h_entries h p = Some pe" using bp(3) by (auto simp: entry_ok_def)
  let ?e = "p + ENTRY_SIZE + ucast (e_Size pe) + TAIL_SIZE" and ?n = "required sz"
  have eo: "end_of h (heap_lo h) us = unat p + esz h p" by (simp add: up end_of_append)
  have ue: "unat ?e = end_of h (heap_lo h) us" using entry_end [OF ok pm(1) pe] eo by simp
  have le: "unat p + esz h p \<le> unat v" using D(5) by (simp add: packed_append up end_of_append)
  note gb = gap_between(1) [OF ok pm pe le]
  have F: "get_Flink (h_links h) (ListEntry_of v) = Some (hd (map ListEntry_of vs @ [HeapAllocations h]))"
    "ListEntry_of v \<noteq> HeapAllocations h" using heap_Flink [OF ok] by simp_all
  have "heap_ok h (us' @ p # (v # vs))" using ok by (simp add: up)
  then have ph: "ListEntry_of p \<noteq> HeapAllocations h" by (rule heap_Flink(2))
  have p0: "p \<noteq> 0" using bp(1) by (auto simp: heap_lo_def)
  note step = gap_step [where pp = "ListEntry_of p" and pc = "ListEntry_of v", OF r [symmetric] F(2) ph p0 pe refl,
    unfolded heap_record_cell]
  have next_eq: ?next if "sint (v - ?e) < sint ?n \<or>
      InitHeapEntry h ?e Tag sz al False (v - ?e) = Some (h, ?e, 0)"
    using step(1) [OF that F(1)] by (simp only: up last_snoc)
  show ?thesis
  proof (cases "sint ?n \<le> sint (v - ?e)")
    case True
    have S: "unat ?e + unat (v - ?e) \<le> room_end h (v # vs)" using gb ue eo le by (simp add: room_end_def)
    from InitHeapEntry_fits [OF ok ue al sz S, of False Tag]
    consider "InitHeapEntry h ?e Tag sz al False (v - ?e) = Some (h, ?e, 0)"
      | q where "q = aligned_entry ?e al" "fits h us q sz (v # vs)"
        "q + ENTRY_SIZE + ucast sz + TAIL_SIZE \<noteq> 0"
        "InitHeapEntry h ?e Tag sz al False (v - ?e)
          = Some (placed h q Tag sz (h_links h), q, q + ENTRY_SIZE + ucast sz + TAIL_SIZE)"
      by auto
    then show ?thesis
    proof cases
      case 1
      then show ?thesis using next_eq by blast
    next
      case 2
      note nc = new_cell [OF ok 2(2)]
      have l: "is_list (h_links h) (HeapAllocations h) (map ListEntry_of us @ map ListEntry_of (v # vs))"
        "ListEntry_of q \<notin> set (HeapAllocations h # map ListEntry_of us @ map ListEntry_of (v # vs))"
        using D(4) nc(1) by simp_all
      obtain lm where lm: "InsertHeadList (h_links h) (last (HeapAllocations h # map ListEntry_of us)) (ListEntry_of q) = Some lm"
        "is_list lm (HeapAllocations h) (map ListEntry_of us @ ListEntry_of q # map ListEntry_of (v # vs))"
        using InsertHeadList_after [OF l nc(2,3)] by blast
      have lm': "InsertHeadList (h_links h) (ListEntry_of p) (ListEntry_of q) = Some lm"
        using lm(1) by (simp add: up)
      have m: "\<forall>c. h_links h c \<noteq> None \<longrightarrow> lm c \<noteq> None" using InsertHeadList_mapped [OF lm'] by simp
      let ?h = "placed h q Tag sz (h_links h)"
      have same: "entry_same h ?h p" using placed_same(2) [OF ok 2(2) pm(1)] .
      then have "entry_ok ?h p" "h_entries ?h p = Some pe" using bp(3) pe entry_same_ok [OF same]
        by (simp_all add: entry_same_def)
      then have V: "ValidateHeapEntry ?h p (e_Tag pe) = Some True"
        using p0 bp(4) by (rule ValidateHeapEntry_ok)
      have g: "gap_search h sz Tag al ?n (ListEntry_of p) p (ListEntry_of v) c
        = Some ((placed h q Tag sz lm)\<lparr>EntryToRestartSearch := ListEntry_of q\<rparr>, Some q)"
        using step(2) [OF True 2(4,3) V, of lm c] lm' by (simp add: placed_def)
      have "gap_found h (us @ v # vs) sz Tag al q ((placed h q Tag sz lm)\<lparr>EntryToRestartSearch := ListEntry_of q\<rparr>)"
        unfolding gap_found_def using 2(1,2) lm(2) m ue
        by (intro exI [of _ us] exI [of _ "v # vs"] exI [of _ lm] exI [of _ ?e]) simp
      with g have "?found" unfolding up last_snoc by blast
      then show ?thesis ..
    qed
  qed (use next_eq in \<open>simp only: not_le simp_thms\<close>)
qed

text \<open>The walk over the rest \<open>vs\<close> of the list: it finds a gap, or stops where the search
  restarts, or reaches the head with the last entry as \<open>pCurHeapEntry\<close>.\<close>

lemma gap_walk:
  fixes c :: u64
  assumes ok: "heap_ok h (us @ vs)" and us: "us \<noteq> []"
    and T: "Tag \<noteq> 0" and al: "al \<noteq> 0" and sz: "unat sz + 36 < 2 ^ 32"
  defines "run \<equiv> gap_search h sz Tag al (required sz) (ListEntry_of (last us)) (last us)
    (hd (map ListEntry_of vs @ [HeapAllocations h])) c"
  shows "(\<exists>h' q. run = Some (h', Some q) \<and> gap_found h (us @ vs) sz Tag al q h') \<or>
    EntryToRestartSearch h \<in> ListEntry_of ` set vs \<and> run = Some (h, None) \<or>
    EntryToRestartSearch h \<notin> ListEntry_of ` set vs \<and>
      run = gap_search h sz Tag al (required sz) (ListEntry_of (last (us @ vs))) (last (us @ vs))
        (HeapAllocations h) (if vs = [] then c else last vs)"
  unfolding run_def using ok us
proof (induction vs arbitrary: us c)
  case Nil
  then show ?case by simp
next
  case (Cons v vs)
  let ?s = "gap_search h sz Tag al (required sz)"
  have ok: "heap_ok h ((us @ [v]) @ vs)" using Cons.prems(1) by simp
  have IH: "(\<exists>h' q. ?s (ListEntry_of v) v (hd (map ListEntry_of vs @ [HeapAllocations h])) v = Some (h', Some q) \<and>
      gap_found h (us @ v # vs) sz Tag al q h') \<or>
    EntryToRestartSearch h \<in> ListEntry_of ` set vs \<and>
      ?s (ListEntry_of v) v (hd (map ListEntry_of vs @ [HeapAllocations h])) v = Some (h, None) \<or>
    EntryToRestartSearch h \<notin> ListEntry_of ` set vs \<and>
      ?s (ListEntry_of v) v (hd (map ListEntry_of vs @ [HeapAllocations h])) v
      = ?s (ListEntry_of (last (us @ v # vs))) (last (us @ v # vs)) (HeapAllocations h) (last (v # vs))"
    using Cons.IH [OF ok, of v] by (simp split: if_splits)
  show ?case
  proof (cases "EntryToRestartSearch h = ListEntry_of v")
    case True
    then have "?s (ListEntry_of (last us)) (last us) (hd (map ListEntry_of (v # vs) @ [HeapAllocations h])) c
      = Some (h, None)"
      using gap_stop [of h sz Tag al "required sz" "ListEntry_of (last us)" "last us" c]
      by (simp only: list.map append_Cons list.sel)
    moreover have "EntryToRestartSearch h \<in> ListEntry_of ` set (v # vs)" using True by simp
    ultimately show ?thesis by blast
  next
    case False
    then have hd_eq: "hd (map ListEntry_of (v # vs) @ [HeapAllocations h]) = ListEntry_of v" by simp
    have mem: "EntryToRestartSearch h \<in> ListEntry_of ` set (v # vs) \<longleftrightarrow> EntryToRestartSearch h \<in> ListEntry_of ` set vs"
      using False by auto
    from gap_here [OF Cons.prems False T al sz, of c] show ?thesis
    proof
      assume "?s (ListEntry_of (last us)) (last us) (ListEntry_of v) c
        = ?s (ListEntry_of v) v (hd (map ListEntry_of vs @ [HeapAllocations h])) v"
      then show ?thesis using IH unfolding hd_eq mem by simp
    qed (simp only: hd_eq simp_thms)
  qed
qed

text \<open>Just behind the list head \<open>pPreviousHeapEntry\<close> is the entry that was looked at last; the
  distance from it back to the second entry is negative, so nothing is placed there.\<close>

lemma gap_behind_head:
  assumes ok: "heap_ok h (x # v # vs)" and r: "EntryToRestartSearch h \<noteq> ListEntry_of v"
  shows "gap_search h sz Tag al (required sz) (ListEntry_of x) (last (v # vs)) (ListEntry_of v) c
    = gap_search h sz Tag al (required sz) (ListEntry_of v) v (hd (map ListEntry_of vs @ [HeapAllocations h])) v"
    "gap_search h sz Tag al (required sz) (ListEntry_of x) 0 (ListEntry_of v) c = None"
proof -
  let ?es = "x # v # vs" and ?p = "last (v # vs)"
  have m: "?p \<in> set ?es" "v \<in> set ?es" by (simp_all only: list.set_intros last_in_set insertCI set_simps) simp_all
  have ok': "heap_ok h ([x] @ v # vs)" "heap_ok h ([] @ x # v # vs)" using ok by simp_all
  note F = heap_Flink [OF ok'(1)] and x = heap_Flink(2) [OF ok'(2)]
  note b = heap_entry_bounds [OF ok m(1)]
  obtain pe where pe: "h_entries h ?p = Some pe" using b(3) by (auto simp only: entry_ok_def)
  have p0: "?p \<noteq> 0"
  proof
    assume "?p = 0"
    then have "heap_lo h \<le> 0" using b(1) by simp
    then show False by (simp add: heap_lo_def)
  qed
  have "packed h (unat x + esz h x) (v # vs)" using heap_okD(5) [OF ok] by simp
  moreover have "?p \<in> set (v # vs)" by (rule last_in_set) simp
  ultimately have "unat v < unat ?p + esz h ?p"
    using packed_bounds(1) [of h "unat v + esz h v" vs ?p] by (auto simp: esz_def)
  then have "sint (v - (?p + ENTRY_SIZE + ucast (e_Size pe) + TAIL_SIZE)) < 0"
    by (rule gap_between(2) [OF ok m pe])
  then have "sint (v - (?p + ENTRY_SIZE + ucast (e_Size pe) + TAIL_SIZE)) < sint (required sz)"
    unfolding sint_required by linarith
  then show "gap_search h sz Tag al (required sz) (ListEntry_of x) ?p (ListEntry_of v) c
    = gap_search h sz Tag al (required sz) (ListEntry_of v) v (hd (map ListEntry_of vs @ [HeapAllocations h])) v"
    using gap_step(1) [OF r [symmetric] F(2) x p0 pe refl] F(1) unfolding heap_record_cell by blast
  show "gap_search h sz Tag al (required sz) (ListEntry_of x) 0 (ListEntry_of v) c = None"
    using r F(2) x by (subst gap_search.simps) simp
qed

text \<open>From the list head on: the search stops at once when the entry to stop at is one of the
  first two, and otherwise needs an entry that was looked at before.\<close>

lemma gap_from_head:
  assumes ok: "heap_ok h es" and es: "es = xs @ r # ys" and r: "EntryToRestartSearch h = ListEntry_of r"
    and T: "Tag \<noteq> 0" and al: "al \<noteq> 0" and sz: "unat sz + 36 < 2 ^ 32"
  defines "run \<equiv> \<lambda>ph c. gap_search h sz Tag al (required sz) (HeapAllocations h) ph (ListEntry_of (hd es)) c"
  shows "length xs < 2 \<Longrightarrow> run ph c = Some (h, None)"
    "2 \<le> length xs \<Longrightarrow> run ph 0 = None"
    "2 \<le> length xs \<Longrightarrow> run ph (last es) = Some (h, None) \<or>
       (\<exists>h' q. run ph (last es) = Some (h', Some q) \<and> gap_found h es sz Tag al q h')"
proof -
  have dist: "distinct es"
    using is_list_distinct [OF heap_okD(4) [OF ok]] by (simp add: distinct_map)
  have first: "run ph c = gap_search h sz Tag al (required sz) (ListEntry_of x) c
      (hd (map ListEntry_of es' @ [HeapAllocations h])) c"
    if "es = x # es'" "x \<noteq> r" for x es' c
    using that gap_skip [of "ListEntry_of x" h "HeapAllocations h" _ sz Tag al _ ph c]
      heap_Flink(1) [of h "[]" x es'] ok r by (simp add: run_def)
  show "run ph c = Some (h, None)" if "length xs < 2"
  proof (cases xs)
    case Nil
    then show ?thesis using gap_stop [of h] r by (simp add: run_def es)
  next
    case (Cons x xs')
    then have x: "es = x # r # ys" using es that by simp
    then have "run ph c = gap_search h sz Tag al (required sz) (ListEntry_of x) c (EntryToRestartSearch h) c"
      using first [OF x] dist r by simp
    then show ?thesis by (simp only: gap_stop)
  qed
  assume "2 \<le> length xs"
  then obtain x v xs' where xs: "xs = x # v # xs'"
    by (metis One_nat_def Suc_1 Suc_le_length_iff)
  then have x: "es = x # v # (xs' @ r # ys)" using es by simp
  have ne: "x \<noteq> r" "EntryToRestartSearch h \<noteq> ListEntry_of v" using dist x r by auto
  have step: "run ph c = gap_search h sz Tag al (required sz) (ListEntry_of x) c (ListEntry_of v) c" for c
    using first [OF x ne(1), of c] by simp
  note bh = gap_behind_head [OF ok [unfolded x] ne(2)]
  show "run ph 0 = None" unfolding step by (rule bh(2))
  have last: "last es = last (v # (xs' @ r # ys))" by (simp only: x last.simps list.distinct if_False)
  have w: "run ph (last es) = gap_search h sz Tag al (required sz) (ListEntry_of (last [x, v])) (last [x, v])
      (hd (map ListEntry_of (xs' @ r # ys) @ [HeapAllocations h])) v"
    unfolding step last bh(1) by simp
  have "heap_ok h ([x, v] @ (xs' @ r # ys))" using ok x by simp
  from gap_walk [OF this _ T al sz, of v] r
  show "run ph (last es) = Some (h, None) \<or>
      (\<exists>h' q. run ph (last es) = Some (h', Some q) \<and> gap_found h es sz Tag al q h')"
    unfolding w by (auto simp: x)
qed

text \<open>Where the search may start: it stops the system when it starts at one of the last two
  entries and that is not one of the first two.\<close>

definition restart_safe :: "heap \<Rightarrow> u64 list \<Rightarrow> bool" where
  "restart_safe h es \<longleftrightarrow>
     EntryToRestartSearch h \<notin> ListEntry_of ` set (drop (max 2 (length es - 2)) es)"

lemma restart_safe_at:
  assumes "distinct (xs @ r # ys)" "EntryToRestartSearch h = ListEntry_of r"
  shows "restart_safe h (xs @ r # ys) \<longleftrightarrow> length xs < 2 \<or> 2 \<le> length ys"
proof -
  let ?k = "max 2 (length (xs @ r # ys) - 2)"
  have "r \<in> set (drop k (xs @ r # ys)) \<longleftrightarrow> k \<le> length xs" for k
  proof (cases "k \<le> length xs")
    case True
    then show ?thesis by simp
  next
    case False
    then obtain j where k: "k = Suc (length xs + j)" by (auto simp: not_le less_iff_Suc_add)
    then have "drop k (xs @ r # ys) = drop j ys" by simp
    moreover have "r \<notin> set (drop j ys)" using assms(1) in_set_dropD [of r j ys] by auto
    ultimately show ?thesis using k by simp
  qed
  then have "EntryToRestartSearch h \<in> ListEntry_of ` set (drop ?k (xs @ r # ys)) \<longleftrightarrow> ?k \<le> length xs"
    unfolding assms(2) by (auto simp only: image_iff ListEntry_inj)
  moreover have "?k \<le> length xs \<longleftrightarrow> 2 \<le> length xs \<and> length ys < 2" by auto
  ultimately show ?thesis unfolding restart_safe_def by linarith
qed

text \<open>The search as \<open>ClHeapAllocatePoolWithTag\<close> starts it.\<close>

lemma gap_search_all:
  assumes ok: "heap_ok h es" and ne: "es \<noteq> []"
    and T: "Tag \<noteq> 0" and al: "al \<noteq> 0" and sz: "unat sz + 36 < 2 ^ 32"
  obtains prev cur where "get_Flink (h_links h) (EntryToRestartSearch h) = Some prev"
    "get_Flink (h_links h) prev = Some cur"
    "\<not> restart_safe h es \<Longrightarrow> gap_search h sz Tag al (required sz) prev (heap_record prev) cur 0 = None"
    "restart_safe h es \<Longrightarrow>
      gap_search h sz Tag al (required sz) prev (heap_record prev) cur 0 = Some (h, None) \<or>
      (\<exists>h' q. gap_search h sz Tag al (required sz) prev (heap_record prev) cur 0 = Some (h', Some q) \<and>
         gap_found h es sz Tag al q h')"
proof (cases "EntryToRestartSearch h = HeapAllocations h")
  case True
  obtain x vs where es: "es = x # vs" using ne by (cases es) auto
  have ok': "heap_ok h ([] @ x # vs)" "heap_ok h ([x] @ vs)" using ok es by simp_all
  have notin: "EntryToRestartSearch h \<notin> ListEntry_of ` set es"
    using is_list_distinct [OF heap_okD(4) [OF ok]] True by auto
  then have safe: "restart_safe h es"
    unfolding restart_safe_def using in_set_dropD [of _ "max 2 (length es - 2)" es] by blast
  show thesis
  proof (rule that)
    show "get_Flink (h_links h) (EntryToRestartSearch h) = Some (ListEntry_of x)"
      using heap_Flink_head [OF ok] True es by simp
    show "get_Flink (h_links h) (ListEntry_of x) = Some (hd (map ListEntry_of vs @ [HeapAllocations h]))"
      using heap_Flink(1) [OF ok'(1)] .
    let ?g = "gap_search h sz Tag al (required sz) (ListEntry_of x) (heap_record (ListEntry_of x))
      (hd (map ListEntry_of vs @ [HeapAllocations h])) 0"
    show "?g = None" if "\<not> restart_safe h es" using that safe by simp
    have "EntryToRestartSearch h \<notin> ListEntry_of ` set vs" using notin es by auto
    with gap_walk [OF ok'(2) _ T al sz, of 0] gap_stop [of h] True
    show "?g = Some (h, None) \<or> (\<exists>h' q. ?g = Some (h', Some q) \<and> gap_found h es sz Tag al q h')"
      by (auto simp: es)
  qed
next
  case False
  then obtain r where r: "EntryToRestartSearch h = ListEntry_of r" "r \<in> set es"
    using heap_okD(11) [OF ok] by auto
  obtain xs ys where es: "es = xs @ r # ys" using r(2) by (auto simp: in_set_conv_decomp)
  have dist: "distinct es" using is_list_distinct [OF heap_okD(4) [OF ok]] by (simp add: distinct_map)
  note safe = restart_safe_at [OF dist [unfolded es] r(1), folded es]
  note fh = gap_from_head [OF ok es r(1) T al sz]
  have H: "get_Flink (h_links h) (HeapAllocations h) = Some (ListEntry_of (hd es))"
    using heap_Flink_head [OF ok] ne by (cases es) simp_all
  show thesis
  proof (cases ys)
    case Nil
    have "get_Flink (h_links h) (EntryToRestartSearch h) = Some (HeapAllocations h)"
      using heap_Flink(1) [of h xs r "[]"] ok es r(1) Nil by simp
    then show thesis
    proof (rule that [OF _ H])
      show "\<not> restart_safe h es \<Longrightarrow> gap_search h sz Tag al (required sz) (HeapAllocations h)
          (heap_record (HeapAllocations h)) (ListEntry_of (hd es)) 0 = None"
        using safe Nil fh(2) by simp
      show "restart_safe h es \<Longrightarrow> gap_search h sz Tag al (required sz) (HeapAllocations h)
          (heap_record (HeapAllocations h)) (ListEntry_of (hd es)) 0 = Some (h, None) \<or>
          (\<exists>h' q. gap_search h sz Tag al (required sz) (HeapAllocations h)
          (heap_record (HeapAllocations h)) (ListEntry_of (hd es)) 0 = Some (h', Some q) \<and>
          gap_found h es sz Tag al q h')"
        using safe Nil fh(1) by simp
    qed
  next
    case (Cons y ys')
    have ok': "heap_ok h (xs @ r # (y # ys'))" "heap_ok h ((xs @ [r]) @ y # ys')" "heap_ok h ((xs @ [r, y]) @ ys')"
      using ok es Cons by simp_all
    let ?g = "gap_search h sz Tag al (required sz) (ListEntry_of y) y
      (hd (map ListEntry_of ys' @ [HeapAllocations h])) 0"
    have skip: "gap_search h sz Tag al (required sz) (ListEntry_of (last es)) (last es) (HeapAllocations h) c
      = gap_search h sz Tag al (required sz) (HeapAllocations h) c (ListEntry_of (hd es)) c" for c
      by (rule gap_skip [OF False [symmetric] _ H]) simp
    have res: "(\<not> restart_safe h es \<longrightarrow> ?g = None) \<and> (restart_safe h es \<longrightarrow>
      ?g = Some (h, None) \<or> (\<exists>h' q. ?g = Some (h', Some q) \<and> gap_found h es sz Tag al q h'))"
    proof (cases "ys' = []")
      case True
      then have g: "?g = gap_search h sz Tag al (required sz) (HeapAllocations h) 0 (ListEntry_of (hd es)) 0"
        using skip [of 0] by (simp add: es Cons)
      have "length ys < 2" using True Cons by simp
      then show ?thesis using safe fh(1,2) unfolding g by (cases "length xs < 2") simp_all
    next
      case ys': False
      have notin: "EntryToRestartSearch h \<notin> ListEntry_of ` set ys'" using dist es Cons r(1) by auto
      have esl: "(xs @ [r, y]) @ ys' = es" "last (xs @ [r, y]) = y" "last es = last ys'"
        using es Cons ys' by simp_all
      have "restart_safe h es" using safe ys' by (cases ys') (simp_all add: Cons)
      moreover from gap_walk [OF ok'(3) _ T al sz, of 0] notin ys'
      have "(\<exists>h' q. ?g = Some (h', Some q) \<and> gap_found h es sz Tag al q h') \<or>
        ?g = gap_search h sz Tag al (required sz) (HeapAllocations h) (last es) (ListEntry_of (hd es)) (last es)"
        unfolding esl skip [symmetric] by auto
      ultimately show ?thesis using fh(1,3) [of "last es"] by (cases "length xs < 2") auto
    qed
    show thesis
    proof (rule that)
      show "get_Flink (h_links h) (EntryToRestartSearch h) = Some (ListEntry_of y)"
        using heap_Flink(1) [OF ok'(1)] r(1) by simp
      show "get_Flink (h_links h) (ListEntry_of y) = Some (hd (map ListEntry_of ys' @ [HeapAllocations h]))"
        using heap_Flink(1) [OF ok'(2)] .
    qed (use res in simp_all)
  qed
qed

section \<open>Allocation\<close>

text \<open>The two ways to place an entry: at the end, where the search state stays, or in a gap,
  where the next search restarts.\<close>

definition heap_placed :: "heap \<Rightarrow> u64 list \<Rightarrow> u32 \<Rightarrow> u32 \<Rightarrow> u32 \<Rightarrow> u64 \<Rightarrow> heap \<Rightarrow> bool" where
  "heap_placed h es sz Tag al q h' \<longleftrightarrow> (\<exists>us vs lm F r p. es = us @ vs \<and> fits h us q sz vs \<and>
     is_list lm (HeapAllocations h) (map ListEntry_of (us @ q # vs)) \<and>
     (\<forall>c. h_links h c \<noteq> None \<longrightarrow> lm c \<noteq> None) \<and> unat p = end_of h (heap_lo h) us \<and> q = aligned_entry p al \<and>
     F = (if vs = [] then q + ENTRY_SIZE + ucast sz + TAIL_SIZE else FreeAddress h) \<and>
     r \<in> set (HeapAllocations h # map ListEntry_of (us @ q # vs)) \<and>
     h' = (placed h q Tag sz lm)\<lparr>FreeAddress := F, EntryToRestartSearch := r\<rparr>)"

lemma until_end:
  assumes ok: "heap_ok h es"
    and n: "sint (required sz) \<le> sint (BaseAddress h + HeapSizeMaximum h - FreeAddress h - ENTRY_SIZE)"
  shows "unat (FreeAddress h) + unat (BaseAddress h + HeapSizeMaximum h - FreeAddress h - ENTRY_SIZE) \<le> heap_hi h"
proof -
  note D = heap_okD [OF ok]
  have hi: "unat (BaseAddress h + HeapSizeMaximum h) = heap_hi h"
    using D(2) unfolding heap_hi_def by (intro unat_add_small) simp
  have F: "unat (FreeAddress h + ENTRY_SIZE) = unat (FreeAddress h) + 32"
    using unat_entry_offset [of "FreeAddress h" 32] D(2,7) by simp
  have e: "BaseAddress h + HeapSizeMaximum h - FreeAddress h - ENTRY_SIZE
      = (BaseAddress h + HeapSizeMaximum h) - (FreeAddress h + ENTRY_SIZE)" by simp
  show ?thesis
  proof (cases "unat (FreeAddress h) + 32 \<le> heap_hi h")
    case True
    then have "unat ((BaseAddress h + HeapSizeMaximum h) - (FreeAddress h + ENTRY_SIZE))
        = heap_hi h - (unat (FreeAddress h) + 32)"
      using hi F by (subst unat_sub_small) (simp_all add: word_le_nat_alt)
    then show ?thesis using True unfolding e by linarith
  next
    case False
    then have "sint ((BaseAddress h + HeapSizeMaximum h) - (FreeAddress h + ENTRY_SIZE)) < 0"
      using hi F D(7) by (intro sint_diff_neg) simp_all
    with n show ?thesis unfolding e sint_required by linarith
  qed
qed

lemma gap_found_placed:
  assumes "gap_found h es sz Tag al q h'"
  shows "heap_placed h es sz Tag al q h'"
proof -
  obtain us vs lm p where g: "es = us @ vs" "vs \<noteq> []" "fits h us q sz vs"
    "is_list lm (HeapAllocations h) (map ListEntry_of (us @ q # vs))"
    "\<forall>c. h_links h c \<noteq> None \<longrightarrow> lm c \<noteq> None" "unat p = end_of h (heap_lo h) us" "q = aligned_entry p al"
    "h' = (placed h q Tag sz lm)\<lparr>EntryToRestartSearch := ListEntry_of q\<rparr>"
    using assms unfolding gap_found_def by blast
  have "h' = (placed h q Tag sz lm)\<lparr>FreeAddress := FreeAddress h, EntryToRestartSearch := ListEntry_of q\<rparr>"
    by (simp add: g(8) placed_def)
  with g show ?thesis unfolding heap_placed_def
    by (intro exI [of _ us] exI [of _ vs] exI [of _ lm] exI [of _ "FreeAddress h"]
        exI [of _ "ListEntry_of q"] exI [of _ p]) simp
qed

text \<open>An empty heap has nothing before its free space, so the assertion that the list is not
  empty holds where it is made.\<close>

lemma empty_heap_remaining:
  assumes "heap_ok h []"
  shows "HeapSizeRemaining h - (BaseAddress h + HeapSizeMaximum h - FreeAddress h - ENTRY_SIZE) - ENTRY_SIZE = 0"
proof -
  note D = heap_okD [OF assms]
  have "unat (HeapSizeRemaining h + HEADER_SIZE) = unat (HeapSizeMaximum h)"
    using D(3,9) by (subst unat_add_small) simp_all
  then have "HeapSizeMaximum h = HeapSizeRemaining h + HEADER_SIZE" by (metis word_unat_eq_iff)
  moreover have "unat (BaseAddress h + HEADER_SIZE) = unat (FreeAddress h)"
    using D(2,6,7) by (subst unat_add_small) (simp_all add: heap_lo_def heap_hi_def)
  then have "FreeAddress h = BaseAddress h + HEADER_SIZE" by (metis word_unat_eq_iff)
  ultimately show ?thesis by simp
qed

lemma end_found:
  assumes ok: "heap_ok h es" and al: "al \<noteq> 0" and sz: "unat sz + 36 < 2 ^ 32"
    and S: "unat (FreeAddress h) + unat S \<le> heap_hi h"
  shows "InitHeapEntry h (FreeAddress h) Tag sz al True S = Some (h, FreeAddress h, 0) \<or>
    (\<exists>q t h1. InitHeapEntry h (FreeAddress h) Tag sz al True S = Some (h1, q, t) \<and> t \<noteq> 0 \<and>
       heap_placed h es sz Tag al q (h1\<lparr>FreeAddress := t\<rparr>))"
proof -
  note D = heap_okD [OF ok]
  have ok': "heap_ok h (es @ [])" and S': "unat (FreeAddress h) + unat S \<le> room_end h []"
    using ok S by (simp_all add: room_end_def)
  from InitHeapEntry_fits [OF ok' D(6) al sz S', of True Tag] show ?thesis
  proof
    assume "\<exists>q lm. q = aligned_entry (FreeAddress h) al \<and> fits h es q sz [] \<and>
       q + ENTRY_SIZE + ucast sz + TAIL_SIZE \<noteq> 0 \<and>
       InitHeapEntry h (FreeAddress h) Tag sz al True S
         = Some (placed h q Tag sz lm, q, q + ENTRY_SIZE + ucast sz + TAIL_SIZE) \<and>
       (if True then is_list lm (HeapAllocations h) (map ListEntry_of (es @ [q])) \<and>
          (\<forall>c. h_links h c \<noteq> None \<longrightarrow> lm c \<noteq> None)
        else lm = h_links h)"
    then obtain q lm where g: "q = aligned_entry (FreeAddress h) al" "fits h es q sz []"
      "q + ENTRY_SIZE + ucast sz + TAIL_SIZE \<noteq> 0"
      "InitHeapEntry h (FreeAddress h) Tag sz al True S
         = Some (placed h q Tag sz lm, q, q + ENTRY_SIZE + ucast sz + TAIL_SIZE)"
      "is_list lm (HeapAllocations h) (map ListEntry_of (es @ [q]))"
      "\<forall>c. h_links h c \<noteq> None \<longrightarrow> lm c \<noteq> None" unfolding if_True by blast
    let ?t = "q + ENTRY_SIZE + ucast sz + TAIL_SIZE"
    have "EntryToRestartSearch h \<in> set (HeapAllocations h # map ListEntry_of (es @ [q]))"
      using D(11) by auto
    moreover have "(placed h q Tag sz lm)\<lparr>FreeAddress := ?t\<rparr>
      = (placed h q Tag sz lm)\<lparr>FreeAddress := ?t, EntryToRestartSearch := EntryToRestartSearch h\<rparr>"
      by (simp add: placed_def)
    ultimately have "heap_placed h es sz Tag al q ((placed h q Tag sz lm)\<lparr>FreeAddress := ?t\<rparr>)"
      unfolding heap_placed_def using g(1,2,5,6) D(6)
      by (intro exI [of _ es] exI [of _ "[]"] exI [of _ lm] exI [of _ ?t]
          exI [of _ "EntryToRestartSearch h"] exI [of _ "FreeAddress h"]) simp
    with g(3,4) show ?thesis by blast
  qed (simp, rule disjI1)
qed

lemma failures: "\<not> SUCCEEDED STATUS_INVALID_PARAMETER2" "\<not> SUCCEEDED STATUS_INVALID_PARAMETER3"
  "\<not> SUCCEEDED STATUS_HEAP_NO_MORE_MEMORY" "SUCCEEDED STATUS_SUCCESS"
  by (simp_all add: SUCCEEDED_def)

lemma heap_place_run:
  fixes al :: u32
  assumes ok: "heap_ok h es" and sz: "unat sz + 36 < 2 ^ 32" and safe: "restart_safe h es"
  defines "al' \<equiv> (if al = 0 then HEAP_DEFAULT_ALIGNMENT else al)"
  shows "(\<exists>s. heap_place h sz Tag al = Some (h, None, s) \<and> \<not> SUCCEEDED s) \<or>
    (\<exists>q h'. heap_place h sz Tag al = Some (h', Some q, STATUS_SUCCESS) \<and> Tag \<noteq> 0 \<and> sz \<noteq> 0 \<and>
       heap_placed h es sz Tag al' q h')"
proof -
  let ?R = "BaseAddress h + HeapSizeMaximum h - FreeAddress h - ENTRY_SIZE" and ?n = "required sz"
  have al: "al' \<noteq> 0" by (simp add: al'_def)
  define r where "r = (if sint ?n \<le> sint ?R then InitHeapEntry h (FreeAddress h) Tag sz al' True ?R else Some (h, 0, 0))"
  have r: "(\<exists>p. r = Some (h, p, 0)) \<or>
    (\<exists>q t h1. r = Some (h1, q, t) \<and> t \<noteq> 0 \<and> heap_placed h es sz Tag al' q (h1\<lparr>FreeAddress := t\<rparr>))"
    unfolding r_def using end_found [OF ok al sz until_end [OF ok, of sz], of Tag]
    by (cases "sint ?n \<le> sint ?R") (simp_all only: if_True if_False, blast+)
  define B where "B = HeapSizeRemaining h - ?R - ENTRY_SIZE"
  define g where "g = do {
              empty \<leftarrow> IsListEmpty (h_links h) (HeapAllocations h);
              ASSERT (\<not> empty);
              prev \<leftarrow> get_Flink (h_links h) (EntryToRestartSearch h);
              cur \<leftarrow> get_Flink (h_links h) prev;
              s \<leftarrow> gap_search h sz Tag al' ?n prev (heap_record prev) cur 0;
              Some (fst s, snd s, if snd s = None then STATUS_HEAP_NO_MORE_MEMORY else STATUS_SUCCESS)
            }"
  have unf: "heap_place h sz Tag al =
     (if sz = 0 then Some (h, None, STATUS_INVALID_PARAMETER2)
      else if Tag = 0 then Some (h, None, STATUS_INVALID_PARAMETER3)
      else if HeapSizeRemaining h < ?n then Some (h, None, STATUS_HEAP_NO_MORE_MEMORY)
      else do {
          r \<leftarrow> r;
          if snd (snd r) \<noteq> 0
          then Some ((fst r)\<lparr>FreeAddress := snd (snd r)\<rparr>, Some (fst (snd r)), STATUS_SUCCESS)
          else if sint B < sint ?n then Some (h, None, STATUS_HEAP_NO_MORE_MEMORY) else g
        })"
    unfolding heap_place_def Let_def al'_def [symmetric] r_def [symmetric] g_def B_def ..
  have g: "g = Some (h, None, STATUS_HEAP_NO_MORE_MEMORY) \<or>
      (\<exists>q h'. g = Some (h', Some q, STATUS_SUCCESS) \<and> heap_placed h es sz Tag al' q h')"
    if T: "Tag \<noteq> 0" and nB: "\<not> sint B < sint ?n"
  proof -
    have ne: "es \<noteq> []"
    proof
      assume "es = []"
      then have "B = 0" using empty_heap_remaining ok unfolding B_def by blast
      then have "sint B = 0" by simp
      then show False using nB unfolding sint_required by simp
    qed
    have "IsListEmpty (h_links h) (HeapAllocations h) = Some False"
      using IsListEmpty_list [OF heap_okD(4) [OF ok]] ne by simp
    moreover obtain prev cur where pc: "get_Flink (h_links h) (EntryToRestartSearch h) = Some prev"
      "get_Flink (h_links h) prev = Some cur"
      "restart_safe h es \<Longrightarrow>
        gap_search h sz Tag al' ?n prev (heap_record prev) cur 0 = Some (h, None) \<or>
        (\<exists>h' q. gap_search h sz Tag al' ?n prev (heap_record prev) cur 0 = Some (h', Some q) \<and>
         gap_found h es sz Tag al' q h')"
      by (rule gap_search_all [OF ok ne T al sz]) (rule that, assumption+)
    ultimately have geq: "g = do {
        s \<leftarrow> gap_search h sz Tag al' ?n prev (heap_record prev) cur 0;
        Some (fst s, snd s, if snd s = None then STATUS_HEAP_NO_MORE_MEMORY else STATUS_SUCCESS)
      }" by (simp add: g_def)
    from pc(3) [OF safe] show ?thesis
    proof
      assume "gap_search h sz Tag al' ?n prev (heap_record prev) cur 0 = Some (h, None)"
      then show ?thesis unfolding geq by simp
    next
      assume "\<exists>h' q. gap_search h sz Tag al' ?n prev (heap_record prev) cur 0 = Some (h', Some q) \<and>
         gap_found h es sz Tag al' q h'"
      then obtain h' q where "gap_search h sz Tag al' ?n prev (heap_record prev) cur 0 = Some (h', Some q)"
        "heap_placed h es sz Tag al' q h'" using gap_found_placed by blast
      then show ?thesis unfolding geq by auto
    qed
  qed
  show ?thesis
  proof (cases "sz = 0 \<or> Tag = 0 \<or> HeapSizeRemaining h < ?n")
    case True
    then show ?thesis unfolding unf using failures by auto
  next
    case False
    then have unf': "heap_place h sz Tag al = do {
          r \<leftarrow> r;
          if snd (snd r) \<noteq> 0
          then Some ((fst r)\<lparr>FreeAddress := snd (snd r)\<rparr>, Some (fst (snd r)), STATUS_SUCCESS)
          else if sint B < sint ?n then Some (h, None, STATUS_HEAP_NO_MORE_MEMORY) else g
        }" unfolding unf by simp
    from r show ?thesis
    proof
      assume "\<exists>p. r = Some (h, p, 0)"
      then have "heap_place h sz Tag al
        = (if sint B < sint ?n then Some (h, None, STATUS_HEAP_NO_MORE_MEMORY) else g)"
        unfolding unf' by auto
      then show ?thesis using g False failures by auto
    qed (use False in \<open>auto simp: unf'\<close>)
  qed
qed

lemma heap_placed_ok:
  assumes pl: "heap_placed h es sz Tag al q h'" and ok: "heap_ok h es" and T: "Tag \<noteq> 0"
  obtains us vs where "es = us @ vs" "heap_ok h' (us @ q # vs)"
    "h_entries h' q = Some \<lparr>e_Magic = HEAP_MAGIC, e_Tag = Tag, e_Size = sz, e_Offset = 0x20\<rparr>"
    "unat (q + 0x20) = unat q + 32" "heap_lo h \<le> unat q" "unat q + 36 + unat sz \<le> heap_hi h"
    "\<forall>p \<in> set es. h_entries h' p = h_entries h p \<and>
       (unat p + esz h p \<le> unat q \<or> unat q + 36 + unat sz \<le> unat p)"
    "h_data h' = h_data h" "\<exists>p. unat p + 2 ^ 33 < 2 ^ 64 \<and> q = aligned_entry p al"
proof -
  obtain us vs lm F r p where g: "es = us @ vs" "fits h us q sz vs"
     "is_list lm (HeapAllocations h) (map ListEntry_of (us @ q # vs))"
     "\<forall>c. h_links h c \<noteq> None \<longrightarrow> lm c \<noteq> None" "unat p = end_of h (heap_lo h) us" "q = aligned_entry p al"
     "F = (if vs = [] then q + ENTRY_SIZE + ucast sz + TAIL_SIZE else FreeAddress h)"
     "r \<in> set (HeapAllocations h # map ListEntry_of (us @ q # vs))"
     "h' = (placed h q Tag sz lm)\<lparr>FreeAddress := F, EntryToRestartSearch := r\<rparr>"
    using pl unfolding heap_placed_def by blast
  have ok': "heap_ok h (us @ vs)" using ok g(1) by simp
  note fb = fits_bounds [OF ok' g(2)]
  show thesis
  proof (rule that [OF g(1)])
    show "heap_ok h' (us @ q # vs)" unfolding g(9)
      using g(4) by (intro placed_ok [OF ok' g(2) T g(3) _ g(7) g(8)]) blast
    show "h_entries h' q = Some \<lparr>e_Magic = HEAP_MAGIC, e_Tag = Tag, e_Size = sz, e_Offset = 0x20\<rparr>"
      by (simp add: g(9) placed_def)
    show "unat (q + 0x20) = unat q + 32" using unat_entry_offset [OF fb(2), of 32] by simp
    show "heap_lo h \<le> unat q" "unat q + 36 + unat sz \<le> heap_hi h" using fb(3,1) by simp_all
    show "h_data h' = h_data h" by (simp add: g(9))
    have "unat p \<le> unat q" using g(2,5) by (simp add: fits_def)
    then show "\<exists>p. unat p + 2 ^ 33 < 2 ^ 64 \<and> q = aligned_entry p al"
      using fb(2) g(6) by (intro exI [of _ p]) simp
    have "x \<noteq> q \<and> (x \<in> set us \<or> x \<in> set vs)" if "x \<in> set es" for x
      using that placed_same(1) [OF ok' g(2), of x] g(1) by simp
    then show "\<forall>x \<in> set es. h_entries h' x = h_entries h x \<and>
       (unat x + esz h x \<le> unat q \<or> unat q + 36 + unat sz \<le> unat x)"
      using fb(4,5) by (auto simp: g(9) placed_def)
  qed
qed

lemma aligned_entry_aligned:
  assumes "unat p + 2 ^ 33 < 2 ^ 64" "al = 2 ^ n" "n < 32"
  shows "2 ^ n dvd unat (aligned_entry p al + ENTRY_SIZE)"
proof -
  have "(2 :: nat) ^ n < 2 ^ 32" using assms(3) by (intro power_strict_increasing) auto
  moreover have "unat (p + ENTRY_SIZE) = unat p + 32"
    using unat_entry_offset [OF assms(1), of 32] by simp
  ultimately have "unat (p + ENTRY_SIZE) + (2 ^ n - 1) < 2 ^ 64" using assms(1) by simp
  then have "2 ^ n dvd unat (AlignAddressUpper (p + ENTRY_SIZE) (2 ^ n))"
    using unat_AlignAddressUpper [of "p + ENTRY_SIZE" n] assms(3) by simp
  moreover have "(ucast al :: u64) = 2 ^ n"
    using assms(2,3) by (intro bit_word_eqI) (auto simp: bit_simps)
  ultimately show ?thesis by (simp add: aligned_entry_def)
qed

lemma entry_data_field:
  "heap_ok h es \<Longrightarrow> heap_ok (h\<lparr>h_data := d\<rparr>) es"
proof -
  assume ok: "heap_ok h es"
  have "packed (h\<lparr>h_data := d\<rparr>) lo es = packed h lo es" "end_of (h\<lparr>h_data := d\<rparr>) lo es = end_of h lo es"
    "map (esz (h\<lparr>h_data := d\<rparr>)) es = map (esz h) es" for lo
    by (intro packed_frame ballI, simp add: entry_same_def)+
  moreover have "esz (h\<lparr>h_data := d\<rparr>) = esz h" by (simp add: esz_def fun_eq_iff)
  ultimately show ?thesis using ok unfolding heap_ok_def
    by (simp add: heap_lo_def heap_hi_def HeapAllocations_def)
qed

text \<open>What an allocation promises.\<close>

definition allocated :: "heap \<Rightarrow> u64 list \<Rightarrow> u32 \<Rightarrow> u32 \<Rightarrow> u32 \<Rightarrow> heap \<Rightarrow> u64 \<Rightarrow> bool" where
  "allocated h es Flags sz al h' a \<longleftrightarrow>
     (\<exists>us vs. es = us @ vs \<and> heap_ok h' (us @ (a - ENTRY_SIZE) # vs)) \<and>
     heap_lo h + 32 \<le> unat a \<and> unat a + unat sz + 4 \<le> heap_hi h \<and>
     (\<forall>p \<in> set es. h_entries h' p = h_entries h p \<and>
        (unat p + esz h p + 32 \<le> unat a \<or> unat a + unat sz + 4 \<le> unat p)) \<and>
     (\<forall>n < 32. (if al = 0 then HEAP_DEFAULT_ALIGNMENT else al) = 2 ^ n \<longrightarrow> 2 ^ n dvd unat a) \<and>
     (\<forall>x. h_data h' x = (if IsFlagOn Flags PoolAllocateZeroMemory \<and> x - a < ucast sz then 0 else h_data h x))"

lemma ClHeapAllocatePoolWithTag_run:
  assumes ok: "heap_ok h es" and sz: "unat sz + 36 < 2 ^ 32" and safe: "restart_safe h es"
  shows "(\<exists>h' a. ClHeapAllocatePoolWithTag h Flags sz Tag al = Some (h', a) \<and> allocated h es Flags sz al h' a) \<or>
    ClHeapAllocatePoolWithTag h Flags sz Tag al
      = (if IsFlagOn Flags PoolAllocatePanicIfFail then None else Some (h, 0))"
  using heap_place_run [OF ok sz safe, of Tag al]
proof
  assume "\<exists>s. heap_place h sz Tag al = Some (h, None, s) \<and> \<not> SUCCEEDED s"
  then show ?thesis by (auto simp: ClHeapAllocatePoolWithTag_def)
next
  let ?al = "if al = 0 then HEAP_DEFAULT_ALIGNMENT else al"
  assume "\<exists>q h'. heap_place h sz Tag al = Some (h', Some q, STATUS_SUCCESS) \<and> Tag \<noteq> 0 \<and> sz \<noteq> 0 \<and>
       heap_placed h es sz Tag ?al q h'"
  then obtain q h' where hp: "heap_place h sz Tag al = Some (h', Some q, STATUS_SUCCESS)" "Tag \<noteq> 0"
    "heap_placed h es sz Tag ?al q h'" by blast
  obtain us vs where k: "es = us @ vs" "heap_ok h' (us @ q # vs)"
    "h_entries h' q = Some \<lparr>e_Magic = HEAP_MAGIC, e_Tag = Tag, e_Size = sz, e_Offset = 0x20\<rparr>"
    "unat (q + 0x20) = unat q + 32" "heap_lo h \<le> unat q" "unat q + 36 + unat sz \<le> heap_hi h"
    "\<forall>p \<in> set es. h_entries h' p = h_entries h p \<and>
       (unat p + esz h p \<le> unat q \<or> unat q + 36 + unat sz \<le> unat p)"
    "h_data h' = h_data h" "\<exists>p. unat p + 2 ^ 33 < 2 ^ 64 \<and> q = aligned_entry p ?al"
    by (rule heap_placed_ok [OF hp(3) ok hp(2)])
  let ?h = "if IsFlagOn Flags PoolAllocateZeroMemory
            then h'\<lparr>h_data := fill (h_data h') (q + 0x20) 0 (ucast sz)\<rparr> else h'"
  have nz: "q + 0x20 \<noteq> 0" using k(4) by auto
  have run: "ClHeapAllocatePoolWithTag h Flags sz Tag al = Some (?h, q + 0x20)"
    using hp(1) k(3) nz by (simp add: ClHeapAllocatePoolWithTag_def failures)
  have al: "\<forall>n < 32. ?al = 2 ^ n \<longrightarrow> 2 ^ n dvd unat (q + 0x20)"
  proof (intro allI impI)
    fix n :: nat
    assume n: "n < 32" "?al = 2 ^ n"
    obtain p where "unat p + 2 ^ 33 < 2 ^ 64" "q = aligned_entry p ?al" using k(9) by blast
    then show "2 ^ n dvd unat (q + 0x20)" using aligned_entry_aligned [OF _ n(2,1)] by simp
  qed
  have "heap_ok ?h (us @ q # vs)" using k(2) entry_data_field by simp
  then have ex: "\<exists>us vs. es = us @ vs \<and> heap_ok ?h (us @ (q + 0x20 - ENTRY_SIZE) # vs)"
    using k(1) by (intro exI [of _ us] exI [of _ vs]) (simp only: add_diff_cancel_right')
  have fields: "h_entries ?h = h_entries h'"
    "h_data ?h x = (if IsFlagOn Flags PoolAllocateZeroMemory \<and> x - (q + 0x20) < ucast sz then 0 else h_data h x)" for x
    using k(8) by (simp_all add: fill_def)
  have "\<forall>p \<in> set es. h_entries ?h p = h_entries h p \<and>
       (unat p + esz h p + 32 \<le> unat (q + 0x20) \<or> unat (q + 0x20) + unat sz + 4 \<le> unat p)"
    using k(7) unfolding fields(1) k(4) by auto
  moreover have "heap_lo h + 32 \<le> unat (q + 0x20)" "unat (q + 0x20) + unat sz + 4 \<le> heap_hi h"
    unfolding k(4) using k(5,6) by simp_all
  ultimately have "allocated h es Flags sz al ?h (q + 0x20)"
    unfolding allocated_def using ex al fields(2) by blast
  with run show ?thesis by blast
qed

section \<open>Release\<close>

lemma RemoveEntryList_mapped:
  "RemoveEntryList m e = Some (m', b) \<Longrightarrow> m' q = None \<longleftrightarrow> m q = None"
  by (auto simp: RemoveEntryList_def bind_Some dest!: set_mapped [where q = q])

text \<open>The entries of a heap do not overlap.\<close>

lemma heap_apart:
  assumes ok: "heap_ok h (us @ p # vs)"
  shows "x \<in> set us \<Longrightarrow> unat x + esz h x \<le> unat p" "x \<in> set vs \<Longrightarrow> unat p + esz h p \<le> unat x"
    "p \<notin> set (us @ vs)"
proof -
  note D = heap_okD [OF ok]
  have pk: "packed h (heap_lo h) us" "end_of h (heap_lo h) us \<le> unat p" "packed h (unat p + esz h p) vs"
    using D(5) by (simp_all add: packed_append)
  show "unat x + esz h x \<le> unat p" if "x \<in> set us" using packed_bounds(2) [OF pk(1) that] pk(2) by linarith
  show "unat p + esz h p \<le> unat x" if "x \<in> set vs" using packed_bounds(1) [OF pk(3) that] .
  show "p \<notin> set (us @ vs)" using is_list_distinct [OF D(4)] by auto
qed

lemma free_same:
  assumes ok: "heap_ok h (us @ p # vs)" and e: "h_entries h p = Some e" and x: "x \<in> set (us @ vs)"
    and h': "h_entries h' = (h_entries h)(p \<mapsto> g)" "h_tails h' = (h_tails h)(p + ENTRY_SIZE + ucast (e_Size e) \<mapsto> w)"
  shows "entry_same h h' x"
proof -
  have m: "x \<in> set (us @ p # vs)" "p \<in> set (us @ p # vs)" using x by auto
  have ne: "x \<noteq> p" using heap_apart(3) [OF ok] x by auto
  have ap: "unat x + esz h x \<le> unat p \<or> unat p + esz h p \<le> unat x" using heap_apart(1,2) [OF ok] x by auto
  have "x + ENTRY_SIZE + ucast (e_Size ex) \<noteq> p + ENTRY_SIZE + ucast (e_Size e)" if "h_entries h x = Some ex" for ex
  proof -
    have "unat (x + ENTRY_SIZE + ucast (e_Size ex)) + 4 = unat x + esz h x"
      "unat (p + ENTRY_SIZE + ucast (e_Size e)) + 4 = unat p + esz h p"
      using unat_tail_esz [OF ok m(1) that] unat_tail_esz [OF ok m(2) e] .
    moreover have "36 \<le> esz h x" "36 \<le> esz h p" by (simp_all add: esz_def)
    ultimately have "unat (x + ENTRY_SIZE + ucast (e_Size ex)) \<noteq> unat (p + ENTRY_SIZE + ucast (e_Size e))"
      using ap by linarith
    then show ?thesis by metis
  qed
  then show ?thesis using ne unfolding entry_same_def h' by simp
qed

text \<open>The end of the entry before the one that is freed, as the code computes it.\<close>

lemma previous_end:
  assumes ok: "heap_ok h (us @ vs)"
  shows "\<exists>pa. (if last (HeapAllocations h # map ListEntry_of us) = HeapAllocations h then Some (BaseAddress h + HEADER_SIZE)
      else do {
        pe \<leftarrow> h_entries h (heap_record (last (HeapAllocations h # map ListEntry_of us)));
        Some (heap_record (last (HeapAllocations h # map ListEntry_of us)) + ENTRY_SIZE + ucast (e_Size pe) + TAIL_SIZE)
      }) = Some pa \<and> unat pa = end_of h (heap_lo h) us"
proof (cases us rule: rev_cases)
  case Nil
  have "unat (BaseAddress h + HEADER_SIZE) = heap_lo h"
    using unat_entry_offset [of "BaseAddress h" 72] heap_okD(2) [OF ok] by (simp add: heap_hi_def heap_lo_def)
  then show ?thesis by (simp add: Nil)
next
  case (snoc us' x)
  have m: "x \<in> set (us @ vs)" by (simp add: snoc)
  obtain pe where pe: "h_entries h x = Some pe" using heap_entry_bounds(3) [OF ok m] by (auto simp: entry_ok_def)
  have "heap_ok h (us' @ x # vs)" using ok by (simp add: snoc)
  then have "ListEntry_of x \<noteq> HeapAllocations h" by (rule heap_Flink(2))
  moreover have "unat (x + ENTRY_SIZE + ucast (e_Size pe) + TAIL_SIZE) = end_of h (heap_lo h) us"
    using entry_end [OF ok m pe] by (simp add: snoc end_of_append)
  ultimately show ?thesis using pe by (simp add: snoc)
qed

lemma freed_ok:
  fixes g :: heap_entry and w :: u32 and d :: "u64 \<Rightarrow> u8"
  assumes ok: "heap_ok h (us @ p # vs)" and e: "h_entries h p = Some e"
    and r: "EntryToRestartSearch h \<noteq> ListEntry_of p"
    and l: "is_list lm (HeapAllocations h) (map ListEntry_of (us @ vs))"
    and m: "\<And>c. h_links h c \<noteq> None \<Longrightarrow> lm c \<noteq> None"
    and pa: "unat pa = end_of h (heap_lo h) us"
  defines "h' \<equiv> h\<lparr>h_links := lm, h_entries := (h_entries h)(p \<mapsto> g),
             h_tails := (h_tails h)(p + ENTRY_SIZE + ucast (e_Size e) \<mapsto> w), h_data := d,
             HeapSizeRemaining := HeapSizeRemaining h + required (e_Size e),
             HeapNumberOfAllocations := HeapNumberOfAllocations h - 1,
             FreeAddress := (if p + ENTRY_SIZE + ucast (e_Size e) + TAIL_SIZE = FreeAddress h then pa else FreeAddress h)\<rparr>"
  shows "heap_ok h' (us @ vs)" "\<forall>x \<in> set (us @ vs). entry_same h h' x"
proof -
  note D = heap_okD [OF ok]
  have pm: "p \<in> set (us @ p # vs)" by simp
  note ap = heap_apart [OF ok]
  show same: "\<forall>x \<in> set (us @ vs). entry_same h h' x"
    using free_same [OF ok e] by (simp add: h'_def)
  have lo: "heap_lo h' = heap_lo h" "heap_hi h' = heap_hi h" "HeapAllocations h' = HeapAllocations h"
    "h_links h' = lm" "EntryToRestartSearch h' = EntryToRestartSearch h" "BaseAddress h' = BaseAddress h"
    "HeapSizeMaximum h' = HeapSizeMaximum h"
    by (simp_all add: h'_def heap_lo_def heap_hi_def HeapAllocations_def)
  note fr = packed_frame [OF same]
  have pk: "packed h (heap_lo h) us" "end_of h (heap_lo h) us \<le> unat p" "packed h (unat p + esz h p) vs"
    using D(5) by (simp_all add: packed_append)
  have "packed h (end_of h (heap_lo h) us) vs"
  proof (cases vs)
    case (Cons v ws)
    then show ?thesis using pk(2,3) packed_other_lo [OF pk(3), of "end_of h (heap_lo h) us"] by simp
  qed simp
  then have P: "packed h' (heap_lo h) (us @ vs)" unfolding fr using pk(1) by (simp add: packed_append)
  have pe: "unat (p + ENTRY_SIZE + ucast (e_Size e) + TAIL_SIZE) = unat p + esz h p" using entry_end [OF ok pm e] .
  have F: "unat (FreeAddress h') = end_of h' (heap_lo h) (us @ vs)"
  proof (cases "vs = []")
    case True
    then have "unat (FreeAddress h) = unat p + esz h p" using D(6) by (simp add: end_of_append)
    then have "p + ENTRY_SIZE + ucast (e_Size e) + TAIL_SIZE = FreeAddress h" using pe by (metis word_unat_eq_iff)
    then show ?thesis unfolding fr using pa True by (simp add: h'_def end_of_append)
  next
    case False
    have "hd vs \<in> set vs" using False by simp
    then have "unat p + esz h p < unat (FreeAddress h)"
      using ap(2) [of "hd vs"] heap_entry_bounds(2) [OF ok, of "hd vs"] by (auto simp: esz_def)
    then have "p + ENTRY_SIZE + ucast (e_Size e) + TAIL_SIZE \<noteq> FreeAddress h" using pe by auto
    then have "FreeAddress h' = FreeAddress h" by (simp add: h'_def)
    moreover have "end_of h (heap_lo h) (us @ p # vs) = end_of h (heap_lo h) (us @ vs)"
      unfolding end_of_append end_of.simps by (rule end_of_other_lo [OF False])
    ultimately show ?thesis unfolding fr using D(6) by simp
  qed
  have end_le: "end_of h (heap_lo h) us \<le> heap_hi h"
    using pk(2) heap_entry_bounds(5) [OF ok pm] by linarith
  then have F2: "unat (FreeAddress h') \<le> heap_hi h" using D(7) pa by (simp add: h'_def)
  have sz: "unat (required (e_Size e)) = esz h p" unfolding unat_required esz_def e by simp
  have S: "sum_list (map (esz h) (us @ p # vs)) = esz h p + sum_list (map (esz h) (us @ vs))" by simp
  have "unat (HeapSizeRemaining h + required (e_Size e)) = unat (HeapSizeRemaining h) + esz h p"
    using D(9,3) sz S by (subst unat_add_small) simp_all
  then have R: "unat (HeapSizeRemaining h') + sum_list (map (esz h') (us @ vs)) + 72 = unat (HeapSizeMaximum h)"
    unfolding fr using D(9) S by (simp add: h'_def)
  have N: "HeapNumberOfAllocations h' = of_nat (length (us @ vs))" using D(10) by (simp add: h'_def)
  have re: "EntryToRestartSearch h \<in> set (HeapAllocations h # map ListEntry_of (us @ vs))" using D(11) r by auto
  have M: "\<forall>c. unat (BaseAddress h) \<le> unat c \<longrightarrow> unat c < heap_hi h \<longrightarrow> lm c \<noteq> None"
    using D(8) m by blast
  show "heap_ok h' (us @ vs)"
    unfolding heap_ok_def lo by (intro conjI D(1-3) l P F F2 M R N re)
qed

lemma ClHeapFreePoolWithTag_run:
  assumes ok: "heap_ok h (us @ p # vs)" and e: "h_entries h p = Some e"
    and r: "EntryToRestartSearch h \<noteq> ListEntry_of p"
  obtains h' where "ClHeapFreePoolWithTag h (p + 0x20) (e_Tag e) = Some h'" "heap_ok h' (us @ vs)"
    "\<forall>x \<in> set (us @ vs). entry_same h h' x"
    "\<forall>x. h_data h' x = (if x - p < required (e_Size e) then HEAP_FREE_PATTERN else h_data h x)"
proof -
  note D = heap_okD [OF ok]
  have pm: "p \<in> set (us @ p # vs)" by simp
  note b = heap_entry_bounds [OF ok pm]
  have tag: "e_Tag e \<noteq> 0" using b(3) e by (auto simp: entry_ok_def)
  have p0: "p \<noteq> 0" using b(1) by (auto simp: heap_lo_def)
  have a0: "p + 0x20 \<noteq> 0" using unat_entry_offset [OF b(4), of 32] by auto
  have V: "ValidateHeapEntry h p (e_Tag e) = Some True" using ValidateHeapEntry_ok [OF b(3) e p0 b(4)] .
  have l: "is_list (h_links h) (HeapAllocations h) (map ListEntry_of us @ ListEntry_of p # map ListEntry_of vs)"
    using D(4) by simp
  let ?b = "last (HeapAllocations h # map ListEntry_of us)"
  have B: "get_Blink (h_links h) (ListEntry_of p) = Some ?b" using is_list_Blink [OF l] .
  obtain lm where lm: "RemoveEntryList (h_links h) (ListEntry_of p) = Some (lm, map ListEntry_of us @ map ListEntry_of vs = [])"
    "is_list lm (HeapAllocations h) (map ListEntry_of us @ map ListEntry_of vs)"
    using RemoveEntryList_list [OF l] by blast
  obtain pa where pa: "(if ?b = HeapAllocations h then Some (BaseAddress h + HEADER_SIZE)
      else do {
        pe \<leftarrow> h_entries h (heap_record ?b);
        Some (heap_record ?b + ENTRY_SIZE + ucast (e_Size pe) + TAIL_SIZE)
      }) = Some pa" "unat pa = end_of h (heap_lo h) us" using previous_end [OF ok] by blast
  let ?lm = "lm(ListEntry_of p \<mapsto> \<lparr>Flink = 0xAFAFAFAFAFAFAFAF, Blink = 0xAFAFAFAFAFAFAFAF\<rparr>)"
  have fresh: "ListEntry_of p \<notin> set (HeapAllocations h # map ListEntry_of us @ map ListEntry_of vs)"
    using is_list_distinct [OF l] by auto
  have "is_list ?lm (HeapAllocations h) (map ListEntry_of us @ map ListEntry_of vs)"
    by (rule is_list_frame [OF lm(2)]) (use fresh in \<open>metis fun_upd_other\<close>)
  then have l': "is_list ?lm (HeapAllocations h) (map ListEntry_of (us @ vs))" by simp
  have m: "?lm c \<noteq> None" if "h_links h c \<noteq> None" for c
    using that RemoveEntryList_mapped [OF lm(1), of c] by auto
  have size: "required (e_Size e) \<le> 0xFFFFFFFF"
    using b(3) e unat_required [of "e_Size e"] by (auto simp: word_le_nat_alt entry_ok_def)
  let ?h = "h\<lparr>h_links := ?lm, h_entries := (h_entries h)(p \<mapsto>
        \<lparr>e_Magic = 0xAFAFAFAF, e_Tag = 0xAFAFAFAF, e_Size = 0xAFAFAFAF, e_Offset = 0xAFAFAFAF\<rparr>),
      h_tails := (h_tails h)(p + ENTRY_SIZE + ucast (e_Size e) \<mapsto> 0xAFAFAFAF),
      h_data := fill (h_data h) p HEAP_FREE_PATTERN (required (e_Size e)),
      HeapSizeRemaining := HeapSizeRemaining h + required (e_Size e),
      HeapNumberOfAllocations := HeapNumberOfAllocations h - 1,
      FreeAddress := (if p + ENTRY_SIZE + ucast (e_Size e) + TAIL_SIZE = FreeAddress h then pa else FreeAddress h)\<rparr>"
  have "ClHeapFreePoolWithTag h (p + 0x20) (e_Tag e) = Some ?h"
    unfolding ClHeapFreePoolWithTag_def Let_def add_diff_cancel_right' e bind.bind_lunit V B pa(1) lm(1) fst_conv
    using a0 tag size by simp
  then show thesis
  proof (rule that)
    show "heap_ok ?h (us @ vs)" by (rule freed_ok(1) [OF ok e r l' m pa(2)])
    show "\<forall>x \<in> set (us @ vs). entry_same h ?h x" by (rule freed_ok(2) [OF ok e r l' m pa(2)])
    show "\<forall>x. h_data ?h x = (if x - p < required (e_Size e) then HEAP_FREE_PATTERN else h_data h x)"
      by (simp add: fill_def)
  qed
qed

section \<open>Initialisation\<close>

lemma ClHeapInit_ok:
  assumes "Base \<noteq> 0" "HEAP_MINIMUM_SIZE \<le> M" "unat Base + unat M + 2 ^ 34 \<le> 2 ^ 64" "unat M < 2 ^ 62"
    and m: "\<And>q. unat Base \<le> unat q \<Longrightarrow> unat q < unat Base + unat M \<Longrightarrow> h_links h q \<noteq> None"
  obtains h' where "ClHeapInit h Base M = Some (h', STATUS_SUCCESS)" "heap_ok h' []"
    "BaseAddress h' = Base" "HeapSizeMaximum h' = M" "EntryToRestartSearch h' = HeapAllocations h'"
proof -
  have M: "65536 \<le> unat M" using assms(2) by (simp add: word_le_nat_alt)
  have c: "unat (Base + 0x38) = unat Base + 56" "unat (Base + 0x48) = unat Base + 72"
    using unat_entry_offset [of Base 56] unat_entry_offset [of Base 72] assms(3) M by simp_all
  have ne: "Base + 0x38 \<noteq> 0" using c(1) by auto
  have mp: "h_links h (Base + 0x38) \<noteq> None" using M c(1) by (intro m) simp_all
  obtain lm where lm: "InitializeListHead (h_links h) (Base + 0x38) = Some lm" "is_list lm (Base + 0x38) []"
    "\<And>q. q \<noteq> Base + 0x38 \<Longrightarrow> lm q = h_links h q"
    using InitializeListHead_list [where m = "h_links h", OF ne mp] by blast
  have "get_Flink lm (Base + 0x38) \<noteq> None" using lm(2) by (simp add: is_list_empty)
  then have m': "lm q \<noteq> None" if "unat Base \<le> unat q" "unat q < unat Base + unat M" for q
    using lm(3) [of q] m [OF that] by (cases "q = Base + 0x38") (auto simp: get_Flink_def)
  let ?h = "h\<lparr>h_Magic := HEAP_MAGIC, BaseAddress := Base, HeapSizeMaximum := M,
          HeapSizeRemaining := M - HEADER_SIZE, HeapNumberOfAllocations := 0,
          EntryToRestartSearch := Base + 0x38, FreeAddress := Base + HEADER_SIZE, h_links := lm\<rparr>"
  have "ClHeapInit h Base M = Some (?h, STATUS_SUCCESS)"
    using assms(1,2) lm(1) by (simp add: ClHeapInit_def HeapAllocations_def not_less [symmetric])
  moreover have "unat (M - 0x48) = unat M - 72"
    using M by (subst unat_sub_small) (simp_all add: word_le_nat_alt)
  then have "heap_ok ?h []"
    unfolding heap_ok_def using assms(1,3,4) lm(2) m' c(2) M
    by (simp add: heap_lo_def heap_hi_def HeapAllocations_def)
  ultimately show thesis by (intro that [of ?h]) (simp_all add: HeapAllocations_def)
qed

section \<open>When the search fails\<close>

text \<open>The loop over the gaps, from these values of its variables, comes after finitely many rounds, in which it only passes the
  list head, to the assertion that \<open>pPreviousHeapEntry\<close> is not NULL, and it is.\<close>

inductive gap_asserts :: "heap \<Rightarrow> u64 \<Rightarrow> u64 \<Rightarrow> u64 \<Rightarrow> u64 \<Rightarrow> bool" for h where
  here: "EntryToRestartSearch h \<noteq> pCur \<Longrightarrow> pCur \<noteq> HeapAllocations h \<Longrightarrow> pPrevious \<noteq> HeapAllocations h \<Longrightarrow>
    gap_asserts h pPrevious 0 pCur pCurHeap"
| next_loop: "EntryToRestartSearch h \<noteq> pCur \<Longrightarrow> pCur = HeapAllocations h \<or> pPrevious = HeapAllocations h \<Longrightarrow>
    get_Flink (h_links h) pCur = Some f \<Longrightarrow> gap_asserts h pCur pCurHeap f pCurHeap \<Longrightarrow>
    gap_asserts h pPrevious pPreviousHeap pCur pCurHeap"

lemma gap_asserts_None: "gap_asserts h pp ph pc ch \<Longrightarrow> gap_search h sz Tag al n pp ph pc ch = None"
proof (induction rule: gap_asserts.induct)
  case (here pCur pPrevious pCurHeap)
  then show ?case by (subst gap_search.simps) simp
next
  case (next_loop pCur pPrevious f pCurHeap pPreviousHeap)
  then show ?case using gap_skip [of pCur h pPrevious f] by simp
qed

text \<open>The search as \<open>ClHeapAllocatePoolWithTag\<close> starts it does.\<close>

definition search_asserts :: "heap \<Rightarrow> bool" where
  "search_asserts h \<longleftrightarrow> (\<exists>prev cur. get_Flink (h_links h) (EntryToRestartSearch h) = Some prev \<and>
     get_Flink (h_links h) prev = Some cur \<and> gap_asserts h prev (heap_record prev) cur 0)"

lemma unsafe_asserts:
  assumes ok: "heap_ok h es" and u: "\<not> restart_safe h es"
  shows "search_asserts h"
proof -
  let ?H = "HeapAllocations h" and ?r = "EntryToRestartSearch h"
  have dist: "distinct es" using is_list_distinct [OF heap_okD(4) [OF ok]] by (simp add: distinct_map)
  obtain r where r: "?r = ListEntry_of r" "r \<in> set es" using u in_set_dropD by (fastforce simp: restart_safe_def)
  obtain xs ys where es: "es = xs @ r # ys" using r(2) by (auto simp: in_set_conv_decomp)
  have len: "2 \<le> length xs" "length ys < 2" using u restart_safe_at [OF dist [unfolded es] r(1)] unfolding es by simp_all
  obtain x v xs' where xs: "xs = x # v # xs'" using len(1) by (metis One_nat_def Suc_1 Suc_le_length_iff)
  have e: "heap_ok h ([] @ x # (v # xs' @ r # ys))" "heap_ok h ([x] @ v # (xs' @ r # ys))" "heap_ok h (xs @ r # ys)"
    using ok unfolding es xs by simp_all
  have n: "?r \<noteq> ListEntry_of x" "?r \<noteq> ListEntry_of v" "?r \<noteq> ?H"
    using dist heap_Flink(2) [OF e(3)] r(1) unfolding es xs by auto
  have head: "gap_asserts h ?H ph (ListEntry_of x) 0" for ph
  proof (rule gap_asserts.next_loop [OF n(1)])
    show "get_Flink (h_links h) (ListEntry_of x) = Some (ListEntry_of v)" using heap_Flink(1) [OF e(1)] by simp
    show "gap_asserts h (ListEntry_of x) 0 (ListEntry_of v) 0"
      by (rule gap_asserts.here) (use n heap_Flink(2) [OF e(1)] heap_Flink(2) [OF e(2)] in simp_all)
  qed simp
  have H: "get_Flink (h_links h) ?H = Some (ListEntry_of x)" using heap_Flink_head [OF e(1)] by simp
  show ?thesis
  proof (cases ys)
    case Nil
    then have "get_Flink (h_links h) ?r = Some ?H" using heap_Flink(1) [OF e(3)] r(1) by simp
    then show ?thesis using H head unfolding search_asserts_def by blast
  next
    case (Cons y ys')
    then have e4: "ys = [y]" "heap_ok h ((xs @ [r]) @ y # [])" using len(2) ok unfolding es by simp_all
    have "get_Flink (h_links h) ?r = Some (ListEntry_of y)" "get_Flink (h_links h) (ListEntry_of y) = Some ?H"
      using heap_Flink(1) [OF e(3)] heap_Flink(1) [OF e4(2)] r(1) e4(1) by simp_all
    moreover have "gap_asserts h (ListEntry_of y) y ?H 0" by (rule gap_asserts.next_loop [OF n(3) _ H head]) simp
    ultimately show ?thesis unfolding search_asserts_def by auto
  qed
qed

text \<open>The end of the heap is too small for the request, but the heap as a whole is not: the
  search for a gap runs.\<close>

definition search_needed :: "heap \<Rightarrow> u32 \<Rightarrow> bool" where
  "search_needed h sz \<longleftrightarrow>
     (let R = BaseAddress h + HeapSizeMaximum h - FreeAddress h - ENTRY_SIZE in
      sz \<noteq> 0 \<and> required sz \<le> HeapSizeRemaining h \<and> sint R < sint (required sz) \<and>
      sint (required sz) \<le> sint (HeapSizeRemaining h - R - ENTRY_SIZE))"

lemma search_runs:
  assumes "search_needed h sz" "Tag \<noteq> 0"
    and f: "\<And>prev cur al. get_Flink (h_links h) (EntryToRestartSearch h) = Some prev \<Longrightarrow>
      get_Flink (h_links h) prev = Some cur \<Longrightarrow> al \<noteq> 0 \<Longrightarrow>
      IsListEmpty (h_links h) (HeapAllocations h) = Some False \<Longrightarrow>
      gap_search h sz Tag al (required sz) prev (heap_record prev) cur 0 = None"
  shows "ClHeapAllocatePoolWithTag h Flags sz Tag al = None"
proof -
  let ?R = "BaseAddress h + HeapSizeMaximum h - FreeAddress h - ENTRY_SIZE"
  have s: "sz \<noteq> 0" "\<not> HeapSizeRemaining h < required sz" "\<not> sint (required sz) \<le> sint ?R"
    "\<not> sint (HeapSizeRemaining h - ?R - ENTRY_SIZE) < sint (required sz)"
    using assms(1) unfolding search_needed_def Let_def not_less not_le by blast+
  let ?al = "if al = 0 then HEAP_DEFAULT_ALIGNMENT else al"
  have al: "?al \<noteq> 0" by simp
  have "heap_place h sz Tag al = do {
              empty \<leftarrow> IsListEmpty (h_links h) (HeapAllocations h);
              ASSERT (\<not> empty);
              prev \<leftarrow> get_Flink (h_links h) (EntryToRestartSearch h);
              cur \<leftarrow> get_Flink (h_links h) prev;
              s \<leftarrow> gap_search h sz Tag ?al (required sz) prev (heap_record prev) cur 0;
              Some (fst s, snd s, if snd s = None then STATUS_HEAP_NO_MORE_MEMORY else STATUS_SUCCESS)
            }"
    unfolding heap_place_def Let_def if_not_P [OF s(1)] if_not_P [OF s(2)] if_not_P [OF s(3)]
      if_not_P [OF s(4)] if_not_P [OF assms(2)]
    by (simp only: bind.bind_lunit snd_conv if_not_P [OF s(4)] simp_thms if_False)
  also have "\<dots> = None"
  proof (cases "IsListEmpty (h_links h) (HeapAllocations h) = Some False")
    case True
    then show ?thesis using f [OF _ _ al]
      by (auto simp only: bind_eq_None_conv bind.bind_lunit option.inject option.sel simp_thms)
  next
    case False
    then have "IsListEmpty (h_links h) (HeapAllocations h) \<in> {None, Some True}"
      by (cases "IsListEmpty (h_links h) (HeapAllocations h)") auto
    then show ?thesis by auto
  qed
  finally show ?thesis by (simp add: ClHeapAllocatePoolWithTag_def)
qed

section \<open>Properties\<close>

text \<open>C32: an allocation in a well-formed heap of entries \<open>es\<close>, for whatever flags, tag and alignment,
  provided that \<open>restart_safe\<close> holds (the search for a gap does not restart at one of the last two entries, unless that is one
  of the first two) and that the size with header and tail fits in a DWORD, returns or (only with
  \<open>PoolAllocatePanicIfFail\<close>) stops the system. It either answers NULL and changes nothing, or answers a block that lies inside the heap, apart from every live entry
  with its header and its tail, aligned as asked when the alignment is a power of two, zeroed when
  asked; the other entries and all other data bytes stay as they are, and the heap is
  well-formed with the new entry at its place in address order.\<close>

theorem heap_allocate_sound:
  assumes "heap_ok h es" "unat sz + 36 < 2 ^ 32" "restart_safe h es"
  shows "(\<exists>h' a. ClHeapAllocatePoolWithTag h Flags sz Tag al = Some (h', a) \<and> allocated h es Flags sz al h' a) \<or>
    ClHeapAllocatePoolWithTag h Flags sz Tag al
      = (if IsFlagOn Flags PoolAllocatePanicIfFail then None else Some (h, 0))"
  using assms by (rule ClHeapAllocatePoolWithTag_run)

text \<open>A heap at \<open>0x10000\<close> of 64KB whose last three quarters are entries.\<close>

definition ring_cells :: "u64 list \<Rightarrow> list_mem" where
  "ring_cells cs = (\<lambda>c. if 0x10000 \<le> c \<and> c < 0x20000 then Some
     \<lparr>Flink = (case map_of (zip cs (rotate1 cs)) c of Some n \<Rightarrow> n | None \<Rightarrow> 0),
      Blink = (case map_of (zip (rotate1 cs) cs) c of Some n \<Rightarrow> n | None \<Rightarrow> 0)\<rparr> else None)"

definition sample_heap :: "u64 \<Rightarrow> heap" where
  "sample_heap restart = \<lparr>h_Magic = HEAP_MAGIC, HeapSizeMaximum = 0x10000, HeapSizeRemaining = 0x3FB8,
     BaseAddress = 0x10000, FreeAddress = 0x20000, HeapNumberOfAllocations = 3,
     EntryToRestartSearch = restart,
     h_entries = (\<lambda>p. if p \<in> {0x14000, 0x18000, 0x1C000}
       then Some \<lparr>e_Magic = HEAP_MAGIC, e_Tag = 7, e_Size = 0x3FDC, e_Offset = 0x20\<rparr> else None),
     h_tails = (\<lambda>p. if p \<in> {0x17FFC, 0x1BFFC, 0x1FFFC} then Some HEAP_MAGIC else None),
     h_links = ring_cells [0x10038, 0x14010, 0x18010, 0x1C010],
     h_data = (\<lambda>_. 0)\<rparr>"

lemma sample_heap_ok:
  assumes "restart \<in> {0x10038, 0x14010, 0x18010, 0x1C010}"
  shows "heap_ok (sample_heap restart) [0x14000, 0x18000, 0x1C000]"
proof -
  have l: "is_list (ring_cells [0x10038, 0x14010, 0x18010, 0x1C010]) 0x10038 [0x14010, 0x18010, 0x1C010]"
    by (simp add: is_list_def ring_def ring_cells_def get_Flink_def get_Blink_def)
  have "h_links (sample_heap restart) q \<noteq> None" if "0x10000 \<le> unat q" "unat q < 0x20000" for q
    using that by (simp add: sample_heap_def ring_cells_def word_le_nat_alt word_less_nat_alt)
  then show ?thesis using l assms
    unfolding heap_ok_def
    by (simp add: sample_heap_def heap_lo_def heap_hi_def HeapAllocations_def ListEntry_of_def esz_def
        entry_ok_def)
qed

lemma heap_allocate_sound_witness:
  "(\<exists>h' a. ClHeapAllocatePoolWithTag (sample_heap 0x10038) 0 0x100 9 0x40 = Some (h', a) \<and>
      allocated (sample_heap 0x10038) [0x14000, 0x18000, 0x1C000] 0 0x100 0x40 h' a) \<or>
    ClHeapAllocatePoolWithTag (sample_heap 0x10038) 0 0x100 9 0x40
      = (if IsFlagOn (0 :: u32) PoolAllocatePanicIfFail then None else Some (sample_heap 0x10038, 0))"
proof (rule heap_allocate_sound [OF sample_heap_ok])
  show "restart_safe (sample_heap 0x10038) [0x14000, 0x18000, 0x1C000]"
    by (simp add: restart_safe_def sample_heap_def ListEntry_of_def)
qed simp_all

text \<open>C33: releasing a live entry with its tag, when the last filled gap is not that entry, never
  fails a check; the heap is then well-formed with exactly the other entries, which are as they
  were, its bytes hold the free pattern and no other data byte changes.\<close>

theorem heap_free_exact:
  assumes "heap_ok h (us @ p # vs)" "h_entries h p = Some e" "EntryToRestartSearch h \<noteq> ListEntry_of p"
  shows "\<exists>h'. ClHeapFreePoolWithTag h (p + 0x20) (e_Tag e) = Some h' \<and> heap_ok h' (us @ vs) \<and>
    (\<forall>x \<in> set (us @ vs). h_entries h' x = h_entries h x) \<and>
    (\<forall>x. h_data h' x = (if x - p < required (e_Size e) then HEAP_FREE_PATTERN else h_data h x))"
proof -
  obtain h' where "ClHeapFreePoolWithTag h (p + 0x20) (e_Tag e) = Some h'" "heap_ok h' (us @ vs)"
    "\<forall>x \<in> set (us @ vs). entry_same h h' x"
    "\<forall>x. h_data h' x = (if x - p < required (e_Size e) then HEAP_FREE_PATTERN else h_data h x)"
    by (rule ClHeapFreePoolWithTag_run [OF assms])
  then show ?thesis unfolding entry_same_def by blast
qed

lemma heap_free_exact_witness:
  "\<exists>h'. ClHeapFreePoolWithTag (sample_heap 0x10038) (0x18000 + 0x20) 7 = Some h' \<and>
    heap_ok h' ([0x14000] @ [0x1C000]) \<and>
    (\<forall>x \<in> set ([0x14000] @ [0x1C000]). h_entries h' x = h_entries (sample_heap 0x10038) x) \<and>
    (\<forall>x. h_data h' x = (if x - 0x18000 < required 0x3FDC then HEAP_FREE_PATTERN else h_data (sample_heap 0x10038) x))"
proof -
  have e: "h_entries (sample_heap 0x10038) 0x18000
      = Some \<lparr>e_Magic = HEAP_MAGIC, e_Tag = 7, e_Size = 0x3FDC, e_Offset = 0x20\<rparr>"
    and r: "EntryToRestartSearch (sample_heap 0x10038) \<noteq> ListEntry_of 0x18000"
    by (simp_all add: sample_heap_def ListEntry_of_def)
  have "heap_ok (sample_heap 0x10038) ([0x14000] @ 0x18000 # [0x1C000])"
    using sample_heap_ok [of "0x10038"] by simp
  from heap_free_exact [OF this e r] show ?thesis by simp
qed

text \<open>C34: in a well-formed heap in which the last filled gap is one of the last two entries and not one of the
  first two, every allocation that has to search for a gap stops the system, whatever its flags: the loop passes the list
  head without ever having looked at an entry, and after at most three rounds the assertion that the previous entry
  is known fails, whatever gaps the heap has.\<close>

theorem heap_search_stops_system:
  assumes "heap_ok h es" "\<not> restart_safe h es" "search_needed h sz" "Tag \<noteq> 0"
  shows "search_asserts h \<and> ClHeapAllocatePoolWithTag h Flags sz Tag al = None"
proof
  show a: "search_asserts h" by (rule unsafe_asserts [OF assms(1,2)])
  show "ClHeapAllocatePoolWithTag h Flags sz Tag al = None"
    by (rule search_runs [OF assms(3,4)]) (use a gap_asserts_None in \<open>auto simp: search_asserts_def\<close>)
qed

text \<open>The calls of a client, from the initialisation on.\<close>

inductive heap_reach :: "heap \<Rightarrow> bool" where
  init: "ClHeapInit h Base MemoryAvailable = Some (h', STATUS_SUCCESS) \<Longrightarrow> heap_reach h'"
| alloc: "heap_reach h \<Longrightarrow> ClHeapAllocatePoolWithTag h Flags sz Tag al = Some (h', a) \<Longrightarrow> heap_reach h'"
| free: "heap_reach h \<Longrightarrow> ClHeapFreePoolWithTag h a Tag = Some h' \<Longrightarrow> heap_reach h'"

datatype heap_call = CallAlloc u32 | CallFree u64

fun heap_step :: "heap_call \<Rightarrow> heap \<Rightarrow> heap option" where
  "heap_step (CallAlloc sz) h = map_option fst (ClHeapAllocatePoolWithTag h 0 sz 7 0)"
| "heap_step (CallFree a) h = ClHeapFreePoolWithTag h a 7"

fun heap_calls :: "heap_call list \<Rightarrow> heap \<Rightarrow> heap option" where
  "heap_calls [] h = Some h"
| "heap_calls (k # ks) h = (case heap_step k h of None \<Rightarrow> None | Some h' \<Rightarrow> heap_calls ks h')"

lemma heap_calls_reach: "heap_calls ks h = Some h' \<Longrightarrow> heap_reach h \<Longrightarrow> heap_reach h'"
proof (induction ks h rule: heap_calls.induct)
  case (2 k ks h)
  then show ?case by (cases k) (auto split: option.splits dest: heap_reach.alloc heap_reach.free)
qed simp

text \<open>Five allocations fill a heap of 64KB; the third block is released and allocated again, so that the search restarts at
  it, the last but one, and then the second is released, which leaves a gap of 16KB.\<close>

definition blank_heap :: heap where
  "blank_heap = \<lparr>h_Magic = 0, HeapSizeMaximum = 0, HeapSizeRemaining = 0, BaseAddress = 0, FreeAddress = 0,
     HeapNumberOfAllocations = 0, EntryToRestartSearch = 0, h_entries = Map.empty, h_tails = Map.empty,
     h_links = (\<lambda>c. if 0x10000 \<le> c \<and> c < 0x20000 then Some \<lparr>Flink = 0, Blink = 0\<rparr> else None), h_data = (\<lambda>_. 0)\<rparr>"

definition gap_calls :: "heap_call list" where
  "gap_calls = [CallAlloc 0xFDC, CallAlloc 0x3FDC, CallAlloc 0x3FDC, CallAlloc 0x3FDC, CallAlloc 0x2F6C,
     CallFree 0x19070, CallAlloc 0x3FDC, CallFree 0x11070]"

text \<open>For the evaluation: the continuation of a step is simplified when the step has been.\<close>

lemma bind_weak: "x = y \<Longrightarrow> Option.bind x f = Option.bind y f"
  by simp

lemmas heap_eval = ClHeapInit_def ClHeapAllocatePoolWithTag_def heap_place_def InitHeapEntry_def Let_def ClHeapFreePoolWithTag_def
  ValidateHeapEntry_def get_Blink_def get_Flink_def set_Flink_def set_Blink_def ListEntry_of_def heap_record_def HeapAllocations_def
  RemoveEntryList_def InsertTailList_def InsertHeadList_def InitializeListHead_def IsListEmpty_def gap_search.simps
  AlignAddressUpper_def AlignAddressLower_def IsFlagOn_def SUCCEEDED_def

lemmas heap_ok_eval = heap_ok_def heap_lo_def heap_hi_def esz_def entry_ok_def is_list_def ring_def word_le_nat_alt word_less_nat_alt
  restart_safe_def search_needed_def

lemma gap_calls_end: "case ClHeapInit blank_heap 0x10000 0x10000 of None \<Rightarrow> False | Some (h, st) \<Rightarrow> st = STATUS_SUCCESS \<and>
   (case heap_calls gap_calls h of None \<Rightarrow> False | Some h \<Rightarrow>
     heap_ok h [0x10050, 0x15050, 0x19050, 0x1D050] \<and> \<not> restart_safe h [0x10050, 0x15050, 0x19050, 0x1D050] \<and> search_needed h 0x100)"
  by (simp add: gap_calls_def blank_heap_def heap_eval heap_ok_eval cong: bind_weak)

lemma heap_search_stops_system_witness:
  "\<exists>h. heap_reach h \<and> heap_ok h [0x10050, 0x15050, 0x19050, 0x1D050] \<and> search_asserts h \<and>
    ClHeapAllocatePoolWithTag h 0 0x100 9 0 = None"
proof -
  obtain h0 h where h: "ClHeapInit blank_heap 0x10000 0x10000 = Some (h0, STATUS_SUCCESS)" "heap_calls gap_calls h0 = Some h"
    "heap_ok h [0x10050, 0x15050, 0x19050, 0x1D050]" "\<not> restart_safe h [0x10050, 0x15050, 0x19050, 0x1D050]" "search_needed h 0x100"
    using gap_calls_end by (auto split: option.splits)
  have "heap_reach h" by (rule heap_calls_reach [OF h(2) heap_reach.init [OF h(1)]])
  moreover have "search_asserts h \<and> ClHeapAllocatePoolWithTag h 0 0x100 9 0 = None"
    by (rule heap_search_stops_system [OF h(3-5)]) simp
  ultimately show ?thesis using h(3) by blast
qed

lemma free_links:
  "ClHeapFreePoolWithTag h a Tag = Some h' \<Longrightarrow> \<exists>lm b. RemoveEntryList (h_links h) (ListEntry_of (a - ENTRY_SIZE)) = Some (lm, b) \<and>
    EntryToRestartSearch h' = EntryToRestartSearch h \<and>
    h_links h' = lm(ListEntry_of (a - ENTRY_SIZE) \<mapsto> \<lparr>Flink = 0xAFAFAFAFAFAFAFAF, Blink = 0xAFAFAFAFAFAFAFAF\<rparr>)"
  by (auto simp: ClHeapFreePoolWithTag_def Let_def bind_Some split: if_splits)

text \<open>C35: the heap does not forget an entry that is released: when it is the one where the last
  gap was filled, the search still starts there, in memory that holds the free pattern, so the
  next allocation that has to search faults unless that pattern happens to be a mapped address.\<close>

theorem heap_restart_dangles:
  assumes "ClHeapFreePoolWithTag h a Tag = Some h'" "EntryToRestartSearch h = ListEntry_of (a - ENTRY_SIZE)"
    and "search_needed h' sz" "Tag' \<noteq> 0" "h_links h 0xAFAFAFAFAFAFAFAF = None"
    and "EntryToRestartSearch h \<noteq> 0xAFAFAFAFAFAFAFAF"
  shows "ClHeapAllocatePoolWithTag h' Flags sz Tag' al = None"
proof (rule search_runs [OF assms(3,4)])
  fix prev cur :: u64 and al :: u32
  assume f: "get_Flink (h_links h') (EntryToRestartSearch h') = Some prev" "get_Flink (h_links h') prev = Some cur"
  let ?c = "EntryToRestartSearch h"
  obtain lm b where h': "RemoveEntryList (h_links h) ?c = Some (lm, b)" "EntryToRestartSearch h' = ?c"
    "h_links h' = lm(?c \<mapsto> \<lparr>Flink = 0xAFAFAFAFAFAFAFAF, Blink = 0xAFAFAFAFAFAFAFAF\<rparr>)"
    using free_links [OF assms(1)] unfolding assms(2) by blast
  have "prev = 0xAFAFAFAFAFAFAFAF" using f(1) h' by (simp add: get_Flink_def)
  moreover have "lm 0xAFAFAFAFAFAFAFAF = None" using RemoveEntryList_mapped [OF h'(1)] assms(5) by simp
  ultimately show "gap_search h' sz Tag' al (required sz) prev (heap_record prev) cur 0 = None"
    using f(2) h'(3) assms(6) by (simp add: get_Flink_def)
qed

lemma heap_restart_dangles_witness:
  "\<exists>h'. ClHeapFreePoolWithTag (sample_heap 0x18010) 0x18020 7 = Some h' \<and>
    ClHeapAllocatePoolWithTag h' 0 0x1000 9 0 = None"
proof -
  have run: "\<exists>h'. ClHeapFreePoolWithTag (sample_heap 0x18010) 0x18020 7 = Some h' \<and> search_needed h' 0x1000"
    by (simp add: ClHeapFreePoolWithTag_def ValidateHeapEntry_def sample_heap_def get_Blink_def get_Flink_def
        set_Flink_def set_Blink_def ring_cells_def ListEntry_of_def heap_record_def HeapAllocations_def
        RemoveEntryList_def search_needed_def)
  then obtain h' where h': "ClHeapFreePoolWithTag (sample_heap 0x18010) 0x18020 7 = Some h'"
    "search_needed h' 0x1000" by blast
  have "ClHeapAllocatePoolWithTag h' 0 0x1000 9 0 = None"
    by (rule heap_restart_dangles [OF h'(1) _ h'(2)])
      (simp_all add: sample_heap_def ListEntry_of_def ring_cells_def)
  with h'(1) show ?thesis by blast
qed

end
