(* ===== verification/CL_String.thy ===== *)
theory CL_String
  imports CL_Memory
begin

text \<open>
  \<open>CommonLib/src/cl_string.c\<close>: comparison, search, copy, tokenising and trimming of
  zero-terminated strings. Functions that only read take their operands as buffers (lists of
  bytes, NULL is \<open>None\<close>) and return positions in them; functions that write work on one memory
  and pointers into it. A string whose zero byte is missing runs off the end of its buffer,
  which is the fault \<open>None\<close>. Indices are natural numbers: the DWORD index of the code wraps only
  on strings of 4GB, which no buffer of the kernel reaches.

  \<open>cstr b\<close> is the string that a buffer holds. Each function is shown to compute the textbook
  function of the strings. \<open>char\<close> is signed, so the comparisons are on signed bytes.
\<close>

section \<open>Operations\<close>

definition tolower :: "u8 \<Rightarrow> u8" where
  "tolower c = c OR 0x20"

definition isspace :: "u8 \<Rightarrow> bool" where
  "isspace c \<longleftrightarrow> c = 0x20 \<or> c = 9 \<or> c = 10 \<or> c = 13"

text \<open>What the comparisons return behind their loops.\<close>

definition strcmp_end :: "u8 \<Rightarrow> u8 \<Rightarrow> int" where
  "strcmp_end a b = (if a \<noteq> 0 then 1 else if b \<noteq> 0 then -1 else 0)"

text \<open>The loop of \<open>cl_strcmp\<close>; \<open>cl_stricmp\<close> is the same loop on \<open>tolower\<close> of the characters.\<close>

function strcmp_loop :: "(u8 \<Rightarrow> u8) \<Rightarrow> u8 list \<Rightarrow> u8 list \<Rightarrow> nat \<Rightarrow> int option" where
  "strcmp_loop f str1 str2 i = do {
     a \<leftarrow> array_get str1 i;
     b \<leftarrow> array_get str2 i;
     if a \<noteq> 0 \<and> b \<noteq> 0 then
       if sint (f b) < sint (f a) then Some 1
       else if sint (f a) < sint (f b) then Some (-1)
       else strcmp_loop f str1 str2 (Suc i)
     else Some (strcmp_end a b)
   }"
  by pat_completeness auto
termination
  by (relation "measure (\<lambda>(f, str1, str2, i). length str1 - i)") (auto simp: array_get_def split: if_splits)

definition cl_strcmp :: "u8 list option \<Rightarrow> u8 list option \<Rightarrow> int option" where
  "cl_strcmp str1 str2 =
     (case str1 of
        None \<Rightarrow> Some (sint STATUS_INVALID_PARAMETER1)
      | Some s1 \<Rightarrow> (case str2 of
          None \<Rightarrow> Some (sint STATUS_INVALID_PARAMETER2)
        | Some s2 \<Rightarrow> strcmp_loop id s1 s2 0))"

definition cl_stricmp :: "u8 list option \<Rightarrow> u8 list option \<Rightarrow> int option" where
  "cl_stricmp str1 str2 =
     (case str1 of
        None \<Rightarrow> Some (sint STATUS_INVALID_PARAMETER1)
      | Some s1 \<Rightarrow> (case str2 of
          None \<Rightarrow> Some (sint STATUS_INVALID_PARAMETER2)
        | Some s2 \<Rightarrow> strcmp_loop tolower s1 s2 0))"

text \<open>The loop of \<open>cl_strncmp\<close>: \<open>n\<close> characters are left. When the loop ends before the length is
  reached the result is 1 or -1, even if both strings ended.\<close>

primrec strncmp_loop :: "(u8 \<Rightarrow> u8) \<Rightarrow> u8 list \<Rightarrow> u8 list \<Rightarrow> nat \<Rightarrow> nat \<Rightarrow> int option" where
  "strncmp_loop f str1 str2 i 0 = Some 0"
| "strncmp_loop f str1 str2 i (Suc n) = do {
     a \<leftarrow> array_get str1 i;
     b \<leftarrow> (if a \<noteq> 0 then array_get str2 i else Some 0);
     if a \<noteq> 0 \<and> b \<noteq> 0 then
       if sint (f b) < sint (f a) then Some 1
       else if sint (f a) < sint (f b) then Some (-1)
       else strncmp_loop f str1 str2 (Suc i) n
     else Some (if a \<noteq> 0 then 1 else -1)
   }"

definition cl_strncmp :: "u8 list option \<Rightarrow> u8 list option \<Rightarrow> u32 \<Rightarrow> int option" where
  "cl_strncmp str1 str2 len =
     (case str1 of
        None \<Rightarrow> Some (sint STATUS_INVALID_PARAMETER1)
      | Some s1 \<Rightarrow> (case str2 of
          None \<Rightarrow> Some (sint STATUS_INVALID_PARAMETER2)
        | Some s2 \<Rightarrow> if len = 0 then Some (sint STATUS_INVALID_PARAMETER3)
            else strncmp_loop id s1 s2 0 (unat len)))"

definition cl_strnicmp :: "u8 list option \<Rightarrow> u8 list option \<Rightarrow> u32 \<Rightarrow> int option" where
  "cl_strnicmp str1 str2 len =
     (case str1 of
        None \<Rightarrow> Some (sint STATUS_INVALID_PARAMETER1)
      | Some s1 \<Rightarrow> (case str2 of
          None \<Rightarrow> Some (sint STATUS_INVALID_PARAMETER2)
        | Some s2 \<Rightarrow> if len = 0 then Some (sint STATUS_INVALID_PARAMETER3)
            else strncmp_loop tolower s1 s2 0 (unat len)))"

text \<open>Search from a position: the loops run from \<open>str + i\<close>, and a miss answers the start.\<close>

function strchr_loop :: "u8 list \<Rightarrow> u8 \<Rightarrow> nat \<Rightarrow> nat \<Rightarrow> nat option" where
  "strchr_loop str c start i = do {
     a \<leftarrow> array_get str i;
     if a = 0 then Some start
     else if a = c then Some i
     else strchr_loop str c start (Suc i)
   }"
  by pat_completeness auto
termination
  by (relation "measure (\<lambda>(str, c, start, i). length str - i)") (auto simp: array_get_def split: if_splits)

definition cl_strchr :: "u8 list \<Rightarrow> nat option \<Rightarrow> u8 \<Rightarrow> nat option option" where
  "cl_strchr mem str c =
     (case str of None \<Rightarrow> Some None | Some s \<Rightarrow> map_option Some (strchr_loop mem c s s))"

function strrchr_loop :: "u8 list \<Rightarrow> u8 \<Rightarrow> nat \<Rightarrow> nat \<Rightarrow> nat option" where
  "strrchr_loop str c charIndex i = do {
     a \<leftarrow> array_get str i;
     if a = 0 then Some charIndex
     else strrchr_loop str c (if a = c then i else charIndex) (Suc i)
   }"
  by pat_completeness auto
termination
  by (relation "measure (\<lambda>(str, c, charIndex, i). length str - i)") (auto simp: array_get_def split: if_splits)

definition cl_strrchr :: "u8 list \<Rightarrow> nat option \<Rightarrow> u8 \<Rightarrow> nat option option" where
  "cl_strrchr mem str c =
     (case str of None \<Rightarrow> Some None | Some s \<Rightarrow> map_option Some (strrchr_loop mem c s s))"

function strlen_loop :: "u8 list \<Rightarrow> nat \<Rightarrow> nat \<Rightarrow> nat option" where
  "strlen_loop mem s i = do {
     a \<leftarrow> array_get mem (s + i);
     if a = 0 then Some i else strlen_loop mem s (Suc i)
   }"
  by pat_completeness auto
termination
  by (relation "measure (\<lambda>(mem, s, i). length mem - (s + i))") (auto simp: array_get_def split: if_splits)

text \<open>\<open>INVALID_STRING_SIZE\<close> is \<open>MAX_DWORD\<close>.\<close>

definition cl_strlen :: "u8 list \<Rightarrow> nat option \<Rightarrow> u32 option" where
  "cl_strlen mem str =
     (case str of None \<Rightarrow> Some MAX_DWORD | Some s \<Rightarrow> map_option of_nat (strlen_loop mem s 0))"

primrec strlen_s_loop :: "u8 list \<Rightarrow> nat \<Rightarrow> nat \<Rightarrow> nat \<Rightarrow> nat option" where
  "strlen_s_loop mem s i 0 = Some i"
| "strlen_s_loop mem s i (Suc n) = do {
     a \<leftarrow> array_get mem (s + i);
     if a = 0 then Some i else strlen_s_loop mem s (Suc i) n
   }"

definition cl_strlen_s :: "u8 list \<Rightarrow> nat option \<Rightarrow> u32 \<Rightarrow> u32 option" where
  "cl_strlen_s mem str maxLen =
     (case str of None \<Rightarrow> Some MAX_DWORD
      | Some s \<Rightarrow> map_option of_nat (strlen_s_loop mem s 0 (unat maxLen)))"

text \<open>The copies read the source and write the destination in the same memory.\<close>

function strcpy_loop :: "u8 list \<Rightarrow> nat \<Rightarrow> nat \<Rightarrow> nat \<Rightarrow> u8 list option" where
  "strcpy_loop mem dst src i = do {
     a \<leftarrow> array_get mem (src + i);
     if a = 0 then array_set mem (dst + i) 0
     else do {
       mem' \<leftarrow> array_set mem (dst + i) a;
       strcpy_loop mem' dst src (Suc i)
     }
   }"
  by pat_completeness auto
termination
  by (relation "measure (\<lambda>(mem, dst, src, i). length mem - (src + i))")
    (auto simp: array_get_def array_set_def split: if_splits)

definition cl_strcpy :: "u8 list \<Rightarrow> nat option \<Rightarrow> nat option \<Rightarrow> u8 list option" where
  "cl_strcpy mem dst src = do {
     ASSERT (dst \<noteq> None);
     ASSERT (src \<noteq> None);
     strcpy_loop mem (the dst) (the src) 0
   }"

primrec strncpy_loop :: "u8 list \<Rightarrow> nat \<Rightarrow> nat \<Rightarrow> nat \<Rightarrow> nat \<Rightarrow> u8 list option" where
  "strncpy_loop mem dst src i 0 = array_set mem (dst + i) 0"
| "strncpy_loop mem dst src i (Suc n) = do {
     a \<leftarrow> array_get mem (src + i);
     if a = 0 then array_set mem (dst + i) 0
     else do {
       mem' \<leftarrow> array_set mem (dst + i) a;
       strncpy_loop mem' dst src (Suc i) n
     }
   }"

definition cl_strncpy :: "u8 list \<Rightarrow> nat option \<Rightarrow> nat option \<Rightarrow> u32 \<Rightarrow> u8 list option" where
  "cl_strncpy mem dst src len = do {
     ASSERT (dst \<noteq> None);
     ASSERT (src \<noteq> None);
     ASSERT (len \<noteq> 0);
     strncpy_loop mem (the dst) (the src) 0 (unat len)
   }"

text \<open>The inner loop of \<open>cl_strtok_s\<close>: is the character one of the delimiters?\<close>

function is_delimiter :: "u8 list \<Rightarrow> nat \<Rightarrow> u8 \<Rightarrow> bool option" where
  "is_delimiter delimiters j a = do {
     d \<leftarrow> array_get delimiters j;
     if d = 0 then Some False
     else if a = d then Some True
     else is_delimiter delimiters (Suc j) a
   }"
  by pat_completeness auto
termination
  by (relation "measure (\<lambda>(delimiters, j, a). length delimiters - j)") (auto simp: array_get_def split: if_splits)

text \<open>The outer loop: where the token ends, and whether a delimiter is there.\<close>

function strtok_loop :: "u8 list \<Rightarrow> u8 list \<Rightarrow> nat \<Rightarrow> (nat \<times> bool) option" where
  "strtok_loop mem delimiters i = do {
     a \<leftarrow> array_get mem i;
     if a = 0 then Some (i, False)
     else do {
       d \<leftarrow> is_delimiter delimiters 0 a;
       if d then Some (i, True) else strtok_loop mem delimiters (Suc i)
     }
   }"
  by pat_completeness auto
termination
  by (relation "measure (\<lambda>(mem, delimiters, i). length mem - i)") (auto simp: array_get_def split: if_splits)

text \<open>The result is the memory, the context and the token. The context is NULL at first.\<close>

definition cl_strtok_s ::
  "u8 list \<Rightarrow> nat option \<Rightarrow> u8 list option \<Rightarrow> nat option option \<Rightarrow>
   (u8 list \<times> nat option option \<times> nat option) option" where
  "cl_strtok_s mem strToken delimiters context =
     (case delimiters of
        None \<Rightarrow> Some (mem, context, None)
      | Some ds \<Rightarrow> (case context of
          None \<Rightarrow> Some (mem, context, None)
        | Some ctx \<Rightarrow>
            (case (if ctx = None then strToken else ctx) of
               None \<Rightarrow> Some (mem, context, None)
             | Some p \<Rightarrow> do {
                 a \<leftarrow> array_get mem p;
                 if a = 0 then Some (mem, context, None)
                 else do {
                   r \<leftarrow> strtok_loop mem ds p;
                   if snd r then do {
                     mem' \<leftarrow> array_set mem (fst r) 0;
                     Some (mem', Some (Some (Suc (fst r))), Some p)
                   }
                   else Some (mem, Some (Some (fst r)), Some p)
                 }
               })))"

text \<open>The loop of \<open>cl_strcelem\<close>: \<open>cl_strchr\<close> answers its start both for a miss and for a delimiter
  that stands there, and either ends the loop.\<close>

partial_function (option) strcelem_loop :: "u8 list \<Rightarrow> u8 \<Rightarrow> u32 \<Rightarrow> nat \<Rightarrow> nat \<Rightarrow> u32 option" where
  "strcelem_loop mem delimiter noOfElements pPrevValue curPosition =
     (if curPosition = pPrevValue then Some noOfElements
      else do {
        r \<leftarrow> cl_strchr mem (Some (Suc curPosition)) delimiter;
        strcelem_loop mem delimiter (noOfElements + 1) (Suc curPosition) (the r)
      })"

declare strcelem_loop.simps [code]

definition cl_strcelem :: "u8 list \<Rightarrow> nat option \<Rightarrow> u8 \<Rightarrow> u32 option" where
  "cl_strcelem mem str delimiter =
     (case str of
        None \<Rightarrow> Some MAX_DWORD
      | Some s \<Rightarrow> do {
          r \<leftarrow> cl_strchr mem (Some s) delimiter;
          strcelem_loop mem delimiter 1 s (the r)
        })"

text \<open>The three parts of \<open>cl_strtrim\<close>: the first character that is not white space (\<open>None\<close> when
  there is none), the cut behind the last one (the argument counts down to \<open>startIndex\<close>), and
  the move to the front.\<close>

function trim_start :: "u8 list \<Rightarrow> nat \<Rightarrow> nat \<Rightarrow> nat option option" where
  "trim_start mem s i = do {
     a \<leftarrow> array_get mem (s + i);
     if a = 0 then Some None
     else if \<not> isspace a then Some (Some i)
     else trim_start mem s (Suc i)
   }"
  by pat_completeness auto
termination
  by (relation "measure (\<lambda>(mem, s, i). length mem - (s + i))") (auto simp: array_get_def split: if_splits)

primrec trim_end :: "u8 list \<Rightarrow> nat \<Rightarrow> nat \<Rightarrow> nat \<Rightarrow> nat \<Rightarrow> (u8 list \<times> nat) option" where
  "trim_end mem s startIndex len 0 = Some (mem, len)"
| "trim_end mem s startIndex len (Suc i) =
     (if startIndex < Suc i then do {
        a \<leftarrow> array_get mem (s + i);
        if \<not> isspace a then do {
          mem' \<leftarrow> array_set mem (s + Suc i) 0;
          Some (mem', Suc i)
        }
        else trim_end mem s startIndex len i
      }
      else Some (mem, len))"

definition cl_strtrim :: "u8 list \<Rightarrow> nat option \<Rightarrow> u8 list option" where
  "cl_strtrim mem str = do {
     ASSERT (str \<noteq> None);
     let s = the str;
     st \<leftarrow> trim_start mem s 0;
     (case st of
        None \<Rightarrow> array_set mem s 0
      | Some startIndex \<Rightarrow> do {
          n \<leftarrow> strlen_loop mem s 0;
          r \<leftarrow> trim_end mem s startIndex n n;
          if startIndex \<noteq> 0 then do {
            ASSERT (snd r \<noteq> 0);
            cl_memmove (fst r) (Some s) (Some (s + startIndex)) (of_nat (snd r))
          }
          else Some (fst r)
        })
   }"

section \<open>Strings in buffers\<close>

definition cstr :: "u8 list \<Rightarrow> u8 list" where
  "cstr b = takeWhile (\<lambda>a. a \<noteq> 0) b"

text \<open>The loops are unfolded by hand only.\<close>

declare strcmp_loop.simps [simp del] strchr_loop.simps [simp del] strrchr_loop.simps [simp del]
  strlen_loop.simps [simp del] strcpy_loop.simps [simp del] is_delimiter.simps [simp del]
  strtok_loop.simps [simp del] trim_start.simps [simp del]

text \<open>A buffer that holds a string: the string, a zero, and anything.\<close>

lemma cstr_split:
  assumes "0 \<in> set b"
  obtains r where "b = cstr b @ 0 # r" "0 \<notin> set (cstr b)"
proof -
  have "dropWhile (\<lambda>a. a \<noteq> 0) b \<noteq> []" using assms by (auto simp: dropWhile_eq_Nil_conv)
  then obtain a r where ar: "dropWhile (\<lambda>a. a \<noteq> 0) b = a # r" by (cases "dropWhile (\<lambda>a. a \<noteq> 0) b") auto
  then have "a = 0" using hd_dropWhile [of "\<lambda>a. a \<noteq> 0" b] by simp
  moreover have "b = cstr b @ a # r" using ar takeWhile_dropWhile_id [of "\<lambda>a. a \<noteq> 0" b] by (simp add: cstr_def)
  moreover have "0 \<notin> set (cstr b)" by (auto simp: cstr_def dest: set_takeWhileD)
  ultimately show thesis by (intro that [of r]) simp_all
qed

lemma cstr_append [simp]: "0 \<notin> set s \<Longrightarrow> cstr (s @ 0 # r) = s"
  by (induction s) (auto simp: cstr_def)

text \<open>Reading at a position, by what lies from there on.\<close>

lemma get_drop: "drop i b = a # xs \<Longrightarrow> array_get b i = Some a"
  by (metis array_get_Some drop_all hd_drop_conv_nth list.distinct(1) list.sel(1) not_le)

lemma drop_next: "drop i b = a # xs \<Longrightarrow> drop (Suc i) b = xs"
  by (metis drop_Suc list.sel(3) tl_drop)

section \<open>Comparison\<close>

text \<open>Lexicographic comparison of character codes.\<close>

fun lexcmp :: "int list \<Rightarrow> int list \<Rightarrow> int" where
  "lexcmp [] [] = 0"
| "lexcmp (x # xs) [] = 1"
| "lexcmp [] (y # ys) = -1"
| "lexcmp (x # xs) (y # ys) = (if y < x then 1 else if x < y then -1 else lexcmp xs ys)"

lemma lexcmp_eq: "lexcmp xs ys = 0 \<longleftrightarrow> xs = ys"
  by (induction xs ys rule: lexcmp.induct) auto

lemma lexcmp_less: "lexcmp xs ys = -1 \<longleftrightarrow> ord_class.lexordp xs ys"
  by (induction xs ys rule: lexcmp.induct) auto

lemma lexcmp_swap: "lexcmp ys xs = - lexcmp xs ys"
  by (induction xs ys rule: lexcmp.induct) auto

lemma strcmp_loop_run:
  assumes "drop i b = s @ 0 # r" "drop i c = t @ 0 # r'" "0 \<notin> set s" "0 \<notin> set t"
  shows "strcmp_loop f b c i = Some (lexcmp (map (\<lambda>a. sint (f a)) s) (map (\<lambda>a. sint (f a)) t))"
  using assms
proof (induction s arbitrary: i t)
  case Nil
  then have "drop i c = hd (t @ [0]) # tl (t @ [0]) @ r'" by (cases t) simp_all
  with Nil have g: "array_get b i = Some 0" "array_get c i = Some (hd (t @ [0]))"
    by (auto intro: get_drop)
  show ?case
    using Nil.prems(4) by (cases t) (simp_all add: strcmp_loop.simps [of f b c i] g strcmp_end_def)
next
  case (Cons a s)
  have ga: "array_get b i = Some a" using Cons.prems(1) by (intro get_drop) simp
  show ?case
  proof (cases t)
    case Nil
    then have "array_get c i = Some 0" using Cons.prems(2) by (intro get_drop) simp
    then show ?thesis using Nil Cons.prems(3) by (simp add: strcmp_loop.simps [of f b c i] ga strcmp_end_def)
  next
    case t: (Cons x t')
    then have gx: "array_get c i = Some x" using Cons.prems(2) by (intro get_drop) simp
    have "strcmp_loop f b c (Suc i) = Some (lexcmp (map (\<lambda>a. sint (f a)) s) (map (\<lambda>a. sint (f a)) t'))"
      using Cons.prems t by (intro Cons.IH) (auto intro: drop_next)
    then show ?thesis using Cons.prems(3,4) t by (simp add: strcmp_loop.simps [of f b c i] ga gx)
  qed
qed

lemma cl_strcmp_run:
  assumes "0 \<in> set b" "0 \<in> set c"
  shows "cl_strcmp (Some b) (Some c) = Some (lexcmp (map sint (cstr b)) (map sint (cstr c)))"
    "cl_stricmp (Some b) (Some c)
      = Some (lexcmp (map (\<lambda>a. sint (tolower a)) (cstr b)) (map (\<lambda>a. sint (tolower a)) (cstr c)))"
proof -
  obtain r where r: "b = cstr b @ 0 # r" "0 \<notin> set (cstr b)" using cstr_split [OF assms(1)] .
  obtain r' where r': "c = cstr c @ 0 # r'" "0 \<notin> set (cstr c)" using cstr_split [OF assms(2)] .
  have "strcmp_loop f b c 0 = Some (lexcmp (map (\<lambda>a. sint (f a)) (cstr b)) (map (\<lambda>a. sint (f a)) (cstr c)))" for f
    using r r' by (intro strcmp_loop_run [of 0 b _ r c _ r']) simp_all
  then show "cl_strcmp (Some b) (Some c) = Some (lexcmp (map sint (cstr b)) (map sint (cstr c)))"
    "cl_stricmp (Some b) (Some c)
      = Some (lexcmp (map (\<lambda>a. sint (tolower a)) (cstr b)) (map (\<lambda>a. sint (tolower a)) (cstr c)))"
    by (simp_all add: cl_strcmp_def cl_stricmp_def id_def)
qed

text \<open>With a length: strings of at least that length compare as their prefixes; when one of them
  ends before, the result is that of the whole strings, except that equal strings are reported as
  different.\<close>

lemma strncmp_loop_run:
  assumes "drop i b = s @ 0 # r" "drop i c = t @ 0 # r'" "0 \<notin> set s" "0 \<notin> set t"
  shows "strncmp_loop f b c i n
    = Some (let v = lexcmp (map (\<lambda>a. sint (f a)) (take n s)) (map (\<lambda>a. sint (f a)) (take n t)) in
        if v = 0 \<and> length s < n then -1 else v)"
  using assms
proof (induction n arbitrary: i s t)
  case (Suc n)
  show ?case
  proof (cases s)
    case Nil
    then have ga: "array_get b i = Some 0" using Suc.prems(1) by (intro get_drop) simp
    show ?thesis using Nil Suc.prems(4) by (cases t) (simp_all add: ga)
  next
    case s: (Cons a s')
    then have ga: "array_get b i = Some a" using Suc.prems(1) by (intro get_drop) simp
    show ?thesis
    proof (cases t)
      case Nil
      then have "array_get c i = Some 0" using Suc.prems(2) by (intro get_drop) simp
      then show ?thesis using Nil s Suc.prems(3) by (simp add: ga)
    next
      case t: (Cons x t')
      then have gx: "array_get c i = Some x" using Suc.prems(2) by (intro get_drop) simp
      have "strncmp_loop f b c (Suc i) n
        = Some (let v = lexcmp (map (\<lambda>a. sint (f a)) (take n s')) (map (\<lambda>a. sint (f a)) (take n t')) in
            if v = 0 \<and> length s' < n then -1 else v)"
        using Suc.prems s t by (intro Suc.IH) (auto intro: drop_next)
      then show ?thesis using Suc.prems(3,4) s t by (auto simp: ga gx Let_def)
    qed
  qed
qed simp

lemma cl_strncmp_run:
  assumes "0 \<in> set b" "0 \<in> set c" "n \<noteq> 0"
  shows "cl_strncmp (Some b) (Some c) n
    = Some (let v = lexcmp (map sint (take (unat n) (cstr b))) (map sint (take (unat n) (cstr c))) in
        if v = 0 \<and> length (cstr b) < unat n then -1 else v)"
proof -
  obtain r where r: "b = cstr b @ 0 # r" "0 \<notin> set (cstr b)" using cstr_split [OF assms(1)] .
  obtain r' where r': "c = cstr c @ 0 # r'" "0 \<notin> set (cstr c)" using cstr_split [OF assms(2)] .
  show ?thesis using strncmp_loop_run [of 0 b "cstr b" r c "cstr c" r' id "unat n"] r r' assms(3)
    by (simp add: cl_strncmp_def)
qed

text \<open>Setting the bit \<open>0x20\<close> is not the conversion to lower case: it identifies characters that
  are not letters.\<close>

lemma stricmp_confuses: "cl_stricmp (Some [0x40, 0]) (Some [0x60, 0]) = Some 0"
  "cl_stricmp (Some [0x5B, 0]) (Some [0x7B, 0]) = Some 0"
  by (simp_all add: cl_stricmp_def strcmp_loop.simps array_get_def tolower_def strcmp_end_def)

section \<open>Length and search\<close>

lemma strlen_loop_run:
  "drop (s + i) mem = x @ 0 # r \<Longrightarrow> 0 \<notin> set x \<Longrightarrow> strlen_loop mem s i = Some (i + length x)"
proof (induction x arbitrary: i)
  case Nil
  then show ?case by (simp add: strlen_loop.simps [of mem s i] get_drop [of "s + i" mem 0 r])
next
  case (Cons a x)
  have "strlen_loop mem s (Suc i) = Some (Suc i + length x)"
    using Cons.prems drop_next [of "s + i" mem a] by (intro Cons.IH) simp_all
  then show ?case using Cons.prems
    by (simp add: strlen_loop.simps [of mem s i] get_drop [of "s + i" mem a "x @ 0 # r"])
qed

lemma cl_strlen_run:
  "drop s mem = x @ 0 # r \<Longrightarrow> 0 \<notin> set x \<Longrightarrow> cl_strlen mem (Some s) = Some (of_nat (length x))"
  using strlen_loop_run [of s 0 mem x r] by (simp add: cl_strlen_def)

lemma strlen_s_loop_run:
  "drop (s + i) mem = x @ 0 # r \<Longrightarrow> 0 \<notin> set x \<Longrightarrow> strlen_s_loop mem s i n = Some (i + min n (length x))"
proof (induction n arbitrary: i x)
  case (Suc n)
  show ?case
  proof (cases x)
    case Nil
    then show ?thesis using Suc.prems by (simp add: get_drop [of "s + i" mem 0 r])
  next
    case (Cons a x')
    have "strlen_s_loop mem s (Suc i) n = Some (Suc i + min n (length x'))"
      using Suc.prems Cons drop_next [of "s + i" mem a] by (intro Suc.IH) simp_all
    then show ?thesis using Suc.prems Cons by (simp add: get_drop [of "s + i" mem a "x' @ 0 # r"])
  qed
qed simp

lemma strchr_loop_run:
  "drop i mem = x @ 0 # r \<Longrightarrow> 0 \<notin> set x \<Longrightarrow>
   strchr_loop mem c start i = Some (if c \<in> set x then i + length (takeWhile (\<lambda>a. a \<noteq> c) x) else start)"
proof (induction x arbitrary: i)
  case Nil
  then show ?case by (simp add: strchr_loop.simps [of mem c start i] get_drop [of i mem 0 r])
next
  case (Cons a x)
  have "strchr_loop mem c start (Suc i)
      = Some (if c \<in> set x then Suc i + length (takeWhile (\<lambda>a. a \<noteq> c) x) else start)"
    using Cons.prems drop_next [of i mem a] by (intro Cons.IH) simp_all
  then show ?case using Cons.prems
    by (auto simp: strchr_loop.simps [of mem c start i] get_drop [of i mem a "x @ 0 # r"])
qed

lemma cl_strchr_run:
  assumes "drop s mem = x @ 0 # r" "0 \<notin> set x"
  shows "c \<notin> set x \<Longrightarrow> cl_strchr mem (Some s) c = Some (Some s)"
    "x = u @ c # v \<Longrightarrow> c \<notin> set u \<Longrightarrow> cl_strchr mem (Some s) c = Some (Some (s + length u))"
proof -
  note run = strchr_loop_run [OF assms, of c s]
  show "c \<notin> set x \<Longrightarrow> cl_strchr mem (Some s) c = Some (Some s)" using run by (simp add: cl_strchr_def)
  assume x: "x = u @ c # v" and u: "c \<notin> set u"
  have "takeWhile (\<lambda>a. a \<noteq> c) u = u" using u by (induction u) auto
  moreover have "\<forall>a \<in> set u. a \<noteq> c" using u by blast
  ultimately have "takeWhile (\<lambda>a. a \<noteq> c) x = u" by (simp add: x takeWhile_append2)
  then show "cl_strchr mem (Some s) c = Some (Some (s + length u))" using run x by (simp add: cl_strchr_def)
qed

lemma strrchr_loop_run:
  "drop i mem = x @ 0 # r \<Longrightarrow> 0 \<notin> set x \<Longrightarrow> c \<notin> set x \<Longrightarrow> strrchr_loop mem c k i = Some k"
proof (induction x arbitrary: i)
  case Nil
  then show ?case by (simp add: strrchr_loop.simps [of mem c k i] get_drop [of i mem 0 r])
next
  case (Cons a x)
  have "strrchr_loop mem c k (Suc i) = Some k"
    using Cons.prems drop_next [of i mem a] by (intro Cons.IH) simp_all
  then show ?case using Cons.prems
    by (auto simp: strrchr_loop.simps [of mem c k i] get_drop [of i mem a "x @ 0 # r"])
qed

lemma strrchr_loop_found:
  "drop i mem = (u @ c # v) @ 0 # r \<Longrightarrow> 0 \<notin> set (u @ c # v) \<Longrightarrow> c \<notin> set v \<Longrightarrow>
   strrchr_loop mem c k i = Some (i + length u)"
proof (induction u arbitrary: i k)
  case Nil
  have "strrchr_loop mem c i (Suc i) = Some i"
    using Nil.prems drop_next [of i mem c "v @ 0 # r"] by (intro strrchr_loop_run [of _ _ v r]) simp_all
  then show ?case using Nil.prems
    by (simp add: strrchr_loop.simps [of mem c k i] get_drop [of i mem c "v @ 0 # r"])
next
  case (Cons a u)
  have "strrchr_loop mem c k' (Suc i) = Some (Suc i + length u)" for k'
    using Cons.prems drop_next [of i mem a "(u @ c # v) @ 0 # r"] by (intro Cons.IH) simp_all
  then show ?case using Cons.prems
    by (simp add: strrchr_loop.simps [of mem c k i] get_drop [of i mem a "(u @ c # v) @ 0 # r"])
qed

lemma cl_strrchr_run:
  assumes "drop s mem = x @ 0 # r" "0 \<notin> set x"
  shows "c \<notin> set x \<Longrightarrow> cl_strrchr mem (Some s) c = Some (Some s)"
    "x = u @ c # v \<Longrightarrow> c \<notin> set v \<Longrightarrow> cl_strrchr mem (Some s) c = Some (Some (s + length u))"
  using strrchr_loop_run [OF assms] strrchr_loop_found [of s mem u c v r] assms
  by (simp_all add: cl_strrchr_def)

section \<open>Copying\<close>

lemma blit_next:
  assumes "src + Suc n \<le> length mem" "dst + Suc n \<le> length mem"
  shows "(blit mem dst src n)[dst + n := mem ! (src + n)] = blit mem dst src (Suc n)"
  using assms by (intro nth_equalityI) (auto simp: nth_blit nth_list_update less_Suc_eq)

lemma blit_read:
  assumes "src + n < length mem" "dst + n \<le> length mem" "dst \<le> src \<or> src + n < dst"
  shows "array_get (blit mem dst src n) (src + n) = Some (mem ! (src + n))"
  using assms by (auto simp: nth_blit)

text \<open>Both copies: \<open>k\<close> characters are copied, then a zero is written.\<close>

lemma strncpy_loop_run:
  assumes "drop src mem = x @ 0 # r" "0 \<notin> set x" "dst + min (i + n) (length x) < length mem"
    and "dst \<le> src \<or> src + min (i + n) (length x) < dst" "i \<le> length x"
  shows "strncpy_loop (blit mem dst src i) dst src i n
    = Some ((blit mem dst src (min (i + n) (length x)))[dst + min (i + n) (length x) := 0])"
  using assms(3-5)
proof (induction n arbitrary: i)
  case 0
  have "length mem - src = length x + Suc (length r)" using arg_cong [OF assms(1), of length] by simp
  then have "src + i \<le> length mem" using 0 by simp
  with 0 show ?case by (simp add: min_def)
next
  case (Suc n)
  have l: "length mem - src = length x + Suc (length r)" using arg_cong [OF assms(1), of length] by simp
  have nth: "mem ! (src + i) = (x @ [0]) ! i"
  proof -
    have "mem ! (src + i) = drop src mem ! i" using l by (intro nth_drop [symmetric]) simp
    also have "\<dots> = (x @ [0]) ! i" unfolding assms(1) using Suc.prems(3)
      by (cases "i < length x") (simp_all add: nth_append)
    finally show ?thesis .
  qed
  have rd: "array_get (blit mem dst src i) (src + i) = Some (mem ! (src + i))"
    using Suc.prems l by (intro blit_read) auto
  show ?case
  proof (cases "i = length x")
    case True
    then have "src + i \<le> length mem" "dst + i < length mem" using l Suc.prems by simp_all
    then show ?thesis using rd nth True by simp
  next
    case False
    then have i: "i < length x" using Suc.prems(3) by simp
    then have a: "mem ! (src + i) \<noteq> 0" using nth assms(2) by (auto simp: nth_append in_set_conv_nth)
    have b: "src + Suc i \<le> length mem" "dst + Suc i \<le> length mem" using l i Suc.prems by simp_all
    have "strncpy_loop (blit mem dst src (Suc i)) dst src (Suc i) n
      = Some ((blit mem dst src (min (Suc i + n) (length x)))[dst + min (Suc i + n) (length x) := 0])"
      using Suc.prems i by (intro Suc.IH) simp_all
    then show ?thesis using rd a b blit_next [OF b] by simp
  qed
qed

lemma cl_strncpy_run:
  assumes "drop src mem = x @ 0 # r" "0 \<notin> set x" "n \<noteq> 0"
    and "dst + min (unat n) (length x) < length mem" "dst \<le> src \<or> src + min (unat n) (length x) < dst"
  shows "cl_strncpy mem (Some dst) (Some src) n
    = Some (take dst mem @ take (unat n) x @ 0 # drop (dst + min (unat n) (length x) + 1) mem)"
proof -
  let ?k = "min (unat n) (length x)"
  have l: "length mem - src = length x + Suc (length r)" using arg_cong [OF assms(1), of length] by simp
  have run: "cl_strncpy mem (Some dst) (Some src) n = Some ((blit mem dst src ?k)[dst + ?k := 0])"
    using strncpy_loop_run [OF assms(1,2), of dst 0 "unat n"] assms(3-5) by (simp add: cl_strncpy_def)
  have t: "take ?k (drop src mem) = take (unat n) x" unfolding assms(1) by (simp add: min_def)
  have d: "drop (dst + ?k) mem = mem ! (dst + ?k) # drop (dst + ?k + 1) mem"
    using assms(4) by (simp add: Cons_nth_drop_Suc)
  have "blit mem dst src ?k = (take dst mem @ take (unat n) x) @ mem ! (dst + ?k) # drop (dst + ?k + 1) mem"
    unfolding blit_def t d by simp
  moreover have "length (take dst mem @ take (unat n) x) = dst + ?k" using assms(4) by simp
  ultimately have "(blit mem dst src ?k)[dst + ?k := 0]
      = (take dst mem @ take (unat n) x) @ 0 # drop (dst + ?k + 1) mem"
    using list_update_length by metis
  then show ?thesis unfolding run by simp
qed

text \<open>\<open>cl_strcpy\<close> is the bounded copy with a bound that is never reached.\<close>

lemma strcpy_loop_bounded:
  "length mem - (src + i) < n \<Longrightarrow> strcpy_loop mem dst src i = strncpy_loop mem dst src i n"
proof (induction mem dst src i arbitrary: n rule: strcpy_loop.induct)
  case (1 mem dst src i)
  then obtain n' where n: "n = Suc n'" by (cases n) auto
  show ?case
  proof (cases "array_get mem (src + i)")
    case None
    then show ?thesis by (simp add: n strcpy_loop.simps [of mem dst src i])
  next
    case (Some a)
    then have lt: "src + i < length mem" by (simp add: array_get_conv)
    have "strcpy_loop mem' dst src (Suc i) = strncpy_loop mem' dst src (Suc i) n'"
      if "a \<noteq> 0" "array_set mem (dst + i) a = Some mem'" for mem'
      using 1(1) [OF Some that(1) that(2), of n'] that(2) lt 1(2) n by (auto simp: array_set_conv)
    then show ?thesis
      by (cases "array_set mem (dst + i) a") (simp_all add: n Some strcpy_loop.simps [of mem dst src i])
  qed
qed

lemma cl_strcpy_run:
  assumes "drop src mem = x @ 0 # r" "0 \<notin> set x" "dst + length x < length mem"
    and "dst \<le> src \<or> src + length x < dst"
  shows "cl_strcpy mem (Some dst) (Some src)
    = Some (take dst mem @ x @ 0 # drop (dst + length x + 1) mem)"
proof -
  let ?n = "Suc (length mem)"
  have "length mem - src = length x + Suc (length r)" using arg_cong [OF assms(1), of length] by simp
  then have k: "min (0 + ?n) (length x) = length x" by simp
  have run: "cl_strcpy mem (Some dst) (Some src) = Some ((blit mem dst src (length x))[dst + length x := 0])"
    using strcpy_loop_bounded [of mem src 0 ?n dst] strncpy_loop_run [OF assms(1,2), of dst 0 ?n] assms(3,4) k
    by (simp add: cl_strcpy_def)
  have t: "take (length x) (drop src mem) = x" unfolding assms(1) by simp
  have d: "drop (dst + length x) mem = mem ! (dst + length x) # drop (dst + length x + 1) mem"
    using assms(3) by (simp add: Cons_nth_drop_Suc)
  have "blit mem dst src (length x) = (take dst mem @ x) @ mem ! (dst + length x) # drop (dst + length x + 1) mem"
    unfolding blit_def t d by simp
  moreover have "length (take dst mem @ x) = dst + length x" using assms(3) by simp
  ultimately have "(blit mem dst src (length x))[dst + length x := 0]
      = (take dst mem @ x) @ 0 # drop (dst + length x + 1) mem"
    using list_update_length by metis
  then show ?thesis unfolding run by simp
qed

section \<open>Tokens\<close>

lemma is_delimiter_run:
  "drop j b = ds @ 0 # r \<Longrightarrow> 0 \<notin> set ds \<Longrightarrow> is_delimiter b j a = Some (a \<in> set ds)"
proof (induction ds arbitrary: j)
  case Nil
  then show ?case by (simp add: is_delimiter.simps [of b j a] get_drop [of j b 0 r])
next
  case (Cons d ds)
  have "is_delimiter b (Suc j) a = Some (a \<in> set ds)"
    using Cons.prems drop_next [of j b d] by (intro Cons.IH) simp_all
  then show ?case using Cons.prems
    by (simp add: is_delimiter.simps [of b j a] get_drop [of j b d "ds @ 0 # r"])
qed

lemma strtok_loop_run:
  assumes "0 \<in> set ds"
  shows "drop i mem = x @ 0 # r \<Longrightarrow> 0 \<notin> set x \<Longrightarrow> strtok_loop mem ds i
    = Some (i + length (takeWhile (\<lambda>a. a \<notin> set (cstr ds)) x), \<exists>a \<in> set x. a \<in> set (cstr ds))"
proof (induction x arbitrary: i)
  case Nil
  then show ?case by (simp add: strtok_loop.simps [of mem ds i] get_drop [of i mem 0 r])
next
  case (Cons a x)
  obtain q where "ds = cstr ds @ 0 # q" "0 \<notin> set (cstr ds)" using cstr_split [OF assms] .
  then have d: "is_delimiter ds 0 a = Some (a \<in> set (cstr ds))"
    by (intro is_delimiter_run [of 0 ds _ q]) simp_all
  have "strtok_loop mem ds (Suc i)
    = Some (Suc i + length (takeWhile (\<lambda>a. a \<notin> set (cstr ds)) x), \<exists>a \<in> set x. a \<in> set (cstr ds))"
    using Cons.prems drop_next [of i mem a] by (intro Cons.IH) simp_all
  then show ?case using Cons.prems d
    by (simp add: strtok_loop.simps [of mem ds i] get_drop [of i mem a "x @ 0 # r"])
qed

text \<open>One call, at the rest \<open>x\<close> of the string: the token is what comes before the first delimiter,
  and the context is left at what comes behind it.\<close>

lemma cl_strtok_s_run:
  assumes ds: "0 \<in> set ds" and x: "drop p mem = x @ 0 # r" "0 \<notin> set x"
    and p: "(if ctx = None then str else ctx) = Some p"
  defines "u \<equiv> takeWhile (\<lambda>a. a \<notin> set (cstr ds)) x"
  shows "x = [] \<Longrightarrow> cl_strtok_s mem str (Some ds) (Some ctx) = Some (mem, Some ctx, None)"
    "x \<noteq> [] \<Longrightarrow> \<exists>mem' q v. cl_strtok_s mem str (Some ds) (Some ctx) = Some (mem', Some (Some q), Some p) \<and>
       drop p mem' = u @ 0 # v \<and> take p mem' = take p mem \<and>
       drop q mem' = drop (Suc (length u)) x @ 0 # r"
proof -
  have c: "(case (if ctx = None then str else ctx) of None \<Rightarrow> A | Some p \<Rightarrow> B p) = B p" for A B
    using p by simp
  show "cl_strtok_s mem str (Some ds) (Some ctx) = Some (mem, Some ctx, None)" if "x = []"
    using get_drop [of p mem 0 r] x(1) that by (simp add: cl_strtok_s_def c)
  assume ne: "x \<noteq> []"
  then obtain a x' where ax: "x = a # x'" by (cases x) auto
  then have g: "array_get mem p = Some a" "a \<noteq> 0" using x by (auto intro: get_drop)
  note run = strtok_loop_run [OF ds x]
  have pl: "p \<le> length mem" using x(1) by (cases "p \<le> length mem") auto
  show "\<exists>mem' q v. cl_strtok_s mem str (Some ds) (Some ctx) = Some (mem', Some (Some q), Some p) \<and>
       drop p mem' = u @ 0 # v \<and> take p mem' = take p mem \<and>
       drop q mem' = drop (Suc (length u)) x @ 0 # r"
  proof (cases "\<exists>a \<in> set x. a \<in> set (cstr ds)")
    case True
    then have "dropWhile (\<lambda>a. a \<notin> set (cstr ds)) x \<noteq> []" by (auto simp: dropWhile_eq_Nil_conv)
    then obtain d v where dv: "dropWhile (\<lambda>a. a \<notin> set (cstr ds)) x = d # v"
      by (cases "dropWhile (\<lambda>a. a \<notin> set (cstr ds)) x") auto
    then have xu: "x = u @ d # v" unfolding u_def by (metis takeWhile_dropWhile_id)
    have m: "mem = take p mem @ u @ d # v @ 0 # r" using x(1) xu append_take_drop_id [of p mem] by simp
    let ?m = "take p mem @ u @ 0 # v @ 0 # r"
    have l: "length (take p mem @ u) = p + length u" using pl by simp
    have "mem[p + length u := 0] = ((take p mem @ u) @ d # v @ 0 # r)[length (take p mem @ u) := 0]"
      unfolding l using m by simp
    also have "\<dots> = ?m" unfolding list_update_length by simp
    finally have s: "mem[p + length u := 0] = ?m" .
    have "p + length u < length mem" using arg_cong [OF m, of length] pl by simp
    then have set: "array_set mem (p + length u) 0 = Some ?m" using s by simp
    have "drop (Suc (p + length u)) ?m = v @ 0 # r" using pl by simp
    moreover have "drop (Suc (length u)) x = v" by (simp add: xu)
    moreover have "cl_strtok_s mem str (Some ds) (Some ctx) = Some (?m, Some (Some (Suc (p + length u))), Some p)"
      using run True g set by (simp add: cl_strtok_s_def c u_def [symmetric])
    moreover have "drop p ?m = u @ 0 # v @ 0 # r" "take p ?m = take p mem" using pl by simp_all
    ultimately show ?thesis
      by (intro exI [of _ ?m] exI [of _ "Suc (p + length u)"] exI [of _ "v @ 0 # r"]) simp
  next
    case False
    then have u: "u = x" unfolding u_def by (simp add: takeWhile_eq_all_conv)
    have "cl_strtok_s mem str (Some ds) (Some ctx) = Some (mem, Some (Some (p + length x)), Some p)"
      using run False g u unfolding u_def by (simp add: cl_strtok_s_def c)
    moreover have "drop (p + length x) mem = 0 # r"
      using arg_cong [OF x(1), of "drop (length x)"] by (simp add: add.commute)
    ultimately show ?thesis using x(1) u
      by (intro exI [of _ mem] exI [of _ "p + length x"] exI [of _ r]) simp
  qed
qed

text \<open>The tokens of a string: empty ones included, but none behind a final delimiter.\<close>

function tokens :: "u8 set \<Rightarrow> u8 list \<Rightarrow> u8 list list" where
  "tokens D x = (if x = [] then [] else
     takeWhile (\<lambda>a. a \<notin> D) x # tokens D (drop (Suc (length (takeWhile (\<lambda>a. a \<notin> D) x))) x))"
  by pat_completeness auto
termination
  by (relation "measure (\<lambda>(D, x). length x)") (auto simp: diff_less)

declare tokens.simps [simp del]

text \<open>The loop of a caller: ask for the next token until NULL.\<close>

fun strtok_all :: "nat \<Rightarrow> u8 list \<Rightarrow> nat option \<Rightarrow> u8 list \<Rightarrow> nat option \<Rightarrow> u8 list list option" where
  "strtok_all 0 mem str ds ctx = None"
| "strtok_all (Suc n) mem str ds ctx = do {
     r \<leftarrow> cl_strtok_s mem str (Some ds) (Some ctx);
     (case snd (snd r) of
        None \<Rightarrow> Some []
      | Some t \<Rightarrow> do {
          ts \<leftarrow> strtok_all n (fst r) str ds (the (fst (snd r)));
          Some (cstr (drop t (fst r)) # ts)
        })
   }"

lemma strtok_all_run:
  "0 \<in> set ds \<Longrightarrow> drop p mem = x @ 0 # r \<Longrightarrow> 0 \<notin> set x \<Longrightarrow> (if ctx = None then str else ctx) = Some p \<Longrightarrow>
   length x < n \<Longrightarrow> strtok_all n mem str ds ctx = Some (tokens (set (cstr ds)) x)"
proof (induction n arbitrary: p mem x ctx)
  case (Suc n)
  show ?case
  proof (cases "x = []")
    case True
    then show ?thesis using cl_strtok_s_run(1) [OF Suc.prems(1-4)] by (simp add: tokens.simps)
  next
    case False
    let ?u = "takeWhile (\<lambda>a. a \<notin> set (cstr ds)) x"
    obtain mem' q v where r: "cl_strtok_s mem str (Some ds) (Some ctx) = Some (mem', Some (Some q), Some p)"
      "drop p mem' = ?u @ 0 # v" "drop q mem' = drop (Suc (length ?u)) x @ 0 # r"
      using cl_strtok_s_run(2) [OF Suc.prems(1-4) False] by blast
    have "0 \<notin> set ?u" using Suc.prems(3) by (auto dest: set_takeWhileD)
    then have t: "cstr (drop p mem') = ?u" using r(2) by simp
    have "0 \<notin> set (drop (Suc (length ?u)) x)" using Suc.prems(3) by (auto dest: in_set_dropD)
    moreover have "length (drop (Suc (length ?u)) x) < n" using Suc.prems(5) False by (cases x) auto
    ultimately have "strtok_all n mem' str ds (Some q) = Some (tokens (set (cstr ds)) (drop (Suc (length ?u)) x))"
      using Suc.prems(1) r(3) by (intro Suc.IH [of q]) simp_all
    then show ?thesis using r(1) t False by (simp add: tokens.simps [of _ x])
  qed
qed simp
section \<open>Elements\<close>

text \<open>What \<open>cl_strcelem\<close> counts: it stops at an empty element, because a delimiter at the start of
  the rest looks like a miss.\<close>

function celems :: "u8 \<Rightarrow> u8 list \<Rightarrow> nat" where
  "celems d x = (let u = takeWhile (\<lambda>a. a \<noteq> d) x in
     if u = x \<or> u = [] then 1 else Suc (celems d (drop (Suc (length u)) x)))"
  by pat_completeness auto
termination
  by (relation "measure (\<lambda>(d, x). length x)") (auto simp: takeWhile_eq_all_conv intro!: diff_less intro: length_pos_if_in_set)

declare celems.simps [simp del]

lemma takeWhile_all: "takeWhile (\<lambda>a. a \<noteq> d) x = x \<longleftrightarrow> d \<notin> set x"
  by (auto simp: takeWhile_eq_all_conv)

lemma split_first:
  assumes "d \<in> set x"
  obtains u v where "x = u @ d # v" "d \<notin> set u" "takeWhile (\<lambda>a. a \<noteq> d) x = u"
proof -
  obtain u v where x: "x = u @ d # v" "d \<notin> set u" using split_list_first [OF assms] by blast
  have "takeWhile (\<lambda>a. a \<noteq> d) u = u" using x(2) takeWhile_all by metis
  moreover have "\<forall>a \<in> set u. a \<noteq> d" using x(2) by blast
  ultimately show thesis using x by (intro that [of u v]) (simp_all add: takeWhile_append2)
qed

lemma strcelem_run:
  "drop s mem = x @ 0 # r \<Longrightarrow> 0 \<notin> set x \<Longrightarrow>
   do { f \<leftarrow> cl_strchr mem (Some s) d; strcelem_loop mem d (of_nat n) s (the f) }
     = Some (of_nat (n + celems d x - 1))"
proof (induction "length x" arbitrary: s x n rule: less_induct)
  case less
  let ?u = "takeWhile (\<lambda>a. a \<noteq> d) x"
  have f: "cl_strchr mem (Some s) d = Some (Some (if d \<in> set x then s + length ?u else s))"
    using strchr_loop_run [OF less.prems] by (simp add: cl_strchr_def)
  show ?case
  proof (cases "?u = x \<or> ?u = []")
    case True
    then have "(if d \<in> set x then s + length ?u else s) = s" by (auto simp: takeWhile_all)
    then show ?thesis using True f by (simp add: strcelem_loop.simps celems.simps [of d x])
  next
    case False
    then have dx: "d \<in> set x" by (auto simp: takeWhile_all)
    then obtain u v where x: "x = u @ d # v" "d \<notin> set u" "?u = u" by (rule split_first)
    have "drop (length u) (drop s mem) = d # v @ 0 # r" unfolding less.prems(1) x(1) by simp
    then have "drop (s + length u) mem = d # v @ 0 # r" by (simp add: add.commute)
    then have dm: "drop (Suc (s + length u)) mem = v @ 0 # r" by (rule drop_next)
    have nv: "0 \<notin> set v" using less.prems(2) x(1) by simp
    have "length v < length x" using x(1) by simp
    from less.hyps [OF this dm nv, of "Suc n"]
    have "do { f \<leftarrow> cl_strchr mem (Some (Suc (s + length u))) d;
        strcelem_loop mem d (of_nat (Suc n)) (Suc (s + length u)) (the f) }
      = Some (of_nat (Suc n + celems d v - 1))" .
    moreover have "drop (Suc (length ?u)) x = v" using x(1,3) by simp
    then have "celems d x = Suc (celems d v)"
      unfolding celems.simps [of d x] Let_def if_not_P [OF False] by (rule arg_cong)
    moreover have "length u \<noteq> 0" using False x(3) by simp
    ultimately show ?thesis using f dx x(3)
      by (simp add: strcelem_loop.simps [of mem d "of_nat n" s] algebra_simps)
  qed
qed

lemma cl_strcelem_run:
  "drop s mem = x @ 0 # r \<Longrightarrow> 0 \<notin> set x \<Longrightarrow> cl_strcelem mem (Some s) d = Some (of_nat (celems d x))"
  using strcelem_run [of s mem x r d 1] by (simp add: cl_strcelem_def)

text \<open>Without empty elements that is the number of elements; with one the rest is not counted.\<close>

lemma celems_no_empty:
  "x \<noteq> [] \<Longrightarrow> \<forall>u v. x = u @ d # v \<longrightarrow> u \<noteq> [] \<and> last u \<noteq> d \<and> v \<noteq> [] \<Longrightarrow> celems d x = Suc (count_list x d)"
proof (induction d x rule: celems.induct)
  case (1 d x)
  let ?u = "takeWhile (\<lambda>a. a \<noteq> d) x"
  show ?case
  proof (cases "?u = x")
    case True
    then have "count_list x d = 0" using takeWhile_all count_list_0_iff by metis
    then show ?thesis using True by (simp add: celems.simps [of d x])
  next
    case False
    then have dx: "d \<in> set x" by (auto simp: takeWhile_all)
    then obtain u v where x: "x = u @ d # v" "d \<notin> set u" "?u = u" by (rule split_first)
    have u: "u \<noteq> []" and vne: "v \<noteq> []" using 1(3) x(1) by blast+
    have "\<forall>u' v'. v = u' @ d # v' \<longrightarrow> u' \<noteq> [] \<and> last u' \<noteq> d \<and> v' \<noteq> []"
    proof (intro allI impI)
      fix u' v' assume "v = u' @ d # v'"
      then have "x = (u @ d # u') @ d # v'" using x(1) by simp
      then have "last (u @ d # u') \<noteq> d \<and> v' \<noteq> []" using 1(3) by blast
      then show "u' \<noteq> [] \<and> last u' \<noteq> d \<and> v' \<noteq> []" by (cases "u' = []") auto
    qed
    moreover have dv: "drop (Suc (length ?u)) x = v" using x by simp
    ultimately have "celems d v = Suc (count_list v d)"
      using 1(1) [OF refl] False u vne x(3) by simp
    moreover have "count_list x d = Suc (count_list v d)" using x(1,2) by (simp add: count_list_0_iff)
    ultimately show ?thesis using False u dv x(3) by (simp add: celems.simps [of d x])
  qed
qed

text \<open>\<open>"a,,b"\<close> has three elements.\<close>

lemma strcelem_empty_element: "cl_strcelem [0x61, 0x2C, 0x2C, 0x62, 0] (Some 0) 0x2C = Some 2"
proof -
  have "cl_strcelem [0x61, 0x2C, 0x2C, 0x62, 0] (Some 0) 0x2C = Some (of_nat (celems 0x2C [0x61, 0x2C, 0x2C, 0x62]))"
    by (rule cl_strcelem_run [of _ _ _ "[]"]) simp_all
  then show ?thesis by (simp add: celems.simps)
qed


section \<open>Trimming\<close>

text \<open>The string without white space at either end.\<close>

definition trim :: "u8 list \<Rightarrow> u8 list" where
  "trim x = rev (dropWhile isspace (rev (dropWhile isspace x)))"

lemma isspace_0 [simp]: "\<not> isspace 0"
  by (simp add: isspace_def)

lemma trim_split:
  obtains w z where "x = w @ trim x @ z" "\<forall>a \<in> set w. isspace a" "\<forall>a \<in> set z. isspace a"
    "trim x \<noteq> [] \<longrightarrow> \<not> isspace (hd (trim x)) \<and> \<not> isspace (last (trim x))"
    "trim x = [] \<longleftrightarrow> (\<forall>a \<in> set x. isspace a)"
proof -
  let ?y = "dropWhile isspace x"
  let ?z = "rev (takeWhile isspace (rev ?y))"
  have y: "?y = trim x @ ?z"
    unfolding trim_def by (metis rev_append rev_rev_ident takeWhile_dropWhile_id)
  have x: "x = takeWhile isspace x @ ?y" by simp
  have all: "trim x = [] \<longleftrightarrow> (\<forall>a \<in> set x. isspace a)"
    by (auto simp: trim_def dropWhile_eq_Nil_conv dest: set_dropWhileD)
      (metis dropWhile_eq_Nil_conv hd_dropWhile hd_in_set)
  show thesis
  proof (rule that [of "takeWhile isspace x" ?z])
    show "x = takeWhile isspace x @ trim x @ ?z" using x y by simp
    show "\<forall>a \<in> set (takeWhile isspace x). isspace a" "\<forall>a \<in> set ?z. isspace a"
      by (auto dest: set_takeWhileD)
    show "trim x = [] \<longleftrightarrow> (\<forall>a \<in> set x. isspace a)" using all .
    show "trim x \<noteq> [] \<longrightarrow> \<not> isspace (hd (trim x)) \<and> \<not> isspace (last (trim x))"
    proof
    assume ne: "trim x \<noteq> []"
    have yne: "?y \<noteq> []"
    proof
      assume "?y = []"
      then have "trim x = []" by (simp only: trim_def rev.simps dropWhile.simps)
      with ne show False ..
    qed
    then have "\<not> isspace (hd ?y)" by (rule hd_dropWhile)
    then have h: "\<not> isspace (hd (trim x))" using y ne by (metis hd_append)
    have "dropWhile isspace (rev ?y) \<noteq> []" using ne by (simp add: trim_def)
    then have "\<not> isspace (hd (dropWhile isspace (rev ?y)))" by (rule hd_dropWhile)
    then have "\<not> isspace (last (trim x))" using ne by (simp add: trim_def last_rev)
    with h show "\<not> isspace (hd (trim x)) \<and> \<not> isspace (last (trim x))" by simp
    qed
  qed
qed

lemma trim_start_run:
  "drop (s + i) mem = w @ y @ 0 # r \<Longrightarrow> \<forall>a \<in> set w. isspace a \<Longrightarrow> 0 \<notin> set y \<Longrightarrow>
   y = [] \<or> \<not> isspace (hd y) \<Longrightarrow>
   trim_start mem s i = Some (if y = [] then None else Some (i + length w))"
proof (induction w arbitrary: i)
  case Nil
  have "array_get mem (s + i) = Some (hd (y @ [0]))"
    using Nil.prems(1) by (intro get_drop [of _ _ _ "tl (y @ 0 # r)"]) (cases y; simp)
  then show ?case using Nil.prems(3,4)
    by (cases y) (auto simp: trim_start.simps [of mem s i])
next
  case (Cons a w)
  have "trim_start mem s (Suc i) = Some (if y = [] then None else Some (Suc i + length w))"
    using Cons.prems drop_next [of "s + i" mem a] by (intro Cons.IH) simp_all
  moreover have "a \<noteq> 0" using Cons.prems(2) by auto
  ultimately show ?case using Cons.prems(2) get_drop [of "s + i" mem a "w @ y @ 0 # r"] Cons.prems(1)
    by (simp add: trim_start.simps [of mem s i])
qed

text \<open>The cut: from the end of the string down over white space to the last other character.\<close>

lemma trim_end_run:
  assumes "\<And>j. i \<le> j \<Longrightarrow> j < i + k \<Longrightarrow> array_get mem (s + j) \<noteq> None \<and> isspace (mem ! (s + j))"
    and "0 < i" "s + i < length mem" "\<not> isspace (mem ! (s + i - 1))" "startIndex < i"
  shows "trim_end mem s startIndex len (i + k) = Some (mem[s + i := 0], i)"
  using assms(1)
proof (induction k)
  case 0
  obtain j where i: "i = Suc j" using assms(2) by (cases i) auto
  then show ?case using assms(3-5) by simp
next
  case (Suc k)
  have "array_get mem (s + (i + k)) = Some (mem ! (s + (i + k)))" "isspace (mem ! (s + (i + k)))"
    using Suc.prems [of "i + k"] by (auto simp: array_get_def split: if_splits)
  then show ?case using Suc assms(5) by simp
qed

lemma cl_strtrim_run:
  assumes x: "drop s mem = x @ 0 # r" "0 \<notin> set x" and big: "length mem < 2 ^ 32"
    and room: "s + 2 * length x \<le> length mem"
  shows "\<exists>mem'. cl_strtrim mem (Some s) = Some mem' \<and> cstr (drop s mem') = trim x \<and>
    take s mem' = take s mem \<and> length mem' = length mem"
proof -
  obtain w z where wz: "x = w @ trim x @ z" "\<forall>a \<in> set w. isspace a" "\<forall>a \<in> set z. isspace a"
    "trim x \<noteq> [] \<longrightarrow> \<not> isspace (hd (trim x)) \<and> \<not> isspace (last (trim x))"
    "trim x = [] \<longleftrightarrow> (\<forall>a \<in> set x. isspace a)" using trim_split [of x] .
  let ?t = "trim x"
  have t0: "0 \<notin> set ?t" using x(2) wz(1) by (metis UnCI set_append)
  have sl: "s \<le> length mem" using x(1) by (cases "s \<le> length mem") auto
  then have m: "mem = take s mem @ x @ 0 # r" using x(1) append_take_drop_id [of s mem] by simp
  have len: "length mem = s + length x + 1 + length r" using arg_cong [OF m, of length] sl by simp
  show ?thesis
  proof (cases "?t = []")
    case True
    then have "\<forall>a \<in> set x. isspace a" using wz(5) by simp
    then have st: "trim_start mem s 0 = Some None" using trim_start_run [of s 0 mem x "[]" r] x(1) by simp
    have "s < length mem" using len by simp
    then have "cl_strtrim mem (Some s) = Some (mem[s := 0])" using st by (simp add: cl_strtrim_def)
    moreover have "drop s (mem[s := 0]) = 0 # drop (Suc s) mem"
      using \<open>s < length mem\<close> by (simp add: drop_update_swap Cons_nth_drop_Suc [symmetric])
    then have "cstr (drop s (mem[s := 0])) = []" by (simp add: cstr_def)
    ultimately show ?thesis using True by auto
  next
    case False
    have wl: "drop (s + 0) mem = w @ (?t @ z) @ 0 # r" using x(1) wz(1) by simp
    have z0: "0 \<notin> set z" using wz(3) by auto
    have h: "\<not> isspace (hd (?t @ z))" using False wz(4) by simp
    have st: "trim_start mem s 0 = Some (Some (length w))"
      using trim_start_run [OF wl wz(2)] t0 z0 h False by simp
    have sl0: "strlen_loop mem s 0 = Some (length x)" using strlen_loop_run [of s 0 mem x r] x by simp
    let ?i = "length w + length ?t" and ?k = "length z"
    have lx: "length x = ?i + ?k" using arg_cong [OF wz(1), of length] by simp
    have nth: "mem ! (s + j) = x ! j" if "j < length x" for j
      using that sl by (subst m) (simp add: nth_append)
    have ends: "trim_end mem s (length w) (length x) (?i + ?k) = Some (mem[s + ?i := 0], ?i)"
    proof (rule trim_end_run)
      fix j assume j: "?i \<le> j" "j < ?i + ?k"
      then have "x ! j = z ! (j - ?i)" by (subst wz(1)) (auto simp: nth_append add.commute)
      moreover have "z ! (j - ?i) \<in> set z" using j by simp
      ultimately have "isspace (mem ! (s + j))" using nth [of j] j lx wz(3) by simp
      then show "array_get mem (s + j) \<noteq> None \<and> isspace (mem ! (s + j))"
        using j lx len by (simp add: array_get_def)
    next
      show "0 < ?i" "length w < ?i" using False by simp_all
      show "s + ?i < length mem" using len lx by simp
      have "x ! (?i - 1) = last ?t"
      proof -
        have "(w @ ?t) ! (length (w @ ?t) - 1) = last (w @ ?t)"
          using False by (intro last_conv_nth [symmetric]) simp
        moreover have "x ! (?i - 1) = ((w @ ?t) @ z) ! (?i - 1)" using wz(1) by simp
        moreover have "?i - 1 < length (w @ ?t)" using False by (simp add: diff_less)
        ultimately show ?thesis using False by (simp only: nth_append if_True length_append last_appendR simp_thms)
      qed
      moreover have "0 < length ?t" using False by simp
      then have "?i - 1 < length x" using lx by linarith
      ultimately have "mem ! (s + (?i - 1)) = last ?t" using nth [of "?i - 1"] by simp
      moreover have "s + ?i - 1 = s + (?i - 1)" using \<open>0 < length ?t\<close> by linarith
      ultimately show "\<not> isspace (mem ! (s + ?i - 1))" using wz(4) False by simp
    qed
    let ?m = "mem[s + ?i := 0]"
    have cut: "?m = take s mem @ w @ ?t @ 0 # drop (s + ?i + 1) mem"
    proof -
      have d: "mem = (take s mem @ w @ ?t) @ drop (s + ?i) mem"
      proof -
        have "take ?i x = w @ ?t" by (subst wz(1)) simp
        moreover have "take (s + ?i) mem = take s mem @ take ?i (drop s mem)" by (rule take_add)
        moreover have "take ?i (drop s mem) = take ?i x" unfolding x(1) using lx by simp
        ultimately show ?thesis using append_take_drop_id [of "s + ?i" mem] by simp
      qed
      have e: "drop (s + ?i) mem = mem ! (s + ?i) # drop (s + ?i + 1) mem"
        using len lx by (simp add: Cons_nth_drop_Suc)
      have l: "length (take s mem @ w @ ?t) = s + ?i" using sl by simp
      have "?m = ((take s mem @ w @ ?t) @ mem ! (s + ?i) # drop (s + ?i + 1) mem)[length (take s mem @ w @ ?t) := 0]"
        unfolding l using d e by simp
      then show ?thesis unfolding list_update_length by simp
    qed
    show ?thesis
    proof (cases "length w = 0")
      case True
      then have "cl_strtrim mem (Some s) = Some ?m"
        using st sl0 ends lx by (simp add: cl_strtrim_def)
      moreover have "drop s ?m = ?t @ 0 # drop (s + ?i + 1) mem" using cut True sl by simp
      ultimately show ?thesis using t0 by auto
    next
      case w0: False
      have n: "unat (of_nat ?i :: u64) = ?i"
        using len lx big by (intro unat_of_nat_small) simp
      have "cl_memmove ?m (Some s) (Some (s + length w)) (of_nat ?i) = Some (blit ?m s (s + length w) ?i)"
        using cl_memmove_copies [of "s + length w" "of_nat ?i :: u64" ?m s] n room lx len by simp
      then have run: "cl_strtrim mem (Some s) = Some (blit ?m s (s + length w) ?i)"
        using st sl0 ends lx False w0 by (simp add: cl_strtrim_def)
      have "drop (s + length w) ?m = ?t @ 0 # drop (s + ?i + 1) mem"
        unfolding cut using sl by simp
      then have "take ?i (drop (s + length w) ?m) = ?t @ 0 # take (length w - 1) (drop (s + ?i + 1) mem)"
        using w0 by (cases "length w") auto
      moreover have "length (take s mem) = s" using sl by simp
      ultimately have "drop s (blit ?m s (s + length w) ?i)
          = (?t @ 0 # take (length w - 1) (drop (s + ?i + 1) mem)) @ drop (s + ?i) ?m"
        unfolding blit_def using sl by simp
      then have "cstr (drop s (blit ?m s (s + length w) ?i)) = ?t" using t0 by simp
      moreover have "take s (blit ?m s (s + length w) ?i) = take s mem"
        unfolding blit_def using sl by simp
      moreover have "length (blit ?m s (s + length w) ?i) = length mem"
        using room lx len by (subst length_blit) simp_all
      ultimately show ?thesis using run by blast
    qed
  qed
qed

text \<open>The move at the end copies as many bytes as the string has up to its last character, so it
  reads behind the string: \<open>"  a"\<close> in a buffer of its own size.\<close>

lemma strtrim_overreads: "cl_strtrim [0x20, 0x20, 0x61, 0] (Some 0) = None"
  by code_simp
section \<open>Properties\<close>

lemma map_sint_eq: "map sint xs = map sint ys \<longleftrightarrow> xs = (ys :: u8 list)"
proof (rule inj_map_eq_map, rule injI)
  fix x y :: u8
  assume "sint x = sint y"
  then show "x = y" by (rule signed_word_eqI)
qed

text \<open>\<open>cl_strcmp\<close> answers 0 exactly for equal strings, -1 exactly when the first comes before
  the second in the lexicographic order of the signed character codes, 1 otherwise; swapping the
  operands negates the result, and whatever lies behind the terminators does not matter.\<close>

theorem strcmp_lexicographic:
  assumes "0 \<in> set b" "0 \<in> set c"
  shows "\<exists>v. cl_strcmp (Some b) (Some c) = Some v \<and> cl_strcmp (Some c) (Some b) = Some (- v) \<and>
    v \<in> {-1, 0, 1} \<and> (v = 0 \<longleftrightarrow> cstr b = cstr c) \<and>
    (v = -1 \<longleftrightarrow> ord_class.lexordp (map sint (cstr b)) (map sint (cstr c)))"
proof -
  let ?v = "lexcmp (map sint (cstr b)) (map sint (cstr c))"
  have "lexcmp xs ys \<in> {-1, 0, 1}" for xs ys by (induction xs ys rule: lexcmp.induct) auto
  moreover have "map sint (cstr b) = map sint (cstr c) \<longleftrightarrow> cstr b = cstr c"
    by (rule map_sint_eq)
  moreover have "lexcmp (map sint (cstr c)) (map sint (cstr b)) = - ?v" by (rule lexcmp_swap)
  ultimately show ?thesis
    using cl_strcmp_run(1) [OF assms] cl_strcmp_run(1) [OF assms(2,1)] lexcmp_eq lexcmp_less
    by (intro exI [of _ ?v]) metis
qed

lemma strcmp_lexicographic_witness:
  "\<exists>v. cl_strcmp (Some [0x61, 0x62, 0, 1]) (Some [0x61, 0x63, 0]) = Some v \<and>
    cl_strcmp (Some [0x61, 0x63, 0]) (Some [0x61, 0x62, 0, 1]) = Some (- v) \<and>
    v \<in> {-1, 0, 1} \<and> (v = 0 \<longleftrightarrow> cstr [0x61, 0x62, 0, 1] = cstr [0x61, 0x63, 0]) \<and>
    (v = -1 \<longleftrightarrow> ord_class.lexordp (map sint (cstr [0x61, 0x62, 0, 1])) (map sint (cstr [0x61, 0x63, 0])))"
  by (rule strcmp_lexicographic) simp_all

text \<open>With a length, two strings that agree on that many characters compare equal and strings
  that differ there compare as \<open>cl_strcmp\<close> does, but two equal strings that are shorter than the
  length are answered with -1.\<close>

theorem strncmp_short_equal:
  assumes "0 \<in> set b" "0 \<in> set c" "n \<noteq> 0"
  shows "cl_strncmp (Some b) (Some c) n
    = Some (if take (unat n) (cstr b) = take (unat n) (cstr c)
        then if length (cstr b) < unat n then -1 else 0
        else lexcmp (map sint (take (unat n) (cstr b))) (map sint (take (unat n) (cstr c))))"
proof -
  have self: "lexcmp z z = 0" for z by (simp add: lexcmp_eq)
  show ?thesis using cl_strncmp_run [OF assms] lexcmp_eq map_sint_eq
    by (cases "take (unat n) (cstr b) = take (unat n) (cstr c)") (simp_all only: self Let_def simp_thms if_True if_False)
qed

lemma strncmp_short_equal_witness:
  "cl_strncmp (Some [0x61, 0]) (Some [0x61, 0]) 4
    = Some (if take (unat (4 :: u32)) (cstr [0x61, 0]) = take (unat (4 :: u32)) (cstr [0x61, 0])
        then if length (cstr [0x61, 0]) < unat (4 :: u32) then -1 else 0
        else lexcmp (map sint (take (unat (4 :: u32)) (cstr [0x61, 0])))
          (map sint (take (unat (4 :: u32)) (cstr [0x61, 0]))))"
  by (rule strncmp_short_equal) simp_all

text \<open>\<open>cl_strncpy\<close> writes the first \<open>n\<close> characters of the string, or all of it when it is
  shorter, then one zero, and nothing else; the destination may overlap the source from below.\<close>

theorem strncpy_exact:
  assumes "drop src mem = x @ 0 # r" "0 \<notin> set x" "n \<noteq> 0"
    and "dst + min (unat n) (length x) < length mem" "dst \<le> src \<or> src + min (unat n) (length x) < dst"
  shows "cl_strncpy mem (Some dst) (Some src) n
    = Some (take dst mem @ take (unat n) x @ 0 # drop (dst + min (unat n) (length x) + 1) mem)"
  using assms by (rule cl_strncpy_run)

lemma strncpy_exact_witness:
  "cl_strncpy [9, 9, 9, 9, 5, 6, 7, 0] (Some 0) (Some 4) 2
    = Some (take 0 [9, 9, 9, 9, 5, 6, 7, 0] @ take (unat (2 :: u32)) [5, 6, 7] @ 0 #
        drop (0 + min (unat (2 :: u32)) (length [5 :: u8, 6, 7]) + 1) [9, 9, 9, 9, 5, 6, 7, 0])"
  by (rule strncpy_exact [of _ _ _ "[]"]) simp_all

text \<open>Calling \<open>cl_strtok_s\<close> until it answers NULL yields the pieces of the string between the
  delimiters, in order, empty ones included, each zero-terminated in place; a delimiter at the
  end starts no further piece.\<close>

theorem strtok_splits:
  assumes "0 \<in> set ds" "drop p mem = x @ 0 # r" "0 \<notin> set x" "length x < n"
  shows "strtok_all n mem (Some p) ds None = Some (tokens (set (cstr ds)) x)"
  using assms by (intro strtok_all_run) simp_all

lemma strtok_splits_witness:
  "strtok_all 8 [0x2F, 0x61, 0x2F, 0x62, 0] (Some 1) [0x2F, 0] None
    = Some (tokens (set (cstr [0x2F, 0])) [0x61, 0x2F, 0x62])"
  by (rule strtok_splits [of _ _ _ _ "[]"]) simp_all

text \<open>\<open>cl_strtrim\<close> leaves the string without the white space at its two ends, and writes
  nothing before it, provided that the buffer reaches as far behind the string as the string is
  long; with less room it reads out of bounds.\<close>

theorem strtrim_trims:
  assumes "drop s mem = x @ 0 # r" "0 \<notin> set x" "length mem < 2 ^ 32" "s + 2 * length x \<le> length mem"
  shows "\<exists>mem'. cl_strtrim mem (Some s) = Some mem' \<and> cstr (drop s mem') = trim x \<and>
    take s mem' = take s mem \<and> length mem' = length mem"
  using assms by (rule cl_strtrim_run)

lemma strtrim_trims_witness:
  "\<exists>mem'. cl_strtrim [1, 0x20, 0x61, 9, 0, 2, 2] (Some 1) = Some mem' \<and>
    cstr (drop 1 mem') = trim [0x20, 0x61, 9] \<and>
    take 1 mem' = take 1 [1, 0x20, 0x61, 9, 0, 2, 2] \<and> length mem' = length [1 :: u8, 0x20, 0x61, 9, 0, 2, 2]"
  by (rule strtrim_trims [of _ _ _ "[2, 2]"]) simp_all

end
