(* ===== verification/CL_Lock.thy ===== *)
theory CL_Lock
  imports CL_List CL_String
begin

text \<open>
  \<open>CommonLib/src/spinlock.c\<close>, \<open>monlock.c\<close> and \<open>lock_common.c\<close>: the spin lock, the lock that
  waits with MONITOR/MWAIT, and the choice between them.

  Two views of a spin lock. As one processor sees it with nobody else at work, each function is a
  step on the lock and the interrupt flag; the spin loop does not end while the lock is taken
  (\<open>None\<close>). As the machine runs it, many processors interleave at every access to the lock; that
  is the step relation \<open>sl_next\<close>, in which a processor that fails an ASSERT is \<open>Halted\<close>. A memory
  access that is one statement of the code is one step, and so are \<open>CpuIntrDisable\<close> and
  \<open>CpuIntrSetState\<close>; the pointers to the lock and to the saved state are not NULL.

  The processor (\<open>CpuGetCurrent\<close>, an address) and the return address that the lock records are
  arguments. The system data of the locks is the record \<open>lock_system\<close>: the lock that protects the
  list of all locks, and that list, whose cells are the \<open>AllList\<close> fields.
\<close>

section \<open>The operations on one lock\<close>

abbreviation (input) LOCK_FREE :: u8 where "LOCK_FREE \<equiv> 0"
abbreviation (input) LOCK_TAKEN :: u8 where "LOCK_TAKEN \<equiv> 1"

text \<open>The new value of the destination and the value it had.\<close>

definition AtomicCompareExchange :: "'a::len word \<Rightarrow> 'a word \<Rightarrow> 'a word \<Rightarrow> 'a word \<times> 'a word" where
  "AtomicCompareExchange destination exchange comparand =
     (if destination = comparand then exchange else destination, destination)"

record spinlock =
  State :: u8
  Holder :: u64
  FunctionWhichTookLock :: u64
  Name :: "u8 list"

definition zero_spinlock :: spinlock where
  "zero_spinlock = \<lparr>State = 0, Holder = 0, FunctionWhichTookLock = 0, Name = replicate 16 0\<rparr>"

partial_function (option) spin_loop :: "u8 \<Rightarrow> u8 option" where
  "spin_loop st =
     (let r = AtomicCompareExchange st LOCK_TAKEN LOCK_FREE in
      if snd r = LOCK_TAKEN then spin_loop (fst r) else Some (fst r))"

text \<open>What both locks do once they are out of their loop with the state \<open>st\<close>.\<close>

definition lock_taken_by :: "u64 \<Rightarrow> u64 \<Rightarrow> spinlock \<Rightarrow> u8 \<Rightarrow> spinlock option" where
  "lock_taken_by cpu ra l st = do {
     ASSERT (FunctionWhichTookLock l = 0);
     ASSERT (Holder l = 0);
     let l' = l\<lparr>State := st, Holder := cpu, FunctionWhichTookLock := ra\<rparr>;
     ASSERT (State l' = LOCK_TAKEN);
     Some l'
   }"

text \<open>The results are the lock, the interrupt flag and the flag that was saved.\<close>

definition SpinlockAcquire :: "u64 \<Rightarrow> u64 \<Rightarrow> spinlock \<Rightarrow> bool \<Rightarrow> (spinlock \<times> bool \<times> bool) option" where
  "SpinlockAcquire cpu ra l intr = do {
     ASSERT (cpu \<noteq> Holder l);
     st \<leftarrow> spin_loop (State l);
     l' \<leftarrow> lock_taken_by cpu ra l st;
     Some (l', False, intr)
   }"

definition SpinlockTryAcquire ::
  "u64 \<Rightarrow> u64 \<Rightarrow> spinlock \<Rightarrow> bool \<Rightarrow> (spinlock \<times> bool \<times> bool \<times> bool) option" where
  "SpinlockTryAcquire cpu ra l intr = do {
     let r = AtomicCompareExchange (State l) LOCK_TAKEN LOCK_FREE;
     let acquired = (snd r = LOCK_FREE);
     if \<not> acquired then Some (l\<lparr>State := fst r\<rparr>, intr, intr, acquired)
     else do {
       l' \<leftarrow> lock_taken_by cpu ra l (fst r);
       Some (l', False, intr, acquired)
     }
   }"

definition SpinlockIsOwner :: "u64 \<Rightarrow> spinlock \<Rightarrow> bool" where
  "SpinlockIsOwner cpu l \<longleftrightarrow> cpu = Holder l"

definition SpinlockRelease :: "u64 \<Rightarrow> spinlock \<Rightarrow> bool \<Rightarrow> bool \<Rightarrow> (spinlock \<times> bool) option" where
  "SpinlockRelease cpu l intr OldIntrState = do {
     ASSERT (cpu = Holder l);
     ASSERT (\<not> intr);
     Some (l\<lparr>Holder := 0, FunctionWhichTookLock := 0, State := LOCK_FREE\<rparr>, OldIntrState)
   }"

text \<open>The name is copied into the 16 bytes of the field; the source is another buffer.\<close>

definition SpinlockSetName :: "spinlock \<Rightarrow> u8 list \<Rightarrow> spinlock option" where
  "SpinlockSetName l name = do {
     n \<leftarrow> cl_strlen_s name (Some 0) 16;
     nm \<leftarrow> (if 15 < n then array_set (Name l) 15 0 else Some (Name l));
     let n' = (if 15 < n then 15 else n);
     m \<leftarrow> cl_strncpy (nm @ name) (Some 0) (Some (length nm)) n';
     Some (l\<lparr>Name := take (length nm) m\<rparr>)
   }"

section \<open>Monitor locks\<close>

record monitor_lock =
  Lock :: spinlock

partial_function (option) monitor_loop :: "u8 \<Rightarrow> u8 option" where
  "monitor_loop st =
     (let r = AtomicCompareExchange st LOCK_TAKEN LOCK_FREE in
      if snd r = LOCK_FREE then Some (fst r) else monitor_loop (fst r))"

declare spin_loop.simps [code] monitor_loop.simps [code]

definition MonitorLockAcquire ::
  "u64 \<Rightarrow> u64 \<Rightarrow> monitor_lock \<Rightarrow> bool \<Rightarrow> (monitor_lock \<times> bool \<times> bool) option" where
  "MonitorLockAcquire cpu ra m intr = do {
     ASSERT (cpu \<noteq> Holder (Lock m));
     st \<leftarrow> monitor_loop (State (Lock m));
     l' \<leftarrow> lock_taken_by cpu ra (Lock m) st;
     Some (m\<lparr>Lock := l'\<rparr>, False, intr)
   }"

definition MonitorLockTryAcquire ::
  "u64 \<Rightarrow> u64 \<Rightarrow> monitor_lock \<Rightarrow> bool \<Rightarrow> (monitor_lock \<times> bool \<times> bool \<times> bool) option" where
  "MonitorLockTryAcquire cpu ra m intr = do {
     let r = AtomicCompareExchange (State (Lock m)) LOCK_TAKEN LOCK_FREE;
     let acquired = (snd r = LOCK_FREE);
     if \<not> acquired then Some (m\<lparr>Lock := (Lock m)\<lparr>State := fst r\<rparr>\<rparr>, intr, intr, acquired)
     else do {
       l' \<leftarrow> lock_taken_by cpu ra (Lock m) (fst r);
       Some (m\<lparr>Lock := l'\<rparr>, False, intr, acquired)
     }
   }"

definition MonitorLockIsOwner :: "u64 \<Rightarrow> monitor_lock \<Rightarrow> bool" where
  "MonitorLockIsOwner cpu m \<longleftrightarrow> cpu = Holder (Lock m)"

definition MonitorLockRelease :: "u64 \<Rightarrow> monitor_lock \<Rightarrow> bool \<Rightarrow> bool \<Rightarrow> (monitor_lock \<times> bool) option" where
  "MonitorLockRelease cpu m intr OldIntrState = do {
     ASSERT (cpu = Holder (Lock m));
     ASSERT (\<not> intr);
     Some (m\<lparr>Lock := (Lock m)\<lparr>Holder := 0, FunctionWhichTookLock := 0, State := LOCK_FREE\<rparr>\<rparr>, OldIntrState)
   }"

definition MonitorLockSetName :: "monitor_lock \<Rightarrow> u8 list \<Rightarrow> monitor_lock option" where
  "MonitorLockSetName m name = do {
     n \<leftarrow> cl_strlen_s name (Some 0) 16;
     nm \<leftarrow> (if 15 < n then array_set (Name (Lock m)) 15 0 else Some (Name (Lock m)));
     let n' = (if 15 < n then 15 else n);
     b \<leftarrow> cl_strncpy (nm @ name) (Some 0) (Some (length nm)) n';
     Some (m\<lparr>Lock := (Lock m)\<lparr>Name := take (length nm) b\<rparr>\<rparr>)
   }"

section \<open>The list of all locks\<close>

text \<open>\<open>m_spinlockData\<close> and \<open>m_monitorLockData\<close>: a lock of type \<open>'l\<close> and the list of the locks. The
  list head and the cell of each lock are addresses.\<close>

record 'l lock_system =
  sys_Lock :: 'l
  sys_List :: u64
  sys_links :: list_mem

definition SpinlockSystemInit :: "u64 \<Rightarrow> list_mem \<Rightarrow> spinlock lock_system option" where
  "SpinlockSystemInit head m = do {
     m' \<leftarrow> InitializeListHead m head;
     Some \<lparr>sys_Lock = zero_spinlock\<lparr>State := LOCK_FREE\<rparr>, sys_List = head, sys_links = m'\<rparr>
   }"

text \<open>\<open>SpinlockInit\<close> and \<open>SpinlockDestroy\<close> return the system, the lock and the interrupt flag.
  \<open>cell\<close> is the address of the \<open>AllList\<close> field.\<close>

definition SpinlockInit ::
  "u64 \<Rightarrow> u64 \<Rightarrow> spinlock lock_system \<Rightarrow> u64 \<Rightarrow> bool \<Rightarrow> (spinlock lock_system \<times> spinlock \<times> bool) option" where
  "SpinlockInit cpu ra sys cell intr = do {
     let l = zero_spinlock\<lparr>State := LOCK_FREE\<rparr>;
     a \<leftarrow> SpinlockAcquire cpu ra (sys_Lock sys) intr;
     m \<leftarrow> InsertTailList (sys_links sys) (sys_List sys) cell;
     r \<leftarrow> SpinlockRelease cpu (fst a) (fst (snd a)) (snd (snd a));
     Some (sys\<lparr>sys_Lock := fst r, sys_links := m\<rparr>, l, snd r)
   }"

definition SpinlockDestroy ::
  "u64 \<Rightarrow> u64 \<Rightarrow> spinlock lock_system \<Rightarrow> u64 \<Rightarrow> bool \<Rightarrow> (spinlock lock_system \<times> spinlock \<times> bool) option" where
  "SpinlockDestroy cpu ra sys cell intr = do {
     a \<leftarrow> SpinlockAcquire cpu ra (sys_Lock sys) intr;
     m \<leftarrow> RemoveEntryList (sys_links sys) cell;
     r \<leftarrow> SpinlockRelease cpu (fst a) (fst (snd a)) (snd (snd a));
     Some (sys\<lparr>sys_Lock := fst r, sys_links := fst m\<rparr>, zero_spinlock, snd r)
   }"

definition MonitorLockSystemInit :: "u64 \<Rightarrow> list_mem \<Rightarrow> monitor_lock lock_system option" where
  "MonitorLockSystemInit head m = do {
     m' \<leftarrow> InitializeListHead m head;
     Some \<lparr>sys_Lock = \<lparr>Lock = zero_spinlock\<lparr>State := LOCK_FREE\<rparr>\<rparr>, sys_List = head, sys_links = m'\<rparr>
   }"

definition MonitorLockInit ::
  "u64 \<Rightarrow> u64 \<Rightarrow> monitor_lock lock_system \<Rightarrow> u64 \<Rightarrow> bool \<Rightarrow> (monitor_lock lock_system \<times> monitor_lock \<times> bool) option" where
  "MonitorLockInit cpu ra sys cell intr = do {
     let l = \<lparr>Lock = zero_spinlock\<lparr>State := LOCK_FREE\<rparr>\<rparr>;
     a \<leftarrow> MonitorLockAcquire cpu ra (sys_Lock sys) intr;
     m \<leftarrow> InsertTailList (sys_links sys) (sys_List sys) cell;
     r \<leftarrow> MonitorLockRelease cpu (fst a) (fst (snd a)) (snd (snd a));
     Some (sys\<lparr>sys_Lock := fst r, sys_links := m\<rparr>, l, snd r)
   }"

definition MonitorLockDestroy ::
  "u64 \<Rightarrow> u64 \<Rightarrow> monitor_lock lock_system \<Rightarrow> u64 \<Rightarrow> bool \<Rightarrow> (monitor_lock lock_system \<times> monitor_lock \<times> bool) option" where
  "MonitorLockDestroy cpu ra sys cell intr = do {
     a \<leftarrow> MonitorLockAcquire cpu ra (sys_Lock sys) intr;
     m \<leftarrow> RemoveEntryList (sys_links sys) cell;
     r \<leftarrow> MonitorLockRelease cpu (fst a) (fst (snd a)) (snd (snd a));
     Some (sys\<lparr>sys_Lock := fst r, sys_links := fst m\<rparr>, \<lparr>Lock = zero_spinlock\<rparr>, snd r)
   }"

text \<open>The answers of \<open>SpinlockSystemGetSpinlockList\<close> and \<open>MonitorLockSystemGetMonitorLockList\<close>: is
  it a spin lock, and the lock and the list head that the system uses.\<close>

definition SpinlockSystemGetSpinlockList :: "spinlock lock_system \<Rightarrow> bool \<times> spinlock \<times> u64" where
  "SpinlockSystemGetSpinlockList sys = (True, sys_Lock sys, sys_List sys)"

definition MonitorLockSystemGetMonitorLockList :: "monitor_lock lock_system \<Rightarrow> bool \<times> monitor_lock \<times> u64" where
  "MonitorLockSystemGetMonitorLockList sys = (False, sys_Lock sys, sys_List sys)"

section \<open>The choice of the lock\<close>

text \<open>\<open>LOCK\<close> is the union of the two; \<open>LockSystemInit\<close> sets the function pointers to one family
  and initialises its system. Both systems are static data.\<close>

datatype lock_union = SpinLock spinlock | MonitorLock monitor_lock

record lock_data =
  m_spinlockData :: "spinlock lock_system"
  m_monitorLockData :: "monitor_lock lock_system"

record lock_functions =
  LockSystemGetLockList :: "lock_data \<Rightarrow> bool \<times> lock_union \<times> u64"
  LockInit :: "u64 \<Rightarrow> u64 \<Rightarrow> lock_data \<Rightarrow> u64 \<Rightarrow> bool \<Rightarrow> (lock_data \<times> lock_union \<times> bool) option"
  LockSetName :: "lock_union \<Rightarrow> u8 list \<Rightarrow> lock_union option"
  LockAcquire :: "u64 \<Rightarrow> u64 \<Rightarrow> lock_union \<Rightarrow> bool \<Rightarrow> (lock_union \<times> bool \<times> bool) option"
  LockTryAcquire :: "u64 \<Rightarrow> u64 \<Rightarrow> lock_union \<Rightarrow> bool \<Rightarrow> (lock_union \<times> bool \<times> bool \<times> bool) option"
  LockIsOwner :: "u64 \<Rightarrow> lock_union \<Rightarrow> bool"
  LockRelease :: "u64 \<Rightarrow> lock_union \<Rightarrow> bool \<Rightarrow> bool \<Rightarrow> (lock_union \<times> bool) option"
  LockDestroy :: "u64 \<Rightarrow> u64 \<Rightarrow> lock_data \<Rightarrow> u64 \<Rightarrow> bool \<Rightarrow> (lock_data \<times> lock_union \<times> bool) option"

text \<open>The two members of the union begin with the same structure: each function may be called on
  either.\<close>

definition as_spin :: "lock_union \<Rightarrow> spinlock" where
  "as_spin u = (case u of SpinLock l \<Rightarrow> l | MonitorLock m \<Rightarrow> Lock m)"

definition as_monitor :: "lock_union \<Rightarrow> monitor_lock" where
  "as_monitor u = (case u of SpinLock l \<Rightarrow> \<lparr>Lock = l\<rparr> | MonitorLock m \<Rightarrow> m)"

definition in_spin_data :: "lock_data \<Rightarrow> spinlock lock_system \<times> spinlock \<times> bool \<Rightarrow> lock_data \<times> lock_union \<times> bool" where
  "in_spin_data d r = (d\<lparr>m_spinlockData := fst r\<rparr>, SpinLock (fst (snd r)), snd (snd r))"

definition in_monitor_data ::
  "lock_data \<Rightarrow> monitor_lock lock_system \<times> monitor_lock \<times> bool \<Rightarrow> lock_data \<times> lock_union \<times> bool" where
  "in_monitor_data d r = (d\<lparr>m_monitorLockData := fst r\<rparr>, MonitorLock (fst (snd r)), snd (snd r))"

definition monitor_functions :: lock_functions where
  "monitor_functions =
     \<lparr>LockSystemGetLockList = (\<lambda>d. map_prod id (map_prod MonitorLock id)
        (MonitorLockSystemGetMonitorLockList (m_monitorLockData d))),
      LockInit = (\<lambda>cpu ra d cell i. map_option (in_monitor_data d) (MonitorLockInit cpu ra (m_monitorLockData d) cell i)),
      LockSetName = (\<lambda>u name. map_option MonitorLock (MonitorLockSetName (as_monitor u) name)),
      LockAcquire = (\<lambda>cpu ra u i. map_option (map_prod MonitorLock id) (MonitorLockAcquire cpu ra (as_monitor u) i)),
      LockTryAcquire = (\<lambda>cpu ra u i. map_option (map_prod MonitorLock id) (MonitorLockTryAcquire cpu ra (as_monitor u) i)),
      LockIsOwner = (\<lambda>cpu u. MonitorLockIsOwner cpu (as_monitor u)),
      LockRelease = (\<lambda>cpu u i old. map_option (map_prod MonitorLock id) (MonitorLockRelease cpu (as_monitor u) i old)),
      LockDestroy = (\<lambda>cpu ra d cell i. map_option (in_monitor_data d) (MonitorLockDestroy cpu ra (m_monitorLockData d) cell i))\<rparr>"

definition spin_functions :: lock_functions where
  "spin_functions =
     \<lparr>LockSystemGetLockList = (\<lambda>d. map_prod id (map_prod SpinLock id)
        (SpinlockSystemGetSpinlockList (m_spinlockData d))),
      LockInit = (\<lambda>cpu ra d cell i. map_option (in_spin_data d) (SpinlockInit cpu ra (m_spinlockData d) cell i)),
      LockSetName = (\<lambda>u name. map_option SpinLock (SpinlockSetName (as_spin u) name)),
      LockAcquire = (\<lambda>cpu ra u i. map_option (map_prod SpinLock id) (SpinlockAcquire cpu ra (as_spin u) i)),
      LockTryAcquire = (\<lambda>cpu ra u i. map_option (map_prod SpinLock id) (SpinlockTryAcquire cpu ra (as_spin u) i)),
      LockIsOwner = (\<lambda>cpu u. SpinlockIsOwner cpu (as_spin u)),
      LockRelease = (\<lambda>cpu u i old. map_option (map_prod SpinLock id) (SpinlockRelease cpu (as_spin u) i old)),
      LockDestroy = (\<lambda>cpu ra d cell i. map_option (in_spin_data d) (SpinlockDestroy cpu ra (m_spinlockData d) cell i))\<rparr>"

definition LockSystemInit :: "bool \<Rightarrow> lock_data \<Rightarrow> (lock_functions \<times> lock_data) option" where
  "LockSystemInit MonitorSupport d =
     (if MonitorSupport then do {
        s \<leftarrow> MonitorLockSystemInit (sys_List (m_monitorLockData d)) (sys_links (m_monitorLockData d));
        Some (monitor_functions, d\<lparr>m_monitorLockData := s\<rparr>)
      }
      else do {
        s \<leftarrow> SpinlockSystemInit (sys_List (m_spinlockData d)) (sys_links (m_spinlockData d));
        Some (spin_functions, d\<lparr>m_spinlockData := s\<rparr>)
      })"

text \<open>The table that the initialisation installs.\<close>

definition lock_table :: "bool \<Rightarrow> lock_functions" where
  "lock_table mon = (if mon then monitor_functions else spin_functions)"

lemma LockSystemInit_table: "LockSystemInit mon d = Some (fs, d') \<Longrightarrow> fs = lock_table mon"
  by (auto simp: LockSystemInit_def lock_table_def bind_Some split: if_splits)

section \<open>One processor\<close>

text \<open>While the lock is taken the loops do not end.\<close>

lemma spin_loop_free: "spin_loop 0 = Some 1"
  by (simp add: spin_loop.simps AtomicCompareExchange_def)

lemma spin_loop_returns: "spin_loop st = Some y \<Longrightarrow> st \<noteq> 1"
  by (rule spin_loop.raw_induct [where P = "\<lambda>st y. st \<noteq> 1"])
    (auto simp: AtomicCompareExchange_def Let_def split: if_splits)

lemma spin_loop_taken: "spin_loop 1 = None"
  using spin_loop_returns [of 1] by (cases "spin_loop 1") auto

lemma monitor_loop_free: "monitor_loop 0 = Some 1"
  by (simp add: monitor_loop.simps AtomicCompareExchange_def)

lemma monitor_loop_returns: "monitor_loop st = Some y \<Longrightarrow> st = 0"
  by (rule monitor_loop.raw_induct [where P = "\<lambda>st y. st = 0"])
    (auto simp: AtomicCompareExchange_def Let_def split: if_splits)

lemma monitor_loop_taken: "monitor_loop 1 = None"
  using monitor_loop_returns [of 1] by (cases "monitor_loop 1") auto

text \<open>A lock between two operations: taken exactly when it has a holder.\<close>

definition lock_ok :: "spinlock \<Rightarrow> bool" where
  "lock_ok l \<longleftrightarrow> (if Holder l = 0 then State l = LOCK_FREE \<and> FunctionWhichTookLock l = 0
     else State l = LOCK_TAKEN)"

definition lock_owner :: "spinlock \<Rightarrow> u64 option" where
  "lock_owner l = (if Holder l = 0 then None else Some (Holder l))"

definition held_by :: "u64 \<Rightarrow> u64 \<Rightarrow> spinlock \<Rightarrow> spinlock" where
  "held_by c ra l = l\<lparr>State := LOCK_TAKEN, Holder := c, FunctionWhichTookLock := ra\<rparr>"

definition freed :: "spinlock \<Rightarrow> spinlock" where
  "freed l = l\<lparr>Holder := 0, FunctionWhichTookLock := 0, State := LOCK_FREE\<rparr>"

lemma held_freed [simp]:
  "c \<noteq> 0 \<Longrightarrow> lock_ok (held_by c ra l)" "c \<noteq> 0 \<Longrightarrow> lock_owner (held_by c ra l) = Some c"
  "lock_ok (freed l)" "lock_owner (freed l) = None"
  by (simp_all add: lock_ok_def lock_owner_def held_by_def freed_def)

lemma lock_free: "lock_ok l \<Longrightarrow> lock_owner l = None \<Longrightarrow> Holder l = 0 \<and> State l = 0 \<and> FunctionWhichTookLock l = 0"
  by (simp add: lock_ok_def lock_owner_def split: if_splits)

lemma lock_held: "lock_ok l \<Longrightarrow> lock_owner l = Some d \<Longrightarrow> Holder l = d \<and> d \<noteq> 0 \<and> State l = 1"
  by (auto simp: lock_ok_def lock_owner_def split: if_splits)

lemma State_same: "State l = s \<Longrightarrow> l\<lparr>State := s\<rparr> = l"
  by (cases l) simp

lemma Lock_same: "m\<lparr>Lock := Lock m\<rparr> = m"
  by (cases m) simp

lemma taken_free:
  "lock_ok l \<Longrightarrow> lock_owner l = None \<Longrightarrow> lock_taken_by c ra l 1 = Some (held_by c ra l)"
  using lock_free [of l] by (simp add: lock_taken_by_def held_by_def)

lemma cas_free: "AtomicCompareExchange 0 1 0 = (1 :: u8, 0)" and cas_taken: "AtomicCompareExchange 1 1 0 = (1 :: u8, 1)"
  by (simp_all add: AtomicCompareExchange_def)

lemma spinlock_free:
  assumes "lock_ok l" "lock_owner l = None"
  shows "c \<noteq> 0 \<Longrightarrow> SpinlockAcquire c ra l intr = Some (held_by c ra l, False, intr)"
    "SpinlockTryAcquire c ra l intr = Some (held_by c ra l, False, intr, True)"
  using lock_free [OF assms] taken_free [OF assms]
  by (simp_all add: SpinlockAcquire_def SpinlockTryAcquire_def cas_free spin_loop_free)

lemma spinlock_taken:
  assumes "lock_ok l" "lock_owner l = Some d"
  shows "SpinlockAcquire c ra l intr = None" "SpinlockTryAcquire c ra l intr = Some (l, intr, intr, False)"
proof -
  note h = lock_held [OF assms]
  have "State l = 1" using h by simp
  then have "spin_loop (State l) = None" "AtomicCompareExchange (State l) 1 0 = (1, 1)" "l\<lparr>State := 1\<rparr> = l"
    by (simp_all only: spin_loop_taken cas_taken State_same)
  then show "SpinlockAcquire c ra l intr = None" "SpinlockTryAcquire c ra l intr = Some (l, intr, intr, False)"
    unfolding SpinlockAcquire_def SpinlockTryAcquire_def by (simp_all add: Let_def)
qed

lemma spinlock_release:
  assumes "c \<noteq> 0"
  shows "lock_owner l = Some c \<Longrightarrow> SpinlockRelease c l False old = Some (freed l, old)"
    "lock_owner l \<noteq> Some c \<Longrightarrow> SpinlockRelease c l intr old = None"
proof -
  have o: "lock_owner l = Some c \<longleftrightarrow> c = Holder l" using assms by (auto simp: lock_owner_def)
  show "lock_owner l = Some c \<Longrightarrow> SpinlockRelease c l False old = Some (freed l, old)"
    "lock_owner l \<noteq> Some c \<Longrightarrow> SpinlockRelease c l intr old = None"
    unfolding o by (simp_all add: SpinlockRelease_def freed_def)
qed

lemmas spinlock_run = spinlock_free spinlock_taken spinlock_release

text \<open>A monitor lock behaves as the spin lock in it.\<close>

lemma loops_agree: "st = 0 \<or> st = 1 \<Longrightarrow> monitor_loop st = spin_loop st"
  by (auto simp: spin_loop_free spin_loop_taken monitor_loop_free monitor_loop_taken)

lemma lock_ok_State: "lock_ok l \<Longrightarrow> State l = 0 \<or> State l = 1"
  by (simp add: lock_ok_def split: if_splits)

lemma monitor_is_spin:
  shows "lock_ok (Lock m) \<Longrightarrow> MonitorLockAcquire c ra m intr
      = map_option (map_prod (\<lambda>l. \<lparr>Lock = l\<rparr>) id) (SpinlockAcquire c ra (Lock m) intr)"
    "MonitorLockTryAcquire c ra m intr
      = map_option (map_prod (\<lambda>l. \<lparr>Lock = l\<rparr>) id) (SpinlockTryAcquire c ra (Lock m) intr)"
    "MonitorLockRelease c m intr old
      = map_option (map_prod (\<lambda>l. \<lparr>Lock = l\<rparr>) id) (SpinlockRelease c (Lock m) intr old)"
proof -
  have u: "m\<lparr>Lock := l\<rparr> = \<lparr>Lock = l\<rparr>" for l by (cases m) simp
  show "lock_ok (Lock m) \<Longrightarrow> MonitorLockAcquire c ra m intr
      = map_option (map_prod (\<lambda>l. \<lparr>Lock = l\<rparr>) id) (SpinlockAcquire c ra (Lock m) intr)"
    using loops_agree [OF lock_ok_State, of "Lock m"]
    by (simp add: MonitorLockAcquire_def SpinlockAcquire_def map_option_bind comp_def u)
  show "MonitorLockTryAcquire c ra m intr
      = map_option (map_prod (\<lambda>l. \<lparr>Lock = l\<rparr>) id) (SpinlockTryAcquire c ra (Lock m) intr)"
    by (simp add: MonitorLockTryAcquire_def SpinlockTryAcquire_def map_option_bind comp_def u Let_def)
  show "MonitorLockRelease c m intr old
      = map_option (map_prod (\<lambda>l. \<lparr>Lock = l\<rparr>) id) (SpinlockRelease c (Lock m) intr old)"
    by (simp add: MonitorLockRelease_def SpinlockRelease_def map_option_bind comp_def u)
qed

interpretation sl: lock lock_owner lock_ok "\<lambda>c. SpinlockAcquire c ra" "\<lambda>c. SpinlockTryAcquire c ra"
  SpinlockRelease "\<lambda>c. c \<noteq> 0" for ra
  by unfold_locales (simp_all add: spinlock_run)

interpretation ml: lock "\<lambda>m. lock_owner (Lock m)" "\<lambda>m. lock_ok (Lock m)" "\<lambda>c. MonitorLockAcquire c ra"
  "\<lambda>c. MonitorLockTryAcquire c ra" MonitorLockRelease "\<lambda>c. c \<noteq> 0" for ra
  by unfold_locales (simp_all add: monitor_is_spin spinlock_run)

text \<open>Whichever family \<open>LockSystemInit\<close> chooses, it meets the contract of a lock.\<close>

definition union_ok :: "bool \<Rightarrow> lock_union \<Rightarrow> bool" where
  "union_ok mon u \<longleftrightarrow> lock_ok (as_spin u) \<and> (mon \<longleftrightarrow> (\<exists>m. u = MonitorLock m))"

lemma as_simps [simp]:
  "as_spin (SpinLock l) = l" "as_spin (MonitorLock m) = Lock m"
  "as_monitor (MonitorLock m) = m" "as_monitor (SpinLock l) = \<lparr>Lock = l\<rparr>"
  by (simp_all add: as_spin_def as_monitor_def)

lemma union_okE:
  assumes "union_ok mon u"
  obtains (spin) l where "\<not> mon" "u = SpinLock l" "lock_ok l"
    | (monitor) m where "mon" "u = MonitorLock m" "lock_ok (Lock m)"
  using assms by (cases u) (auto simp: union_ok_def)

lemma union_same: "\<not> mon \<Longrightarrow> union_ok mon u \<Longrightarrow> u = SpinLock (as_spin u)"
  "mon \<Longrightarrow> union_ok mon u \<Longrightarrow> u = MonitorLock \<lparr>Lock = as_spin u\<rparr>"
  by (auto elim!: union_okE)

text \<open>Every operation of the table is the operation of the spin lock in the union.\<close>

definition rewrap :: "bool \<Rightarrow> spinlock \<Rightarrow> lock_union" where
  "rewrap mon l = (if mon then MonitorLock \<lparr>Lock = l\<rparr> else SpinLock l)"

lemma rewrap_simps [simp]: "as_spin (rewrap mon l) = l" "union_ok mon (rewrap mon l) \<longleftrightarrow> lock_ok l"
  by (auto simp: rewrap_def union_ok_def)

lemma rewrap_fun: "rewrap False = SpinLock" "rewrap True = (\<lambda>l. MonitorLock \<lparr>Lock = l\<rparr>)"
  by (simp_all add: rewrap_def fun_eq_iff)

lemma table_is_spin:
  assumes "union_ok mon u"
  shows "LockAcquire (lock_table mon) c ra u intr
      = map_option (map_prod (rewrap mon) id) (SpinlockAcquire c ra (as_spin u) intr)"
    "LockTryAcquire (lock_table mon) c ra u intr
      = map_option (map_prod (rewrap mon) id) (SpinlockTryAcquire c ra (as_spin u) intr)"
    "LockRelease (lock_table mon) c u intr old
      = map_option (map_prod (rewrap mon) id) (SpinlockRelease c (as_spin u) intr old)"
    "LockIsOwner (lock_table mon) c u = SpinlockIsOwner c (as_spin u)"
    "u = rewrap mon (as_spin u)" "lock_ok (as_spin u)"
  using assms
  by (auto elim!: union_okE simp: lock_table_def monitor_functions_def spin_functions_def monitor_is_spin rewrap_fun option.map_comp comp_def
      prod.map_comp MonitorLockIsOwner_def SpinlockIsOwner_def id_def)

interpretation lk: lock "\<lambda>u. lock_owner (as_spin u)" "union_ok mon" "\<lambda>c. LockAcquire (lock_table mon) c ra"
  "\<lambda>c. LockTryAcquire (lock_table mon) c ra" "LockRelease (lock_table mon)" "\<lambda>c. c \<noteq> 0" for mon ra
proof (unfold_locales, goal_cases)
  case (4 u c d intr)
  then show ?case using table_is_spin [OF 4(1)] by (simp add: spinlock_run)
qed (simp_all add: table_is_spin(1-3,6) spinlock_run)

section \<open>Many processors\<close>

text \<open>Where a processor is in the code. \<open>Acquiring\<close> is behind \<open>CpuIntrDisable\<close>, \<open>Entering\<close> behind the check that it
  does not hold the lock already, \<open>Trying\<close> behind \<open>CpuIntrDisable\<close> of \<open>SpinlockTryAcquire\<close> and \<open>Failed\<close> behind its
  exchange that found the lock taken; \<open>Won\<close> is behind a successful exchange, \<open>Checked1\<close> and \<open>Checked2\<close> behind
  the two assertions there, \<open>Owned1\<close> and \<open>Owned2\<close> behind the two stores, \<open>Inside\<close> behind the last assertion;
  \<open>Leaving0\<close> and \<open>Leaving1\<close> are behind the two assertions of the release, about the holder and the interrupt state,
  \<open>Leaving2\<close> to \<open>Leaving4\<close> behind the three stores.\<close>

datatype sl_pc = Outside | Acquiring | Entering | Trying | Failed | Won | Checked1 | Checked2 | Owned1 | Owned2 | Inside
  | Leaving0 | Leaving1 | Leaving2 | Leaving3 | Leaving4 | Halted

text \<open>A processor is at a point of the code, with interrupts on or off, and has a saved interrupt state; \<open>ra\<close> is what
  it records as the taker. Outside the functions it may turn interrupts on and off as it likes; a critical section leaves
  them off, and its \<open>SpinlockRelease\<close> is given the state that the acquisition has saved.\<close>

type_synonym sl_cpu = "sl_pc \<times> bool \<times> bool"

inductive sl_next :: "u64 \<Rightarrow> u64 \<Rightarrow> sl_cpu \<times> spinlock \<Rightarrow> sl_cpu \<times> spinlock \<Rightarrow> bool" for c ra where
  interrupts: "sl_next c ra ((Outside, i, old), l) ((Outside, i', old), l)"
| disable: "sl_next c ra ((Outside, i, old), l) ((Acquiring, False, i), l)"
| enter: "sl_next c ra ((Acquiring, i, old), l) ((if c \<noteq> Holder l then Entering else Halted, i, old), l)"
| exchange: "sl_next c ra ((Entering, i, old), l)
    ((if snd (AtomicCompareExchange (State l) LOCK_TAKEN LOCK_FREE) = LOCK_TAKEN then Entering else Won, i, old),
     l\<lparr>State := fst (AtomicCompareExchange (State l) LOCK_TAKEN LOCK_FREE)\<rparr>)"
| try_disable: "sl_next c ra ((Outside, i, old), l) ((Trying, False, i), l)"
| try_exchange: "sl_next c ra ((Trying, i, old), l)
    ((if snd (AtomicCompareExchange (State l) LOCK_TAKEN LOCK_FREE) = LOCK_FREE then Won else Failed, i, old),
     l\<lparr>State := fst (AtomicCompareExchange (State l) LOCK_TAKEN LOCK_FREE)\<rparr>)"
| try_restore: "sl_next c ra ((Failed, i, old), l) ((Outside, old, old), l)"
| check1: "sl_next c ra ((Won, i, old), l) ((if FunctionWhichTookLock l = 0 then Checked1 else Halted, i, old), l)"
| check2: "sl_next c ra ((Checked1, i, old), l) ((if Holder l = 0 then Checked2 else Halted, i, old), l)"
| own1: "sl_next c ra ((Checked2, i, old), l) ((Owned1, i, old), l\<lparr>Holder := c\<rparr>)"
| own2: "sl_next c ra ((Owned1, i, old), l) ((Owned2, i, old), l\<lparr>FunctionWhichTookLock := ra\<rparr>)"
| check3: "sl_next c ra ((Owned2, i, old), l) ((if State l = LOCK_TAKEN then Inside else Halted, i, old), l)"
| leave: "sl_next c ra ((Inside, i, old), l) ((if c = Holder l then Leaving0 else Halted, i, old), l)"
| leave0: "sl_next c ra ((Leaving0, i, old), l) ((if \<not> i then Leaving1 else Halted, i, old), l)"
| leave1: "sl_next c ra ((Leaving1, i, old), l) ((Leaving2, i, old), l\<lparr>Holder := 0\<rparr>)"
| leave2: "sl_next c ra ((Leaving2, i, old), l) ((Leaving3, i, old), l\<lparr>FunctionWhichTookLock := 0\<rparr>)"
| leave3: "sl_next c ra ((Leaving3, i, old), l) ((Leaving4, i, old), l\<lparr>State := LOCK_FREE\<rparr>)"
| restore: "sl_next c ra ((Leaving4, i, old), l) ((Outside, old, old), l)"

inductive sl_reach :: "(u64 \<Rightarrow> sl_cpu) \<times> spinlock \<Rightarrow> bool" where
  init: "\<forall>c. fst (pcs c) = Outside \<Longrightarrow> sl_reach (pcs, zero_spinlock)"
| step: "sl_reach (pcs, l) \<Longrightarrow> c \<noteq> 0 \<Longrightarrow> sl_next c ra (pcs c, l) (p, l') \<Longrightarrow> sl_reach (pcs(c := p), l')"

inductive_simps sl_next_simps [simp]:
  "sl_next c ra ((Outside, i, old), l) q" "sl_next c ra ((Acquiring, i, old), l) q" "sl_next c ra ((Entering, i, old), l) q"
  "sl_next c ra ((Trying, i, old), l) q" "sl_next c ra ((Failed, i, old), l) q" "sl_next c ra ((Won, i, old), l) q"
  "sl_next c ra ((Checked1, i, old), l) q" "sl_next c ra ((Checked2, i, old), l) q" "sl_next c ra ((Owned1, i, old), l) q"
  "sl_next c ra ((Owned2, i, old), l) q" "sl_next c ra ((Inside, i, old), l) q" "sl_next c ra ((Leaving0, i, old), l) q"
  "sl_next c ra ((Leaving1, i, old), l) q" "sl_next c ra ((Leaving2, i, old), l) q" "sl_next c ra ((Leaving3, i, old), l) q"
  "sl_next c ra ((Leaving4, i, old), l) q" "sl_next c ra ((Halted, i, old), l) q"

text \<open>From the successful exchange to the store that frees the lock, a processor has it.\<close>

definition has_lock :: "sl_cpu \<Rightarrow> bool" where
  "has_lock p \<longleftrightarrow> fst p \<notin> {Outside, Acquiring, Entering, Trying, Failed, Leaving4, Halted}"

text \<open>A processor that is all right: it has not failed an assertion, and has interrupts off wherever it is in the functions.\<close>

definition sl_fine :: "sl_cpu \<Rightarrow> bool" where
  "sl_fine p \<longleftrightarrow> fst p \<noteq> Halted \<and> (fst p = Outside \<or> \<not> fst (snd p))"

text \<open>What the fields hold while \<open>c\<close> has the lock and is at \<open>p\<close>.\<close>

definition fields_at :: "u64 \<Rightarrow> sl_cpu \<Rightarrow> spinlock \<Rightarrow> bool" where
  "fields_at c p l \<longleftrightarrow> State l = LOCK_TAKEN \<and>
     Holder l = (if fst p \<in> {Owned1, Owned2, Inside, Leaving0, Leaving1} then c else 0) \<and>
     (fst p \<in> {Won, Checked1, Checked2, Owned1, Leaving3} \<longrightarrow> FunctionWhichTookLock l = 0)"

definition sl_inv :: "(u64 \<Rightarrow> sl_cpu) \<times> spinlock \<Rightarrow> bool" where
  "sl_inv s \<longleftrightarrow> (\<forall>c. sl_fine (fst s c)) \<and> fst (fst s 0) = Outside \<and>
     ((\<forall>c. \<not> has_lock (fst s c)) \<and> State (snd s) = LOCK_FREE \<and> Holder (snd s) = 0 \<and> FunctionWhichTookLock (snd s) = 0 \<or>
      (\<exists>c. has_lock (fst s c) \<and> (\<forall>d. d \<noteq> c \<longrightarrow> \<not> has_lock (fst s d)) \<and> fields_at c (fst s c) (snd s)))"

lemmas sl_defs = has_lock_def sl_fine_def fields_at_def

text \<open>A step of the processor that has the lock, and one of a processor that has not.\<close>

lemma owner_step:
  assumes st: "sl_next c ra (p, l) (p', l')" and p: "has_lock p" "sl_fine p" "fields_at c p l" "c \<noteq> 0"
  shows "sl_fine p' \<and> (if has_lock p' then fields_at c p' l'
    else State l' = LOCK_FREE \<and> Holder l' = 0 \<and> FunctionWhichTookLock l' = 0)"
proof -
  obtain q i old where q: "p = (q, i, old)" by (rule prod_cases3)
  show ?thesis using st p unfolding q by (cases q) (simp_all add: sl_defs)
qed

lemma other_step:
  assumes st: "sl_next d ra (p, l) (p', l')" and p: "\<not> has_lock p" "sl_fine p" "fields_at c w l" "c \<noteq> d" "d \<noteq> 0"
  shows "\<not> has_lock p' \<and> sl_fine p' \<and> l' = l"
proof -
  obtain q i old where q: "p = (q, i, old)" by (rule prod_cases3)
  have "Holder l \<noteq> d" "State l = LOCK_TAKEN" using p(3-5) by (simp_all add: fields_at_def)
  then show ?thesis using st p(1,2) unfolding q
    by (cases q) (auto simp: has_lock_def sl_fine_def AtomicCompareExchange_def State_same)
qed

lemma free_step:
  assumes st: "sl_next c ra (p, l) (p', l')" and p: "\<not> has_lock p" "sl_fine p" "State l = LOCK_FREE" "Holder l = 0"
    "FunctionWhichTookLock l = 0" "c \<noteq> 0"
  shows "sl_fine p' \<and> (if has_lock p' then fields_at c p' l' else l' = l)"
proof -
  obtain q i old where q: "p = (q, i, old)" by (rule prod_cases3)
  show ?thesis using st p unfolding q by (cases q) (auto simp: sl_defs AtomicCompareExchange_def State_same)
qed

lemma sl_inv_free:
  "\<forall>c. sl_fine (pcs c) \<and> \<not> has_lock (pcs c) \<Longrightarrow> fst (pcs 0) = Outside \<Longrightarrow>
   State l = LOCK_FREE \<and> Holder l = 0 \<and> FunctionWhichTookLock l = 0 \<Longrightarrow> sl_inv (pcs, l)"
  unfolding sl_inv_def fst_conv snd_conv by blast

lemma sl_inv_own:
  "\<forall>c. sl_fine (pcs c) \<Longrightarrow> fst (pcs 0) = Outside \<Longrightarrow> has_lock (pcs w) \<Longrightarrow>
   \<forall>d. d \<noteq> w \<longrightarrow> \<not> has_lock (pcs d) \<Longrightarrow> fields_at w (pcs w) l \<Longrightarrow> sl_inv (pcs, l)"
  unfolding sl_inv_def fst_conv snd_conv by blast

lemma sl_step_inv:
  assumes inv: "sl_inv (pcs, l)" and c: "c \<noteq> 0" and st: "sl_next c ra (pcs c, l) (p, l')"
  shows "sl_inv (pcs(c := p), l')"
proof -
  have nh: "\<forall>d. sl_fine (pcs d)" and z: "fst (pcs 0) = Outside" using inv by (simp_all add: sl_inv_def)
  have z': "fst ((pcs(c := p)) 0) = Outside" using z c by simp
  have "(\<forall>d. \<not> has_lock (pcs d)) \<and> State l = LOCK_FREE \<and> Holder l = 0 \<and> FunctionWhichTookLock l = 0 \<or>
      (\<exists>w. has_lock (pcs w) \<and> (\<forall>d. d \<noteq> w \<longrightarrow> \<not> has_lock (pcs d)) \<and> fields_at w (pcs w) l)"
    using inv by (simp only: sl_inv_def fst_conv snd_conv)
  then consider (free) "\<forall>d. \<not> has_lock (pcs d)" "State l = LOCK_FREE" "Holder l = 0" "FunctionWhichTookLock l = 0"
    | (own) w where "has_lock (pcs w)" "\<forall>d. d \<noteq> w \<longrightarrow> \<not> has_lock (pcs d)" "fields_at w (pcs w) l"
    by blast
  then show ?thesis
  proof cases
    case free
    note fs = free_step [OF st spec [OF free(1)] spec [OF nh] free(2-4) c]
    show ?thesis
    proof (cases "has_lock p")
      case True
      then show ?thesis using fs free nh by (intro sl_inv_own [of _ c] z') simp_all
    next
      case False
      then show ?thesis using fs free nh by (intro sl_inv_free z') simp_all
    qed
  next
    case own
    show ?thesis
    proof (cases "c = w")
      case True
      have "has_lock (pcs c)" "sl_fine (pcs c)" "fields_at c (pcs c) l" using own(1,3) True nh by simp_all
      note os = owner_step [OF st this c]
      have ot: "\<forall>d. d \<noteq> c \<longrightarrow> \<not> has_lock (pcs d)" using own(2) True by simp
      show ?thesis
      proof (cases "has_lock p")
        case True
        then show ?thesis using os ot nh by (intro sl_inv_own [of _ c] z') simp_all
      next
        case False
        then show ?thesis using os ot nh by (intro sl_inv_free z') simp_all
      qed
    next
      case False
      then have "\<not> has_lock (pcs c)" "sl_fine (pcs c)" using own(2) nh by simp_all
      note ot = other_step [OF st this own(3) False [symmetric] c]
      show ?thesis using ot own nh False by (intro sl_inv_own [of _ w] z') simp_all
    qed
  qed
qed

lemma sl_reach_inv: "sl_reach s \<Longrightarrow> sl_inv s"
proof (induction rule: sl_reach.induct)
  case (init pcs)
  then show ?case by (simp add: sl_inv_def sl_defs zero_spinlock_def)
next
  case (step pcs l c ra p l')
  then show ?case by (intro sl_step_inv)
qed

text \<open>The functions of one processor are uninterrupted runs of its steps.\<close>

lemma rtranclp_steps:
  "r a b \<Longrightarrow> rtranclp r b c \<Longrightarrow> rtranclp r a c"
  by (rule converse_rtranclp_into_rtranclp)

lemma lock_taken_by_steps:
  assumes "lock_taken_by c ra l st = Some l'" "State l = st"
  shows "rtranclp (sl_next c ra) ((Won, i, old), l) ((Inside, i, old), l')"
proof -
  have k: "FunctionWhichTookLock l = 0" "Holder l = 0" "State l = 1"
    "l' = l\<lparr>Holder := c, FunctionWhichTookLock := ra\<rparr>"
    using assms State_same [of l] by (auto simp: lock_taken_by_def Let_def bind_Some)
  have "sl_next c ra ((Won, i, old), l) ((Checked1, i, old), l)" "sl_next c ra ((Checked1, i, old), l) ((Checked2, i, old), l)"
    "sl_next c ra ((Checked2, i, old), l) ((Owned1, i, old), l\<lparr>Holder := c\<rparr>)"
    "sl_next c ra ((Owned1, i, old), l\<lparr>Holder := c\<rparr>) ((Owned2, i, old), l')"
    "sl_next c ra ((Owned2, i, old), l') ((Inside, i, old), l')"
    using k by simp_all
  then show ?thesis by (meson rtranclp_steps rtranclp.rtrancl_refl)
qed

lemma spin_loop_value: "spin_loop st = Some y \<Longrightarrow> AtomicCompareExchange st 1 0 = (y, st) \<and> st \<noteq> 1"
proof -
  assume s: "spin_loop st = Some y"
  have ne: "st \<noteq> 1" using spin_loop_returns [OF s] .
  then have "spin_loop st = Some (fst (AtomicCompareExchange st 1 0))"
    by (subst spin_loop.simps) (simp add: AtomicCompareExchange_def)
  with s ne show ?thesis by (simp add: AtomicCompareExchange_def)
qed

lemma acquire_steps:
  assumes "SpinlockAcquire c ra l intr = Some (l', i, s)"
  shows "rtranclp (sl_next c ra) ((Outside, intr, old), l) ((Inside, i, s), l')"
proof -
  obtain st where st: "c \<noteq> Holder l" "spin_loop (State l) = Some st" "lock_taken_by c ra l st = Some l'" "i = False" "s = intr"
    using assms by (auto simp: SpinlockAcquire_def bind_Some)
  note x = spin_loop_value [OF st(2)]
  have t: "lock_taken_by c ra (l\<lparr>State := st\<rparr>) st = Some l'" using st(3) by (simp add: lock_taken_by_def Let_def)
  have "sl_next c ra ((Outside, intr, old), l) ((Acquiring, i, s), l)" using st(4,5) by simp
  moreover have "sl_next c ra ((Acquiring, i, s), l) ((Entering, i, s), l)" using st(1) by simp
  moreover have "sl_next c ra ((Entering, i, s), l) ((Won, i, s), l\<lparr>State := st\<rparr>)" using x by simp
  moreover have "rtranclp (sl_next c ra) ((Won, i, s), l\<lparr>State := st\<rparr>) ((Inside, i, s), l')"
    using lock_taken_by_steps [OF t] by simp
  ultimately show ?thesis by (meson rtranclp_steps)
qed

lemma release_steps:
  assumes "SpinlockRelease c l intr old = Some (l', i)"
  shows "rtranclp (sl_next c ra) ((Inside, intr, old), l) ((Outside, i, old), l')"
proof -
  have k: "c = Holder l" "\<not> intr" "i = old" "l' = l\<lparr>Holder := 0, FunctionWhichTookLock := 0, State := LOCK_FREE\<rparr>"
    using assms by (auto simp: SpinlockRelease_def bind_Some)
  have "sl_next c ra ((Inside, intr, old), l) ((Leaving0, intr, old), l)"
    "sl_next c ra ((Leaving0, intr, old), l) ((Leaving1, intr, old), l)"
    "sl_next c ra ((Leaving1, intr, old), l) ((Leaving2, intr, old), l\<lparr>Holder := 0\<rparr>)"
    "sl_next c ra ((Leaving2, intr, old), l\<lparr>Holder := 0\<rparr>) ((Leaving3, intr, old), l\<lparr>Holder := 0, FunctionWhichTookLock := 0\<rparr>)"
    "sl_next c ra ((Leaving3, intr, old), l\<lparr>Holder := 0, FunctionWhichTookLock := 0\<rparr>) ((Leaving4, intr, old), l')"
    "sl_next c ra ((Leaving4, intr, old), l') ((Outside, i, old), l')"
    using k by simp_all
  then show ?thesis by (meson rtranclp_steps rtranclp.rtrancl_refl)
qed

text \<open>A run of one processor is a run of the machine.\<close>

lemma sl_run:
  assumes "rtranclp (sl_next c ra) (p, l) (q, l')" "sl_reach (pcs, l)" "c \<noteq> 0" "pcs c = p"
  shows "sl_reach (pcs(c := q), l')"
  using assms(1)
proof (induction rule: rtranclp_induct2)
  case refl
  then show ?case using assms(2,4) by (simp add: fun_upd_idem)
next
  case (step q l' q2 l2)
  then have "sl_next c ra ((pcs(c := q)) c, l') (q2, l2)" by simp
  then have "sl_reach ((pcs(c := q))(c := q2), l2)" by (rule sl_reach.step [OF step.IH assms(3)])
  then show ?case by (simp only: fun_upd_upd)
qed

section \<open>The list of locks and the names\<close>

text \<open>Initialising a lock puts it on the list of all locks, whose own lock is free again.\<close>

lemma SpinlockInit_run:
  assumes "lock_ok (sys_Lock sys)" "lock_owner (sys_Lock sys) = None" "cpu \<noteq> 0"
    and l: "is_list (sys_links sys) (sys_List sys) cs" "cell \<notin> set (sys_List sys # cs)" "cell \<noteq> 0"
      "sys_links sys cell \<noteq> None"
  obtains sys' where "SpinlockInit cpu ra sys cell intr = Some (sys', zero_spinlock, intr)"
    "lock_ok (sys_Lock sys')" "lock_owner (sys_Lock sys') = None"
    "is_list (sys_links sys') (sys_List sys') (cs @ [cell])" "sys_List sys' = sys_List sys"
proof -
  obtain m where m: "InsertTailList (sys_links sys) (sys_List sys) cell = Some m"
    "is_list m (sys_List sys) (cs @ [cell])"
    using InsertTailList_list [OF l] by blast
  have z: "zero_spinlock\<lparr>State := LOCK_FREE\<rparr> = zero_spinlock" by (simp add: zero_spinlock_def)
  let ?sys = "sys\<lparr>sys_Lock := freed (held_by cpu ra (sys_Lock sys)), sys_links := m\<rparr>"
  have "SpinlockInit cpu ra sys cell intr = Some (?sys, zero_spinlock, intr)"
    using spinlock_free(1) [OF assms(1-3)] m(1) spinlock_release(1) [OF assms(3), of "held_by cpu ra (sys_Lock sys)"] assms(3)
    by (simp add: SpinlockInit_def z)
  then show thesis using m(2) by (intro that [of ?sys]) simp_all
qed

lemma SpinlockDestroy_run:
  assumes "lock_ok (sys_Lock sys)" "lock_owner (sys_Lock sys) = None" "cpu \<noteq> 0"
    and l: "is_list (sys_links sys) (sys_List sys) (us @ cell # vs)"
  obtains sys' where "SpinlockDestroy cpu ra sys cell intr = Some (sys', zero_spinlock, intr)"
    "lock_ok (sys_Lock sys')" "lock_owner (sys_Lock sys') = None"
    "is_list (sys_links sys') (sys_List sys') (us @ vs)" "sys_List sys' = sys_List sys"
proof -
  obtain m where m: "RemoveEntryList (sys_links sys) cell = Some (m, us @ vs = [])"
    "is_list m (sys_List sys) (us @ vs)"
    using RemoveEntryList_list [OF l] by blast
  let ?sys = "sys\<lparr>sys_Lock := freed (held_by cpu ra (sys_Lock sys)), sys_links := m\<rparr>"
  have "SpinlockDestroy cpu ra sys cell intr = Some (?sys, zero_spinlock, intr)"
    using spinlock_free(1) [OF assms(1-3)] m(1) spinlock_release(1) [OF assms(3), of "held_by cpu ra (sys_Lock sys)"] assms(3)
    by (simp add: SpinlockDestroy_def)
  then show thesis using m(2) by (intro that [of ?sys]) simp_all
qed

lemma SpinlockSetName_run:
  assumes "length (Name l) = 16" "name = x @ 0 # r" "0 \<notin> set x" "x \<noteq> []" "length x < 2 ^ 32"
  shows "SpinlockSetName l name
    = Some (l\<lparr>Name := take 15 x @ 0 # drop (min 15 (length x) + 1) (Name l)\<rparr>)"
proof -
  let ?n = "min 16 (length x)"
  have s: "cl_strlen_s name (Some 0) 16 = Some (of_nat ?n)"
    using strlen_s_loop_run [of 0 0 name x r 16] assms(2,3) by (simp add: cl_strlen_s_def)
  have u: "unat (of_nat k :: u32) = k" if "k \<le> 16" for k using that by (intro unat_of_nat_small) simp
  have c: "15 < (of_nat ?n :: u32) \<longleftrightarrow> 15 < length x"
    using u [of ?n] by (simp add: word_less_nat_alt)
  define nm where "nm = (if 15 < length x then (Name l)[15 := 0] else Name l)"
  define n' :: u32 where "n' = (if 15 < length x then 15 else of_nat ?n)"
  have nm: "length nm = 16" using assms(1) by (simp add: nm_def)
  have n': "unat n' = min 15 (length x)"
    using u [of ?n] u [of 15] by (auto simp: n'_def min_def)
  have n0: "n' \<noteq> 0" using n' assms(4) by (cases x) (auto simp: unat_eq_0 [symmetric])
  have "cl_strncpy (nm @ name) (Some 0) (Some 16) n'
    = Some (take 0 (nm @ name) @ take (unat n') x @ 0 # drop (0 + min (unat n') (length x) + 1) (nm @ name))"
    using nm n' n0 assms(2,3) by (intro cl_strncpy_run [of 16 _ x r]) simp_all
  then have cp: "cl_strncpy (nm @ name) (Some 0) (Some (length nm)) n'
    = Some (take 15 x @ 0 # drop (min 15 (length x) + 1) nm @ name)"
    using nm n' by (simp add: min_def)
  have d: "drop (min 15 (length x) + 1) nm = drop (min 15 (length x) + 1) (Name l)"
    using assms(1) by (simp add: nm_def)
  have "length (take 15 x @ 0 # drop (min 15 (length x) + 1) nm) = length nm" using nm by (simp add: min_def)
  then have "take (length nm) ((take 15 x @ 0 # drop (min 15 (length x) + 1) nm) @ name)
    = take 15 x @ 0 # drop (min 15 (length x) + 1) nm" by (metis append_eq_conv_conj)
  then have "take (length nm) (take 15 x @ 0 # drop (min 15 (length x) + 1) nm @ name)
    = take 15 x @ 0 # drop (min 15 (length x) + 1) (Name l)" using d by simp
  moreover have "(if 15 < (of_nat ?n :: u32) then array_set (Name l) 15 0 else Some (Name l)) = Some nm"
    using c assms(1) by (simp add: nm_def)
  moreover have "(if 15 < (of_nat ?n :: u32) then 15 else of_nat ?n) = n'" using c by (simp add: n'_def)
  ultimately show ?thesis unfolding SpinlockSetName_def s bind.bind_lunit Let_def using cp by simp
qed

text \<open>An empty name stops the system: the copy asserts that there is something to copy.\<close>

lemma SpinlockSetName_empty: "SpinlockSetName l (0 # r) = None"
proof -
  have "cl_strlen_s (0 # r) (Some 0) 16 = Some 0"
    using strlen_s_loop_run [of 0 0 "0 # r" "[]" r 16] by (simp add: cl_strlen_s_def)
  then show ?thesis by (simp add: SpinlockSetName_def cl_strncpy_def)
qed

section \<open>Properties\<close>

text \<open>C28: however the processors interleave, at every access to the lock and to their interrupt state, at most one of them is
  between a successful exchange and the store that frees the lock; while a processor is inside its critical section the lock
  is taken and names it as the holder; a processor that is in one of the functions or inside has interrupts off; and no
  processor ever fails an assertion of the lock, that of the release about the interrupt state included. The critical sections
  themselves leave interrupts off, outside them a processor turns them on and off as it likes.\<close>

theorem spinlock_mutual_exclusion:
  assumes "sl_reach (pcs, l)"
  shows "(\<forall>c d. has_lock (pcs c) \<and> has_lock (pcs d) \<longrightarrow> c = d) \<and>
    (\<forall>c. fst (pcs c) = Inside \<longrightarrow> State l = LOCK_TAKEN \<and> Holder l = c) \<and>
    (\<forall>c. fst (pcs c) \<noteq> Outside \<longrightarrow> \<not> fst (snd (pcs c))) \<and> (\<forall>c. fst (pcs c) \<noteq> Halted)"
proof -
  have inv: "sl_inv (pcs, l)" using assms by (rule sl_reach_inv)
  have "has_lock (pcs c)" if "fst (pcs c) = Inside" for c using that by (simp add: has_lock_def)
  moreover have "\<forall>c. fst (pcs c) \<noteq> Outside \<longrightarrow> \<not> fst (snd (pcs c))" "\<forall>c. fst (pcs c) \<noteq> Halted"
    using inv by (auto simp: sl_inv_def sl_fine_def)
  ultimately show ?thesis using inv unfolding sl_inv_def fst_conv snd_conv
    by (metis fields_at_def insertCI)
qed

text \<open>A processor with interrupts on takes the lock and waits for no one: it is inside with interrupts off.\<close>

lemma spinlock_mutual_exclusion_witness:
  "\<exists>pcs l. sl_reach (pcs, l) \<and> fst (pcs 7) = Inside \<and>
    ((\<forall>c d. has_lock (pcs c) \<and> has_lock (pcs d) \<longrightarrow> c = d) \<and>
     (\<forall>c. fst (pcs c) = Inside \<longrightarrow> State l = LOCK_TAKEN \<and> Holder l = c) \<and>
     (\<forall>c. fst (pcs c) \<noteq> Outside \<longrightarrow> \<not> fst (snd (pcs c))) \<and> (\<forall>c. fst (pcs c) \<noteq> Halted))"
proof -
  let ?pcs = "\<lambda>_ :: u64. (Outside, True, False)" and ?l = "zero_spinlock"
  have "sl_reach (?pcs(7 := q), l')" if "rtranclp (sl_next 7 9) (?pcs 7, ?l) (q, l')" for q l'
    using that by (rule sl_run) (auto intro: sl_reach.init)
  moreover have "rtranclp (sl_next 7 9) (?pcs 7, ?l) ((Inside, False, True), held_by 7 9 ?l)"
    by (rule acquire_steps, subst spinlock_free) (simp_all add: lock_ok_def lock_owner_def zero_spinlock_def)
  ultimately have r: "sl_reach (?pcs(7 := (Inside, False, True)), held_by 7 9 ?l)" by blast
  show ?thesis
    by (rule exI [of _ "?pcs(7 := (Inside, False, True))"], rule exI [of _ "held_by 7 9 ?l"], rule conjI [OF r])
      (rule conjI [OF _ spinlock_mutual_exclusion [OF r]], simp)
qed

text \<open>The functions of the lock are runs of these steps: from outside, a processor whose \<open>SpinlockAcquire\<close> returns gets
  inside with that lock and that interrupt state when nobody else moves, and its \<open>SpinlockRelease\<close> brings it back outside.\<close>

theorem spinlock_functions_are_runs:
  assumes "SpinlockAcquire c ra l intr = Some (l1, i1, old)" "SpinlockRelease c l2 i2 old2 = Some (l3, i3)"
  shows "rtranclp (sl_next c ra) ((Outside, intr, o1), l) ((Inside, i1, old), l1) \<and>
    rtranclp (sl_next c ra) ((Inside, i2, old2), l2) ((Outside, i3, old2), l3)"
  using acquire_steps [OF assms(1)] release_steps [OF assms(2)] by simp

lemma spinlock_functions_are_runs_witness:
  "rtranclp (sl_next 7 9) ((Outside, True, False), zero_spinlock) ((Inside, False, True), held_by 7 9 zero_spinlock) \<and>
   rtranclp (sl_next 7 9) ((Inside, False, True), held_by 7 9 zero_spinlock) ((Outside, True, True), freed (held_by 7 9 zero_spinlock))"
proof (rule spinlock_functions_are_runs)
  have "lock_ok zero_spinlock" "lock_owner zero_spinlock = None"
    by (simp_all add: lock_ok_def lock_owner_def zero_spinlock_def)
  then show "SpinlockAcquire 7 9 zero_spinlock True = Some (held_by 7 9 zero_spinlock, False, True)"
    by (simp add: spinlock_free)
  show "SpinlockRelease 7 (held_by 7 9 zero_spinlock) False True = Some (freed (held_by 7 9 zero_spinlock), True)"
    by (simp add: spinlock_release)
qed

text \<open>Whichever family of functions \<open>LockSystemInit\<close> installs, a critical section on a free
  lock runs its work exactly once, with interrupts off, and leaves the lock free and the interrupt
  flag as it was; while a processor holds the lock, every other one fails to take it and may not
  release it.\<close>

theorem lock_table_contract:
  assumes "LockSystemInit mon d0 = Some (fs, d1)" "union_ok mon u" "c \<noteq> 0" "lock_owner (as_spin u) = None" "work s = Some (s', r)"
  shows "(\<exists>u'. do {
       a \<leftarrow> LockAcquire fs c ra u intr;
       w \<leftarrow> work s;
       v \<leftarrow> LockRelease fs c (fst a) (fst (snd a)) (snd (snd a));
       Some (v, w)
     } = Some ((u', intr), (s', r)) \<and> union_ok mon u' \<and> lock_owner (as_spin u') = None) \<and>
    (\<exists>u1. LockAcquire fs c ra u intr = Some (u1, False, intr) \<and>
       (\<forall>d. d \<noteq> 0 \<and> d \<noteq> c \<longrightarrow> LockAcquire fs d ra u1 intr = None \<and>
          LockTryAcquire fs d ra u1 intr = Some (u1, intr, intr, False) \<and>
          LockRelease fs d u1 intr old = None))"
proof -
  have fs: "fs = lock_table mon" using LockSystemInit_table [OF assms(1)] .
  have cs: "\<exists>u'. do {
       a \<leftarrow> LockAcquire fs c ra u intr;
       w \<leftarrow> work s;
       v \<leftarrow> LockRelease fs c (fst a) (fst (snd a)) (snd (snd a));
       Some (v, w)
     } = Some ((u', intr), (s', r)) \<and> union_ok mon u' \<and> lock_owner (as_spin u') = None"
    using lk.critical_section [OF assms(2-4), of work s s' r] assms(5) unfolding fs by blast
  obtain u1 where u1: "LockAcquire fs c ra u intr = Some (u1, False, intr)"
    "union_ok mon u1" "lock_owner (as_spin u1) = Some c"
    using lk.acquire_free [OF assms(2-4)] unfolding fs by blast
  have "\<exists>u1. LockAcquire fs c ra u intr = Some (u1, False, intr) \<and>
       (\<forall>d. d \<noteq> 0 \<and> d \<noteq> c \<longrightarrow> LockAcquire fs d ra u1 intr = None \<and>
          LockTryAcquire fs d ra u1 intr = Some (u1, intr, intr, False) \<and>
          LockRelease fs d u1 intr old = None)"
    using lk.exclusive [OF u1(2) _ assms(3) u1(3)] u1(1) unfolding fs by blast
  then show ?thesis using cs by (rule conjI [rotated])
qed

lemma lock_table_contract_witness:
  "\<exists>d0 fs d1. LockSystemInit True d0 = Some (fs, d1) \<and> (\<exists>u'. do {
       a \<leftarrow> LockAcquire fs 7 9 (MonitorLock \<lparr>Lock = zero_spinlock\<rparr>) True;
       w \<leftarrow> Some (1 :: nat, ());
       v \<leftarrow> LockRelease fs 7 (fst a) (fst (snd a)) (snd (snd a));
       Some (v, w)
     } = Some ((u', True), (1, ())) \<and> union_ok True u' \<and> lock_owner (as_spin u') = None) \<and>
    (\<exists>u1. LockAcquire fs 7 9 (MonitorLock \<lparr>Lock = zero_spinlock\<rparr>) True = Some (u1, False, True) \<and>
       (\<forall>d. d \<noteq> 0 \<and> d \<noteq> 7 \<longrightarrow> LockAcquire fs d 9 u1 True = None \<and>
          LockTryAcquire fs d 9 u1 True = Some (u1, True, True, False) \<and>
          LockRelease fs d u1 True False = None))"
proof -
  let ?d0 = "\<lparr>m_spinlockData = \<lparr>sys_Lock = zero_spinlock, sys_List = 0x10, sys_links = Map.empty\<rparr>,
    m_monitorLockData = \<lparr>sys_Lock = \<lparr>Lock = zero_spinlock\<rparr>, sys_List = 0x20,
      sys_links = [0x20 \<mapsto> \<lparr>Flink = 0, Blink = 0\<rparr>]\<rparr>\<rparr>"
  obtain fs d1 where i: "LockSystemInit True ?d0 = Some (fs, d1)"
    by (auto simp: LockSystemInit_def MonitorLockSystemInit_def InitializeListHead_def set_Flink_def set_Blink_def)
  have "union_ok True (MonitorLock \<lparr>Lock = zero_spinlock\<rparr>)" "(7 :: u64) \<noteq> 0"
    "lock_owner (as_spin (MonitorLock \<lparr>Lock = zero_spinlock\<rparr>)) = None"
    by (simp_all add: union_ok_def lock_ok_def lock_owner_def zero_spinlock_def)
  note c = lock_table_contract [OF i this, of "\<lambda>_ :: nat. Some (1, ())" 0 1 "()" 9 True False]
  show ?thesis by (rule exI [of _ ?d0], rule exI [of _ fs], rule exI [of _ d1]) (rule conjI [OF i c], rule refl)
qed

text \<open>\<open>SpinlockSetName\<close> stores the first fifteen characters of a name that is not empty, zero
  terminated inside the sixteen bytes of the field, and changes nothing else.\<close>

theorem set_name_bounded:
  assumes "length (Name l) = 16" "name = x @ 0 # r" "0 \<notin> set x" "x \<noteq> []" "length x < 2 ^ 32"
  shows "\<exists>nm. SpinlockSetName l name = Some (l\<lparr>Name := nm\<rparr>) \<and> cstr nm = take 15 x \<and> length nm = 16"
proof -
  have "0 \<notin> set (take 15 x)" using assms(3) by (auto dest: in_set_takeD)
  then show ?thesis using SpinlockSetName_run [OF assms] assms(1)
    by (intro exI [of _ "take 15 x @ 0 # drop (min 15 (length x) + 1) (Name l)"]) (simp add: min_def)
qed

lemma set_name_bounded_witness:
  "\<exists>nm. SpinlockSetName zero_spinlock [0x61, 0x62, 0] = Some (zero_spinlock\<lparr>Name := nm\<rparr>) \<and>
    cstr nm = take 15 [0x61, 0x62] \<and> length nm = 16"
  by (rule set_name_bounded [of _ _ _ "[]"]) (simp_all add: zero_spinlock_def)

end
