(* ===== verification/CL_RwLock.thy ===== *)
theory CL_RwLock
  imports CL_Lock
begin

text \<open>
  \<open>CommonLib/src/rw_spinlock.c\<close> and \<open>rec_rw_spinlock.c\<close>: the reader-writer spin lock and its
  variant that a writer may take again. The three counters are WORDs that lie next to each other;
  a writer exchanges the DWORD of \<open>ActiveWriter\<close> and \<open>ActiveReaders\<close>, a reader the one of
  \<open>WaitingWriters\<close> and \<open>ActiveWriter\<close>, so that waiting writers keep new readers out.

  As for the spin lock there are two views: the functions as one processor runs them alone, and the
  step relation \<open>rw_next\<close> in which any number of processors, fewer than 65536, interleave at every
  access to the counters.
\<close>

section \<open>Operations\<close>

record rw_spinlock =
  WaitingWriters :: u16
  ActiveWriter :: u16
  ActiveReaders :: u16
  RwName :: "u8 list"

definition zero_rw_spinlock :: rw_spinlock where
  "zero_rw_spinlock = \<lparr>WaitingWriters = 0, ActiveWriter = 0, ActiveReaders = 0, RwName = replicate 16 0\<rparr>"

text \<open>Two WORDs as the DWORD at the address of the first.\<close>

definition dword_of :: "u16 \<Rightarrow> u16 \<Rightarrow> u32" where
  "dword_of lo hi = ucast lo OR push_bit 16 (ucast hi)"

definition lo_word :: "u32 \<Rightarrow> u16" where
  "lo_word v = ucast v"

definition hi_word :: "u32 \<Rightarrow> u16" where
  "hi_word v = ucast (drop_bit 16 v)"

text \<open>The two exchanges: the lock and the old value of the DWORD.\<close>

definition writer_exchange :: "rw_spinlock \<Rightarrow> rw_spinlock \<times> u32" where
  "writer_exchange l =
     (let r = AtomicCompareExchange (dword_of (ActiveWriter l) (ActiveReaders l)) 1 0 in
      (l\<lparr>ActiveWriter := lo_word (fst r), ActiveReaders := hi_word (fst r)\<rparr>, snd r))"

definition reader_exchange :: "rw_spinlock \<Rightarrow> rw_spinlock \<times> u32" where
  "reader_exchange l =
     (let pseudoActiveWriter = 0xFFFF + 1;
          r = AtomicCompareExchange (dword_of (WaitingWriters l) (ActiveWriter l)) pseudoActiveWriter 0 in
      (l\<lparr>WaitingWriters := lo_word (fst r), ActiveWriter := hi_word (fst r)\<rparr>, snd r))"

partial_function (option) writer_loop :: "rw_spinlock \<Rightarrow> rw_spinlock option" where
  "writer_loop l = (if snd (writer_exchange l) \<noteq> 0 then writer_loop (fst (writer_exchange l))
     else Some (fst (writer_exchange l)))"

partial_function (option) reader_loop :: "rw_spinlock \<Rightarrow> rw_spinlock option" where
  "reader_loop l = (if snd (reader_exchange l) \<noteq> 0 then reader_loop (fst (reader_exchange l))
     else Some (fst (reader_exchange l)))"

declare writer_loop.simps [code] reader_loop.simps [code]

definition RwSpinlockAcquire :: "rw_spinlock \<Rightarrow> bool \<Rightarrow> bool \<Rightarrow> (rw_spinlock \<times> bool \<times> bool) option" where
  "RwSpinlockAcquire l intr Exclusive =
     (if Exclusive then do {
        let l1 = l\<lparr>WaitingWriters := WaitingWriters l + 1\<rparr>;
        l2 \<leftarrow> writer_loop l1;
        Some (l2\<lparr>WaitingWriters := WaitingWriters l2 - 1\<rparr>, False, intr)
      }
      else do {
        l1 \<leftarrow> reader_loop l;
        let l2 = l1\<lparr>ActiveReaders := ActiveReaders l1 + 1\<rparr>;
        ASSERT (ActiveWriter l2 = 1);
        Some (l2\<lparr>ActiveWriter := ActiveWriter l2 - 1\<rparr>, False, intr)
      })"

definition RwSpinlockRelease :: "rw_spinlock \<Rightarrow> bool \<Rightarrow> bool \<Rightarrow> (rw_spinlock \<times> bool) option" where
  "RwSpinlockRelease l IntrState Exclusive =
     (if Exclusive then do {
        ASSERT (ActiveWriter l = 1);
        Some (l\<lparr>ActiveWriter := ActiveWriter l - 1\<rparr>, IntrState)
      }
      else Some (l\<lparr>ActiveReaders := ActiveReaders l - 1\<rparr>, IntrState))"

definition RwSpinlockSetName :: "rw_spinlock \<Rightarrow> u8 list \<Rightarrow> rw_spinlock option" where
  "RwSpinlockSetName l name = do {
     n \<leftarrow> cl_strlen_s name (Some 0) 16;
     nm \<leftarrow> (if 15 < n then array_set (RwName l) 15 0 else Some (RwName l));
     let n' = (if 15 < n then 15 else n);
     m \<leftarrow> cl_strncpy (nm @ name) (Some 0) (Some (length nm)) n';
     Some (l\<lparr>RwName := take (length nm) m\<rparr>)
   }"

definition RwSpinlockSystemInit :: "u64 \<Rightarrow> list_mem \<Rightarrow> rw_spinlock lock_system option" where
  "RwSpinlockSystemInit head m = do {
     m' \<leftarrow> InitializeListHead m head;
     Some \<lparr>sys_Lock = zero_rw_spinlock, sys_List = head, sys_links = m'\<rparr>
   }"

definition RwSpinlockSystemGetLockList :: "rw_spinlock lock_system \<Rightarrow> rw_spinlock \<times> u64" where
  "RwSpinlockSystemGetLockList sys = (sys_Lock sys, sys_List sys)"

definition RwSpinlockInit ::
  "rw_spinlock lock_system \<Rightarrow> u64 \<Rightarrow> bool \<Rightarrow> (rw_spinlock lock_system \<times> rw_spinlock \<times> bool) option" where
  "RwSpinlockInit sys cell intr = do {
     a \<leftarrow> RwSpinlockAcquire (sys_Lock sys) intr True;
     m \<leftarrow> InsertTailList (sys_links sys) (sys_List sys) cell;
     r \<leftarrow> RwSpinlockRelease (fst a) (snd (snd a)) True;
     Some (sys\<lparr>sys_Lock := fst r, sys_links := m\<rparr>, zero_rw_spinlock, snd r)
   }"

definition RwSpinlockDestroy ::
  "rw_spinlock lock_system \<Rightarrow> u64 \<Rightarrow> bool \<Rightarrow> (rw_spinlock lock_system \<times> rw_spinlock \<times> bool) option" where
  "RwSpinlockDestroy sys cell intr = do {
     a \<leftarrow> RwSpinlockAcquire (sys_Lock sys) intr True;
     m \<leftarrow> RemoveEntryList (sys_links sys) cell;
     r \<leftarrow> RwSpinlockRelease (fst a) (snd (snd a)) True;
     Some (sys\<lparr>sys_Lock := fst r, sys_links := fst m\<rparr>, zero_rw_spinlock, snd r)
   }"

section \<open>The recursive lock\<close>

record rec_rw_spinlock =
  RwSpinlock :: rw_spinlock
  CurrentRecursivityDepth :: u8
  MaxRecursivityDepth :: u8
  RecHolder :: u64

definition zero_rec_rw_spinlock :: rec_rw_spinlock where
  "zero_rec_rw_spinlock = \<lparr>RwSpinlock = zero_rw_spinlock, CurrentRecursivityDepth = 0,
     MaxRecursivityDepth = 0, RecHolder = 0\<rparr>"

definition RecRwSpinlockInit ::
  "rw_spinlock lock_system \<Rightarrow> u64 \<Rightarrow> bool \<Rightarrow> u8 \<Rightarrow> (rw_spinlock lock_system \<times> rec_rw_spinlock \<times> bool) option" where
  "RecRwSpinlockInit sys cell intr RecursivityDepth = do {
     let recursivityDepth = (if RecursivityDepth = 0 then 2 else RecursivityDepth);
     r \<leftarrow> RwSpinlockInit sys cell intr;
     Some (fst r, zero_rec_rw_spinlock\<lparr>RwSpinlock := fst (snd r), MaxRecursivityDepth := recursivityDepth\<rparr>,
           snd (snd r))
   }"

definition RecRwSpinlockSetName :: "rec_rw_spinlock \<Rightarrow> u8 list \<Rightarrow> rec_rw_spinlock option" where
  "RecRwSpinlockSetName l name = do {
     s \<leftarrow> RwSpinlockSetName (RwSpinlock l) name;
     Some (l\<lparr>RwSpinlock := s\<rparr>)
   }"

definition RecRwSpinlockAcquire ::
  "u64 \<Rightarrow> rec_rw_spinlock \<Rightarrow> bool \<Rightarrow> bool \<Rightarrow> (rec_rw_spinlock \<times> bool \<times> bool) option" where
  "RecRwSpinlockAcquire cpu l intr Exclusive =
     (if Exclusive \<and> RecHolder l = cpu then do {
        ASSERT (CurrentRecursivityDepth l < MaxRecursivityDepth l);
        Some (l\<lparr>CurrentRecursivityDepth := CurrentRecursivityDepth l + 1\<rparr>, False, intr)
      }
      else do {
        a \<leftarrow> RwSpinlockAcquire (RwSpinlock l) False Exclusive;
        ASSERT (RecHolder l = 0);
        ASSERT (CurrentRecursivityDepth l = 0);
        let l1 = l\<lparr>RwSpinlock := fst a\<rparr>;
        Some (if Exclusive then l1\<lparr>CurrentRecursivityDepth := 1, RecHolder := cpu\<rparr> else l1, False, intr)
      })"

definition RecRwSpinlockRelease ::
  "u64 \<Rightarrow> rec_rw_spinlock \<Rightarrow> bool \<Rightarrow> bool \<Rightarrow> bool \<Rightarrow> (rec_rw_spinlock \<times> bool) option" where
  "RecRwSpinlockRelease cpu l intr IntrState Exclusive = do {
     ASSERT (\<not> intr);
     ASSERT (Exclusive \<longrightarrow> cpu = RecHolder l);
     let l1 = (if Exclusive then l\<lparr>CurrentRecursivityDepth := CurrentRecursivityDepth l - 1\<rparr> else l);
     if CurrentRecursivityDepth l1 = 0 \<or> \<not> Exclusive then do {
       r \<leftarrow> RwSpinlockRelease (RwSpinlock l1) IntrState Exclusive;
       Some (l1\<lparr>RecHolder := 0, RwSpinlock := fst r\<rparr>, snd r)
     }
     else Some (l1, intr)
   }"

definition RecRwSpinlockDestroy ::
  "rw_spinlock lock_system \<Rightarrow> u64 \<Rightarrow> bool \<Rightarrow> (rw_spinlock lock_system \<times> rec_rw_spinlock \<times> bool) option" where
  "RecRwSpinlockDestroy sys cell intr = do {
     r \<leftarrow> RwSpinlockDestroy sys cell intr;
     Some (fst r, zero_rec_rw_spinlock, snd (snd r))
   }"

section \<open>One processor\<close>

lemma dword_words [simp]:
  "lo_word (dword_of lo hi) = lo" "hi_word (dword_of lo hi) = hi"
  by (auto simp: dword_of_def lo_word_def hi_word_def bit_simps impossible_bit intro!: bit_word_eqI)

lemma dword_of_0 [simp]: "dword_of lo hi = 0 \<longleftrightarrow> lo = 0 \<and> hi = 0"
proof
  assume d: "dword_of lo hi = 0"
  show "lo = 0 \<and> hi = 0" using dword_words [of lo hi] unfolding d by (simp add: lo_word_def hi_word_def)
qed (simp add: dword_of_def)

lemma word_parts [simp]: "lo_word 1 = 1" "hi_word 1 = 0" "lo_word 0x10000 = 0" "hi_word 0x10000 = 1"
  by (simp_all add: lo_word_def hi_word_def)

lemma same_fields:
  "l\<lparr>ActiveWriter := ActiveWriter l, ActiveReaders := ActiveReaders l\<rparr> = l"
  "l\<lparr>WaitingWriters := WaitingWriters l, ActiveWriter := ActiveWriter l\<rparr> = l"
  by (cases l; simp)+

lemma writer_exchange_eq:
  "writer_exchange l = (if ActiveWriter l = 0 \<and> ActiveReaders l = 0 then (l\<lparr>ActiveWriter := 1, ActiveReaders := 0\<rparr>, 0)
     else (l, dword_of (ActiveWriter l) (ActiveReaders l)))"
  by (auto simp: writer_exchange_def AtomicCompareExchange_def same_fields)

lemma reader_exchange_eq:
  "reader_exchange l = (if WaitingWriters l = 0 \<and> ActiveWriter l = 0 then (l\<lparr>WaitingWriters := 0, ActiveWriter := 1\<rparr>, 0)
     else (l, dword_of (WaitingWriters l) (ActiveWriter l)))"
  by (auto simp: reader_exchange_def AtomicCompareExchange_def same_fields)

lemma writer_loop_returns: "writer_loop l = Some y \<Longrightarrow> ActiveWriter l = 0 \<and> ActiveReaders l = 0"
  by (rule writer_loop.raw_induct [where P = "\<lambda>l y. ActiveWriter l = 0 \<and> ActiveReaders l = 0"])
    (auto simp: writer_exchange_eq split: if_splits)

lemma reader_loop_returns: "reader_loop l = Some y \<Longrightarrow> WaitingWriters l = 0 \<and> ActiveWriter l = 0"
  by (rule reader_loop.raw_induct [where P = "\<lambda>l y. WaitingWriters l = 0 \<and> ActiveWriter l = 0"])
    (auto simp: reader_exchange_eq split: if_splits)

lemma writer_loop_eq:
  "writer_loop l = (if ActiveWriter l = 0 \<and> ActiveReaders l = 0
     then Some (l\<lparr>ActiveWriter := 1, ActiveReaders := 0\<rparr>) else None)"
proof (cases "ActiveWriter l = 0 \<and> ActiveReaders l = 0")
  case True
  then show ?thesis by (subst writer_loop.simps) (simp add: writer_exchange_eq)
next
  case False
  then show ?thesis using writer_loop_returns [of l] by (cases "writer_loop l") auto
qed

lemma reader_loop_eq:
  "reader_loop l = (if WaitingWriters l = 0 \<and> ActiveWriter l = 0
     then Some (l\<lparr>WaitingWriters := 0, ActiveWriter := 1\<rparr>) else None)"
proof (cases "WaitingWriters l = 0 \<and> ActiveWriter l = 0")
  case True
  then show ?thesis by (subst reader_loop.simps) (simp add: reader_exchange_eq)
next
  case False
  then show ?thesis using reader_loop_returns [of l] by (cases "reader_loop l") auto
qed

text \<open>A writer gets in when there is no writer and no reader, a reader when there is no writer,
  active or waiting.\<close>

lemma RwSpinlockAcquire_run:
  "RwSpinlockAcquire l intr True = (if ActiveWriter l = 0 \<and> ActiveReaders l = 0
     then Some (l\<lparr>ActiveWriter := 1\<rparr>, False, intr) else None)"
  "RwSpinlockAcquire l intr False = (if WaitingWriters l = 0 \<and> ActiveWriter l = 0
     then Some (l\<lparr>ActiveReaders := ActiveReaders l + 1\<rparr>, False, intr) else None)"
  by (cases l; simp add: RwSpinlockAcquire_def writer_loop_eq reader_loop_eq)+

lemma RwSpinlockRelease_run:
  "ActiveWriter l = 1 \<Longrightarrow> RwSpinlockRelease l old True = Some (l\<lparr>ActiveWriter := 0\<rparr>, old)"
  "RwSpinlockRelease l old False = Some (l\<lparr>ActiveReaders := ActiveReaders l - 1\<rparr>, old)"
  by (simp_all add: RwSpinlockRelease_def)

section \<open>Many processors\<close>

text \<open>Where a processor is: \<open>WWaiting\<close> is behind the increment of \<open>WaitingWriters\<close>, \<open>WWon\<close> behind
  the exchange of a writer, \<open>WInside\<close> behind the decrement, \<open>WLeaving\<close> behind the assertion of the
  release; \<open>RTrying\<close> is in the loop of a reader, \<open>RWon\<close> behind its exchange, \<open>RCounted\<close> behind the
  increment of \<open>ActiveReaders\<close>, \<open>RChecked\<close> behind the assertion, \<open>RInside\<close> behind the decrement.\<close>

datatype rw_pc = RwOutside | WWaiting | WWon | WInside | WLeaving
  | RTrying | RWon | RCounted | RChecked | RInside | RwHalted

inductive rw_next :: "rw_pc \<times> rw_spinlock \<Rightarrow> rw_pc \<times> rw_spinlock \<Rightarrow> bool" where
  wait: "rw_next (RwOutside, l) (WWaiting, l\<lparr>WaitingWriters := WaitingWriters l + 1\<rparr>)"
| write_exchange: "rw_next (WWaiting, l)
    (if snd (writer_exchange l) \<noteq> 0 then WWaiting else WWon, fst (writer_exchange l))"
| waited: "rw_next (WWon, l) (WInside, l\<lparr>WaitingWriters := WaitingWriters l - 1\<rparr>)"
| write_check: "rw_next (WInside, l) (if ActiveWriter l = 1 then WLeaving else RwHalted, l)"
| write_leave: "rw_next (WLeaving, l) (RwOutside, l\<lparr>ActiveWriter := ActiveWriter l - 1\<rparr>)"
| try_read: "rw_next (RwOutside, l) (RTrying, l)"
| read_exchange: "rw_next (RTrying, l)
    (if snd (reader_exchange l) \<noteq> 0 then RTrying else RWon, fst (reader_exchange l))"
| read_count: "rw_next (RWon, l) (RCounted, l\<lparr>ActiveReaders := ActiveReaders l + 1\<rparr>)"
| read_check: "rw_next (RCounted, l) (if ActiveWriter l = 1 then RChecked else RwHalted, l)"
| confess: "rw_next (RChecked, l) (RInside, l\<lparr>ActiveWriter := ActiveWriter l - 1\<rparr>)"
| read_leave: "rw_next (RInside, l) (RwOutside, l\<lparr>ActiveReaders := ActiveReaders l - 1\<rparr>)"

text \<open>The processors of the machine are \<open>C\<close>.\<close>

inductive rw_reach :: "u64 set \<Rightarrow> (u64 \<Rightarrow> rw_pc) \<times> rw_spinlock \<Rightarrow> bool" for C where
  init: "rw_reach C (\<lambda>_. RwOutside, zero_rw_spinlock)"
| step: "rw_reach C (pcs, l) \<Longrightarrow> c \<in> C \<Longrightarrow> rw_next (pcs c, l) (p, l') \<Longrightarrow> rw_reach C (pcs(c := p), l')"

inductive_simps rw_next_simps [simp]:
  "rw_next (RwOutside, l) q" "rw_next (WWaiting, l) q" "rw_next (WWon, l) q" "rw_next (WInside, l) q"
  "rw_next (WLeaving, l) q" "rw_next (RTrying, l) q" "rw_next (RWon, l) q" "rw_next (RCounted, l) q"
  "rw_next (RChecked, l) q" "rw_next (RInside, l) q" "rw_next (RwHalted, l) q"

text \<open>What each counter counts: writers that wait, processors that pass for the active writer, true
  writers, readers.\<close>

definition is_waiting :: "rw_pc \<Rightarrow> bool" where "is_waiting p \<longleftrightarrow> p \<in> {WWaiting, WWon}"
definition is_writer :: "rw_pc \<Rightarrow> bool" where "is_writer p \<longleftrightarrow> p \<in> {WWon, WInside, WLeaving}"
definition is_active :: "rw_pc \<Rightarrow> bool" where
  "is_active p \<longleftrightarrow> p \<in> {WWon, WInside, WLeaving, RWon, RCounted, RChecked}"
definition is_reader :: "rw_pc \<Rightarrow> bool" where "is_reader p \<longleftrightarrow> p \<in> {RCounted, RChecked, RInside}"

text \<open>The counters \<open>ww\<close>, \<open>wr\<close>, \<open>ac\<close> and \<open>rd\<close> of the processors agree with those of the lock, and
  exclude one another.\<close>

definition rw_counts :: "nat \<Rightarrow> nat \<Rightarrow> nat \<Rightarrow> nat \<Rightarrow> rw_spinlock \<Rightarrow> bool" where
  "rw_counts ww wr ac rd l \<longleftrightarrow> unat (WaitingWriters l) = ww \<and> unat (ActiveWriter l) = ac \<and>
     unat (ActiveReaders l) = rd \<and> ac \<le> 1 \<and> (wr = 0 \<or> rd = 0)"

lemma unat_inc: "Suc (unat x) < 65536 \<Longrightarrow> unat (x + 1 :: u16) = Suc (unat x)"
  by (simp add: unat_add_small)

lemma unat_dec: "unat x = Suc n \<Longrightarrow> unat (x - 1 :: u16) = n"
  using unat_sub_small [of 1 x] by (auto simp: word_le_nat_alt)

lemma unat_is_1: "unat (x :: u16) = Suc 0 \<longleftrightarrow> x = 1"
  by (metis One_nat_def unsigned_1 word_unat_eq_iff)

text \<open>One step changes the counters by what its processor contributes.\<close>

abbreviation (input) counts_with :: "nat \<Rightarrow> nat \<Rightarrow> nat \<Rightarrow> nat \<Rightarrow> rw_pc \<Rightarrow> rw_spinlock \<Rightarrow> bool" where
  "counts_with ww wr ac rd p \<equiv> rw_counts (ww + of_bool (is_waiting p)) (wr + of_bool (is_writer p))
     (ac + of_bool (is_active p)) (rd + of_bool (is_reader p))"

lemmas rw_roles = is_waiting_def is_writer_def is_active_def is_reader_def

lemma rw_step_counts:
  assumes "rw_next (p, l) (p', l')" "p \<noteq> RwHalted" "counts_with ww wr ac rd p l" "wr \<le> ac" "ww < 65535" "rd < 65535"
  shows "p' \<noteq> RwHalted \<and> counts_with ww wr ac rd p' l'"
proof (cases p)
  case WWaiting
  then show ?thesis using assms
    by (cases "ActiveWriter l = 0 \<and> ActiveReaders l = 0")
      (simp_all add: rw_counts_def rw_roles writer_exchange_eq del: dword_of_0, simp_all)
next
  case WWon
  then show ?thesis using assms by (simp add: rw_counts_def rw_roles unat_dec)
next
  case WInside
  then have "unat (ActiveWriter l) = Suc 0" using assms by (simp add: rw_counts_def rw_roles)
  then show ?thesis using WInside assms by (simp add: rw_counts_def rw_roles unat_is_1)
next
  case WLeaving
  then have "unat (ActiveWriter l) = Suc 0" using assms by (simp add: rw_counts_def rw_roles)
  then show ?thesis using WLeaving assms by (simp add: rw_counts_def rw_roles unat_dec)
next
  case RTrying
  then show ?thesis using assms
    by (cases "WaitingWriters l = 0 \<and> ActiveWriter l = 0")
      (simp_all add: rw_counts_def rw_roles reader_exchange_eq)
next
  case RWon
  then show ?thesis using assms by (simp add: rw_counts_def rw_roles unat_inc)
next
  case RCounted
  then have "unat (ActiveWriter l) = Suc 0" using assms by (simp add: rw_counts_def rw_roles)
  then show ?thesis using RCounted assms by (simp add: rw_counts_def rw_roles unat_is_1)
next
  case RChecked
  then have "unat (ActiveWriter l) = Suc 0" using assms by (simp add: rw_counts_def rw_roles)
  then show ?thesis using RChecked assms by (simp add: rw_counts_def rw_roles unat_dec)
next
  case RInside
  then show ?thesis using assms by (simp add: rw_counts_def rw_roles unat_dec)
next
  case RwOutside
  then show ?thesis using assms
    by (simp only: rw_next_simps, elim disjE conjE) (simp_all add: rw_counts_def rw_roles unat_inc)
qed (use assms(2) in blast)

definition rw_inv :: "u64 set \<Rightarrow> (u64 \<Rightarrow> rw_pc) \<times> rw_spinlock \<Rightarrow> bool" where
  "rw_inv C s \<longleftrightarrow> (\<forall>c. fst s c \<noteq> RwHalted) \<and> (\<forall>c. c \<notin> C \<longrightarrow> fst s c = RwOutside) \<and>
     rw_counts (cnt C is_waiting (fst s)) (cnt C is_writer (fst s)) (cnt C is_active (fst s))
       (cnt C is_reader (fst s)) (snd s)"

lemma rw_step_inv:
  assumes C: "finite C" "card C < 65536" "c \<in> C" and inv: "rw_inv C (pcs, l)" and st: "rw_next (pcs c, l) (p, l')"
  shows "rw_inv C (pcs(c := p), l')"
proof -
  note sp = cnt_split [OF C(1,3)]
  have b: "cnt (C - {c}) P pcs < 65535" for P using cnt_bound [OF C(1,3), of P pcs] C(2) by simp
  have "pcs c \<noteq> RwHalted" "counts_with (cnt (C - {c}) is_waiting pcs) (cnt (C - {c}) is_writer pcs)
      (cnt (C - {c}) is_active pcs) (cnt (C - {c}) is_reader pcs) (pcs c) l"
    using inv sp [of _ pcs] by (simp_all add: rw_inv_def)
  moreover have "cnt (C - {c}) is_writer pcs \<le> cnt (C - {c}) is_active pcs"
    using C(1) by (intro cnt_mono) (auto simp: rw_roles)
  ultimately have s: "p \<noteq> RwHalted \<and> counts_with (cnt (C - {c}) is_waiting pcs) (cnt (C - {c}) is_writer pcs)
      (cnt (C - {c}) is_active pcs) (cnt (C - {c}) is_reader pcs) p l'"
    by (intro rw_step_counts [OF st] b)
  show ?thesis using inv s C(3) sp [of _ "pcs(c := p)"] by (simp add: rw_inv_def)
qed

lemma rw_reach_inv:
  assumes "finite C" "card C < 65536" "rw_reach C s"
  shows "rw_inv C s"
  using assms(3)
proof (induction rule: rw_reach.induct)
  case init
  then show ?case
    by (simp add: rw_inv_def rw_counts_def cnt_def rw_roles zero_rw_spinlock_def)
next
  case (step pcs l c p l')
  then show ?case using assms(1,2) by (intro rw_step_inv)
qed

text \<open>The steps a processor still has to make before it stops counting as active or as a reader.\<close>

definition rw_left :: "rw_pc \<Rightarrow> nat" where
  "rw_left p = (case p of WWon \<Rightarrow> 3 | WInside \<Rightarrow> 2 | WLeaving \<Rightarrow> 1 | RWon \<Rightarrow> 4 | RCounted \<Rightarrow> 3 | RChecked \<Rightarrow> 2
     | RInside \<Rightarrow> 1 | _ \<Rightarrow> 0)"

lemma rw_left_0: "rw_left p = 0 \<longleftrightarrow> \<not> is_active p \<and> \<not> is_reader p"
  by (cases p) (simp_all add: rw_left_def rw_roles)

lemma rw_left_step:
  assumes "rw_left p \<noteq> 0" "ActiveWriter l = 1 \<or> p \<notin> {WInside, RCounted}"
  shows "\<exists>p' l'. rw_next (p, l) (p', l') \<and> rw_left p' < rw_left p"
  using assms by (cases p) (auto simp: rw_left_def)

inductive rw_run :: "u64 set \<Rightarrow> (u64 \<Rightarrow> rw_pc) \<times> rw_spinlock \<Rightarrow> (u64 \<Rightarrow> rw_pc) \<times> rw_spinlock \<Rightarrow> bool" for C where
  refl: "rw_run C s s"
| more: "c \<in> C \<Longrightarrow> rw_next (pcs c, l) (p, l') \<Longrightarrow> rw_run C (pcs(c := p), l') t \<Longrightarrow> rw_run C (pcs, l) t"

lemma rw_active_writer:
  assumes "finite C" "rw_inv C (pcs, l)" "c \<in> C" "pcs c \<in> {WInside, RCounted}"
  shows "ActiveWriter l = 1"
proof -
  have "0 < cnt C is_active pcs" using assms by (intro cnt_pos [of _ c]) (auto simp: rw_roles)
  then show ?thesis using assms(2) unat_is_1 [of "ActiveWriter l"] by (auto simp: rw_inv_def rw_counts_def)
qed

text \<open>Every processor that waits for the lock as a writer can still get inside: those in its way
  can all leave.\<close>

lemma rw_writer_can_enter:
  assumes C: "finite C" "card C < 65536" and w: "w \<in> C"
  shows "rw_inv C (pcs, l) \<Longrightarrow> pcs w = WWaiting \<Longrightarrow> \<exists>pcs' l'. rw_run C (pcs, l) (pcs', l') \<and> pcs' w = WInside"
proof (induction "\<Sum>c \<in> C. rw_left (pcs c)" arbitrary: pcs l rule: less_induct)
  case less
  show ?case
  proof (cases "\<forall>c \<in> C. rw_left (pcs c) = 0")
    case True
    then have "cnt C is_active pcs = 0" "cnt C is_reader pcs = 0" using C(1) by (simp_all add: cnt_none rw_left_0)
    then have f: "ActiveWriter l = 0" "ActiveReaders l = 0"
      using less.prems(1) by (auto simp: rw_inv_def rw_counts_def unat_eq_0)
    let ?l1 = "l\<lparr>ActiveWriter := 1, ActiveReaders := 0\<rparr>"
    have "rw_next (pcs w, l) (WWon, ?l1)" using less.prems(2) f by (simp add: writer_exchange_eq)
    moreover have "rw_next ((pcs(w := WWon)) w, ?l1) (WInside, ?l1\<lparr>WaitingWriters := WaitingWriters ?l1 - 1\<rparr>)"
      by simp
    ultimately have "rw_run C (pcs, l) (pcs(w := WWon, w := WInside), ?l1\<lparr>WaitingWriters := WaitingWriters ?l1 - 1\<rparr>)"
      using w by (blast intro: rw_run.intros)
    then show ?thesis by (metis fun_upd_same)
  next
    case False
    then obtain c where c: "c \<in> C" "rw_left (pcs c) \<noteq> 0" by blast
    have "ActiveWriter l = 1 \<or> pcs c \<notin> {WInside, RCounted}"
      using rw_active_writer [OF C(1) less.prems(1) c(1)] by blast
    then obtain p l' where st: "rw_next (pcs c, l) (p, l')" "rw_left p < rw_left (pcs c)"
      using rw_left_step [OF c(2)] by blast
    have cw: "c \<noteq> w" using c(2) less.prems(2) by (auto simp: rw_left_def)
    have "(\<Sum>d \<in> C. rw_left ((pcs(c := p)) d)) < (\<Sum>d \<in> C. rw_left (pcs d))"
      using C(1) c(1) st(2) by (intro sum_strict_mono_ex1) auto
    moreover have "rw_inv C (pcs(c := p), l')" using rw_step_inv [OF C c(1) less.prems(1) st(1)] .
    moreover have "(pcs(c := p)) w = WWaiting" using cw less.prems(2) by simp
    ultimately obtain pcs2 l2 where r: "rw_run C (pcs(c := p), l') (pcs2, l2)" "pcs2 w = WInside"
      using less.hyps by blast
    then show ?thesis using rw_run.more [OF c(1) st(1) r(1)] by blast
  qed
qed

text \<open>The functions are runs of these steps.\<close>

lemma rw_acquire_steps:
  assumes "RwSpinlockAcquire l intr ex = Some (l', i, s)"
  shows "rtranclp rw_next (RwOutside, l) (if ex then WInside else RInside, l')"
proof (cases ex)
  case True
  let ?l1 = "l\<lparr>WaitingWriters := WaitingWriters l + 1\<rparr>"
  let ?l2 = "l\<lparr>WaitingWriters := WaitingWriters l + 1, ActiveWriter := 1, ActiveReaders := 0\<rparr>"
  have f: "ActiveWriter l = 0" "ActiveReaders l = 0" "l' = l\<lparr>ActiveWriter := 1\<rparr>"
    using assms True by (auto simp: RwSpinlockAcquire_run split: if_splits)
  have "rw_next (RwOutside, l) (WWaiting, ?l1)" "rw_next (WWaiting, ?l1) (WWon, ?l2)"
    using f by (simp_all add: writer_exchange_eq)
  moreover have "rw_next (WWon, ?l2) (WInside, l')" using f by (cases l) simp
  ultimately have "rtranclp rw_next (RwOutside, l) (WInside, l')"
    by (meson rtranclp_steps rtranclp.rtrancl_refl)
  then show ?thesis using True by simp
next
  case False
  let ?l1 = "l\<lparr>WaitingWriters := 0, ActiveWriter := 1\<rparr>"
  let ?l2 = "?l1\<lparr>ActiveReaders := ActiveReaders l + 1\<rparr>"
  have f: "WaitingWriters l = 0" "ActiveWriter l = 0" "l' = l\<lparr>ActiveReaders := ActiveReaders l + 1\<rparr>"
    using assms False by (auto simp: RwSpinlockAcquire_run split: if_splits)
  have "rw_next (RwOutside, l) (RTrying, l)" "rw_next (RTrying, l) (RWon, ?l1)" "rw_next (RWon, ?l1) (RCounted, ?l2)"
    "rw_next (RCounted, ?l2) (RChecked, ?l2)"
    using f by (simp_all add: reader_exchange_eq)
  moreover have "rw_next (RChecked, ?l2) (RInside, l')" using f by (cases l) simp
  ultimately have "rtranclp rw_next (RwOutside, l) (RInside, l')"
    by (meson rtranclp_steps rtranclp.rtrancl_refl)
  then show ?thesis using False by simp
qed

lemma rw_release_steps:
  assumes "RwSpinlockRelease l old ex = Some (l', i)"
  shows "rtranclp rw_next (if ex then WInside else RInside, l) (RwOutside, l')"
proof (cases ex)
  case True
  then have "ActiveWriter l = 1" "l' = l\<lparr>ActiveWriter := ActiveWriter l - 1\<rparr>"
    using assms by (auto simp: RwSpinlockRelease_def bind_Some)
  then have "rw_next (WInside, l) (WLeaving, l)" "rw_next (WLeaving, l) (RwOutside, l')" by simp_all
  then have "rtranclp rw_next (WInside, l) (RwOutside, l')" by (meson rtranclp_steps rtranclp.rtrancl_refl)
  then show ?thesis using True by simp
next
  case False
  then have "rw_next (RInside, l) (RwOutside, l')" using assms by (simp add: RwSpinlockRelease_def)
  then show ?thesis using False by (simp add: r_into_rtranclp)
qed

section \<open>Recursion\<close>

text \<open>A processor that takes the lock again and again, and gives it back with the flags it saved.\<close>

primrec rec_acquires :: "nat \<Rightarrow> u64 \<Rightarrow> rec_rw_spinlock \<Rightarrow> bool \<Rightarrow> (rec_rw_spinlock \<times> bool \<times> bool list) option" where
  "rec_acquires 0 cpu l intr = Some (l, intr, [])"
| "rec_acquires (Suc n) cpu l intr = do {
     r \<leftarrow> rec_acquires n cpu l intr;
     a \<leftarrow> RecRwSpinlockAcquire cpu (fst r) (fst (snd r)) True;
     Some (fst a, fst (snd a), snd (snd a) # snd (snd r))
   }"

primrec rec_releases :: "bool list \<Rightarrow> u64 \<Rightarrow> rec_rw_spinlock \<Rightarrow> bool \<Rightarrow> (rec_rw_spinlock \<times> bool) option" where
  "rec_releases [] cpu l intr = Some (l, intr)"
| "rec_releases (s # ss) cpu l intr = do {
     r \<leftarrow> RecRwSpinlockRelease cpu l intr s True;
     rec_releases ss cpu (fst r) (snd r)
   }"

definition rec_free :: "rec_rw_spinlock \<Rightarrow> bool" where
  "rec_free l \<longleftrightarrow> ActiveWriter (RwSpinlock l) = 0 \<and> ActiveReaders (RwSpinlock l) = 0 \<and> RecHolder l = 0 \<and>
     CurrentRecursivityDepth l = 0"

definition rec_taken :: "u64 \<Rightarrow> nat \<Rightarrow> rec_rw_spinlock \<Rightarrow> rec_rw_spinlock" where
  "rec_taken cpu n l = l\<lparr>RwSpinlock := (RwSpinlock l)\<lparr>ActiveWriter := 1\<rparr>, CurrentRecursivityDepth := of_nat n,
     RecHolder := cpu\<rparr>"

lemma rec_first:
  "rec_free l \<Longrightarrow> cpu \<noteq> 0 \<Longrightarrow> RecRwSpinlockAcquire cpu l intr True = Some (rec_taken cpu 1 l, False, intr)"
  by (simp add: rec_free_def rec_taken_def RecRwSpinlockAcquire_def RwSpinlockAcquire_run)

lemma of_nat_lt_u8: "n < 256 \<Longrightarrow> (of_nat n :: u8) < m \<longleftrightarrow> n < unat m"
  by (simp add: word_less_nat_alt unat_of_nat_small)

lemma rec_again:
  "n < unat (MaxRecursivityDepth l) \<Longrightarrow>
   RecRwSpinlockAcquire cpu (rec_taken cpu n l) intr True = Some (rec_taken cpu (Suc n) l, False, intr)"
  "n < 256 \<Longrightarrow> unat (MaxRecursivityDepth l) \<le> n \<Longrightarrow> RecRwSpinlockAcquire cpu (rec_taken cpu n l) intr True = None"
proof -
  have "unat (MaxRecursivityDepth l) < 256" using unsigned_less [of "MaxRecursivityDepth l", where 'a = nat] by simp
  then show "n < unat (MaxRecursivityDepth l) \<Longrightarrow>
    RecRwSpinlockAcquire cpu (rec_taken cpu n l) intr True = Some (rec_taken cpu (Suc n) l, False, intr)"
    using of_nat_lt_u8 [of n "MaxRecursivityDepth l"]
    by (cases l) (simp add: rec_taken_def RecRwSpinlockAcquire_def add.commute)
  show "n < 256 \<Longrightarrow> unat (MaxRecursivityDepth l) \<le> n \<Longrightarrow> RecRwSpinlockAcquire cpu (rec_taken cpu n l) intr True = None"
    using of_nat_lt_u8 [of n "MaxRecursivityDepth l"]
    by (simp add: rec_taken_def RecRwSpinlockAcquire_def)
qed

lemma rec_acquires_run:
  assumes "rec_free l" "cpu \<noteq> 0"
  shows "Suc n \<le> unat (MaxRecursivityDepth l) \<Longrightarrow>
    rec_acquires (Suc n) cpu l intr = Some (rec_taken cpu (Suc n) l, False, replicate n False @ [intr])"
proof (induction n)
  case 0
  then show ?case using rec_first [OF assms] by simp
next
  case (Suc n)
  then show ?case using rec_again(1) [of "Suc n" l cpu False] by (simp del: rec_acquires.simps(2) add: rec_acquires.simps(2) [of "Suc n"])
qed

lemma rec_taken_same: "rec_free l \<Longrightarrow> l\<lparr>RwSpinlock := (RwSpinlock l)\<lparr>ActiveWriter := 0\<rparr>, CurrentRecursivityDepth := 0, RecHolder := 0\<rparr> = l"
  by (cases l; cases "RwSpinlock l") (auto simp: rec_free_def)

lemma rec_release_one:
  "n < 255 \<Longrightarrow> n \<noteq> 0 \<Longrightarrow> RecRwSpinlockRelease cpu (rec_taken cpu (Suc n) l) False s True = Some (rec_taken cpu n l, False)"
  "rec_free l \<Longrightarrow> RecRwSpinlockRelease cpu (rec_taken cpu (Suc 0) l) False s True = Some (l, s)"
proof -
  assume "n < 255" "n \<noteq> 0"
  then have "(of_nat n :: u8) \<noteq> 0" using unat_of_nat_small [of n, where 'a = 8] by auto
  then show "RecRwSpinlockRelease cpu (rec_taken cpu (Suc n) l) False s True = Some (rec_taken cpu n l, False)"
    by (simp add: RecRwSpinlockRelease_def rec_taken_def)
next
  assume "rec_free l"
  then show "RecRwSpinlockRelease cpu (rec_taken cpu (Suc 0) l) False s True = Some (l, s)"
    using rec_taken_same [of l] by (cases l) (simp add: RecRwSpinlockRelease_def rec_taken_def RwSpinlockRelease_def)
qed

lemma rec_releases_run:
  assumes "rec_free l"
  shows "n < 255 \<Longrightarrow> rec_releases (replicate n False @ [s]) cpu (rec_taken cpu (Suc n) l) False = Some (l, s)"
  by (induction n) (simp_all add: rec_release_one assms)

section \<open>Properties\<close>

text \<open>C29: however fewer than 65536 processors interleave, a writer is alone: while one is between its
  exchange and the store that frees the lock, no other processor is, and no reader is counted or
  inside; the three counters of the lock are exact; and no assertion of the lock ever fails.\<close>

theorem rw_spinlock_exclusion:
  assumes "finite C" "card C < 65536" "rw_reach C (pcs, l)"
  shows "(\<forall>c d. is_writer (pcs c) \<and> c \<noteq> d \<longrightarrow> \<not> is_writer (pcs d) \<and> \<not> is_reader (pcs d)) \<and>
    (\<forall>c. pcs c \<noteq> RwHalted) \<and> unat (WaitingWriters l) = card {c \<in> C. is_waiting (pcs c)} \<and>
    unat (ActiveWriter l) = card {c \<in> C. is_active (pcs c)} \<and> unat (ActiveReaders l) = card {c \<in> C. is_reader (pcs c)}"
proof -
  have inv: "rw_inv C (pcs, l)" using rw_reach_inv [OF assms] .
  then have co: "rw_counts (cnt C is_waiting pcs) (cnt C is_writer pcs) (cnt C is_active pcs) (cnt C is_reader pcs) l"
    and out: "\<And>c. c \<notin> C \<Longrightarrow> pcs c = RwOutside" by (simp_all add: rw_inv_def)
  have "cnt C is_writer pcs \<le> cnt C is_active pcs" using assms(1) by (intro cnt_mono) (auto simp: rw_roles)
  then have w1: "cnt C is_writer pcs \<le> 1" using co by (simp add: rw_counts_def)
  have "\<not> is_writer (pcs d) \<and> \<not> is_reader (pcs d)" if "is_writer (pcs c)" "c \<noteq> d" for c d
  proof -
    have c: "c \<in> C" using that(1) out [of c] by (cases "c \<in> C") (simp_all add: is_writer_def)
    have "0 < cnt C is_writer pcs" using cnt_pos [of C c is_writer pcs] assms(1) c that(1) by simp
    then have "cnt C is_reader pcs = 0" using co by (simp add: rw_counts_def)
    then have "\<forall>d \<in> C. \<not> is_reader (pcs d)" using cnt_none [OF assms(1), of is_reader pcs] by simp
    moreover have "\<not> is_writer (pcs d)" if d: "d \<in> C"
    proof
      assume "is_writer (pcs d)"
      from cnt_two [of C c d is_writer pcs, OF assms(1) c d \<open>is_writer (pcs c)\<close> this w1] \<open>c \<noteq> d\<close>
      show False by simp
    qed
    ultimately show ?thesis using out [of d] by (cases "d \<in> C") (simp_all add: rw_roles)
  qed
  moreover have "\<forall>c. pcs c \<noteq> RwHalted" using inv by (simp add: rw_inv_def)
  ultimately show ?thesis using co by (auto simp: rw_counts_def cnt_def)
qed

lemma rw_reach_writer: "rw_reach {3, 5} ((\<lambda>_. RwOutside)(3 := WWaiting), zero_rw_spinlock\<lparr>WaitingWriters := 1\<rparr>)"
  by (rule rw_reach.step [OF rw_reach.init]) (simp_all add: zero_rw_spinlock_def)

lemma rw_spinlock_exclusion_witness:
  "\<exists>pcs (l :: rw_spinlock). is_writer (pcs 3) \<and> (\<forall>c d. is_writer (pcs c) \<and> c \<noteq> d \<longrightarrow> \<not> is_writer (pcs d) \<and> \<not> is_reader (pcs d)) \<and>
    (\<forall>c. pcs c \<noteq> RwHalted) \<and> unat (WaitingWriters l) = card {c \<in> {3, 5 :: u64}. is_waiting (pcs c)} \<and>
    unat (ActiveWriter l) = card {c \<in> {3, 5 :: u64}. is_active (pcs c)} \<and>
    unat (ActiveReaders l) = card {c \<in> {3, 5 :: u64}. is_reader (pcs c)}"
proof -
  define pcs where "pcs = ((\<lambda>_ :: u64. RwOutside)(3 := WWaiting))(3 := WWon)"
  define l where "l = (zero_rw_spinlock\<lparr>WaitingWriters := 1\<rparr>)\<lparr>ActiveWriter := 1, ActiveReaders := 0\<rparr>"
  have r: "rw_reach {3, 5} (pcs, l)" unfolding pcs_def l_def
    by (rule rw_reach.step [OF rw_reach_writer]) (simp_all add: writer_exchange_eq zero_rw_spinlock_def)
  have w: "is_writer (pcs 3)" by (simp add: is_writer_def pcs_def)
  have "finite {3, 5 :: u64}" "card {3, 5 :: u64} < 65536" by simp_all
  note ex = rw_spinlock_exclusion [OF this r]
  show ?thesis by (rule exI [of _ pcs], rule exI [of _ l]) (rule conjI [OF w ex])
qed

text \<open>C30: a waiting writer goes first: while some processor waits as a writer, no step takes a
  processor out of the loop of the readers, and from every reachable state the waiting writer can
  get inside, because those that are in its way can all leave.\<close>

theorem rw_waiting_writer_first:
  assumes "finite C" "card C < 65536" "rw_reach C (pcs, l)" "w \<in> C" "pcs w = WWaiting"
  shows "(\<forall>p l'. rw_next (RTrying, l) (p, l') \<longrightarrow> p = RTrying \<and> l' = l) \<and>
    (\<exists>pcs' l'. rw_run C (pcs, l) (pcs', l') \<and> pcs' w = WInside)"
proof -
  have inv: "rw_inv C (pcs, l)" using rw_reach_inv [OF assms(1-3)] .
  have "0 < cnt C is_waiting pcs" using assms(1,4,5) by (intro cnt_pos [of _ w]) (simp_all add: is_waiting_def)
  then have "WaitingWriters l \<noteq> 0" using inv by (auto simp: rw_inv_def rw_counts_def)
  then have "\<forall>p l'. rw_next (RTrying, l) (p, l') \<longrightarrow> p = RTrying \<and> l' = l" by (simp add: reader_exchange_eq)
  then show ?thesis using rw_writer_can_enter [OF assms(1,2,4) inv assms(5)] by blast
qed

lemma rw_waiting_writer_first_witness:
  "\<exists>pcs l. (\<forall>p l'. rw_next (RTrying, l) (p, l') \<longrightarrow> p = RTrying \<and> l' = l) \<and>
    (\<exists>pcs' l'. rw_run {3, 5} (pcs, l) (pcs', l') \<and> pcs' 3 = WInside)"
proof -
  have "card {3, 5 :: u64} < 65536" "(3 :: u64) \<in> {3, 5}" by simp_all
  then show ?thesis
    using rw_waiting_writer_first [of "{3, 5}" _ _ 3, OF _ _ rw_reach_writer] by (auto simp del: rw_next_simps)
qed

text \<open>C31: a processor may take a free recursive lock as often as its limit allows, which turns the
  interrupts off, and giving it back as often, with the flags it saved, restores the lock and the
  interrupt flag; one acquisition more than the limit stops the system.\<close>

theorem rec_lock_nests:
  assumes "rec_free l" "cpu \<noteq> 0" "0 < n" "n \<le> unat (MaxRecursivityDepth l)"
  shows "\<exists>l1 saved. rec_acquires n cpu l intr = Some (l1, False, saved) \<and>
    rec_releases saved cpu l1 False = Some (l, intr) \<and>
    (n = unat (MaxRecursivityDepth l) \<longrightarrow> RecRwSpinlockAcquire cpu l1 False True = None)"
proof -
  obtain k where k: "n = Suc k" using assms(3) by (cases n) auto
  have "unat (MaxRecursivityDepth l) < 256" using unsigned_less [of "MaxRecursivityDepth l", where 'a = nat] by simp
  then have "k < 255" using assms(4) k by simp
  then show ?thesis
    using rec_acquires_run [OF assms(1,2), of k intr] rec_releases_run [OF assms(1), of k intr cpu]
      rec_again(2) [of n l cpu False] assms(4) k by (auto simp del: rec_acquires.simps)
qed

lemma rec_lock_nests_witness:
  "\<exists>l1 saved. rec_acquires 2 7 (zero_rec_rw_spinlock\<lparr>MaxRecursivityDepth := 2\<rparr>) True = Some (l1, False, saved) \<and>
    rec_releases saved 7 l1 False = Some (zero_rec_rw_spinlock\<lparr>MaxRecursivityDepth := 2\<rparr>, True) \<and>
    (2 = unat (MaxRecursivityDepth (zero_rec_rw_spinlock\<lparr>MaxRecursivityDepth := 2\<rparr>)) \<longrightarrow>
      RecRwSpinlockAcquire 7 l1 False True = None)"
  by (rule rec_lock_nests) (simp_all add: rec_free_def zero_rec_rw_spinlock_def zero_rw_spinlock_def)

end
