(* ===== verification/CL_StrUtils.thy ===== *)
theory CL_StrUtils
  imports CL_String
begin

text \<open>
  \<open>CommonLib/src/strutils.c\<close>: the conversion of integers to text and back. A buffer is a byte list
  that the caller provides; a store behind its end is a fault. The eight bytes at the address of the
  value are the argument \<open>value\<close>; the code reads all or the low four of them. Negating the least
  integer has no defined result in C and is a fault here.
\<close>

section \<open>Operations\<close>

text \<open>The exchange by three XORs, on the buffer, so that equal indices behave as in the code.\<close>

definition xor_at :: "u8 list \<Rightarrow> nat \<Rightarrow> nat \<Rightarrow> u8 list option" where
  "xor_at buf i j = do { a \<leftarrow> array_get buf i; b \<leftarrow> array_get buf j; array_set buf i (a XOR b) }"

definition swap :: "u8 list \<Rightarrow> nat \<Rightarrow> nat \<Rightarrow> u8 list option" where
  "swap buf a b = do { x \<leftarrow> xor_at buf a b; y \<leftarrow> xor_at x b a; xor_at y a b }"

partial_function (option) itoa_loop :: "u8 list \<Rightarrow> u32 \<Rightarrow> u64 \<Rightarrow> u32 \<Rightarrow> (u8 list \<times> u32) option" where
  "itoa_loop buffer index value base =
     (if value \<noteq> 0 then do {
        let digit = (ucast (value mod ucast base) :: u32);
        b \<leftarrow> array_set buffer (unat index)
          (if 9 <s digit then ucast (digit - 10) + 0x41 else ucast digit + 0x30);
        itoa_loop b (index + 1) (value div ucast base) base
      }
      else Some (buffer, index))"

declare itoa_loop.simps [code]

definition itoa :: "u64 \<Rightarrow> bool \<Rightarrow> u8 list \<Rightarrow> u32 \<Rightarrow> bool \<Rightarrow> u8 list option" where
  "itoa valueAddress signedValue buffer base is64BitValue = do {
     ASSERT (base \<noteq> 0);
     let low = (ucast valueAddress :: u32);
     let negative = signedValue \<and> (if is64BitValue then valueAddress <s 0 else low <s 0);
     ASSERT (negative \<longrightarrow> (if is64BitValue then valueAddress \<noteq> 0x8000000000000000 else low \<noteq> 0x80000000));
     let value = (if is64BitValue then (if negative then - valueAddress else valueAddress)
       else if negative then scast (- low) else ucast low);
     r \<leftarrow> (if value = 0 then do { b \<leftarrow> array_set buffer 0 0x30; Some (b, 1) } else Some (buffer, 0));
     s \<leftarrow> itoa_loop (fst r) (snd r) value base;
     t \<leftarrow> (if negative then do { b \<leftarrow> array_set (fst s) (unat (snd s)) 0x2D; Some (b, snd s + 1) } else Some s);
     b \<leftarrow> array_set (fst t) (unat (snd t)) 0;
     for_upto 0 (unat (snd t div 2)) (\<lambda>i b. swap b i (unat (snd t - of_nat i - 1))) b
   }"

definition isascii :: "u8 \<Rightarrow> bool" where
  "isascii c \<longleftrightarrow> 0x1F < sint c \<and> sint c < 0x80"

definition char_value :: "u8 \<Rightarrow> u8" where
  "char_value ch =
     (let c = tolower ch in
      if 0x30 \<le>s c \<and> c \<le>s 0x39 then c - 0x30
      else if 0x61 \<le>s c \<and> c \<le>s 0x7A then c - 0x61 + 10
      else MAX_BYTE)"

function atoi_loop :: "u8 list \<Rightarrow> nat \<Rightarrow> u64 \<Rightarrow> u32 \<Rightarrow> u64 option" where
  "atoi_loop buffer i value base = (case array_get buffer i of
     None \<Rightarrow> None
   | Some ch \<Rightarrow>
       if ch \<noteq> 0 then do {
         ASSERT (isascii ch);
         let currentCharValue = char_value ch;
         ASSERT ((ucast currentCharValue :: u32) < base);
         atoi_loop buffer (Suc i) (value * ucast base + ucast currentCharValue) base
       }
       else Some value)"
  by pat_completeness auto
termination
  by (relation "measure (\<lambda>(b, i, v, s). length b - i)") (auto simp: array_get_conv)

declare atoi_loop.simps [simp del]

text \<open>The result is what is stored at the address: eight bytes, or the low four.\<close>

definition atoi :: "u8 list \<Rightarrow> u32 \<Rightarrow> bool \<Rightarrow> u64 option" where
  "atoi buffer base is64BitValue = do {
     ASSERT (base \<noteq> 0);
     c \<leftarrow> array_get buffer 0;
     let negative = (c = 0x2D);
     v \<leftarrow> atoi_loop buffer (if negative then 1 else 0) 0 base;
     ASSERT (\<not> (negative \<and> v = 0x8000000000000000));
     let value = (if negative then - v else v);
     if is64BitValue then Some value
     else do {
       ASSERT (negative \<or> value \<le> 0xFFFFFFFF);
       Some (ucast (ucast value :: u32))
     }
   }"

section \<open>Digits\<close>

text \<open>The digits of a number, the least significant first, and their characters.\<close>

function digits :: "nat \<Rightarrow> nat \<Rightarrow> nat list" where
  "digits b n = (if n = 0 \<or> b < 2 then [] else n mod b # digits b (n div b))"
  by pat_completeness auto
termination
  by (relation "measure snd") (auto intro: div_less_dividend)

declare digits.simps [simp del]

definition digit_char :: "nat \<Rightarrow> u8" where
  "digit_char d = (if 9 < d then of_nat (d - 10) + 0x41 else of_nat d + 0x30)"

definition text_of :: "nat \<Rightarrow> nat \<Rightarrow> u8 list" where
  "text_of b n = (if n = 0 then [0x30] else rev (map digit_char (digits b n)))"

definition number_of_digits :: "nat \<Rightarrow> nat list \<Rightarrow> nat" where
  "number_of_digits b ds = foldl (\<lambda>v d. v * b + d) 0 ds"

lemma digits_value: "2 \<le> b \<Longrightarrow> number_of_digits b (rev (digits b n)) = n"
proof (induction b n rule: digits.induct)
  case (1 b n)
  then show ?case
    by (subst digits.simps) (auto simp: number_of_digits_def)
qed

lemma digits_less: "d \<in> set (digits b n) \<Longrightarrow> d < b"
proof (induction b n rule: digits.induct)
  case (1 b n)
  then show ?case by (subst (asm) digits.simps) (auto split: if_splits)
qed

lemma digits_length: "2 \<le> b \<Longrightarrow> n < 2 ^ k \<Longrightarrow> length (digits b n) \<le> k"
proof (induction k arbitrary: n)
  case 0
  then show ?case by (simp add: digits.simps)
next
  case (Suc k)
  have "n div b \<le> n div 2" using Suc.prems(1) by (rule div_le_mono2 [rotated]) simp
  also have "\<dots> < 2 ^ k" using Suc.prems(2) by (simp add: less_mult_imp_div_less mult.commute)
  finally have "length (digits b (n div b)) \<le> k" using Suc by blast
  then show ?case by (subst digits.simps) auto
qed

text \<open>The characters of the 36 digits are told apart again.\<close>

lemma char_value_digit: "d < 36 \<Longrightarrow> char_value (digit_char d) = of_nat d \<and> isascii (digit_char d) \<and>
    digit_char d \<noteq> 0 \<and> digit_char d \<noteq> 0x2D"
proof -
  have "\<forall>d \<in> {..<36}. char_value (digit_char d) = of_nat d \<and> isascii (digit_char d) \<and>
    digit_char d \<noteq> 0 \<and> digit_char d \<noteq> 0x2D"
    by (simp add: lessThan_nat_numeral lessThan_Suc char_value_def digit_char_def isascii_def tolower_def word_sle_eq)
  then show "d < 36 \<Longrightarrow> ?thesis" by blast
qed

section \<open>From a number to text\<close>

lemma digit_char_word:
  assumes "d < 36"
  shows "(if 9 <s (of_nat d :: u32) then ucast ((of_nat d :: u32) - 10) + 0x41 else ucast (of_nat d :: u32) + 0x30) = digit_char d"
proof -
  have "\<forall>d \<in> {..<36}. (if 9 <s (of_nat d :: u32) then ucast ((of_nat d :: u32) - 10) + 0x41
      else ucast (of_nat d :: u32) + 0x30) = digit_char d"
    by (simp add: lessThan_nat_numeral lessThan_Suc digit_char_def word_sless_alt)
  then show ?thesis using assms by blast
qed

lemma itoa_loop_run:
  assumes b: "2 \<le> unat base" "unat base \<le> 36"
  shows "unat index = length pre \<Longrightarrow> length (digits (unat base) (unat v)) \<le> length junk \<Longrightarrow>
    length pre + length (digits (unat base) (unat v)) < 2 ^ 32 \<Longrightarrow>
    itoa_loop (pre @ junk) index v base =
      Some (pre @ map digit_char (digits (unat base) (unat v)) @ drop (length (digits (unat base) (unat v))) junk,
            index + of_nat (length (digits (unat base) (unat v))))"
proof (induction "unat v" arbitrary: v pre junk index rule: less_induct)
  case less
  note [simp] = unat_ucast_up
  show ?case
  proof (cases "v = 0")
    case True
    then show ?thesis by (subst itoa_loop.simps) (simp add: digits.simps)
  next
    case False
    then have v: "unat v \<noteq> 0" by (simp add: unat_eq_0)
    let ?b = "unat base" let ?d = "unat v mod ?b" let ?v = "v div ucast base"
    have uv: "unat ?v = unat v div ?b" by (simp add: unat_div)
    have ds: "digits ?b (unat v) = ?d # digits ?b (unat ?v)"
      using v b(1) unfolding uv by (subst digits.simps) simp
    obtain y ys where j: "junk = y # ys" using less.prems(2) ds by (cases junk) auto
    have d36: "?d < 36" using b by (intro less_le_trans [OF mod_less_divisor]) auto
    have "unat (ucast (v mod ucast base) :: u32) = unat (of_nat ?d :: u32)"
      using d36 by (simp add: unsigned_ucast_eq unat_mod unat_of_nat_small take_bit_nat_eq_self)
    then have w: "(ucast (v mod ucast base) :: u32) = of_nat ?d" by (simp only: word_unat_eq_iff)
    have "array_set (pre @ junk) (unat index) (digit_char ?d) = Some ((pre @ [digit_char ?d]) @ ys)"
      using less.prems(1) j by (simp add: list_update_append)
    moreover have i1: "unat (index + 1) = length (pre @ [digit_char ?d])"
      using less.prems(1,3) ds by (simp add: unat_add_small)
    have "itoa_loop ((pre @ [digit_char ?d]) @ ys) (index + 1) ?v base =
      Some ((pre @ [digit_char ?d]) @ map digit_char (digits ?b (unat ?v)) @ drop (length (digits ?b (unat ?v))) ys,
            index + 1 + of_nat (length (digits ?b (unat ?v))))"
    proof (rule less.hyps)
      show "unat ?v < unat v" using v b(1) uv by (simp add: div_less_dividend)
      show "unat (index + 1) = length (pre @ [digit_char ?d])" by (rule i1)
    qed (use less.prems(2,3) ds j in simp_all)
    ultimately show ?thesis
      using False digit_char_word [OF d36] ds j by (subst itoa_loop.simps) (simp add: w Let_def add.commute)
  qed
qed

lemma swap_run:
  assumes "i < length xs" "j < length xs" "i \<noteq> j"
  shows "swap xs i j = Some (xs[i := xs ! j, j := xs ! i])"
proof -
  have "(x XOR y) XOR (y XOR (x XOR y)) = y" "y XOR (x XOR y) = x" for x y :: u8
    by (rule bit_word_eqI; auto simp: bit_simps)+
  then show ?thesis using assms
    by (simp add: swap_def xor_at_def nth_list_update list_update_swap [of i j])
qed

text \<open>The loop reverses the first \<open>n\<close> characters.\<close>

lemma reverse_loop_run:
  assumes n: "n \<le> length xs" "n < 2 ^ 32"
  shows "for_upto 0 (n div 2) (\<lambda>i b. swap b i (unat ((of_nat n :: u32) - of_nat i - 1))) xs
    = Some (rev (take n xs) @ drop n xs)"
proof -
  let ?P = "\<lambda>i b. length b = length xs \<and>
    (\<forall>k < length xs. b ! k = (if k < n \<and> (k < i \<or> n - i \<le> k) then xs ! (n - 1 - k) else xs ! k))"
  have "\<exists>b. for_upto 0 (n div 2) (\<lambda>i b. swap b i (unat ((of_nat n :: u32) - of_nat i - 1))) xs = Some b \<and> ?P (0 + n div 2) b"
  proof (rule for_upto_rule)
    show "?P 0 xs" by auto
  next
    fix i b assume i: "0 \<le> i" "i < 0 + n div 2" and P: "?P i b"
    have "(of_nat n :: u32) - of_nat i - 1 = of_nat (n - Suc i)" using i by (simp add: of_nat_diff)
    then have u: "unat ((of_nat n :: u32) - of_nat i - 1) = n - Suc i"
      using n(2) by (simp add: unat_of_nat_small)
    have s: "swap b i (n - Suc i) = Some (b[i := b ! (n - Suc i), n - Suc i := b ! i])"
      using P n(1) i by (intro swap_run) auto
    have "?P (Suc i) (b[i := b ! (n - Suc i), n - Suc i := b ! i])"
      using P n(1) i by (auto simp: nth_list_update)
    then show "\<exists>s'. swap b i (unat ((of_nat n :: u32) - of_nat i - 1)) = Some s' \<and> ?P (Suc i) s'"
      using s u by simp
  qed
  then obtain b where b: "for_upto 0 (n div 2) (\<lambda>i b. swap b i (unat ((of_nat n :: u32) - of_nat i - 1))) xs = Some b"
    "?P (n div 2) b" by auto
  have "b = rev (take n xs) @ drop n xs"
  proof (rule nth_equalityI)
    show "length b = length (rev (take n xs) @ drop n xs)" using b(2) by simp
    fix k assume k: "k < length b"
    have "n - 1 - k = k" if "\<not> (k < n div 2 \<or> n - n div 2 \<le> k)" "k < n" using that by linarith
    then show "b ! k = (rev (take n xs) @ drop n xs) ! k"
      using b(2) k n(1) by (auto simp: nth_append rev_nth)
  qed
  then show ?thesis using b(1) by simp
qed

text \<open>The number that the arguments of \<open>itoa\<close> denote, and its text.\<close>

definition number_at :: "u64 \<Rightarrow> bool \<Rightarrow> bool \<Rightarrow> int" where
  "number_at v sg is64 =
     (if is64 then (if sg then sint v else uint v)
      else (if sg then sint (ucast v :: u32) else uint (ucast v :: u32)))"

definition int_text :: "nat \<Rightarrow> int \<Rightarrow> u8 list" where
  "int_text b n = (if n < 0 then [0x2D] else []) @ text_of b (nat \<bar>n\<bar>)"

lemma text_of_loop:
  assumes b: "2 \<le> unat base" "unat base \<le> 36" and l: "length (text_of (unat base) (unat value)) \<le> length buffer"
    "length buffer < 2 ^ 32"
  shows "do {
     r \<leftarrow> (if value = 0 then do { b \<leftarrow> array_set buffer 0 0x30; Some (b, 1) } else Some (buffer, 0));
     itoa_loop (fst r) (snd r) value base
   } = Some (rev (text_of (unat base) (unat value)) @ drop (length (text_of (unat base) (unat value))) buffer,
       of_nat (length (text_of (unat base) (unat value))))"
proof (cases "value = 0")
  case True
  then obtain y ys where "buffer = y # ys" using l(1) by (cases buffer) (auto simp: text_of_def)
  then show ?thesis using True by (subst itoa_loop.simps) (simp add: text_of_def)
next
  case False
  then have "text_of (unat base) (unat value) = rev (map digit_char (digits (unat base) (unat value)))"
    by (simp add: text_of_def unat_eq_0)
  then show ?thesis using False l itoa_loop_run [OF b, of 0 "[]" "value" buffer] by simp
qed

lemma uint_nonneg:
  assumes "0 \<le> sint (w :: 'a::len word)"
  shows "uint w = sint w"
proof -
  have "sint w < 2 ^ (LENGTH('a) - 1)" using sint_lt [of w] by simp
  also have "\<dots> \<le> 2 ^ LENGTH('a)" by (rule power_increasing) simp_all
  finally show ?thesis using assms uint_sint [of w] by (simp only: take_bit_int_eq_self)
qed

lemma unat_nonneg: "0 \<le> sint w \<Longrightarrow> unat w = nat (sint w)"
  using uint_nonneg [of w] by (metis nat_int of_nat_unat)

lemma sint_neg_word: "v <s 0 \<longleftrightarrow> sint v < 0"
  by (simp add: word_sless_alt)

lemma abs_sint:
  fixes v :: "'a::len word"
  assumes "sint v < 0" "sint v \<noteq> - (2 ^ (LENGTH('a) - 1))"
  shows "unat (- v) = nat \<bar>sint v\<bar>" "sint (- v) = - sint v"
proof -
  have b: "- (2 ^ (LENGTH('a) - 1)) \<le> sint v" "sint v < 2 ^ (LENGTH('a) - 1)"
    using sint_greater_eq [of v] sint_lt [of v] by simp_all
  have "sint (- v) = signed_take_bit (LENGTH('a) - Suc 0) (- sint v)" by (simp add: sint_word_ariths)
  also have "\<dots> = - sint v" using assms b by (intro signed_take_bit_int_eq_self) auto
  finally show s: "sint (- v) = - sint v" .
  have "uint (- v) = sint (- v)" using s assms(1) by (intro uint_nonneg) simp
  then show "unat (- v) = nat \<bar>sint v\<bar>" using s assms(1) by (metis abs_of_neg nat_int of_nat_unat)
qed

lemma itoa_run:
  assumes b: "2 \<le> unat base" "unat base \<le> 36"
    and n: "n = number_at v sg is64" "sg \<longrightarrow> n \<noteq> - (2 ^ (if is64 then 63 else 31))"
    and l: "length (int_text (unat base) n) < length buffer" "length buffer < 2 ^ 32"
  shows "itoa v sg buffer base is64
    = Some (int_text (unat base) n @ 0 # drop (length (int_text (unat base) n) + 1) buffer)"
proof -
  let ?low = "ucast v :: u32"
  let ?neg = "sg \<and> (if is64 then v <s 0 else ?low <s 0)"
  define val where "val = (if is64 then (if ?neg then - v else v) else if ?neg then scast (- ?low) else ucast ?low)"
  define t where "t = text_of (unat base) (unat val)"
  have neg: "?neg \<longleftrightarrow> n < 0" using n(1) by (auto simp: number_at_def sint_neg_word)
  have val: "unat val = nat \<bar>n\<bar>"
  proof (cases ?neg)
    case True
    then have sg: "sg" by simp
    show ?thesis
    proof (cases is64)
      case True
      then have "sint v < 0" "sint v \<noteq> - (2 ^ (LENGTH(64) - 1))" using \<open>?neg\<close> n by (simp_all add: sint_neg_word number_at_def)
      then show ?thesis using abs_sint(1) [of v] True \<open>?neg\<close> n(1) by (simp add: val_def number_at_def)
    next
      case False
      then have "sint ?low < 0" "sint ?low \<noteq> - (2 ^ (LENGTH(32) - 1))" using \<open>?neg\<close> n by (simp_all add: sint_neg_word number_at_def)
      note s = abs_sint [OF this]
      have "sint (scast (- ?low) :: u64) = sint (- ?low)" by (rule sint_up_scast) (simp add: is_up)
      then have "uint (scast (- ?low) :: u64) = sint (- ?low)"
        using s(2) \<open>sint ?low < 0\<close> uint_nonneg [of "scast (- ?low) :: u64"] by simp
      then have "unat (scast (- ?low) :: u64) = nat (- sint ?low)" using s(2) by (metis nat_int of_nat_unat)
      then show ?thesis using False \<open>?neg\<close> n(1) \<open>sint ?low < 0\<close> by (simp add: val_def number_at_def)
    qed
  next
    case False
    then show ?thesis using n(1) unat_nonneg [of v] unat_nonneg [of ?low]
      by (auto simp: val_def number_at_def sint_neg_word unat_ucast_up not_less)
  qed
  let ?t = "int_text (unat base) n"
  have it: "?t = (if ?neg then [0x2D] else []) @ t" using neg val by (simp add: int_text_def t_def)
  have lt: "length t \<le> length buffer" "length t + (if ?neg then 1 else 0) < length buffer" using l(1) it by auto
  let ?rest = "drop (length t) buffer"
  obtain x xs where x: "?rest = x # xs" using lt(2) by (cases ?rest) auto
  let ?k = "of_nat (length t) :: u32"
  have k: "unat ?k = length t" using lt l(2) by (intro unat_of_nat_small) simp
  have k1: "unat (?k + 1) = Suc (length t)" using k lt l(2) by (simp add: unat_add_small)
  note lp = text_of_loop [OF b, of val buffer, folded t_def, OF lt(1) l(2)]
  have b0: "base \<noteq> 0" using b(1) by auto
  have ok: "?neg \<longrightarrow> (if is64 then v \<noteq> 0x8000000000000000 else ?low \<noteq> 0x80000000)"
    using n by (auto simp: number_at_def)
  let ?rev = "\<lambda>r. do {
      b \<leftarrow> array_set (fst r) (unat (snd r)) 0;
      for_upto 0 (unat (snd r div 2)) (\<lambda>i b. swap b i (unat (snd r - of_nat i - 1))) b
    }"
  have it0: "itoa v sg buffer base is64 = do {
      s \<leftarrow> do {
        r \<leftarrow> (if val = 0 then do { b \<leftarrow> array_set buffer 0 0x30; Some (b, 1) } else Some (buffer, 0));
        itoa_loop (fst r) (snd r) val base
      };
      r \<leftarrow> (if ?neg then do { b \<leftarrow> array_set (fst s) (unat (snd s)) 0x2D; Some (b, snd s + 1) } else Some s);
      ?rev r
    }"
    unfolding itoa_def Let_def val_def [symmetric] ASSERT_holds [OF b0] ASSERT_holds [OF ok] bind.bind_lunit bind_assoc
    by (rule refl)
  have fin: "?rev (rev tt @ y # ys, w) = Some (tt @ 0 # ys)" if "unat w = length tt" for tt y ys and w :: u32
  proof -
    have w: "w = of_nat (length tt)" using that by (simp flip: that)
    have "unat (w div 2) = length tt div 2" using that by (simp add: unat_div)
    moreover have "array_set (rev tt @ y # ys) (length tt) 0 = Some (rev tt @ 0 # ys)"
      by (simp add: list_update_append)
    moreover have "length tt < 2 ^ 32" using unsigned_less [of w, where 'a = nat] that by simp
    ultimately show ?thesis
      using that reverse_loop_run [of "length tt" "rev tt @ 0 # ys"] by (simp add: w)
  qed
  show ?thesis
  proof (cases ?neg)
    case True
    have "length t + 1 < length buffer" using lt(2) unfolding if_P [OF True] .
    then obtain y ys where y: "xs = y # ys" using arg_cong [OF x, of length] by (cases xs) auto
    have "array_set (rev t @ ?rest) (length t) 0x2D = Some (rev ?t @ y # ys)"
      using True it by (simp add: x y list_update_append)
    moreover have "drop (length ?t + 1) buffer = ys"
      using arg_cong [OF x, of "drop 2"] True it y by (simp add: numeral_2_eq_2)
    ultimately show ?thesis unfolding it0 lp bind.bind_lunit using True fin [of "?k + 1" ?t y ys] k k1 it by simp
  next
    case False
    have tt: "?t = t" using it unfolding if_not_P [OF False] by simp
    have "drop (length t + 1) buffer = xs" using arg_cong [OF x, of "drop 1"] by simp
    then show ?thesis unfolding it0 lp bind.bind_lunit if_not_P [OF False] tt using fin [of ?k t x xs] k x by simp
  qed
qed

section \<open>From text to a number\<close>

lemma atoi_loop_run:
  "drop i buf = map digit_char ds @ 0 # r \<Longrightarrow> \<forall>d \<in> set ds. d < unat base \<Longrightarrow> unat base \<le> 36 \<Longrightarrow>
   atoi_loop buf i (of_nat n) base = Some (of_nat (foldl (\<lambda>v d. v * unat base + d) n ds))"
proof (induction ds arbitrary: i n)
  case Nil
  then have "array_get buf i = Some 0" by (intro get_drop) simp
  then show ?case by (simp add: atoi_loop.simps)
next
  case (Cons d ds)
  have d: "d < unat base" "d < 36" using Cons.prems by auto
  note dc = char_value_digit [OF d(2)]
  have g: "array_get buf i = Some (digit_char d)" using Cons.prems(1) by (intro get_drop) simp
  have u: "(ucast (of_nat d :: u8) :: u32) = of_nat d"
    using d(2) by (intro word_unat_eq_iff [THEN iffD2]) (simp add: unsigned_ucast_eq unat_of_nat_small take_bit_nat_eq_self)
  have lt: "(of_nat d :: u32) < base" using d by (simp add: word_less_nat_alt unat_of_nat_small)
  have v: "(of_nat n :: u64) * ucast base + ucast (of_nat d :: u8) = of_nat (n * unat base + d)"
  proof -
    have "(ucast base :: u64) = of_nat (unat base)" by simp
    moreover have "(ucast (of_nat d :: u8) :: u64) = of_nat d"
      using d(2) by (intro word_unat_eq_iff [THEN iffD2]) (simp add: unsigned_ucast_eq unat_of_nat_small take_bit_nat_eq_self)
    ultimately show ?thesis by (simp only: of_nat_mult of_nat_add)
  qed
  have "drop (Suc i) buf = map digit_char ds @ 0 # r" using Cons.prems(1) by (intro drop_next [of _ _ "digit_char d"]) simp
  then have "atoi_loop buf (Suc i) (of_nat (n * unat base + d)) base
      = Some (of_nat (foldl (\<lambda>v d. v * unat base + d) (n * unat base + d) ds))"
    using Cons.prems(2,3) by (intro Cons.IH) auto
  moreover have "atoi_loop buf i (of_nat n) base = atoi_loop buf (Suc i) (of_nat n * ucast base + ucast (char_value (digit_char d))) base"
    using dc lt u by (subst atoi_loop.simps) (simp add: g)
  ultimately show ?case using dc v by simp
qed

lemma text_of_digits:
  assumes "2 \<le> b"
  obtains ds where "text_of b n = map digit_char ds" "\<forall>d \<in> set ds. d < b" "number_of_digits b ds = n" "ds \<noteq> []"
proof (cases "n = 0")
  case True
  then show thesis using assms by (intro that [of "[0]"]) (simp_all add: text_of_def digit_char_def number_of_digits_def)
next
  case False
  then have "digits b n \<noteq> []" using assms by (simp add: digits.simps)
  then show thesis using False assms digits_value [OF assms, of n]
    by (intro that [of "rev (digits b n)"]) (auto simp: text_of_def rev_map digits_less)
qed

lemma ucast_of_int_32: "(ucast (of_int n :: u64) :: u32) = of_int n"
  by (rule bit_word_eqI) (auto simp: bit_simps bit_word_of_int_iff)

lemma atoi_run:
  fixes n :: int
  defines "w \<equiv> of_nat (nat \<bar>n\<bar>) :: u64"
  assumes b: "2 \<le> unat base" "unat base \<le> 36" and t: "buf = int_text (unat base) n @ 0 # r"
  shows "atoi buf base is64 =
    (if n < 0 \<and> w = 0x8000000000000000 then None
     else if is64 then Some (of_int n)
     else if n < 0 \<or> w \<le> 0xFFFFFFFF then Some (ucast (of_int n :: u32)) else None)"
proof -
  obtain ds where ds: "text_of (unat base) (nat \<bar>n\<bar>) = map digit_char ds" "\<forall>d \<in> set ds. d < unat base"
    "number_of_digits (unat base) ds = nat \<bar>n\<bar>" "ds \<noteq> []"
    using text_of_digits [OF b(1)] by blast
  obtain d ds' where d: "ds = d # ds'" using ds(4) by (cases ds) auto
  have b0: "base \<noteq> 0" using b(1) by auto
  have neg: "hd (int_text (unat base) n) = 0x2D \<longleftrightarrow> n < 0" "int_text (unat base) n \<noteq> []"
    using char_value_digit [of d] ds(1,2) d b(2) by (auto simp: int_text_def)
  have hd: "array_get buf 0 = Some (hd (int_text (unat base) n))"
    using neg(2) by (cases "int_text (unat base) n") (simp_all add: t)
  have dr: "drop (if n < 0 then 1 else 0) buf = map digit_char ds @ 0 # r" using ds(1) by (simp add: t int_text_def)
  have lp: "atoi_loop buf (if n < 0 then 1 else 0) 0 base = Some w"
    using atoi_loop_run [OF dr ds(2) b(2), of 0] ds(3) by (simp add: w_def number_of_digits_def)
  have v: "(if n < 0 then - w else w) = of_int n" by (simp add: w_def of_nat_nat)
  show ?thesis
    unfolding atoi_def hd bind.bind_lunit neg(1) lp ASSERT_holds [OF b0] Let_def v ucast_of_int_32
    by (auto simp: ASSERT_def split: if_splits) (use v in auto)
qed

lemma number_bounds:
  assumes "n = number_at v sg is64" "sg \<longrightarrow> n \<noteq> - (2 ^ (if is64 then 63 else 31))"
  shows "nat \<bar>n\<bar> < 2 ^ 64" "n < 0 \<longrightarrow> nat \<bar>n\<bar> \<noteq> 2 ^ 63" "\<not> is64 \<and> \<not> n < 0 \<longrightarrow> nat \<bar>n\<bar> < 2 ^ 32"
proof -
  let ?l = "ucast v :: u32"
  have "- (2 ^ 63) \<le> sint v" "sint v < 2 ^ 63" "uint v < 2 ^ 64" "0 \<le> uint v"
    "- (2 ^ 31) \<le> sint ?l" "sint ?l < 2 ^ 31" "uint ?l < 2 ^ 32" "0 \<le> uint ?l"
    using sint_greater_eq [of v] sint_lt [of v] sint_greater_eq [of ?l] sint_lt [of ?l]
      unsigned_less [of v, where 'a = int] unsigned_less [of ?l, where 'a = int] by simp_all
  then show "nat \<bar>n\<bar> < 2 ^ 64" "n < 0 \<longrightarrow> nat \<bar>n\<bar> \<noteq> 2 ^ 63" "\<not> is64 \<and> \<not> n < 0 \<longrightarrow> nat \<bar>n\<bar> < 2 ^ 32"
    using assms by (auto simp: number_at_def nat_less_iff split: if_splits)
qed

lemma text_length: "2 \<le> b \<Longrightarrow> n < 2 ^ 64 \<Longrightarrow> length (text_of b n) \<le> 64"
  using digits_length [of b n 64] by (auto simp: text_of_def)

lemma of_nat_le_dword: "k < 2 ^ 32 \<Longrightarrow> (of_nat k :: u64) \<le> 0xFFFFFFFF"
  by (simp add: word_le_nat_alt unat_of_nat_small)

text \<open>The least integers cannot be converted: negating them has no defined result.\<close>

lemma itoa_least:
  "itoa 0x80000000 True buffer base False = None" "itoa 0x8000000000000000 True buffer base True = None"
  by (simp_all add: itoa_def word_sless_alt)

section \<open>Properties\<close>

text \<open>C23: \<open>itoa\<close> writes the canonical text of the number, for every base from 2 to 36 and every
  number but the least signed one: a minus sign for negative numbers, the digits with the most
  significant one first and without leading zeros, a terminator, and nothing behind it; \<open>atoi\<close>
  reads the same number back. A buffer of 66 bytes is always long enough.\<close>

theorem itoa_atoi_roundtrip:
  assumes b: "2 \<le> unat base" "unat base \<le> 36" and l: "66 \<le> length buffer" "length buffer < 2 ^ 32"
    and n: "n = number_at v sg is64" "sg \<longrightarrow> n \<noteq> - (2 ^ (if is64 then 63 else 31))"
  shows "\<exists>text. itoa v sg buffer base is64 = Some (text @ 0 # drop (length text + 1) buffer) \<and>
    text = int_text (unat base) n \<and>
    atoi (text @ 0 # drop (length text + 1) buffer) base is64 = Some (if is64 then v else ucast (ucast v :: u32))"
proof -
  have m: "nat \<bar>n\<bar> < 2 ^ 64" "n < 0 \<longrightarrow> nat \<bar>n\<bar> \<noteq> 2 ^ 63" "\<not> is64 \<and> \<not> n < 0 \<longrightarrow> nat \<bar>n\<bar> < 2 ^ 32"
    using number_bounds [OF n] by simp_all
  have len: "length (int_text (unat base) n) < length buffer"
    using text_length [OF b(1) m(1)] l(1) by (auto simp: int_text_def)
  note it = itoa_run [OF b n len l(2)]
  have w: "(of_nat (nat \<bar>n\<bar>) :: u64) = 0x8000000000000000 \<longrightarrow> nat \<bar>n\<bar> = 2 ^ 63"
    using unat_of_nat_small [of "nat \<bar>n\<bar>", where 'a = 64] m(1) by auto
  have w32: "\<not> is64 \<and> \<not> n < 0 \<longrightarrow> (of_nat (nat \<bar>n\<bar>) :: u64) \<le> 0xFFFFFFFF"
    using m(3) of_nat_le_dword [of "nat \<bar>n\<bar>"] by blast
  have of: "is64 \<longrightarrow> of_int n = v" "\<not> is64 \<longrightarrow> (of_int n :: u32) = ucast v"
    using n(1) by (simp_all add: number_at_def)
  define k where "k = nat \<bar>n\<bar>"
  define W :: u64 where "W = of_nat k"
  note ar = atoi_run [OF b refl, of n _ is64, folded k_def, folded W_def]
  have nw: "\<not> (n < 0 \<and> W = 0x8000000000000000)" using w m(2) unfolding k_def [symmetric] W_def [symmetric] by blast
  have "atoi (int_text (unat base) n @ 0 # r) base is64 = Some (if is64 then v else ucast (ucast v :: u32))" for r
    using w32 of unfolding ar if_not_P [OF nw] k_def [symmetric] W_def [symmetric] by auto
  then show ?thesis using it by simp
qed

lemma itoa_atoi_roundtrip_witness:
  "\<exists>text. itoa 0xFFFFFFD6 True (replicate 66 0) 16 False = Some (text @ 0 # drop (length text + 1) (replicate 66 0)) \<and>
    text = int_text (unat (16 :: u32)) (-42) \<and>
    atoi (text @ 0 # drop (length text + 1) (replicate 66 0)) 16 False = Some (if False then 0xFFFFFFD6 else ucast (ucast (0xFFFFFFD6 :: u64) :: u32))"
  by (rule itoa_atoi_roundtrip) (simp_all add: number_at_def)

end
