(* ===== verification/CL_Format.thy ===== *)
theory CL_Format
  imports CL_StrUtils CL_Memory
begin

text \<open>
  \<open>cl_vsnprintf\<close> of \<open>CommonLib/src/cl_string.c\<close>, the formatted output behind the log, and
  \<open>cl_snprintf\<close>. The variable arguments are a list; fetching one of the wrong kind, or one too many,
  has no defined result. The memory behind \<open>outputBuffer\<close> is a byte list whose length is
  independent of \<open>buffSize\<close>: a store behind it is a fault.
\<close>

section \<open>Operations\<close>

datatype va = VInt u64 | VStr "u8 list option"

text \<open>\<open>va_arg(argptr, DWORD)\<close> and \<open>va_arg(argptr, QWORD)\<close>, in a QWORD.\<close>

definition va_int :: "bool \<Rightarrow> va list \<Rightarrow> (u64 \<times> va list) option" where
  "va_int is64 args = (case args of
     VInt v # r \<Rightarrow> Some (if is64 then v else ucast (ucast v :: u32), r)
   | _ \<Rightarrow> None)"

definition va_str :: "va list \<Rightarrow> (u8 list option \<times> va list) option" where
  "va_str args = (case args of VStr s # r \<Rightarrow> Some (s, r) | _ \<Rightarrow> None)"

text \<open>The letters that print an integer: signed, base, 64 bit.\<close>

definition int_conversion :: "u8 \<Rightarrow> (bool \<times> u32 \<times> bool) option" where
  "int_conversion next =
     (if next = 0x62 then Some (False, 2, False)
      else if next = 0x42 then Some (False, 2, True)
      else if next = 0x75 then Some (False, 10, False)
      else if next = 0x55 then Some (False, 10, True)
      else if next = 0x64 then Some (True, 10, False)
      else if next = 0x44 then Some (True, 10, True)
      else if next = 0x78 then Some (False, 16, False)
      else if next = 0x58 then Some (False, 16, True)
      else None)"

text \<open>\<open>cl_strncpy\<close> from one buffer into another.\<close>

definition put_string :: "u8 list \<Rightarrow> nat \<Rightarrow> u8 list \<Rightarrow> u32 \<Rightarrow> u8 list option" where
  "put_string out off str n = do {
     m \<leftarrow> cl_strncpy (str @ out) (Some (length str + off)) (Some 0) n;
     Some (drop (length str) m)
   }"

text \<open>The width in front of the letter: the index of its last character, its value, the character to
  fill with, and the letter.\<close>

partial_function (option) width_loop :: "u8 list \<Rightarrow> nat \<Rightarrow> u32 \<Rightarrow> bool \<Rightarrow> u8 \<Rightarrow> (nat \<times> u32 \<times> u8 \<times> u8) option" where
  "width_loop inputBuffer index width firstSpecificator fillChar = do {
     next \<leftarrow> array_get inputBuffer (index + 1);
     if 0x30 \<le> next \<and> next \<le> 0x39 then
       width_loop inputBuffer (index + 1) (width * 10 + ucast next - 0x30) False
         (if firstSpecificator \<and> next = 0x30 then 0x30 else fillChar)
     else Some (index, width, fillChar, next)
   }"

text \<open>The switch: \<open>temp_str\<close>, the temporary buffer and the rest of the arguments; \<open>Some None\<close> is the
  parsing error.\<close>

definition format_arg ::
  "u8 \<Rightarrow> u8 list \<Rightarrow> va list \<Rightarrow> (u8 list option \<times> u8 list \<times> va list) option option" where
  "format_arg next temp args = (case int_conversion next of
     Some (signedValue, base, is64BitValue) \<Rightarrow> do {
       a \<leftarrow> va_int is64BitValue args;
       t \<leftarrow> itoa (fst a) signedValue temp base is64BitValue;
       Some (Some (Some t, t, snd a))
     }
   | None \<Rightarrow>
       if next = 0x63 then do {
         a \<leftarrow> va_int False args;
         t \<leftarrow> put_string temp 0 (map (\<lambda>i. ucast (drop_bit (8 * i) (fst a))) [0 ..< 8]) 1;
         Some (Some (Some t, t, snd a))
       }
       else if next = 0x73 \<or> next = 0x53 then do {
         a \<leftarrow> va_str args;
         Some (Some (fst a, temp, snd a))
       }
       else Some None)"

definition temp_strlen :: "u8 list option \<Rightarrow> u32 option" where
  "temp_strlen s = (case s of None \<Rightarrow> cl_strlen [] None | Some m \<Rightarrow> cl_strlen m (Some 0))"

abbreviation (input) STATUS_PARSE_FAILED :: STATUS where "STATUS_PARSE_FAILED \<equiv> 0xE8000021"
abbreviation (input) STATUS_BUFFER_TOO_SMALL :: STATUS where "STATUS_BUFFER_TOO_SMALL \<equiv> 0xE0100002"

partial_function (option) vsnprintf_loop ::
  "u8 list \<Rightarrow> u32 \<Rightarrow> nat \<Rightarrow> u32 \<Rightarrow> u8 list \<Rightarrow> u32 \<Rightarrow> u8 list \<Rightarrow> va list \<Rightarrow> (STATUS \<times> u8 list) option" where
  "vsnprintf_loop inputBuffer buffSize index param_index outputBuffer outBufferOffset temp argptr = do {
     c \<leftarrow> array_get inputBuffer index;
     if c = 0 then do {
       o' \<leftarrow> array_set outputBuffer (unat outBufferOffset) 0;
       Some (param_index - 1, o')
     }
     else if c = 0x25 then do {
       w \<leftarrow> width_loop inputBuffer index 0 True 0x20;
       let width = fst (snd w);
       let next = snd (snd (snd w));
       f \<leftarrow> format_arg next temp argptr;
       if f = None then Some (STATUS_PARSE_FAILED, outputBuffer)
       else do {
         temp_len \<leftarrow> temp_strlen (fst (the f));
         ASSERT (temp_len \<noteq> MAX_DWORD);
         let charsToCopy = (if next = 0x53 then min width temp_len else temp_len);
         if buffSize \<le> outBufferOffset + temp_len then Some (STATUS_BUFFER_TOO_SMALL, outputBuffer)
         else do {
           let fillSpaces = (if temp_len < width then width - temp_len else 0);
           if buffSize \<le> outBufferOffset + temp_len + fillSpaces then Some (STATUS_BUFFER_TOO_SMALL, outputBuffer)
           else do {
             o1 \<leftarrow> (if fillSpaces \<noteq> 0
               then cl_memset outputBuffer (Some (unat outBufferOffset)) (fst (snd (snd w))) fillSpaces
               else Some outputBuffer);
             let off1 = (if fillSpaces \<noteq> 0 then outBufferOffset + fillSpaces else outBufferOffset);
             o2 \<leftarrow> (if charsToCopy \<noteq> 0 then put_string o1 (unat off1) (the (fst (the f))) charsToCopy else Some o1);
             vsnprintf_loop inputBuffer buffSize (fst w + 2) (param_index + 1) o2 (off1 + charsToCopy)
               (fst (snd (the f))) (snd (snd (the f)))
           }
         }
       }
     }
     else if buffSize \<le> outBufferOffset + 1 then do {
       o' \<leftarrow> array_set outputBuffer (unat outBufferOffset) 0;
       Some (STATUS_BUFFER_TOO_SMALL, o')
     }
     else do {
       o' \<leftarrow> array_set outputBuffer (unat outBufferOffset) c;
       vsnprintf_loop inputBuffer buffSize (index + 1) param_index o' (outBufferOffset + 1) temp argptr
     }
   }"

declare width_loop.simps [code] vsnprintf_loop.simps [code]

text \<open>\<open>temp\<close> is what the stack buffer happens to hold.\<close>

definition cl_vsnprintf ::
  "u8 list \<Rightarrow> u8 list option \<Rightarrow> u32 \<Rightarrow> u8 list option \<Rightarrow> va list \<Rightarrow> (STATUS \<times> u8 list option) option" where
  "cl_vsnprintf temp outputBuffer buffSize inputBuffer argptr =
     (case outputBuffer of
        None \<Rightarrow> Some (STATUS_INVALID_PARAMETER1, None)
      | Some out \<Rightarrow>
          if buffSize = 0 then Some (STATUS_INVALID_PARAMETER2, Some out)
          else (case inputBuffer of
             None \<Rightarrow> Some (STATUS_INVALID_PARAMETER3, Some out)
           | Some inp \<Rightarrow> map_option (map_prod id Some) (vsnprintf_loop inp buffSize 0 1 out 0 temp argptr)))"

definition cl_snprintf ::
  "u8 list \<Rightarrow> u8 list option \<Rightarrow> u32 \<Rightarrow> u8 list option \<Rightarrow> va list \<Rightarrow> (STATUS \<times> u8 list option) option" where
  "cl_snprintf temp outputBuffer buffSize inputBuffer va = cl_vsnprintf temp outputBuffer buffSize inputBuffer va"

section \<open>What a format means\<close>

text \<open>A format is a sequence of characters and conversions; a conversion is the characters of its width
  and a letter.\<close>

datatype piece = Lit u8 | Conv "u8 list" u8

fun piece_text :: "piece \<Rightarrow> u8 list" where
  "piece_text (Lit c) = [c]"
| "piece_text (Conv ds k) = 0x25 # ds @ [k]"

fun piece_ok :: "piece \<Rightarrow> bool" where
  "piece_ok (Lit c) \<longleftrightarrow> c \<noteq> 0 \<and> c \<noteq> 0x25"
| "piece_ok (Conv ds k) \<longleftrightarrow> (\<forall>c \<in> set ds. 0x30 \<le> c \<and> c \<le> 0x39) \<and> \<not> (0x30 \<le> k \<and> k \<le> 0x39)"

definition width_of :: "u8 list \<Rightarrow> u32" where
  "width_of ds = foldl (\<lambda>w c. w * 10 + ucast c - 0x30) 0 ds"

definition fill_of :: "u8 list \<Rightarrow> u8" where
  "fill_of ds = (if ds \<noteq> [] \<and> hd ds = 0x30 then 0x30 else 0x20)"

text \<open>The text of an argument under a letter, and the arguments that remain.\<close>

definition arg_text :: "u8 \<Rightarrow> va list \<Rightarrow> (u8 list \<times> va list) option" where
  "arg_text k args = (case int_conversion k of
     Some (sg, base, is64) \<Rightarrow> (case args of
         VInt v # r \<Rightarrow> if sg \<and> number_at v sg is64 = - (2 ^ (if is64 then 63 else 31)) then None
           else Some (int_text (unat base) (number_at v sg is64), r)
       | _ \<Rightarrow> None)
   | None \<Rightarrow>
       if k = 0x63 then (case args of VInt v # r \<Rightarrow> Some (if ucast v = (0 :: u8) then [] else [ucast v], r) | _ \<Rightarrow> None)
       else if k = 0x73 \<or> k = 0x53 then (case args of
           VStr (Some m) # r \<Rightarrow> if 0 \<in> set m \<and> length m < 2 ^ 32 then Some (cstr m, r) else None
         | _ \<Rightarrow> None)
       else None)"

text \<open>One field: the padding and the characters.\<close>

definition field :: "u32 \<Rightarrow> u8 \<Rightarrow> u8 \<Rightarrow> u8 list \<Rightarrow> u8 list" where
  "field wd fill k t = replicate (unat wd - length t) fill @ (if k = 0x53 then take (unat wd) t else t)"

text \<open>The whole text, and the room it needs before the terminator: a string that \<open>S\<close> cuts needs room
  for all of its characters, and a character of the format itself needs its own byte and that of the
  terminator.\<close>

fun render :: "nat \<Rightarrow> piece list \<Rightarrow> va list \<Rightarrow> (u8 list \<times> nat) option" where
  "render off [] args = Some ([], off)"
| "render off (Lit c # ps) args = do {
     r \<leftarrow> render (Suc off) ps args;
     Some (c # fst r, max (Suc off) (snd r))
   }"
| "render off (Conv ds k # ps) args = do {
     a \<leftarrow> arg_text k args;
     let s = field (width_of ds) (fill_of ds) k (fst a);
     r \<leftarrow> render (off + length s) ps (snd a);
     Some (s @ fst r, max (off + max (length (fst a)) (unat (width_of ds))) (snd r))
   }"

fun conversions :: "piece list \<Rightarrow> nat" where
  "conversions [] = 0"
| "conversions (Lit c # ps) = conversions ps"
| "conversions (Conv ds k # ps) = Suc (conversions ps)"

section \<open>The parts\<close>

lemma width_loop_run:
  "drop (Suc index) inp = ds @ k # r \<Longrightarrow> \<forall>c \<in> set ds. 0x30 \<le> c \<and> c \<le> 0x39 \<Longrightarrow> \<not> (0x30 \<le> k \<and> k \<le> 0x39) \<Longrightarrow>
   width_loop inp index w first fill = Some (index + length ds, foldl (\<lambda>w c. w * 10 + ucast c - 0x30) w ds,
     if first \<and> ds \<noteq> [] \<and> hd ds = 0x30 then 0x30 else fill, k)"
proof (induction ds arbitrary: index w first fill)
  case Nil
  then have "array_get inp (index + 1) = Some k" by (intro get_drop [of _ _ _ r]) simp
  then show ?case using Nil.prems(3) by (subst width_loop.simps) auto
next
  case (Cons c ds)
  have "array_get inp (index + 1) = Some c" using Cons.prems(1) by (intro get_drop [of _ _ _ "ds @ k # r"]) simp
  moreover have "drop (Suc (index + 1)) inp = ds @ k # r"
    using Cons.prems(1) by (intro drop_next [of _ _ c]) simp
  ultimately show ?case using Cons by (subst width_loop.simps) simp
qed

lemma put_string_run:
  assumes "str = t @ 0 # r" "0 \<notin> set t" "n \<noteq> 0" "off + min (unat n) (length t) < length out"
  shows "put_string out off str n
    = Some (take off out @ take (unat n) t @ 0 # drop (off + min (unat n) (length t) + 1) out)"
proof -
  have "cl_strncpy (str @ out) (Some (length str + off)) (Some 0) n
    = Some (take (length str + off) (str @ out) @ take (unat n) t @ 0
        # drop (length str + off + min (unat n) (length t) + 1) (str @ out))"
    using assms by (intro cl_strncpy_run [of _ _ t "r @ out"]) auto
  then show ?thesis by (simp add: put_string_def)
qed

lemma put_char_run:
  "put_string (o0 # o1 # out) 0 (b # bs) 1 = Some (if b = 0 then 0 # o1 # out else b # 0 # out)"
  by (simp add: put_string_def cl_strncpy_def list_update_append nth_append)

lemma no_zero_text:
  assumes "2 \<le> b" "b \<le> 36"
  shows "0 \<notin> set (int_text b n)"
proof -
  obtain ds where ds: "text_of b (nat \<bar>n\<bar>) = map digit_char ds" "\<forall>d \<in> set ds. d < b"
    using text_of_digits [OF assms(1)] by metis
  have "digit_char d \<noteq> 0" if "d \<in> set ds" for d using that ds(2) assms(2) char_value_digit [of d] by auto
  then show ?thesis using ds(1) by (auto simp: int_text_def)
qed

lemma int_conversion_base:
  "int_conversion k = Some (sg, base, is64) \<Longrightarrow> 2 \<le> unat base \<and> unat base \<le> 36 \<and> (sg \<longrightarrow> base = 10)"
  by (auto simp: int_conversion_def split: if_splits)

text \<open>The temporary buffer is just long enough for any of the integers.\<close>

lemma int_text_fits:
  assumes b: "2 \<le> b" and n: "n = number_at v sg is64" "sg \<longrightarrow> n \<noteq> - (2 ^ (if is64 then 63 else 31))"
  shows "length (int_text b n) < 65"
proof (cases "n < 0")
  case True
  then have sg: "sg" using n(1) by (auto simp: number_at_def split: if_splits)
  have "nat \<bar>n\<bar> < 2 ^ 63"
    using n sg True sint_greater_eq [of v] sint_greater_eq [of "ucast v :: u32"]
    by (auto simp: number_at_def nat_less_iff split: if_splits)
  then have "length (digits b (nat \<bar>n\<bar>)) \<le> 63" using digits_length [OF b] by blast
  then show ?thesis using True by (auto simp: int_text_def text_of_def)
next
  case False
  then show ?thesis using text_length [OF b number_bounds(1) [OF n]] by (simp add: int_text_def)
qed

lemma format_arg_run:
  assumes a: "arg_text k args = Some (t, rest)" and l: "length temp = 65"
  obtains str temp' r where "format_arg k temp args = Some (Some (Some str, temp', rest))" "str = t @ 0 # r"
    "0 \<notin> set t" "length temp' = 65" "length t < 2 ^ 32 - 1"
proof (cases "int_conversion k")
  case (Some c)
  obtain sg base is64 where c: "c = (sg, base, is64)" by (cases c)
  note cb = int_conversion_base [OF Some [unfolded c]]
  obtain v where v: "args = VInt v # rest" "sg \<longrightarrow> number_at v sg is64 \<noteq> - (2 ^ (if is64 then 63 else 31))"
    "t = int_text (unat base) (number_at v sg is64)"
    using a Some c by (auto simp: arg_text_def split: list.splits va.splits if_splits)
  define x where "x = (if is64 then v else ucast (ucast v :: u32))"
  have nx: "number_at x sg is64 = number_at v sg is64"
  proof -
    have "ucast (ucast (ucast v :: u32) :: u64) = (ucast v :: u32)" by (rule bit_word_eqI) (auto simp: bit_simps)
    then show ?thesis by (simp add: x_def number_at_def)
  qed
  have f: "length t < 65" using int_text_fits [OF _ refl v(2)] cb v(3) by simp
  have "itoa x sg temp base is64 = Some (t @ 0 # drop (length t + 1) temp)"
    using itoa_run [of base "number_at v sg is64" x sg is64 temp] cb nx v(2,3) f l by simp
  then have "format_arg k temp args = Some (Some (Some (t @ 0 # drop (length t + 1) temp), t @ 0 # drop (length t + 1) temp, rest))"
    using Some c v(1) by (simp add: format_arg_def va_int_def x_def [symmetric])
  then show thesis using f l no_zero_text [of "unat base"] cb v(3)
    by (intro that [of "t @ 0 # drop (length t + 1) temp" "t @ 0 # drop (length t + 1) temp" "drop (length t + 1) temp"]) simp_all
next
  case None
  show thesis
  proof (cases "k = 0x63")
    case True
    then obtain v where v: "args = VInt v # rest" "t = (if ucast v = (0 :: u8) then [] else [ucast v])"
      using a None by (auto simp: arg_text_def split: list.splits va.splits if_splits)
    define x :: u64 where "x = ucast (ucast v :: u32)"
    have x: "ucast x = (ucast v :: u8)" unfolding x_def by (rule bit_word_eqI) (auto simp: bit_simps)
    have bs: "map (\<lambda>i. ucast (drop_bit (8 * i) x)) [0 ..< 8] = (ucast v :: u8) # map (\<lambda>i. ucast (drop_bit (8 * i) x)) [1 ..< 8]"
      using x by (simp add: upt_rec)
    obtain o0 o1 out where oo: "temp = o0 # o1 # out" using l by (cases temp; cases "tl temp") auto
    define temp' where "temp' = (if ucast v = (0 :: u8) then 0 # o1 # out else ucast v # 0 # out)"
    have "put_string temp 0 (map (\<lambda>i. ucast (drop_bit (8 * i) x)) [0 ..< 8]) 1 = Some temp'"
      unfolding bs unfolding oo temp'_def by (rule put_char_run)
    then have "format_arg k temp args = Some (Some (Some temp', temp', rest))"
      using None True v(1) by (simp add: format_arg_def va_int_def x_def [symmetric])
    then show thesis using v(2) l oo by (intro that [of temp' temp' "if ucast v = (0 :: u8) then o1 # out else out"]) (simp_all add: temp'_def)
  next
    case False
    then obtain m where m: "args = VStr (Some m) # rest" "0 \<in> set m" "length m < 2 ^ 32" "t = cstr m" "k = 0x73 \<or> k = 0x53"
      using a None by (auto simp: arg_text_def split: list.splits va.splits if_splits option.splits)
    obtain r where r: "m = cstr m @ 0 # r" "0 \<notin> set (cstr m)" using cstr_split [OF m(2)] by blast
    have "format_arg k temp args = Some (Some (Some m, temp, rest))"
      using None m(1,5) by (auto simp: format_arg_def va_str_def)
    moreover have "length t < 2 ^ 32 - 1" using arg_cong [OF r(1), of length] m(3,4) by simp
    ultimately show thesis using r l m(4) by (intro that [of m temp r]) simp_all
  qed
qed

section \<open>The whole text\<close>

text \<open>The buffer \<open>out\<close> begins with the text; one more byte is anything, the rest is as in \<open>out0\<close>.\<close>

definition filled :: "u8 list \<Rightarrow> u8 list \<Rightarrow> u8 list \<Rightarrow> bool" where
  "filled out0 tx out \<longleftrightarrow> length tx < length out0 \<and> length out = length out0 \<and>
     take (length tx) out = tx \<and> drop (Suc (length tx)) out = drop (Suc (length tx)) out0"

lemma drop_more: "drop (Suc a) out = drop (Suc a) out0 \<Longrightarrow> drop (Suc (a + k)) out = drop (Suc (a + k)) out0"
  by (metis add.commute add_Suc_right drop_drop)

lemma filled_fill:
  "filled out0 tx out \<Longrightarrow> length tx + k < length out0 \<Longrightarrow>
   filled out0 (tx @ replicate k v) (take (length tx) out @ replicate k v @ drop (length tx + k) out)"
  by (auto simp: filled_def dest: drop_more)

lemma filled_put:
  "filled out0 tx out \<Longrightarrow> length tx + length u < length out0 \<Longrightarrow>
   filled out0 (tx @ u) (take (length tx) out @ u @ 0 # drop (length tx + length u + 1) out)"
  by (auto simp: filled_def dest: drop_more)

lemma filled_char: "filled out0 tx out \<Longrightarrow> Suc (length tx) < length out0 \<Longrightarrow> filled out0 (tx @ [c]) (out[length tx := c])"
  using drop_more [of "length tx" out out0 1] by (auto simp: filled_def take_Suc_conv_app_nth)

lemma filled_end: "filled out0 tx out \<Longrightarrow> out[length tx := 0] = tx @ 0 # drop (Suc (length tx)) out0"
  by (simp add: filled_def upd_conv_take_nth_drop)

lemma filled_rest: "filled out0 tx out \<Longrightarrow> length tx < n \<Longrightarrow> drop n out = drop n out0"
  using drop_more [of "length tx" out out0 "n - Suc (length tx)"] by (simp add: filled_def)

lemma filled_end_rest: "filled out0 tx out \<Longrightarrow> length tx < n \<Longrightarrow> drop n (out[length tx := c]) = drop n out0"
  using filled_rest by simp

lemma field_run:
  fixes wd off :: u32 and k :: u8
  assumes f: "filled out0 tx out" and s: "str = t @ 0 # r" "0 \<notin> set t" and off: "unat off = length tx"
    and fit: "length tx + max (length t) (unat wd) < length out0" "length tx + max (length t) (unat wd) < 2 ^ 32"
  defines "tn \<equiv> of_nat (length t) :: u32"
  defines "fs \<equiv> if tn < wd then wd - tn else 0" and "ch \<equiv> if k = 0x53 then min wd tn else tn"
  shows "\<exists>o1 o2. (if fs \<noteq> 0 then cl_memset out (Some (unat off)) fill fs else Some out) = Some o1 \<and>
    (if ch \<noteq> 0 then put_string o1 (unat (if fs \<noteq> 0 then off + fs else off)) str ch else Some o1) = Some o2 \<and>
    filled out0 (tx @ field wd fill k t) o2 \<and>
    unat ((if fs \<noteq> 0 then off + fs else off) + ch) = length (tx @ field wd fill k t)"
proof -
  let ?a = "length tx" let ?n = "length t" let ?w = "unat wd"
  have n: "unat tn = ?n" using fit(2) unfolding tn_def by (intro unat_of_nat_small) simp
  have fs: "unat fs = ?w - ?n" using n by (auto simp: fs_def word_less_nat_alt unat_sub_small word_le_nat_alt)
  have ch: "unat ch = (if k = 0x53 then min ?w ?n else ?n)" using n by (auto simp: ch_def min_def word_le_nat_alt)
  have ch_le: "unat ch \<le> ?n" "take (unat ch) t = (if k = 0x53 then take ?w t else t)" using ch by (auto simp: min_def)
  define o1 where "o1 = take ?a out @ replicate (?w - ?n) fill @ drop (?a + (?w - ?n)) out"
  define off1 where "off1 = (if fs \<noteq> 0 then off + fs else off)"
  have len: "length out = length out0" using f by (simp add: filled_def)
  have m: "(if fs \<noteq> 0 then cl_memset out (Some (unat off)) fill fs else Some out) = Some o1"
  proof (cases "fs = 0")
    case True
    then have "?w - ?n = 0" using fs by simp
    then show ?thesis using True by (simp add: o1_def)
  next
    case False
    then show ?thesis using memset_loop [of ?a "?w - ?n" out fill] fit(1) len fs off by (simp add: cl_memset_def o1_def)
  qed
  have off1: "unat off1 = ?a + (?w - ?n)"
    using fs off fit(2) by (cases "fs = 0") (simp_all add: off1_def unat_add_small)
  have f1: "filled out0 (tx @ replicate (?w - ?n) fill) o1"
    unfolding o1_def using f fit(1) by (intro filled_fill) auto
  define u where "u = take (unat ch) t"
  have u: "length u = unat ch" using ch_le(1) by (simp add: u_def)
  have fit1: "?a + (?w - ?n) + unat ch < length out0" using fit(1) ch_le(1) by (simp add: max_def split: if_splits)
  have un: "unat (off1 + ch) = ?a + (?w - ?n) + unat ch"
    using off1 fit(2) ch_le(1) by (subst unat_add_small) (auto simp: max_def split: if_splits)
  have fd: "field wd fill k t = replicate (?w - ?n) fill @ u" using ch_le(2) by (simp add: field_def u_def)
  have "\<exists>o2. (if ch \<noteq> 0 then put_string o1 (unat off1) str ch else Some o1) = Some o2 \<and>
    filled out0 ((tx @ replicate (?w - ?n) fill) @ u) o2"
  proof (cases "ch = 0")
    case True
    then have "u = []" by (simp add: u_def)
    then show ?thesis using f1 True by simp
  next
    case False
    have mn: "min (unat ch) ?n = unat ch" using ch_le(1) by simp
    have "length o1 = length out0" using f1 by (simp add: filled_def)
    then have "put_string o1 (unat off1) str ch
      = Some (take (unat off1) o1 @ u @ 0 # drop (unat off1 + length u + 1) o1)"
      using put_string_run [OF s False, of "unat off1" o1] mn fit1 off1 u u_def by simp
    moreover have "filled out0 ((tx @ replicate (?w - ?n) fill) @ u)
        (take (length (tx @ replicate (?w - ?n) fill)) o1 @ u @ 0 # drop (length (tx @ replicate (?w - ?n) fill) + length u + 1) o1)"
      using f1 fit1 u by (intro filled_put) simp_all
    ultimately show ?thesis using False off1 by simp
  qed
  then show ?thesis using m un fd u unfolding off1_def [symmetric] by simp
qed

lemma render_need: "render off ps args = Some (s, need) \<Longrightarrow> off \<le> need"
  by (induction off ps args arbitrary: s need rule: render.induct) (auto simp: bind_Some max_def Let_def)

lemma temp_strlen_run:
  "str = t @ 0 # r \<Longrightarrow> 0 \<notin> set t \<Longrightarrow> temp_strlen (Some str) = Some (of_nat (length t))"
  using cl_strlen_run [of 0 str t r] by (simp add: temp_strlen_def)

text \<open>One conversion of the loop, with its values named.\<close>

lemma conv_step:
  assumes "array_get inp index = Some 0x25" "width_loop inp index 0 True 0x20 = Some (i, wd, fc, k)"
    "format_arg k temp args = Some (Some (str, temp', rest))" "temp_strlen str = Some n" "n \<noteq> MAX_DWORD"
    "fs = (if n < wd then wd - n else 0)" "ch = (if k = 0x53 then min wd n else n)"
    "off1 = (if fs \<noteq> 0 then off + fs else off)"
  shows "vsnprintf_loop inp buffSize index param_index out off temp args =
    (if buffSize \<le> off + n \<or> buffSize \<le> off + n + fs then Some (STATUS_BUFFER_TOO_SMALL, out)
     else do {
       o1 \<leftarrow> (if fs \<noteq> 0 then cl_memset out (Some (unat off)) fc fs else Some out);
       o2 \<leftarrow> (if ch \<noteq> 0 then put_string o1 (unat off1) (the str) ch else Some o1);
       vsnprintf_loop inp buffSize (i + 2) (param_index + 1) o2 (off1 + ch) temp' rest
     })"
  using assms(5)
  by (subst vsnprintf_loop.simps, cases "buffSize \<le> off + n"; cases "buffSize \<le> off + n + fs")
    (simp_all add: assms(1-4) Let_def assms(6-8) [symmetric] cong: if_cong split del: if_split)

lemma field_length: "length (field w c k t) \<le> max (length t) (unat w)"
  by (auto simp: field_def)

lemma vsnprintf_loop_run:
  assumes "drop index inp = concat (map piece_text ps) @ 0 # r" "\<forall>p \<in> set ps. piece_ok p"
    and "render (length tx) ps args = Some (s, need)" "need < 2 ^ 32" "length temp = 65"
    and "unat buffSize \<le> length out0" "filled out0 tx out" "unat off = length tx" "length tx < unat buffSize"
  shows "\<exists>st o'. vsnprintf_loop inp buffSize index param_index out off temp args = Some (st, o') \<and>
    (if need < unat buffSize
     then st = param_index - 1 + of_nat (conversions ps) \<and> o' = (tx @ s) @ 0 # drop (Suc (length (tx @ s))) out0
     else st = STATUS_BUFFER_TOO_SMALL \<and> length o' = length out0 \<and> drop (unat buffSize) o' = drop (unat buffSize) out0)"
  using assms(1-5,7-9)
proof (induction ps arbitrary: index tx args s need temp out off param_index)
  case Nil
  then have "array_get inp index = Some 0" by (intro get_drop) simp
  moreover have "array_set out (unat off) 0 = Some (out[length tx := 0])" using Nil by (simp add: filled_def)
  ultimately show ?case using Nil filled_end [OF Nil.prems(6)]
    by (subst vsnprintf_loop.simps) (simp add: render.simps)
next
  case (Cons p ps)
  show ?case
  proof (cases p)
    case (Lit c)
    then have c: "c \<noteq> 0" "c \<noteq> 0x25" using Cons.prems(2) by simp_all
    have g: "array_get inp index = Some c" "drop (Suc index) inp = concat (map piece_text ps) @ 0 # r"
      using Cons.prems(1) Lit by (auto intro: get_drop drop_next)
    obtain s' need' where r: "render (Suc (length tx)) ps args = Some (s', need')" "s = c # s'"
      "need = max (Suc (length tx)) need'"
      using Cons.prems(3) Lit by (auto simp: bind_Some)
    have nn: "Suc (length tx) \<le> need'" using render_need [OF r(1)] .
    have o1: "unat (off + 1) = Suc (length tx)" using Cons.prems(4,7) r(3) nn by (simp add: unat_add_small)
    show ?thesis
    proof (cases "buffSize \<le> off + 1")
      case True
      then have b: "unat buffSize \<le> Suc (length tx)" using o1 by (simp add: word_le_nat_alt)
      have "array_set out (unat off) 0 = Some (out[length tx := 0])" using Cons.prems(6,7) by (simp add: filled_def)
      moreover have "length (out[length tx := 0]) = length out0" using Cons.prems(6) by (simp add: filled_def)
      ultimately show ?thesis using True c g(1) b nn r(3) filled_end_rest [OF Cons.prems(6), of "unat buffSize"] Cons.prems(8)
        by (subst vsnprintf_loop.simps) simp
    next
      case False
      then have b: "Suc (length tx) < unat buffSize" using o1 by (simp add: word_le_nat_alt)
      have a: "array_set out (unat off) c = Some (out[length tx := c])" using Cons.prems(6,7) by (simp add: filled_def)
      have "filled out0 (tx @ [c]) (out[length tx := c])" using Cons.prems(6) b assms(6) by (intro filled_char) simp_all
      then have ih: "\<exists>st o'. vsnprintf_loop inp buffSize (Suc index) param_index (out[length tx := c]) (off + 1) temp args = Some (st, o') \<and>
        (if need' < unat buffSize
         then st = param_index - 1 + of_nat (conversions ps) \<and>
           o' = ((tx @ [c]) @ s') @ 0 # drop (Suc (length ((tx @ [c]) @ s'))) out0
         else st = STATUS_BUFFER_TOO_SMALL \<and> length o' = length out0 \<and> drop (unat buffSize) o' = drop (unat buffSize) out0)"
        using Cons.prems g(2) r o1 b nn by (intro Cons.IH) simp_all
      have "vsnprintf_loop inp buffSize index param_index out off temp args
        = vsnprintf_loop inp buffSize (Suc index) param_index (out[length tx := c]) (off + 1) temp args"
        using False c g(1) a by (subst vsnprintf_loop.simps) simp
      then show ?thesis using ih r(2,3) nn Lit by (cases "need' < unat buffSize") simp_all
    qed
  next
    case (Conv ds k)
    then have ds: "\<forall>c \<in> set ds. 0x30 \<le> c \<and> c \<le> 0x39" "\<not> (0x30 \<le> k \<and> k \<le> 0x39)" using Cons.prems(2) by simp_all
    have g: "array_get inp index = Some 0x25" "drop (Suc index) inp = ds @ k # concat (map piece_text ps) @ 0 # r"
      using Cons.prems(1) Conv by (auto intro: get_drop drop_next)
    have "drop (index + length ds + 2) inp = drop (Suc (length ds)) (drop (Suc index) inp)" by (simp add: add.commute)
    then have d: "drop (index + length ds + 2) inp = concat (map piece_text ps) @ 0 # r" unfolding g(2) by simp
    let ?w = "width_of ds"
    have w: "width_loop inp index 0 True 0x20 = Some (index + length ds, ?w, fill_of ds, k)"
      using width_loop_run [OF g(2) ds, of 0 True "0x20"] by (simp add: width_of_def fill_of_def)
    obtain t rest s' need' where r: "arg_text k args = Some (t, rest)"
      "render (length (tx @ field ?w (fill_of ds) k t)) ps rest = Some (s', need')" "s = field ?w (fill_of ds) k t @ s'"
      "need = max (length tx + max (length t) (unat ?w)) need'"
      using Cons.prems(3) Conv by (auto simp: bind_Some Let_def)
    obtain str temp' r' where f: "format_arg k temp args = Some (Some (Some str, temp', rest))" "str = t @ 0 # r'"
      "0 \<notin> set t" "length temp' = 65" "length t < 2 ^ 32 - 1"
      using format_arg_run [OF r(1) Cons.prems(5)] by blast
    note tl = temp_strlen_run [OF f(2,3)]
    let ?n = "of_nat (length t) :: u32"
    have n: "unat ?n = length t" using f(5) by (intro unat_of_nat_small) simp
    have nM: "?n \<noteq> MAX_DWORD" using n f(5) by auto
    have nd: "length tx + max (length t) (unat ?w) \<le> need" using r(4) by simp
    define fs where "fs = (if ?n < ?w then ?w - ?n else 0)"
    define ch where "ch = (if k = 0x53 then min ?w ?n else ?n)"
    define off1 where "off1 = (if fs \<noteq> 0 then off + fs else off)"
    note step = conv_step [OF g(1) w f(1) tl nM, OF fs_def ch_def off1_def]
    have fs: "unat fs = unat ?w - length t"
      using n by (auto simp: fs_def word_less_nat_alt unat_sub_small word_le_nat_alt)
    have s1: "unat (off + ?n) = length tx + length t"
      using n Cons.prems(4,7) nd by (subst unat_add_small) simp_all
    have s2: "unat (off + ?n + fs) = length tx + max (length t) (unat ?w)"
      using s1 fs Cons.prems(4) nd by (subst unat_add_small) simp_all
    let ?m = "length tx + max (length t) (unat ?w)"
    show ?thesis
    proof (cases "?m < unat buffSize")
      case False
      have "vsnprintf_loop inp buffSize index param_index out off temp args = Some (STATUS_BUFFER_TOO_SMALL, out)"
        using False s2 unfolding step by (simp add: word_le_nat_alt)
      moreover have "length out = length out0" using Cons.prems(6) by (simp add: filled_def)
      ultimately show ?thesis using False r(4) filled_rest [OF Cons.prems(6,8)] by auto
    next
      case True
      have le: "\<not> buffSize \<le> off + ?n" "\<not> buffSize \<le> off + ?n + fs"
        using True s1 s2 by (simp_all only: word_le_nat_alt)
      have m32: "?m < 2 ^ 32" using nd Cons.prems(4) by simp
      have mo: "?m < length out0" using True assms(6) by simp
      obtain o1 o2 where o: "(if fs \<noteq> 0 then cl_memset out (Some (unat off)) (fill_of ds) fs else Some out) = Some o1"
        "(if ch \<noteq> 0 then put_string o1 (unat off1) str ch else Some o1) = Some o2"
        "filled out0 (tx @ field ?w (fill_of ds) k t) o2"
        "unat (off1 + ch) = length (tx @ field ?w (fill_of ds) k t)"
        using field_run [OF Cons.prems(6) f(2,3) Cons.prems(7) mo m32, of "fill_of ds" k, folded fs_def ch_def, folded off1_def]
        by blast
            have "vsnprintf_loop inp buffSize index param_index out off temp args
        = vsnprintf_loop inp buffSize (index + length ds + 2) (param_index + 1) o2 (off1 + ch) temp' rest"
        unfolding step option.sel using le by (simp add: o(1,2) split del: if_split)
      moreover have "\<exists>st o'. vsnprintf_loop inp buffSize (index + length ds + 2) (param_index + 1) o2 (off1 + ch) temp' rest = Some (st, o') \<and>
        (if need' < unat buffSize
         then st = param_index + 1 - 1 + of_nat (conversions ps) \<and>
           o' = ((tx @ field ?w (fill_of ds) k t) @ s') @ 0 # drop (Suc (length ((tx @ field ?w (fill_of ds) k t) @ s'))) out0
         else st = STATUS_BUFFER_TOO_SMALL \<and> length o' = length out0 \<and> drop (unat buffSize) o' = drop (unat buffSize) out0)"
        using Cons.prems(2,4) d r(2,4) f(4) o(3,4) field_length [of ?w "fill_of ds" k t] True by (intro Cons.IH) simp_all
      ultimately show ?thesis using r(3,4) True Conv by (cases "need' < unat buffSize") simp_all
    qed
  qed
qed

text \<open>A width that the code adds to the offset without looking: the sum wraps around, the check
  passes, and the padding is written over whatever lies behind the buffer.\<close>

lemma cl_memset_too_long:
  assumes "length mem < a + unat sz" "sz \<noteq> 0"
  shows "cl_memset mem (Some a) v sz = None"
proof (rule ccontr)
  assume "cl_memset mem (Some a) v sz \<noteq> None"
  then obtain t where t: "for_upto 0 (unat sz) (\<lambda>i m. array_set m (a + i) v) mem = Some t"
    by (auto simp: cl_memset_def)
  have "length t = length mem \<and> (0 + unat sz = 0 \<or> a + (0 + unat sz) \<le> length mem)"
    by (rule for_upto_inv [OF t]) (auto simp: array_set_conv)
  then show False using assms by (simp add: unat_eq_0)
qed

lemma vsnprintf_width_wraps:
  "cl_vsnprintf (replicate 65 0) (Some (replicate 16 0)) 16
     (Some ([0x61, 0x61, 0x25] @ [0x34, 0x32, 0x39, 0x34, 0x39, 0x36, 0x37, 0x32, 0x39, 0x35] @ [0x63, 0])) [VInt 0x62] = None"
proof -
  let ?ds = "[0x34, 0x32, 0x39, 0x34, 0x39, 0x36, 0x37, 0x32, 0x39, 0x35] :: u8 list"
  let ?inp = "[0x61, 0x61, 0x25] @ ?ds @ [0x63, 0]"
  let ?o2 = "(replicate 16 0)[0 := 0x61, 1 := 0x61] :: u8 list"
  have "arg_text 0x63 [VInt 0x62] = Some ([0x62], [])" by (simp add: arg_text_def int_conversion_def)
  then obtain str temp' r where f: "format_arg 0x63 (replicate 65 0) [VInt 0x62] = Some (Some (Some str, temp', []))"
    "str = [0x62] @ 0 # r" "0 \<notin> set [0x62 :: u8]"
    by (rule format_arg_run [of _ _ _ _ "replicate 65 0"]) simp_all
  have w: "width_loop ?inp 2 0 True 0x20 = Some (12, 0xFFFFFFFF, 0x20, 0x63)"
    using width_loop_run [of 2 ?inp ?ds "0x63" "[0]" 0 True "0x20"] by simp
  have n: "temp_strlen (Some str) = Some 1" using temp_strlen_run [OF f(2,3)] by simp
  have "vsnprintf_loop ?inp 16 2 1 ?o2 2 (replicate 65 0) [VInt 0x62] = None"
    using conv_step [OF _ w f(1) n, of "0xFFFFFFFE" 1 "0 :: u32" 2 16 1 ?o2] cl_memset_too_long [of ?o2 2 "0xFFFFFFFE" "0x20"]
    by simp
  moreover have "vsnprintf_loop ?inp 16 0 1 (replicate 16 0) 0 (replicate 65 0) [VInt 0x62]
    = vsnprintf_loop ?inp 16 1 1 ((replicate 16 0)[0 := 0x61]) 1 (replicate 65 0) [VInt 0x62]"
    by (subst vsnprintf_loop.simps) (simp add: word_le_nat_alt)
  moreover have "vsnprintf_loop ?inp 16 1 1 ((replicate 16 0)[0 := 0x61]) 1 (replicate 65 0) [VInt 0x62]
    = vsnprintf_loop ?inp 16 2 1 ?o2 2 (replicate 65 0) [VInt 0x62]"
    by (subst vsnprintf_loop.simps) (simp add: word_le_nat_alt flip: numeral_2_eq_2)
  ultimately show ?thesis by (simp add: cl_vsnprintf_def)
qed

section \<open>Properties\<close>

text \<open>C24: \<open>cl_vsnprintf\<close> writes exactly the text that its format and its arguments mean, terminates
  it and answers the number of conversions whenever that text fits; otherwise it answers
  STATUS_BUFFER_TOO_SMALL. It never stores anything behind the first \<open>buffSize\<close> bytes of the buffer
  and never faults, as long as the widths do not make the sums of the code wrap around.\<close>

theorem vsnprintf_renders:
  assumes "inp = concat (map piece_text ps) @ 0 # r" "\<forall>p \<in> set ps. piece_ok p"
    and "render 0 ps args = Some (s, need)" "need < 2 ^ 32" "length temp = 65"
    and "0 < buffSize" "unat buffSize \<le> length out"
  shows "\<exists>st o'. cl_vsnprintf temp (Some out) buffSize (Some inp) args = Some (st, Some o') \<and>
    (if need < unat buffSize
     then st = of_nat (conversions ps) \<and> o' = s @ 0 # drop (Suc (length s)) out
     else st = STATUS_BUFFER_TOO_SMALL \<and> length o' = length out \<and> drop (unat buffSize) o' = drop (unat buffSize) out)"
proof -
  have p: "0 < unat buffSize" using assms(6) by (simp add: word_less_nat_alt)
  then have "0 < length out" using assms(7) by linarith
  then have "filled out [] out" by (simp add: filled_def)
  then show ?thesis
    using vsnprintf_loop_run [of 0 inp ps r "[]" args s need temp buffSize out out 0 1] assms p
    by (cases "need < unat buffSize") (auto simp: cl_vsnprintf_def)
qed

text \<open>The log line \<open>CPU: %04x\<close> with the argument 10.\<close>

lemma vsnprintf_renders_witness:
  "\<exists>st o'. cl_vsnprintf (replicate 65 0) (Some (replicate 16 0)) 16
      (Some (concat (map piece_text [Lit 0x43, Lit 0x3A, Conv [0x30, 0x34] 0x78]) @ [0])) [VInt 10] = Some (st, Some o') \<and>
    (if 6 < unat (16 :: u32)
     then st = of_nat (conversions [Lit 0x43, Lit 0x3A, Conv [0x30, 0x34] 0x78]) \<and>
       o' = [0x43, 0x3A, 0x30, 0x30, 0x30, 0x41] @ 0 # drop (Suc (length [0x43, 0x3A, 0x30, 0x30, 0x30, 0x41 :: u8])) (replicate 16 0)
     else st = STATUS_BUFFER_TOO_SMALL \<and> length o' = length (replicate 16 (0 :: u8)) \<and>
       drop (unat (16 :: u32)) o' = drop (unat (16 :: u32)) (replicate 16 0))"
  by (rule vsnprintf_renders)
    (simp_all add: arg_text_def int_conversion_def number_at_def int_text_def text_of_def digits.simps
      digit_char_def field_def width_of_def fill_of_def numeral_3_eq_3)

end
