(* ===== verification/CL_Sync.thy ===== *)
theory CL_Sync
  imports CL_Lock CL_Memory
begin

text \<open>
  \<open>CommonLib/src/event.c\<close> (busy-waiting events), \<open>ref_cnt.c\<close> (reference counts),
  \<open>checkin_queue.c\<close> (the barrier that waits for processors or threads to arrive) and
  \<open>intutils.c\<close>. Each atomic access is one step; the operations of many processors are sequences of
  such steps.
\<close>

section \<open>Events\<close>

datatype event_type = EventTypeNotification | EventTypeSynchronization | EventTypeReserved

record event =
  EvtState :: u8
  EventType :: event_type

abbreviation (input) EVENT_STATE_NOT_SIGNALED :: u8 where "EVENT_STATE_NOT_SIGNALED \<equiv> 0"
abbreviation (input) EVENT_STATE_SIGNALED :: u8 where "EVENT_STATE_SIGNALED \<equiv> 1"

text \<open>\<open>EventType >= EventTypeReserved\<close> holds for the last constant of the enumeration.\<close>

definition EvtInitialize :: "event option \<Rightarrow> event_type \<Rightarrow> bool \<Rightarrow> STATUS \<times> event option" where
  "EvtInitialize Event type Signaled = (case Event of
     None \<Rightarrow> (STATUS_INVALID_PARAMETER1, None)
   | Some e \<Rightarrow>
       if type = EventTypeReserved then (STATUS_INVALID_PARAMETER2, Some e)
       else
         let eventState = (if Signaled then EVENT_STATE_SIGNALED else EVENT_STATE_NOT_SIGNALED);
             e1 = e\<lparr>EventType := type\<rparr>
         in (STATUS_SUCCESS, Some (e1\<lparr>EvtState := eventState\<rparr>)))"

definition EvtSignal :: "event \<Rightarrow> event" where
  "EvtSignal e = e\<lparr>EvtState := EVENT_STATE_SIGNALED\<rparr>"

definition EvtClearSignal :: "event \<Rightarrow> event" where
  "EvtClearSignal e = e\<lparr>EvtState := EVENT_STATE_NOT_SIGNALED\<rparr>"

text \<open>The exchange of both functions: the event and the state it had.\<close>

definition evt_exchange :: "event \<Rightarrow> event \<times> u8" where
  "evt_exchange e =
     (let exchangeValue = (if EventType e = EventTypeNotification then EVENT_STATE_SIGNALED else EVENT_STATE_NOT_SIGNALED);
          r = AtomicCompareExchange (EvtState e) exchangeValue EVENT_STATE_SIGNALED
      in (e\<lparr>EvtState := fst r\<rparr>, snd r))"

partial_function (option) EvtWaitForSignal :: "event \<Rightarrow> event option" where
  "EvtWaitForSignal e = (if snd (evt_exchange e) \<noteq> EVENT_STATE_SIGNALED then EvtWaitForSignal (fst (evt_exchange e))
     else Some (fst (evt_exchange e)))"

declare EvtWaitForSignal.simps [code]

definition EvtIsSignaled :: "event \<Rightarrow> event \<times> bool" where
  "EvtIsSignaled e = (let r = evt_exchange e in (fst r, snd r = EVENT_STATE_SIGNALED))"

section \<open>Reference counts\<close>

text \<open>The free function is called with the object and its context; the record keeps the list of the
  calls, the latest last, beside the fields of the code.\<close>

record ref_count =
  ReferenceCount :: u32
  FreeFunction :: "u64 option"
  RfcContext :: u64
  freed_by :: "(u64 \<times> u64) list"

definition RfcPreInit :: "ref_count \<Rightarrow> ref_count" where
  "RfcPreInit r = r\<lparr>ReferenceCount := 0, FreeFunction := None, RfcContext := 0\<rparr>"

definition RfcInit :: "ref_count option \<Rightarrow> u64 option \<Rightarrow> u64 \<Rightarrow> STATUS \<times> ref_count option" where
  "RfcInit r free ctx = (case r of
     None \<Rightarrow> (STATUS_INVALID_PARAMETER1, None)
   | Some r \<Rightarrow> (STATUS_SUCCESS, Some (r\<lparr>FreeFunction := free, RfcContext := ctx, ReferenceCount := 1\<rparr>)))"

definition RfcReference :: "ref_count \<Rightarrow> (ref_count \<times> u32) option" where
  "RfcReference r = do {
     let newRefCount = ReferenceCount r + 1;
     ASSERT (newRefCount < MAX_DWORD);
     ASSERT (1 \<le> newRefCount);
     Some (r\<lparr>ReferenceCount := newRefCount\<rparr>, newRefCount)
   }"

definition RfcDereference :: "ref_count \<Rightarrow> (ref_count \<times> u32) option" where
  "RfcDereference r = do {
     let newRefCount = ReferenceCount r - 1;
     let r1 = r\<lparr>ReferenceCount := newRefCount\<rparr>;
     ASSERT (newRefCount \<noteq> MAX_DWORD);
     let r2 = (if newRefCount = 0 then
         (case FreeFunction r1 of None \<Rightarrow> r1 | Some f \<Rightarrow> r1\<lparr>freed_by := freed_by r1 @ [(f, RfcContext r1)]\<rparr>)
       else r1);
     Some (r2, newRefCount)
   }"

section \<open>The check-in queue\<close>

record checkin_queue =
  Array :: "bool list option"
  NumberOfThreads :: u32
  CqBufferSize :: u32

definition zero_checkin_queue :: checkin_queue where
  "zero_checkin_queue = \<lparr>Array = None, NumberOfThreads = 0, CqBufferSize = 0\<rparr>"

definition CheckinQueuePreInit :: "u32 \<Rightarrow> (checkin_queue \<times> u32) option" where
  "CheckinQueuePreInit n = do {
     ASSERT (0 < n);
     let q = zero_checkin_queue\<lparr>NumberOfThreads := n, CqBufferSize := n * 1\<rparr>;
     Some (q, CqBufferSize q)
   }"

text \<open>\<open>QueueBuffer\<close> is the memory of the caller; \<open>memset\<close> clears \<open>NumberOfThreads\<close> bytes of it.\<close>

definition CheckinQueueInit :: "checkin_queue \<Rightarrow> bool list option \<Rightarrow> checkin_queue option" where
  "CheckinQueueInit q QueueBuffer = (case QueueBuffer of
     None \<Rightarrow> None
   | Some b \<Rightarrow> do {
       ASSERT (0 < NumberOfThreads q);
       b' \<leftarrow> for_upto 0 (unat (NumberOfThreads q)) (\<lambda>i b. array_set b i False) b;
       Some (q\<lparr>Array := Some b'\<rparr>)
     })"

definition CheckinQueueUninit :: "checkin_queue \<Rightarrow> checkin_queue" where
  "CheckinQueueUninit q = zero_checkin_queue"

text \<open>One exchange on a slot: the slots and the value it had. The bytes are booleans.\<close>

definition slot_exchange :: "bool list \<Rightarrow> nat \<Rightarrow> bool \<Rightarrow> bool \<Rightarrow> (bool list \<times> bool) option" where
  "slot_exchange a i exchange comparand = do {
     old \<leftarrow> array_get a i;
     a' \<leftarrow> array_set a i (if old = comparand then exchange else old);
     Some (a', old)
   }"

fun mark_loop :: "bool list \<Rightarrow> nat \<Rightarrow> nat \<Rightarrow> bool list option" where
  "mark_loop a i 0 = Some a"
| "mark_loop a i (Suc n) = do {
     r \<leftarrow> slot_exchange a i True False;
     if \<not> snd r then Some (fst r) else mark_loop (fst r) (Suc i) n
   }"

definition CheckinQueueMarkPresence :: "checkin_queue \<Rightarrow> checkin_queue option" where
  "CheckinQueueMarkPresence q = do {
     ASSERT (0 < NumberOfThreads q);
     a \<leftarrow> Array q;
     a' \<leftarrow> mark_loop a 0 (unat (NumberOfThreads q));
     Some (q\<lparr>Array := Some a'\<rparr>)
   }"

text \<open>One pass over the slots, and the passes until one finds them all marked.\<close>

fun check_pass :: "bool list \<Rightarrow> nat \<Rightarrow> nat \<Rightarrow> bool \<Rightarrow> (bool list \<times> bool) option" where
  "check_pass a i 0 green = Some (a, green)"
| "check_pass a i (Suc n) green = do {
     r \<leftarrow> slot_exchange a i True True;
     check_pass (fst r) (Suc i) n (green \<and> snd r)
   }"

partial_function (option) wait_loop :: "bool list \<Rightarrow> nat \<Rightarrow> bool list option" where
  "wait_loop a n = do {
     r \<leftarrow> check_pass a 0 n True;
     if snd r then Some (fst r) else wait_loop (fst r) n
   }"

declare wait_loop.simps [code]

definition CheckinQueueWaitOn :: "checkin_queue \<Rightarrow> bool \<Rightarrow> u32 \<Rightarrow> bool \<Rightarrow> (checkin_queue \<times> bool) option" where
  "CheckinQueueWaitOn q WaitAll NumberOfCheckinsToWait intr = do {
     ASSERT (0 < NumberOfThreads q);
     let numberOfThreads = (if WaitAll then NumberOfThreads q else NumberOfCheckinsToWait);
     let oldState = intr;
     a \<leftarrow> Array q;
     a' \<leftarrow> wait_loop a (unat numberOfThreads);
     Some (q\<lparr>Array := Some a'\<rparr>, oldState)
   }"

section \<open>Percentages\<close>

text \<open>The arguments of both assertions are evaluated: a division by 0 is a fault.\<close>

definition CalculatePercentage :: "u64 \<Rightarrow> u16 \<Rightarrow> u64 option" where
  "CalculatePercentage WholeValue HundredsOfPercentage = do {
     ASSERT (HundredsOfPercentage \<le> 10000);
     ASSERT (HundredsOfPercentage \<noteq> 0);
     ASSERT (WholeValue \<le> MAX_QWORD div ucast HundredsOfPercentage);
     Some (WholeValue * ucast HundredsOfPercentage div 10000)
   }"

section \<open>Runs of an event\<close>

datatype evt_op = Signal | Clear | Poll

text \<open>The number of polls, by \<open>EvtIsSignaled\<close> or in the loop of \<open>EvtWaitForSignal\<close>, that found the
  event signaled.\<close>

fun evt_run :: "evt_op list \<Rightarrow> event \<Rightarrow> event \<times> nat" where
  "evt_run [] e = (e, 0)"
| "evt_run (Signal # os) e = evt_run os (EvtSignal e)"
| "evt_run (Clear # os) e = evt_run os (EvtClearSignal e)"
| "evt_run (Poll # os) e = (let r = EvtIsSignaled e; q = evt_run os (fst r) in
     (fst q, (if snd r then 1 else 0) + snd q))"

definition event_ok :: "event \<Rightarrow> bool" where
  "event_ok e \<longleftrightarrow> EvtState e \<in> {0, 1} \<and> EventType e \<noteq> EventTypeReserved"

lemma event_same: "e\<lparr>EvtState := EvtState e\<rparr> = (e :: event)"
  by (cases e) simp

lemma EvtIsSignaled_run:
  "EvtIsSignaled e = (if EvtState e = 1
     then (if EventType e = EventTypeNotification then e else e\<lparr>EvtState := 0\<rparr>, True) else (e, False))"
  by (cases e) (simp add: EvtIsSignaled_def evt_exchange_def AtomicCompareExchange_def Let_def)

lemma EvtWaitForSignal_returns: "EvtWaitForSignal e = Some y \<Longrightarrow> EvtState e = 1"
  by (rule EvtWaitForSignal.raw_induct [where P = "\<lambda>e y. EvtState e = 1"])
    (auto simp: evt_exchange_def AtomicCompareExchange_def Let_def event_same split: if_splits)

lemma EvtWaitForSignal_poll:
  "EvtWaitForSignal e = (if snd (EvtIsSignaled e) then Some (fst (EvtIsSignaled e)) else None)"
proof (cases "snd (EvtIsSignaled e)")
  case True
  then show ?thesis by (subst EvtWaitForSignal.simps) (simp add: EvtIsSignaled_def Let_def)
next
  case False
  then have st: "EvtState e \<noteq> 1" by (simp add: EvtIsSignaled_run split: if_splits)
  then show ?thesis using False EvtWaitForSignal_returns [of e] by (cases "EvtWaitForSignal e") auto
qed

lemma evt_run_append: "evt_run (xs @ ys) e = (let r = evt_run xs e; q = evt_run ys (fst r) in (fst q, snd r + snd q))"
  by (induction xs e rule: evt_run.induct) (auto simp: Let_def)

lemma evt_run_type: "event_ok e \<Longrightarrow> EventType (fst (evt_run os e)) = EventType e \<and> event_ok (fst (evt_run os e))"
  by (induction os e rule: evt_run.induct)
    (auto simp: EvtSignal_def EvtClearSignal_def EvtIsSignaled_run event_ok_def Let_def)

lemma evt_released:
  "EventType e = EventTypeSynchronization \<Longrightarrow> EvtState e \<in> {0, 1} \<Longrightarrow>
   snd (evt_run os e) + unat (EvtState (fst (evt_run os e))) \<le> length (filter (\<lambda>x. x = Signal) os) + unat (EvtState e)"
proof (induction os e rule: evt_run.induct)
  case (2 os e)
  then show ?case by (auto simp: EvtSignal_def)
next
  case (3 os e)
  then show ?case by (auto simp: EvtClearSignal_def)
next
  case (4 os e)
  then show ?case by (auto simp: EvtIsSignaled_run Let_def)
qed simp

section \<open>Runs of a reference count\<close>

text \<open>\<open>True\<close> takes a reference, \<open>False\<close> drops one.\<close>

fun rfc_run :: "bool list \<Rightarrow> ref_count \<Rightarrow> ref_count option" where
  "rfc_run [] r = Some r"
| "rfc_run (b # bs) r = do {
     x \<leftarrow> (if b then RfcReference r else RfcDereference r);
     rfc_run bs (fst x)
   }"

definition balance :: "bool list \<Rightarrow> int" where
  "balance bs = (\<Sum>b \<leftarrow> bs. if b then 1 else -1)"

lemma rfc_run_ok:
  assumes "0 < n" "\<forall>k < length bs. 0 < int n + balance (take k bs)" "n + length bs < 2 ^ 32 - 1"
    and "ReferenceCount r = of_nat n" "FreeFunction r = Some f" "RfcContext r = c" "freed_by r = []"
  shows "\<exists>r'. rfc_run bs r = Some r' \<and> unat (ReferenceCount r') = nat (int n + balance bs) \<and>
    freed_by r' = (if int n + balance bs = 0 then [(f, c)] else [])"
  using assms
proof (induction bs arbitrary: n r)
  case Nil
  then have "unat (ReferenceCount r) = n" by (simp add: unat_of_nat_small)
  then show ?case using Nil by (simp add: balance_def)
next
  case (Cons b bs)
  have u: "unat (ReferenceCount r) = n" using Cons.prems(3,4) by (simp add: unat_of_nat_small)
  have nx: "\<forall>k < length bs. 0 < int n + (if b then 1 else -1) + balance (take k bs)"
  proof (intro allI impI)
    fix k assume "k < length bs"
    then show "0 < int n + (if b then 1 else -1) + balance (take k bs)"
      using Cons.prems(2) [rule_format, of "Suc k"] by (simp add: balance_def add.assoc)
  qed
  show ?case
  proof (cases b)
    case True
    let ?r = "r\<lparr>ReferenceCount := of_nat (Suc n)\<rparr>"
    have N: "unat (of_nat (Suc n) :: u32) = Suc n" using Cons.prems(3) by (intro unat_of_nat_small) simp
    have "unat (0xFFFFFFFF :: u32) = 4294967295" "unat (1 :: u32) = 1" "Suc n < 4294967295"
      using Cons.prems(3) by simp_all
    then have lt: "(of_nat (Suc n) :: u32) < 0xFFFFFFFF" "1 \<le> (of_nat (Suc n) :: u32)"
      using N unfolding word_less_nat_alt word_le_nat_alt by linarith+
    have "ReferenceCount r + 1 = of_nat (Suc n)" using Cons.prems(4) by (simp add: add.commute)
    then have "RfcReference r = Some (?r, of_nat (Suc n))"
      unfolding RfcReference_def Let_def using lt by (simp del: of_nat_Suc)
    moreover have "\<exists>r'. rfc_run bs ?r = Some r' \<and> unat (ReferenceCount r') = nat (int (Suc n) + balance bs) \<and>
        freed_by r' = (if int (Suc n) + balance bs = 0 then [(f, c)] else [])"
      using Cons.prems nx True by (intro Cons.IH) (simp_all add: add.commute add.left_commute)
    moreover have "int n + balance (b # bs) = int (Suc n) + balance bs" using True by (simp add: balance_def)
    ultimately show ?thesis using True by (simp only: rfc_run.simps if_True bind.bind_lunit fst_conv)
  next
    case False
    obtain m where m: "n = Suc m" using Cons.prems(1) by (cases n) auto
    have d: "ReferenceCount r - 1 = of_nat m" using Cons.prems(4) m by simp
    have um: "unat (of_nat m :: u32) = m" using Cons.prems(3) m by (intro unat_of_nat_small) simp
    then have nM: "(of_nat m :: u32) \<noteq> MAX_DWORD" "(of_nat m :: u32) = 0 \<longleftrightarrow> m = 0"
      using Cons.prems(3) m by (auto simp: unat_eq_0 [symmetric])
    show ?thesis
    proof (cases "m = 0")
      case True
      then have "bs = []" using nx False m by (cases bs) (auto simp: balance_def dest: spec [of _ 0])
      then show ?thesis using False True m d Cons.prems
        by (simp add: RfcDereference_def Let_def balance_def)
    next
      case m0: False
      let ?r = "r\<lparr>ReferenceCount := of_nat m\<rparr>"
      have "RfcDereference r = Some (?r, of_nat m)" using d nM m0 by (simp add: RfcDereference_def Let_def)
      moreover have "\<exists>r'. rfc_run bs ?r = Some r' \<and> unat (ReferenceCount r') = nat (int m + balance bs) \<and>
        freed_by r' = (if int m + balance bs = 0 then [(f, c)] else [])"
        using Cons.prems nx False m m0 by (intro Cons.IH) simp_all
      moreover have "int n + balance (b # bs) = int m + balance bs" using False m by (simp add: balance_def)
      ultimately show ?thesis using False by (simp only: rfc_run.simps if_False bind.bind_lunit fst_conv)
    qed
  qed
qed

text \<open>A reference to an object whose last reference is gone passes the assertion that should stop it.\<close>

lemma RfcReference_dead: "ReferenceCount r = 0 \<Longrightarrow> RfcReference r = Some (r\<lparr>ReferenceCount := 1\<rparr>, 1)"
  by (simp add: RfcReference_def word_less_nat_alt)

section \<open>Many processors at the check-in queue\<close>

text \<open>A thread has not come yet, is about to exchange slot \<open>i\<close>, has marked a slot, or has found them all
  taken. The waiter is about to look at slot \<open>i\<close> with its flag \<open>semaphoreGreen\<close>, or has passed.\<close>

datatype cq_pc = CqAway | CqScan nat | CqMarked | CqFull

datatype cq_waiter = CqLook nat bool | CqPassed

inductive mark_next :: "nat \<Rightarrow> cq_pc \<times> bool list \<Rightarrow> cq_pc \<times> bool list \<Rightarrow> bool" for n where
  arrive: "mark_next n (CqAway, a) (CqScan 0, a)"
| mark: "i < n \<Longrightarrow> slot_exchange a i True False = Some (a', old) \<Longrightarrow>
    mark_next n (CqScan i, a) (if \<not> old then CqMarked else CqScan (Suc i), a')"
| give_up: "\<not> i < n \<Longrightarrow> mark_next n (CqScan i, a) (CqFull, a)"

inductive wait_next :: "nat \<Rightarrow> cq_waiter \<times> bool list \<Rightarrow> cq_waiter \<times> bool list \<Rightarrow> bool" for n where
  look: "i < n \<Longrightarrow> slot_exchange a i True True = Some (a', old) \<Longrightarrow>
    wait_next n (CqLook i g, a) (CqLook (Suc i) (g \<and> old), a')"
| decide: "\<not> i < n \<Longrightarrow> wait_next n (CqLook i g, a) (if g then CqPassed else CqLook 0 True, a)"

text \<open>The threads \<open>T\<close>, each of which marks its presence once, and the waiter, on \<open>n\<close> slots.\<close>

inductive cq_reach :: "'t set \<Rightarrow> nat \<Rightarrow> ('t \<Rightarrow> cq_pc) \<Rightarrow> cq_waiter \<Rightarrow> bool list \<Rightarrow> bool" for T n where
  init: "cq_reach T n (\<lambda>_. CqAway) (CqLook 0 True) (replicate n False)"
| thread: "cq_reach T n pcs w a \<Longrightarrow> t \<in> T \<Longrightarrow> mark_next n (pcs t, a) (p, a') \<Longrightarrow> cq_reach T n (pcs(t := p)) w a'"
| waiter: "cq_reach T n pcs w a \<Longrightarrow> wait_next n (w, a) (w', a') \<Longrightarrow> cq_reach T n pcs w' a'"

definition taken_slots :: "bool list \<Rightarrow> nat" where
  "taken_slots a = card {i. i < length a \<and> a ! i}"

definition cq_inv :: "'t set \<Rightarrow> nat \<Rightarrow> ('t \<Rightarrow> cq_pc) \<Rightarrow> cq_waiter \<Rightarrow> bool list \<Rightarrow> bool" where
  "cq_inv T n pcs w a \<longleftrightarrow> length a = n \<and> cnt T (\<lambda>p. p = CqMarked) pcs = taken_slots a \<and>
     (\<forall>t i j. pcs t = CqScan i \<and> j < i \<and> j < n \<longrightarrow> a ! j) \<and>
     (\<forall>t. pcs t = CqFull \<longrightarrow> (\<forall>j < n. a ! j)) \<and>
     (case w of CqLook i g \<Rightarrow> g \<longrightarrow> (\<forall>j < i. j < n \<longrightarrow> a ! j) | CqPassed \<Rightarrow> \<forall>j < n. a ! j)"

lemma taken_slots_set: "i < length a \<Longrightarrow> \<not> a ! i \<Longrightarrow> taken_slots (a[i := True]) = Suc (taken_slots a)"
proof -
  assume i: "i < length a" "\<not> a ! i"
  then have "{j. j < length (a[i := True]) \<and> a[i := True] ! j} = insert i {j. j < length a \<and> a ! j}"
    by (auto simp: nth_list_update)
  then show ?thesis using i by (simp add: taken_slots_def)
qed

lemma taken_slots_full: "(\<forall>j < length a. a ! j) \<longleftrightarrow> taken_slots a = length a"
proof
  assume "\<forall>j < length a. a ! j"
  then have "{j. j < length a \<and> a ! j} = {..<length a}" by auto
  then show "taken_slots a = length a" by (simp add: taken_slots_def)
next
  assume c: "taken_slots a = length a"
  have "{j. j < length a \<and> a ! j} = {..<length a}"
    using c by (intro card_subset_eq) (auto simp: taken_slots_def)
  then show "\<forall>j < length a. a ! j" by blast
qed

text \<open>The header promises that a larger number than the queue has slots waits for the full queue; the code reads behind
  the slots.\<close>

lemma check_pass_short: "i \<le> length a \<Longrightarrow> length a < i + n \<Longrightarrow> check_pass a i n green = None"
proof (induction n arbitrary: a i green)
  case (Suc n)
  show ?case
  proof (cases "i < length a")
    case True
    then have "check_pass (a[i := x]) (Suc i) n g = None" for x g using Suc by simp
    then show ?thesis using True by (simp add: slot_exchange_def)
  qed (simp add: slot_exchange_def)
qed simp

lemma CheckinQueueWaitOn_overreads:
  assumes "Array q = Some a" "length a < unat n"
  shows "CheckinQueueWaitOn q False n intr = None"
  using assms check_pass_short [of 0 a "unat n" True] by (simp add: CheckinQueueWaitOn_def wait_loop.simps)

lemma slot_exchange_run:
  "slot_exchange a i ex co = Some (a', old) \<longleftrightarrow> i < length a \<and> old = a ! i \<and> a' = a[i := if a ! i = co then ex else a ! i]"
  by (auto simp: slot_exchange_def bind_Some array_get_conv array_set_conv)

lemma list_update_same_value: "a ! i = v \<Longrightarrow> a[i := v] = a"
  by (metis list_update_id)

lemma cq_mark_inv:
  assumes T: "finite T" "t \<in> T" and inv: "cq_inv T n pcs w a" and st: "mark_next n (pcs t, a) (p, a')"
  shows "cq_inv T n (pcs(t := p)) w a'"
  using st
proof cases
  case arrive
  then show ?thesis using inv cnt_split [OF T, of _ pcs] cnt_split [OF T, of _ "pcs(t := p)"]
    by (auto simp: cq_inv_def)
next
  case (mark i old)
  have e: "i < length a" "old = a ! i" "a' = a[i := True]"
    using mark by (auto simp: slot_exchange_run list_update_same_value)
  have m: "cnt T (\<lambda>p. p = CqMarked) (pcs(t := p)) = (if old then 0 else 1) + cnt T (\<lambda>p. p = CqMarked) pcs"
    using cnt_split [OF T, of "\<lambda>p. p = CqMarked" pcs] cnt_split [OF T, of "\<lambda>p. p = CqMarked" "pcs(t := p)"] mark by simp
  have s: "taken_slots a' = (if old then 0 else 1) + taken_slots a"
    using e taken_slots_set [OF e(1)] by (cases "a ! i") (simp_all add: list_update_same_value)
  have mono: "a ! j \<longrightarrow> a' ! j" for j using e by (cases "j = i") auto
  have "a' ! i" using e by simp
  then show ?thesis using inv m s mono mark e(3)
    by (auto simp: cq_inv_def less_Suc_eq split: cq_waiter.splits)
next
  case (give_up i)
  have "j < i" if "j < n" for j using that \<open>\<not> i < n\<close> by simp
  then have "\<forall>j < n. a ! j" using inv give_up(1) unfolding cq_inv_def by blast
  then show ?thesis using inv give_up cnt_split [OF T, of "\<lambda>p. p = CqMarked" pcs] cnt_split [OF T, of "\<lambda>p. p = CqMarked" "pcs(t := p)"]
    by (auto simp: cq_inv_def)
qed

lemma cq_wait_inv:
  assumes inv: "cq_inv T n pcs w a" and st: "wait_next n (w, a) (w', a')"
  shows "cq_inv T n pcs w' a'"
  using st
proof cases
  case (look i old g)
  then have "a' = a" "old = a ! i" by (auto simp: slot_exchange_run list_update_same_value)
  then show ?thesis using inv look by (auto simp: cq_inv_def less_Suc_eq)
next
  case (decide i g)
  then show ?thesis using inv by (auto simp: cq_inv_def)
qed

lemma cq_reach_inv:
  assumes "finite T" "cq_reach T n pcs w a"
  shows "cq_inv T n pcs w a"
  using assms(2)
proof (induction rule: cq_reach.induct)
  case init
  have "taken_slots (replicate n False) = 0" by (simp add: taken_slots_def)
  then show ?case by (simp add: cq_inv_def cnt_def)
next
  case (thread pcs w a t p a')
  then show ?case using cq_mark_inv [OF assms(1)] by blast
next
  case (waiter pcs w a w' a')
  then show ?case using cq_wait_inv by blast
qed

section \<open>Properties\<close>

text \<open>C27: a synchronization event lets at most one poll through for each signal (and one more when it
  was signaled at first); a notification event lets every poll through until it is cleared; and
  \<open>EvtWaitForSignal\<close> returns exactly when a poll finds the event signaled.\<close>

theorem event_releases:
  assumes "event_ok e"
  shows "(EventType e = EventTypeSynchronization \<longrightarrow>
      snd (evt_run os e) \<le> length (filter (\<lambda>x. x = Signal) os) + unat (EvtState e)) \<and>
    snd (evt_run (os @ Signal # replicate k Poll) e) = snd (evt_run os e) +
      (if EventType e = EventTypeNotification then k else min 1 k) \<and>
    (EvtWaitForSignal e = Some e' \<longleftrightarrow> EvtIsSignaled e = (e', True))"
proof -
  have n: "snd (evt_run (replicate k Poll) x) = (if EvtState x = 1 then if EventType x = EventTypeNotification then k else min 1 k else 0)"
    for x :: event and k
    by (induction k arbitrary: x) (auto simp: EvtIsSignaled_run Let_def)
  have "snd (evt_run (os @ Signal # replicate k Poll) e) = snd (evt_run os e) +
      (if EventType e = EventTypeNotification then k else min 1 k)"
    using evt_run_type [OF assms, of os] by (simp add: evt_run_append n EvtSignal_def Let_def)
  moreover have "EventType e = EventTypeSynchronization \<longrightarrow>
      snd (evt_run os e) \<le> length (filter (\<lambda>x. x = Signal) os) + unat (EvtState e)"
    using evt_released [of e os] assms by (auto simp: event_ok_def intro: add_leD1)
  ultimately show ?thesis by (auto simp: EvtWaitForSignal_poll prod_eq_iff)
qed

lemma event_releases_witness:
  "snd (evt_run [Poll, Signal, Poll, Poll] \<lparr>EvtState = 0, EventType = EventTypeSynchronization\<rparr>) \<le> 1 \<and>
    snd (evt_run ([Poll, Signal, Poll, Poll] @ Signal # replicate 3 Poll) \<lparr>EvtState = 0, EventType = EventTypeSynchronization\<rparr>)
      = snd (evt_run [Poll, Signal, Poll, Poll] \<lparr>EvtState = 0, EventType = EventTypeSynchronization\<rparr>) + 1 \<and>
    EvtWaitForSignal \<lparr>EvtState = 0, EventType = EventTypeSynchronization\<rparr> \<noteq> Some \<lparr>EvtState = 0, EventType = EventTypeSynchronization\<rparr>"
  using event_releases [of "\<lparr>EvtState = 0, EventType = EventTypeSynchronization\<rparr>" "[Poll, Signal, Poll, Poll]" 3
      "\<lparr>EvtState = 0, EventType = EventTypeSynchronization\<rparr>"]
  by (simp add: event_ok_def EvtIsSignaled_run)

text \<open>C26: as long as every reference is taken while at least one is held and there are fewer than
  \<open>MAX_DWORD\<close> of them, the count is the number of references that are held, no assertion fails, and
  the free function is called exactly once, with its context, by the operation that drops the last
  reference.\<close>

theorem reference_count_frees_once:
  assumes "\<forall>k < length ops. 0 < 1 + balance (take k ops)" "Suc (length ops) < 2 ^ 32 - 1" "freed_by r = []"
  shows "\<exists>r0 r'. RfcInit (Some r) (Some f) c = (STATUS_SUCCESS, Some r0) \<and> rfc_run ops r0 = Some r' \<and>
    unat (ReferenceCount r') = nat (1 + balance ops) \<and>
    freed_by r' = (if 1 + balance ops = 0 then [(f, c)] else [])"
proof -
  let ?r0 = "r\<lparr>FreeFunction := Some f, RfcContext := c, ReferenceCount := 1\<rparr>"
  have "\<exists>r'. rfc_run ops ?r0 = Some r' \<and> unat (ReferenceCount r') = nat (int 1 + balance ops) \<and>
    freed_by r' = (if int 1 + balance ops = 0 then [(f, c)] else [])"
    using assms by (intro rfc_run_ok) simp_all
  then show ?thesis by (simp add: RfcInit_def)
qed

lemma reference_count_frees_once_witness:
  "\<exists>r0 r'. RfcInit (Some \<lparr>ReferenceCount = 0, FreeFunction = None, RfcContext = 0, freed_by = []\<rparr>) (Some 7) 9
      = (STATUS_SUCCESS, Some r0) \<and> rfc_run [True, False, False] r0 = Some r' \<and>
    unat (ReferenceCount r') = nat (1 + balance [True, False, False]) \<and>
    freed_by r' = (if 1 + balance [True, False, False] = 0 then [(7, 9)] else [])"
  by (rule reference_count_frees_once) (auto simp: less_Suc_eq numeral_3_eq_3 balance_def)

text \<open>C25: however the threads and the waiter interleave, when the waiter has passed the queue then as
  many threads have marked their presence as there are slots, never more; a thread finds no free
  slot only if all are taken by others; and when all slots are taken the next pass succeeds.\<close>

theorem checkin_queue_is_barrier:
  assumes "finite T" "cq_reach T n pcs w a"
  shows "(w = CqPassed \<longrightarrow> card {t \<in> T. pcs t = CqMarked} = n) \<and> card {t \<in> T. pcs t = CqMarked} \<le> n \<and>
    (\<forall>t. pcs t = CqFull \<longrightarrow> card {t \<in> T. pcs t = CqMarked} = n) \<and>
    (card {t \<in> T. pcs t = CqMarked} = n \<longrightarrow> wait_loop a n = Some a)"
proof -
  have inv: "cq_inv T n pcs w a" using cq_reach_inv [OF assms] .
  then have len: "length a = n" and c: "card {t \<in> T. pcs t = CqMarked} = taken_slots a"
    by (simp_all add: cq_inv_def cnt_def)
  have full: "(\<forall>j < n. a ! j) \<longleftrightarrow> card {t \<in> T. pcs t = CqMarked} = n" using taken_slots_full [of a] len c by simp
  have "{i. i < length a \<and> a ! i} \<subseteq> {..<n}" using len by auto
  then have "taken_slots a \<le> n" unfolding taken_slots_def using card_mono [of "{..<n}"] by fastforce
  moreover have "check_pass a i k True = Some (a, True)" if "i + k = n" "\<forall>j < n. a ! j" for i k
    using that by (induction k arbitrary: i)
      (auto simp: slot_exchange_def len list_update_same_value)
  then have "\<forall>j < n. a ! j \<Longrightarrow> wait_loop a n = Some a" by (subst wait_loop.simps) simp
  ultimately show ?thesis using inv full c by (auto simp: cq_inv_def)
qed

lemma checkin_queue_is_barrier_witness:
  "\<exists>(pcs :: nat \<Rightarrow> cq_pc) a. pcs 4 = CqMarked \<and> wait_loop a 1 = Some a \<and> card {t \<in> {4}. pcs t = CqMarked} \<le> 1"
proof -
  define pcs where "pcs = (((\<lambda>_. CqAway)(4 := CqScan 0))(4 := CqMarked) :: nat \<Rightarrow> cq_pc)"
  have r0: "cq_reach {4} 1 ((\<lambda>_ :: nat. CqAway)(4 := CqScan 0)) (CqLook 0 True) (replicate 1 False)"
    by (rule cq_reach.thread [OF cq_reach.init]) (auto intro: mark_next.intros)
  have "mark_next 1 (((\<lambda>_ :: nat. CqAway)(4 := CqScan 0)) 4, replicate 1 False) (CqMarked, [True])"
    using mark_next.mark [of 0 1 "[False]" "[True]" False] by (simp add: slot_exchange_run)
  then have r: "cq_reach {4} 1 pcs (CqLook 0 True) [True]"
    unfolding pcs_def by (rule cq_reach.thread [OF r0 singletonI])
  have c: "card {t \<in> {4}. pcs t = CqMarked} = 1" by (simp add: pcs_def conj_commute cong: conj_cong)
  have "pcs 4 = CqMarked" by (simp add: pcs_def)
  moreover have "wait_loop [True] 1 = Some [True]" "card {t \<in> {4}. pcs t = CqMarked} \<le> 1"
    using checkin_queue_is_barrier [OF _ r] c by simp_all
  ultimately show ?thesis by blast
qed

text \<open>A percentage of at most 100 percent, and not 0, is computed exactly when the product fits
  into a QWORD, and is then at most the whole; otherwise the assertion stops the system, and a
  percentage of 0 divides by zero inside that assertion.\<close>

theorem percentage_exact:
  "CalculatePercentage w h = (if h \<noteq> 0 \<and> unat h \<le> 10000 \<and> unat w * unat h < 2 ^ 64
    then Some (of_nat (unat w * unat h div 10000)) else None) \<and>
   (\<forall>p. CalculatePercentage w h = Some p \<longrightarrow> p \<le> w)"
proof -
  let ?h = "ucast h :: u64"
  have word_of_nat_unat: "of_nat (unat x) = x" for x :: u64 by simp
  have uh: "unat ?h = unat h" using unsigned_less [of h, where 'a = nat]
    by (simp add: unsigned_ucast_eq take_bit_nat_eq_self)
  have h: "h \<le> 10000 \<longleftrightarrow> unat h \<le> 10000" by (simp add: word_le_nat_alt)
  have m: "h \<noteq> 0 \<Longrightarrow> w \<le> MAX_QWORD div ?h \<longleftrightarrow> unat w * unat h < 2 ^ 64"
  proof -
    assume "h \<noteq> 0"
    then have p: "0 < unat h" by (simp add: unat_gt_0)
    have M: "unat MAX_QWORD = 2 ^ 64 - 1" by simp
    have "w \<le> MAX_QWORD div ?h \<longleftrightarrow> unat w \<le> (2 ^ 64 - 1) div unat h"
      unfolding word_le_nat_alt unat_div uh M ..
    also have "\<dots> \<longleftrightarrow> unat w * unat h \<le> 2 ^ 64 - 1" by (rule less_eq_div_iff_mult_less_eq [OF p])
    finally show "w \<le> MAX_QWORD div ?h \<longleftrightarrow> unat w * unat h < 2 ^ 64" by auto
  qed
  have v: "unat w * unat h < 2 ^ 64 \<Longrightarrow> unat (w * ?h div 10000) = unat w * unat h div 10000"
    by (simp add: unat_div unat_word_ariths uh)
  then have v': "unat w * unat h < 2 ^ 64 \<Longrightarrow> w * ?h div 10000 = of_nat (unat w * unat h div 10000)"
    using word_of_nat_unat by metis
  have "unat h \<le> 10000 \<Longrightarrow> unat w * unat h div 10000 \<le> unat w"
    by (metis div_le_mono div_mult_self_is_m mult_le_mono2 zero_less_numeral)
  then have le: "unat h \<le> 10000 \<Longrightarrow> unat w * unat h < 2 ^ 64 \<Longrightarrow> w * ?h div 10000 \<le> w"
    using v by (simp add: word_le_nat_alt)
  show ?thesis using m v' le unfolding CalculatePercentage_def h ASSERT_def
    by (cases "h = 0"; cases "unat h \<le> 10000"; cases "unat w * unat h < 2 ^ 64") simp_all
qed

lemma percentage_exact_witness:
  "CalculatePercentage 4000 2550 = Some (of_nat (4000 * 2550 div 10000)) \<and> (of_nat (4000 * 2550 div 10000) :: u64) \<le> 4000"
  using percentage_exact [of 4000 2550] by simp

end
