(* ===== verification/Pmm.thy ===== *)
theory Pmm
  imports CL_Bitmap CL_Lock
begin

text \<open>
  \<open>HAL9000/src/core/memory/pmm.c\<close>: the physical memory manager. It keeps one bit for each frame of
  physical memory, set when the frame is in use, in the bitmap of \<open>CL_Bitmap\<close>, behind a lock of
  \<open>CL_Lock\<close>. The table of the lock functions, the processor and the address that the lock records
  are arguments; \<open>intr\<close> is the interrupt flag. A frame number is a DWORD, a physical address a QWORD
  whose value 0 stands for failure.

  The memory map of the boot loader is a list of descriptors; reading one that is not there is a
  fault.
\<close>

section \<open>State\<close>

record memory_region_list =
  RegionType :: u32
  NumberOfEntries :: u32

record pmm_data =
  HighestPhysicalAddressAvailable :: u64
  HighestPhysicalAddressPresent :: u64
  PhysicalMemorySize :: u64
  MemoryRegionList :: "memory_region_list list"
  AllocationLock :: lock_union
  AllocationBitmap :: bitmap

record efi_memory_descriptor =
  EfiType :: u32
  PhysicalStart :: u64
  NumberOfPages :: u64

record hal_memory_map =
  MapCount :: u32
  MapAddress :: "efi_memory_descriptor list"

abbreviation (input) EfiReservedMemoryType :: u32 where "EfiReservedMemoryType \<equiv> 0"
abbreviation (input) EfiMaxMemoryType :: nat where "EfiMaxMemoryType \<equiv> 16"
abbreviation (input) STATUS_INVALID_PARAMETER4 :: STATUS where "STATUS_INVALID_PARAMETER4 \<equiv> 0xE8000014"

definition zero_lock :: lock_union where "zero_lock = SpinLock zero_spinlock"

definition zero_bitmap :: bitmap where
  "zero_bitmap = \<lparr>BitmapBuffer = None, BufferSize = 0, BitCount = 0\<rparr>"

section \<open>Operations\<close>

definition PmmIsMemoryUsable :: "u32 \<Rightarrow> bool" where
  "PmmIsMemoryUsable MemoryType \<longleftrightarrow> MemoryType = 1 \<or> MemoryType = 3 \<or> MemoryType = 4 \<or> MemoryType = 7 \<or> MemoryType = 14"

text \<open>\<open>name\<close> is the text \<open>PmmAlloc\<close>.\<close>

definition PmmPreinitSystem ::
  "lock_functions \<Rightarrow> u64 \<Rightarrow> u64 \<Rightarrow> lock_data \<Rightarrow> u64 \<Rightarrow> bool \<Rightarrow> u8 list \<Rightarrow> (lock_data \<times> pmm_data \<times> bool) option" where
  "PmmPreinitSystem fs cpu ra locks cell intr name = do {
     let regions = map (\<lambda>i. \<lparr>RegionType = of_nat i, NumberOfEntries = 0\<rparr>) [0 ..< EfiMaxMemoryType];
     r \<leftarrow> LockInit fs cpu ra locks cell intr;
     l \<leftarrow> LockSetName fs (fst (snd r)) name;
     Some (fst r, \<lparr>HighestPhysicalAddressAvailable = 0, HighestPhysicalAddressPresent = 0, PhysicalMemorySize = 0,
       MemoryRegionList = regions, AllocationLock = l, AllocationBitmap = zero_bitmap\<rparr>, snd (snd r))
   }"

definition PmmReserveMemoryEx ::
  "lock_functions \<Rightarrow> u64 \<Rightarrow> u64 \<Rightarrow> pmm_data \<Rightarrow> bool \<Rightarrow> u32 \<Rightarrow> u64 \<Rightarrow> ((pmm_data \<times> bool) \<times> u64) option" where
  "PmmReserveMemoryEx fs cpu ra d intr NoOfFrames MinPhysAddr =
     (if NoOfFrames = 0 then Some ((d, intr), 0)
      else if \<not> IsAddressAligned MinPhysAddr PAGE_SIZE then Some ((d, intr), 0)
      else let startIdx = MinPhysAddr div PAGE_SIZE in
        if 0xFFFFFFFF < startIdx then Some ((d, intr), 0)
        else do {
          a \<leftarrow> LockAcquire fs cpu ra (AllocationLock d) intr;
          s \<leftarrow> BitmapScanFromAndFlip (Some (AllocationBitmap d)) (ucast startIdx) NoOfFrames False;
          b \<leftarrow> fst s;
          l \<leftarrow> LockRelease fs cpu (fst a) (fst (snd a)) (snd (snd a));
          let d' = d\<lparr>AllocationLock := fst l, AllocationBitmap := b\<rparr>;
          if snd s = MAX_DWORD then Some ((d', snd l), 0)
          else Some ((d', snd l), ucast (snd s) * PAGE_SIZE)
        })"

definition PmmReleaseMemory ::
  "lock_functions \<Rightarrow> u64 \<Rightarrow> u64 \<Rightarrow> pmm_data \<Rightarrow> bool \<Rightarrow> u64 \<Rightarrow> u32 \<Rightarrow> (pmm_data \<times> bool) option" where
  "PmmReleaseMemory fs cpu ra d intr PhysicalAddr NoOfFrames = do {
     ASSERT (IsAddressAligned PhysicalAddr PAGE_SIZE);
     let index = PhysicalAddr div PAGE_SIZE;
     ASSERT (index \<le> 0xFFFFFFFF);
     a \<leftarrow> LockAcquire fs cpu ra (AllocationLock d) intr;
     b \<leftarrow> BitmapSetBitsValue (Some (AllocationBitmap d)) (ucast index) NoOfFrames False;
     l \<leftarrow> LockRelease fs cpu (fst a) (fst (snd a)) (snd (snd a));
     Some (d\<lparr>AllocationLock := fst l, AllocationBitmap := b\<rparr>, snd l)
   }"

definition PmmGetTotalSystemMemory :: "pmm_data \<Rightarrow> u64" where
  "PmmGetTotalSystemMemory d = PhysicalMemorySize d"

definition PmmGetHighestPhysicalMemoryAddressPresent :: "pmm_data \<Rightarrow> u64" where
  "PmmGetHighestPhysicalMemoryAddressPresent d = HighestPhysicalAddressPresent d"

definition PmmGetHighestPhysicalMemoryAddressAvailable :: "pmm_data \<Rightarrow> u64" where
  "PmmGetHighestPhysicalMemoryAddressAvailable d = HighestPhysicalAddressAvailable d"

text \<open>The body of the loop over the map: the size of the available memory, the highest address
  present, the highest available one, and the regions.\<close>

definition limits_step ::
  "efi_memory_descriptor \<Rightarrow> u64 \<times> u64 \<times> u64 \<times> memory_region_list list \<Rightarrow> (u64 \<times> u64 \<times> u64 \<times> memory_region_list list) option" where
  "limits_step md s = (case s of (sz, present, available, regions) \<Rightarrow> do {
     let len = NumberOfPages md * PAGE_SIZE;
     if EfiType md = EfiReservedMemoryType then Some (sz, present, available, regions)
     else do {
       let present' = (if present < PhysicalStart md + len then PhysicalStart md + len else present);
       e \<leftarrow> array_get regions (unat (EfiType md));
       regions' \<leftarrow> array_set regions (unat (EfiType md)) (e\<lparr>NumberOfEntries := NumberOfEntries e + 1\<rparr>);
       if \<not> PmmIsMemoryUsable (EfiType md) then Some (sz, present', available, regions')
       else Some (sz + len, present',
         if available < PhysicalStart md + len - 1 then PhysicalStart md + len else available, regions')
     }
   })"

definition PmmDetermineMemoryLimits ::
  "hal_memory_map \<Rightarrow> memory_region_list list \<Rightarrow> (u64 \<times> u64 \<times> u64 \<times> memory_region_list list) option" where
  "PmmDetermineMemoryLimits mmap regions = do {
     ASSERT (MapCount mmap \<noteq> 0);
     for_upto 0 (unat (MapCount mmap))
       (\<lambda>i s. do { md \<leftarrow> array_get (MapAddress mmap) i; limits_step md s }) (0, 0, 0, regions)
   }"

text \<open>The body of the loop that frees the usable memory.\<close>

definition release_step ::
  "lock_functions \<Rightarrow> u64 \<Rightarrow> u64 \<Rightarrow> efi_memory_descriptor \<Rightarrow> pmm_data \<times> bool \<Rightarrow> (pmm_data \<times> bool) option" where
  "release_step fs cpu ra md s =
     (if \<not> PmmIsMemoryUsable (EfiType md) then Some s
      else if PhysicalStart md < MB_SIZE then Some s
      else do {
        let noOfFrames = (ucast (NumberOfPages md) :: u32);
        let physAddr = AlignAddressUpper (PhysicalStart md) PAGE_SIZE;
        ASSERT (noOfFrames \<le> MAX_DWORD);
        PmmReleaseMemory fs cpu ra (fst s) (snd s) physAddr noOfFrames
      })"

text \<open>\<open>CurrentVirtualAddress\<close> is the memory that the bitmap gets.\<close>

definition PmmInitializeAllocationBitmap ::
  "lock_functions \<Rightarrow> u64 \<Rightarrow> u64 \<Rightarrow> u8 list option \<Rightarrow> u64 \<Rightarrow> hal_memory_map \<Rightarrow> pmm_data \<Rightarrow> bool \<Rightarrow>
    ((pmm_data \<times> bool) \<times> u32) option" where
  "PmmInitializeAllocationBitmap fs cpu ra CurrentVirtualAddress HighestMemoryAddress mmap d intr = do {
     ASSERT (CurrentVirtualAddress \<noteq> None);
     ASSERT (HighestMemoryAddress \<noteq> 0);
     let noOfPhysicalFrames = HighestMemoryAddress div PAGE_SIZE;
     ASSERT (noOfPhysicalFrames \<le> 0xFFFFFFFF);
     p \<leftarrow> BitmapPreinit (Some (AllocationBitmap d)) (ucast noOfPhysicalFrames);
     b \<leftarrow> BitmapInitEx (Some (fst p)) CurrentVirtualAddress False;
     n \<leftarrow> BitmapGetMaxElementCount (Some b);
     r \<leftarrow> PmmReserveMemoryEx fs cpu ra (d\<lparr>AllocationBitmap := b\<rparr>) intr n 0;
     s \<leftarrow> for_upto 0 (unat (MapCount mmap))
       (\<lambda>i s. do { md \<leftarrow> array_get (MapAddress mmap) i; release_step fs cpu ra md s }) (fst r);
     Some (s, snd p)
   }"

definition PmmInitSystem ::
  "lock_functions \<Rightarrow> u64 \<Rightarrow> u64 \<Rightarrow> pmm_data \<Rightarrow> bool \<Rightarrow> u8 list option \<Rightarrow> hal_memory_map option \<Rightarrow> u32 option \<Rightarrow>
    (STATUS \<times> (pmm_data \<times> bool) \<times> u32 option) option" where
  "PmmInitSystem fs cpu ra d intr BaseAddress MemoryMap SizeReserved =
     (if BaseAddress = None then Some (STATUS_INVALID_PARAMETER1, (d, intr), SizeReserved)
      else case MemoryMap of
        None \<Rightarrow> Some (STATUS_INVALID_PARAMETER2, (d, intr), SizeReserved)
      | Some mmap \<Rightarrow>
          if MapCount mmap = 0 then Some (STATUS_INVALID_PARAMETER3, (d, intr), SizeReserved)
          else if SizeReserved = None then Some (STATUS_INVALID_PARAMETER4, (d, intr), SizeReserved)
          else do {
            m \<leftarrow> PmmDetermineMemoryLimits mmap (MemoryRegionList d);
            let d1 = d\<lparr>PhysicalMemorySize := fst m, HighestPhysicalAddressPresent := fst (snd m),
              HighestPhysicalAddressAvailable := fst (snd (snd m)), MemoryRegionList := snd (snd (snd m))\<rparr>;
            r \<leftarrow> PmmInitializeAllocationBitmap fs cpu ra BaseAddress (HighestPhysicalAddressPresent d1) mmap d1 intr;
            Some (STATUS_SUCCESS, fst r, Some (ucast (AlignAddressUpper (ucast (snd r)) PAGE_SIZE)))
          })"

section \<open>Frames\<close>

text \<open>The frames in use.\<close>

definition frames_used :: "pmm_data \<Rightarrow> nat set" where
  "frames_used d = set_bits_of (AllocationBitmap d)"

definition pmm_ok :: "bool \<Rightarrow> pmm_data \<Rightarrow> bool" where
  "pmm_ok mon d \<longleftrightarrow> union_ok mon (AllocationLock d) \<and> lock_owner (as_spin (AllocationLock d)) = None \<and>
     bitmap_ok (AllocationBitmap d)"

abbreviation num_frames :: "pmm_data \<Rightarrow> nat" where
  "num_frames d \<equiv> unat (BitCount (AllocationBitmap d))"

text \<open>Work under the lock: the lock is free again and the interrupt flag as before.\<close>

lemma locked_work:
  assumes "union_ok mon l" "lock_owner (as_spin l) = None" "cpu \<noteq> 0" "work = Some w"
  obtains l' where "\<And>k. do {
       a \<leftarrow> LockAcquire (lock_table mon) cpu ra l intr;
       x \<leftarrow> work;
       u \<leftarrow> LockRelease (lock_table mon) cpu (fst a) (fst (snd a)) (snd (snd a));
       k x u
     } = k w (l', intr)" "union_ok mon l'" "lock_owner (as_spin l') = None"
proof -
  obtain l1 where l1: "LockAcquire (lock_table mon) cpu ra l intr = Some (l1, False, intr)" "union_ok mon l1"
    "lock_owner (as_spin l1) = Some cpu"
    using lk.acquire_free [OF assms(1,3,2)] by blast
  obtain l2 where "LockRelease (lock_table mon) cpu l1 False intr = Some (l2, intr)" "union_ok mon l2"
    "lock_owner (as_spin l2) = None"
    using lk.release_own [OF l1(2) assms(3) l1(3)] by blast
  then show thesis using l1(1) assms(4) by (intro that [of l2]) simp_all
qed

lemma page_index: "unat (a div PAGE_SIZE) = unat a div 4096"
  by (simp add: unat_div)

lemma page_aligned: "IsAddressAligned a PAGE_SIZE \<longleftrightarrow> 4096 dvd unat a"
  using IsAddressAligned_iff [of a 12] by simp

lemma index_dword: "unat (a div PAGE_SIZE) < 2 ^ 32 \<Longrightarrow> unat (ucast (a div PAGE_SIZE) :: u32) = unat a div 4096"
  by (simp add: page_index unsigned_ucast_eq take_bit_nat_eq_self)

lemma frame_address: "unat (ucast (i :: u32) * PAGE_SIZE) = unat i * 4096"
  using unat_lt_u32 [of i] by (simp add: unat_word_ariths unat_ucast_up)

definition free_run :: "pmm_data \<Rightarrow> nat \<Rightarrow> nat \<Rightarrow> bool" where
  "free_run d k n \<longleftrightarrow> k + n \<le> num_frames d \<and> {k ..< k + n} \<inter> frames_used d = {}"

lemma run_at_free:
  assumes "k + n \<le> length (bits b)"
  shows "run_at (bits b) k n False \<longleftrightarrow> {k ..< k + n} \<inter> set_bits_of b = {}"
proof
  assume "{k ..< k + n} \<inter> set_bits_of b = {}"
  then have "\<forall>q < n. bits b ! (k + q) = False"
    using assms by (auto simp: set_bits_of_def disjoint_iff simp del: nth_bits)
  then show "run_at (bits b) k n False" using run_at_iff [OF assms] by blast
qed (use run_clear [OF _ assms] in blast)

text \<open>What a reservation of \<open>n\<close> frames from the frame \<open>lo\<close> on does: it takes the first free run, if
  there is one.\<close>

definition reserves :: "pmm_data \<Rightarrow> pmm_data \<Rightarrow> nat \<Rightarrow> nat \<Rightarrow> nat option \<Rightarrow> bool" where
  "reserves d d' lo n r \<longleftrightarrow> num_frames d' = num_frames d \<and> (case r of
     None \<Rightarrow> frames_used d' = frames_used d \<and> (\<forall>k \<ge> lo. \<not> free_run d k n)
   | Some i \<Rightarrow> lo \<le> i \<and> free_run d i n \<and> (\<forall>k. lo \<le> k \<and> k < i \<longrightarrow> \<not> free_run d k n) \<and>
       frames_used d' = frames_used d \<union> {i ..< i + n})"

lemma scan_from_run:
  assumes b: "bitmap_ok b" "n \<noteq> 0" and d: "AllocationBitmap d = b"
  obtains b' r where "BitmapScanFromAndFlip (Some b) i n False = Some (Some b', r)" "bitmap_ok b'"
    "\<And>l. reserves d (d\<lparr>AllocationLock := l, AllocationBitmap := b'\<rparr>) (unat i) (unat n)
       (if r = MAX_DWORD then None else Some (unat r))"
proof (cases "i \<le> BitCount b")
  case False
  then have "unat (BitCount b) < unat i" by (simp add: word_le_nat_alt)
  moreover have "0 < unat n" using b(2) by (simp add: unat_gt_0)
  ultimately have "\<not> free_run d k (unat n)" if "unat i \<le> k" for k using that d by (simp add: free_run_def)
  then show thesis using False b d
    by (intro that [of b MAX_DWORD])
      (simp_all add: not_le BitmapScanFromAndFlip_def BitmapScanFromToAndFlip_def reserves_def frames_used_def)
next
  case True
  obtain b' r where r: "BitmapScanFromToAndFlip (Some b) i (BitCount b) n False = Some (Some b', r)" "bitmap_ok b'"
    "BitCount b' = BitCount b" "scan_answer (bits b) (unat i) (unat (BitCount b)) (unat n) False r"
    "bits b' = (if r = MAX_DWORD then bits b
       else take (unat r) (bits b) @ replicate (unat n) (\<not> False) @ drop (unat r + unat n) (bits b))"
    using BitmapScanFromToAndFlip_run [OF b True order_refl, of False] by auto
  have fr: "free_run d k (unat n) \<longleftrightarrow> k + unat n \<le> unat (BitCount b) \<and> run_at (bits b) k (unat n) False" for k
    using run_at_free [of k "unat n" b] d by (auto simp: free_run_def frames_used_def)
  have "reserves d (d\<lparr>AllocationLock := l, AllocationBitmap := b'\<rparr>) (unat i) (unat n)
       (if r = MAX_DWORD then None else Some (unat r))" for l
  proof (cases "r = MAX_DWORD")
    case True
    then show ?thesis using r(3-5) d fr by (auto simp: reserves_def frames_used_def set_bits_of_def scan_answer_def)
  next
    case False
    note sc = scan_answer_found [OF r(4) False]
    have "bits b' = take (unat r) (bits b) @ replicate (unat n) True @ drop (unat r + unat n) (bits b)"
      using r(5) False by simp
    then have u: "set_bits_of b' = set_bits_of b \<union> {unat r ..< unat r + unat n}"
      using set_bits_fill [of b' "unat r" b "unat n" True] sc(2) by simp
    have "\<forall>k. unat i \<le> k \<and> k < unat r \<longrightarrow> \<not> run_at (bits b) k (unat n) False"
      using r(4) False by (simp add: scan_answer_def)
    then show ?thesis using False sc u r(3) d fr by (auto simp: reserves_def frames_used_def)
  qed
  then show thesis using r(1,2) b(1) by (intro that [of b' r]) (simp_all add: BitmapScanFromAndFlip_def)
qed

text \<open>A reservation: with valid arguments it answers the address of the first free run, or 0; it never
  faults, and it leaves the lock free and the interrupt flag as it was.\<close>

lemma PmmReserveMemoryEx_run:
  assumes ok: "pmm_ok mon d" "cpu \<noteq> 0" and n: "n \<noteq> 0" "4096 dvd unat a" "unat a div 4096 < 2 ^ 32"
  obtains d' addr r where "PmmReserveMemoryEx (lock_table mon) cpu ra d intr n a = Some ((d', intr), addr)" "pmm_ok mon d'"
    "reserves d d' (unat a div 4096) (unat n) r" "unat addr = (case r of None \<Rightarrow> 0 | Some i \<Rightarrow> i * 4096)"
    "HighestPhysicalAddressPresent d' = HighestPhysicalAddressPresent d" "PhysicalMemorySize d' = PhysicalMemorySize d"
    "HighestPhysicalAddressAvailable d' = HighestPhysicalAddressAvailable d" "MemoryRegionList d' = MemoryRegionList d"
proof -
  have l: "union_ok mon (AllocationLock d)" "lock_owner (as_spin (AllocationLock d)) = None"
    and b: "bitmap_ok (AllocationBitmap d)" using ok(1) by (simp_all add: pmm_ok_def)
  let ?i = "ucast (a div PAGE_SIZE) :: u32"
  have i: "unat ?i = unat a div 4096" using n(3) by (intro index_dword) (simp add: page_index)
  have c: "\<not> 0xFFFFFFFF < a div PAGE_SIZE" using n(3) page_index [of a] by (simp add: word_less_nat_alt)
  obtain b' r where r: "BitmapScanFromAndFlip (Some (AllocationBitmap d)) ?i n False = Some (Some b', r)" "bitmap_ok b'"
    "\<And>l. reserves d (d\<lparr>AllocationLock := l, AllocationBitmap := b'\<rparr>) (unat ?i) (unat n)
       (if r = MAX_DWORD then None else Some (unat r))"
    using scan_from_run [OF b n(1) refl] by blast
  obtain l' where l': "\<And>k :: bitmap option \<times> u32 \<Rightarrow> lock_union \<times> bool \<Rightarrow> ((pmm_data \<times> bool) \<times> u64) option. do {
       a \<leftarrow> LockAcquire (lock_table mon) cpu ra (AllocationLock d) intr;
       x \<leftarrow> Some (Some b', r);
       u \<leftarrow> LockRelease (lock_table mon) cpu (fst a) (fst (snd a)) (snd (snd a));
       k x u
     } = k (Some b', r) (l', intr)" "union_ok mon l'" "lock_owner (as_spin l') = None"
    using locked_work [OF l ok(2) refl] by metis
  let ?d' = "d\<lparr>AllocationLock := l', AllocationBitmap := b'\<rparr>"
  let ?addr = "if r = MAX_DWORD then 0 else ucast r * PAGE_SIZE"
  have "PmmReserveMemoryEx (lock_table mon) cpu ra d intr n a = Some ((?d', intr), ?addr)"
    using n(1,2) c r(1) l'(1) [of "\<lambda>s l. do { b \<leftarrow> fst s; let d' = d\<lparr>AllocationLock := fst l, AllocationBitmap := b\<rparr>;
          if snd s = MAX_DWORD then Some ((d', snd l), 0) else Some ((d', snd l), ucast (snd s) * PAGE_SIZE) }"]
    by (simp add: PmmReserveMemoryEx_def page_aligned Let_def)
  moreover have "pmm_ok mon ?d'" using r(2) l' by (simp add: pmm_ok_def)
  moreover have "unat ?addr = (case if r = MAX_DWORD then None else Some (unat r) of None \<Rightarrow> 0 | Some i \<Rightarrow> i * 4096)"
    using frame_address [of r] by simp
  ultimately show thesis using r(3) [of l'] i
    by (intro that [of ?d' ?addr "if r = MAX_DWORD then None else Some (unat r)"]) simp_all
qed

lemma PmmReleaseMemory_run:
  assumes ok: "pmm_ok mon d" "cpu \<noteq> 0" and a: "unat a = i * 4096" "i < num_frames d" "i + unat n \<le> num_frames d"
  obtains d' where "PmmReleaseMemory (lock_table mon) cpu ra d intr a n = Some (d', intr)" "pmm_ok mon d'"
    "num_frames d' = num_frames d" "frames_used d' = frames_used d - {i ..< i + unat n}"
    "HighestPhysicalAddressPresent d' = HighestPhysicalAddressPresent d" "PhysicalMemorySize d' = PhysicalMemorySize d"
    "HighestPhysicalAddressAvailable d' = HighestPhysicalAddressAvailable d" "MemoryRegionList d' = MemoryRegionList d"
proof -
  have l: "union_ok mon (AllocationLock d)" "lock_owner (as_spin (AllocationLock d)) = None"
    and b: "bitmap_ok (AllocationBitmap d)" using ok(1) by (simp_all add: pmm_ok_def)
  let ?i = "ucast (a div PAGE_SIZE) :: u32"
  have i32: "i < 2 ^ 32" using a(2) unat_lt_u32 [of "BitCount (AllocationBitmap d)"] by simp
  have i: "unat ?i = i" using index_dword [of a] i32 a(1) by (simp add: page_index)
  have c: "a div PAGE_SIZE \<le> 0xFFFFFFFF" using i32 a(1) page_index [of a] by (simp add: word_le_nat_alt)
  have lt: "?i < BitCount (AllocationBitmap d)" using i a(2) by (simp add: word_less_nat_alt)
  obtain b' where b': "BitmapSetBitsValue (Some (AllocationBitmap d)) ?i n False = Some b'" "bitmap_ok b'"
    "BitCount b' = BitCount (AllocationBitmap d)"
    "bits b' = take (unat ?i) (bits (AllocationBitmap d)) @ replicate (unat n) False @ drop (unat ?i + unat n) (bits (AllocationBitmap d))"
    using BitmapSetBitsValue_run [OF b lt, of n False] i a(3) by auto
  obtain l' where l': "\<And>k :: bitmap \<Rightarrow> lock_union \<times> bool \<Rightarrow> (pmm_data \<times> bool) option. do {
       a \<leftarrow> LockAcquire (lock_table mon) cpu ra (AllocationLock d) intr;
       x \<leftarrow> Some b';
       u \<leftarrow> LockRelease (lock_table mon) cpu (fst a) (fst (snd a)) (snd (snd a));
       k x u
     } = k b' (l', intr)" "union_ok mon l'" "lock_owner (as_spin l') = None"
    using locked_work [OF l ok(2) refl] by metis
  let ?d' = "d\<lparr>AllocationLock := l', AllocationBitmap := b'\<rparr>"
  have "PmmReleaseMemory (lock_table mon) cpu ra d intr a n = Some (?d', intr)"
    using a(1) c b'(1) l'(1) [of "\<lambda>b l. Some (d\<lparr>AllocationLock := fst l, AllocationBitmap := b\<rparr>, snd l)"]
    by (simp add: PmmReleaseMemory_def page_aligned Let_def)
  moreover have "frames_used ?d' = frames_used d - {i ..< i + unat n}"
    using set_bits_fill [OF b'(4)] i a(3) by (simp add: frames_used_def)
  ultimately show thesis using b'(2,3) l' by (intro that [of ?d']) (simp_all add: pmm_ok_def)
qed

section \<open>The frames as an allocator\<close>

text \<open>A client that reserves frames from the address \<open>mn\<close> on and releases what it holds. Frame 0 is
  never handed out: its address is the answer for failure.\<close>

definition pmm_inv :: "bool \<Rightarrow> u64 \<Rightarrow> pmm_data \<Rightarrow> bool" where
  "pmm_inv mon cpu d \<longleftrightarrow> pmm_ok mon d \<and> cpu \<noteq> 0 \<and> 0 \<in> frames_used d"

definition pmm_reserve ::
  "bool \<Rightarrow> u64 \<Rightarrow> u64 \<Rightarrow> bool \<Rightarrow> u64 \<Rightarrow> pmm_data \<Rightarrow> u32 \<Rightarrow> (pmm_data \<times> u32 option) option" where
  "pmm_reserve mon cpu ra intr mn d n = do {
     r \<leftarrow> PmmReserveMemoryEx (lock_table mon) cpu ra d intr n mn;
     Some (fst (fst r), if snd r = 0 then None else Some (ucast (snd r div PAGE_SIZE)))
   }"

definition pmm_release :: "bool \<Rightarrow> u64 \<Rightarrow> u64 \<Rightarrow> bool \<Rightarrow> pmm_data \<Rightarrow> u32 \<Rightarrow> u32 \<Rightarrow> pmm_data option" where
  "pmm_release mon cpu ra intr d b n = map_option fst (PmmReleaseMemory (lock_table mon) cpu ra d intr (ucast b * PAGE_SIZE) n)"

lemma reserves_frame_0: "reserves d d' lo n (Some i) \<Longrightarrow> 0 \<in> frames_used d \<Longrightarrow> n \<noteq> 0 \<Longrightarrow> i \<noteq> 0"
  by (auto simp: reserves_def free_run_def)

lemma pmm_reserve_run:
  assumes inv: "pmm_inv mon cpu d"
  obtains d' r where "pmm_reserve mon cpu ra intr mn d n = Some (d', r)" "pmm_inv mon cpu d'"
    "r = None \<longrightarrow> frames_used d' = frames_used d"
    "\<And>b. r = Some b \<Longrightarrow> n \<noteq> 0 \<and> unat b \<noteq> 0 \<and> free_run d (unat b) (unat n) \<and> frames_used d' = frames_used d \<union> {unat b ..< unat b + unat n}"
proof (cases "n \<noteq> 0 \<and> 4096 dvd unat mn \<and> unat mn div 4096 < 2 ^ 32")
  case False
  have "\<not> unat mn div 4096 < 2 ^ 32 \<Longrightarrow> 0xFFFFFFFF < mn div PAGE_SIZE"
    using page_index [of mn] by (simp add: word_less_nat_alt)
  then have "pmm_reserve mon cpu ra intr mn d n = Some (d, None)"
    using False by (auto simp: pmm_reserve_def PmmReserveMemoryEx_def page_aligned Let_def)
  then show thesis using inv by (intro that [of d None]) simp_all
next
  case True
  have ok: "pmm_ok mon d" "cpu \<noteq> 0" using inv by (simp_all add: pmm_inv_def)
  obtain d' addr r where r: "PmmReserveMemoryEx (lock_table mon) cpu ra d intr n mn = Some ((d', intr), addr)" "pmm_ok mon d'"
    "reserves d d' (unat mn div 4096) (unat n) r" "unat addr = (case r of None \<Rightarrow> 0 | Some i \<Rightarrow> i * 4096)"
    using PmmReserveMemoryEx_run [OF ok True [THEN conjunct1] True [THEN conjunct2, THEN conjunct1]
        True [THEN conjunct2, THEN conjunct2], of ra intr] by blast
  have n: "unat n \<noteq> 0" using True by (simp add: unat_eq_0)
  show thesis
  proof (cases r)
    case None
    then have "addr = 0" using r(4) by (simp add: unat_eq_0)
    then show thesis using r None inv by (intro that [of d' None]) (simp_all add: pmm_reserve_def pmm_inv_def reserves_def)
  next
    case (Some i)
    have i0: "i \<noteq> 0" using reserves_frame_0 [OF r(3) [unfolded Some]] inv n by (simp add: pmm_inv_def)
    then have a0: "addr \<noteq> 0" using r(4) Some by auto
    have fr: "free_run d i (unat n)" "frames_used d' = frames_used d \<union> {i ..< i + unat n}"
      using r(3) Some by (simp_all add: reserves_def)
    have "i < 2 ^ 32" using fr(1) n unat_lt_u32 [of "BitCount (AllocationBitmap d)"] by (simp add: free_run_def)
    then have "unat (ucast (addr div PAGE_SIZE) :: u32) = i"
      using index_dword [of addr] r(4) Some by (simp add: page_index)
    then show thesis using r(1,2) a0 i0 fr inv True
      by (intro that [of d' "Some (ucast (addr div PAGE_SIZE))"]) (auto simp: pmm_reserve_def pmm_inv_def)
  qed
qed

lemma pmm_release_run:
  assumes inv: "pmm_inv mon cpu d" and n: "0 < unat n" "{unat b ..< unat b + unat n} \<subseteq> frames_used d - {0}"
  shows "\<exists>d'. pmm_release mon cpu ra intr d b n = Some d' \<and> pmm_inv mon cpu d' \<and>
    frames_used d' - {0} = frames_used d - {0} - {unat b ..< unat b + unat n}"
proof -
  have "unat b + unat n - 1 \<in> {unat b ..< unat b + unat n}" using n(1) by auto
  from subsetD [OF n(2) this] have "unat b + unat n - 1 \<in> frames_used d" by simp
  then have le: "unat b + unat n \<le> num_frames d" using n(1) by (auto simp: frames_used_def set_bits_of_def)
  have "unat b \<in> {unat b ..< unat b + unat n}" using n(1) by simp
  from subsetD [OF n(2) this] have b0: "unat b \<noteq> 0" by simp
  have a: "unat (ucast b * PAGE_SIZE) = unat b * 4096" by (rule frame_address)
  have ok: "pmm_ok mon d" "cpu \<noteq> 0" and lt: "unat b < num_frames d" using inv le n(1) by (simp_all add: pmm_inv_def)
  obtain d' where d': "PmmReleaseMemory (lock_table mon) cpu ra d intr (ucast b * PAGE_SIZE) n = Some (d', intr)" "pmm_ok mon d'"
    "frames_used d' = frames_used d - {unat b ..< unat b + unat n}"
    using PmmReleaseMemory_run [OF ok a lt le, of ra intr] by blast
  then show ?thesis using inv b0 by (auto simp: pmm_release_def pmm_inv_def)
qed

interpretation pm: range_allocator "pmm_inv mon cpu" "\<lambda>d. frames_used d - {0}" "unat :: u32 \<Rightarrow> nat"
  "pmm_reserve mon cpu ra intr mn" "pmm_release mon cpu ra intr" for mon cpu ra intr mn
proof (unfold_locales, goal_cases)
  case (1 s n)
  then show ?case by (rule pmm_reserve_run [of mon cpu s ra intr mn n]) blast
next
  case (2 s n s' r)
  then show ?case by (auto elim: pmm_reserve_run [of mon cpu s ra intr mn n])
next
  case (3 s n s')
  then show ?case by (auto elim: pmm_reserve_run [of mon cpu s ra intr mn n])
next
  case (4 s n s' b)
  obtain d' r where r: "pmm_reserve mon cpu ra intr mn s n = Some (d', r)"
    "\<And>b. r = Some b \<Longrightarrow> n \<noteq> 0 \<and> unat b \<noteq> 0 \<and> free_run s (unat b) (unat n) \<and> frames_used d' = frames_used s \<union> {unat b ..< unat b + unat n}"
    by (rule pmm_reserve_run [OF 4(1), of ra intr mn n]) blast
  have "n \<noteq> 0 \<and> unat b \<noteq> 0 \<and> free_run s (unat b) (unat n) \<and> frames_used s' = frames_used s \<union> {unat b ..< unat b + unat n}"
    using r(1) r(2) [of b] 4(2) by simp
  then show ?case using unat_gt_0 [of n] by (auto simp: free_run_def simp del: unat_eq_zero)
next
  case (5 s n b)
  then show ?case using pmm_release_run [of mon cpu s n b ra intr] by blast
qed

section \<open>Initialisation\<close>

definition region_end :: "efi_memory_descriptor \<Rightarrow> nat" where
  "region_end md = unat (PhysicalStart md) + unat (NumberOfPages md) * 4096"

definition region_frames :: "efi_memory_descriptor \<Rightarrow> nat set" where
  "region_frames md = {unat (PhysicalStart md) div 4096 ..< unat (PhysicalStart md) div 4096 + unat (NumberOfPages md)}"

definition present_mds :: "efi_memory_descriptor list \<Rightarrow> efi_memory_descriptor list" where
  "present_mds mds = filter (\<lambda>md. EfiType md \<noteq> 0) mds"

definition usable_mds :: "efi_memory_descriptor list \<Rightarrow> efi_memory_descriptor list" where
  "usable_mds mds = filter (\<lambda>md. PmmIsMemoryUsable (EfiType md)) mds"

text \<open>What the code relies on in a memory map: the types are known ones, the regions are made of whole,
  aligned frames, and the number of frames fits into a DWORD.\<close>

definition md_ok :: "efi_memory_descriptor \<Rightarrow> bool" where
  "md_ok md \<longleftrightarrow> unat (EfiType md) < EfiMaxMemoryType \<and> 4096 dvd unat (PhysicalStart md) \<and>
     NumberOfPages md \<noteq> 0 \<and> region_end md < 2 ^ 44"

definition top_of :: "efi_memory_descriptor list \<Rightarrow> nat" where
  "top_of mds = fold max (map region_end mds) 0"

lemma top_of_snoc: "top_of (mds @ [md]) = max (region_end md) (top_of mds)"
  by (simp add: top_of_def)

lemma top_of_le: "md \<in> set mds \<Longrightarrow> region_end md \<le> top_of mds"
  by (induction mds rule: rev_induct) (auto simp: top_of_snoc le_max_iff_disj)

lemma top_of_less: "\<forall>md \<in> set mds. region_end md < n \<Longrightarrow> 0 < n \<Longrightarrow> top_of mds < n"
  by (induction mds rule: rev_induct) (auto simp: top_of_snoc top_of_def [of "[]"])

lemma top_of_aligned: "\<forall>md \<in> set mds. md_ok md \<Longrightarrow> 4096 dvd top_of mds"
  by (induction mds rule: rev_induct) (auto simp: top_of_snoc top_of_def [of "[]"] md_ok_def region_end_def max_def)

lemma usable_present: "PmmIsMemoryUsable t \<Longrightarrow> t \<noteq> 0"
  by (auto simp: PmmIsMemoryUsable_def)

lemma md_end:
  assumes "md_ok md"
  shows "unat (PhysicalStart md + NumberOfPages md * PAGE_SIZE) = region_end md"
    "unat (PhysicalStart md + NumberOfPages md * PAGE_SIZE - 1) = region_end md - 1" "0 < region_end md"
proof -
  have b: "unat (PhysicalStart md) + unat (NumberOfPages md) * 4096 < 2 ^ 44" using assms by (simp add: md_ok_def region_end_def)
  then have "unat (NumberOfPages md * PAGE_SIZE) = unat (NumberOfPages md) * 4096" by (simp add: unat_word_ariths)
  then show e: "unat (PhysicalStart md + NumberOfPages md * PAGE_SIZE) = region_end md"
    using b by (simp add: unat_add_small region_end_def)
  have "0 < unat (NumberOfPages md)" using assms by (simp add: md_ok_def unat_gt_0)
  then show p: "0 < region_end md" by (simp add: region_end_def)
  then have "1 \<le> PhysicalStart md + NumberOfPages md * PAGE_SIZE" using e by (simp add: word_le_nat_alt)
  then show "unat (PhysicalStart md + NumberOfPages md * PAGE_SIZE - 1) = region_end md - 1"
    using e by (simp add: unat_sub_small)
qed

text \<open>The results of the first pass.\<close>

definition counted :: "memory_region_list list \<Rightarrow> efi_memory_descriptor list \<Rightarrow> memory_region_list list" where
  "counted regions mds = map (\<lambda>t. (regions ! t)\<lparr>NumberOfEntries := NumberOfEntries (regions ! t) +
     of_nat (length (filter (\<lambda>md. unat (EfiType md) = t) (present_mds mds)))\<rparr>) [0 ..< length regions]"

lemma limits_step_run:
  assumes md: "md_ok md" and r: "length regions = EfiMaxMemoryType" and d: "\<forall>x \<in> set mds. md_ok x"
    and p: "unat present = top_of (present_mds mds)" and a: "unat available = top_of (usable_mds mds)"
  shows "\<exists>present' available'. limits_step md (sz, present, available, counted regions mds) =
    Some (if PmmIsMemoryUsable (EfiType md) then sz + NumberOfPages md * PAGE_SIZE else sz, present', available', counted regions (mds @ [md])) \<and>
    unat present' = top_of (present_mds (mds @ [md])) \<and> unat available' = top_of (usable_mds (mds @ [md]))"
proof (cases "EfiType md = 0")
  case True
  then have "counted regions (mds @ [md]) = counted regions mds" by (simp add: counted_def present_mds_def)
  then show ?thesis using True p a usable_present [of "EfiType md"]
    by (auto simp: limits_step_def present_mds_def usable_mds_def)
next
  case False
  let ?t = "unat (EfiType md)"
  have t: "?t < 16" using md by (simp add: md_ok_def)
  have c: "counted regions (mds @ [md]) = (counted regions mds)[?t :=
      (counted regions mds ! ?t)\<lparr>NumberOfEntries := NumberOfEntries (counted regions mds ! ?t) + 1\<rparr>]"
    using t r False by (intro nth_equalityI) (auto simp: counted_def present_mds_def nth_list_update)
  note e = md_end [OF md]
  let ?pr = "if present < PhysicalStart md + NumberOfPages md * PAGE_SIZE then PhysicalStart md + NumberOfPages md * PAGE_SIZE else present"
  let ?av = "if available < PhysicalStart md + NumberOfPages md * PAGE_SIZE - 1 then PhysicalStart md + NumberOfPages md * PAGE_SIZE else available"
  have pr: "unat ?pr = top_of (present_mds (mds @ [md]))"
    using p e False by (simp add: present_mds_def top_of_snoc word_less_nat_alt max_def)
  have "4096 dvd top_of (usable_mds mds)" using d by (intro top_of_aligned) (auto simp: usable_mds_def)
  moreover have "4096 dvd region_end md" using md by (auto simp: md_ok_def region_end_def)
  ultimately have "top_of (usable_mds mds) < region_end md - 1 \<longleftrightarrow> top_of (usable_mds mds) < region_end md"
    using e(3) by (auto elim!: dvdE) presburger?
  then have av: "unat ?av = top_of (usable_mds mds @ [md])"
    using a e by (simp add: top_of_snoc word_less_nat_alt max_def)
  show ?thesis
    using False t r c pr av a by (auto simp: limits_step_def Let_def counted_def usable_mds_def)
qed

definition map_ok :: "hal_memory_map \<Rightarrow> bool" where
  "map_ok mmap \<longleftrightarrow> MapCount mmap \<noteq> 0 \<and> unat (MapCount mmap) \<le> length (MapAddress mmap) \<and>
     (\<forall>md \<in> set (take (unat (MapCount mmap)) (MapAddress mmap)). md_ok md)"

abbreviation mds_of :: "hal_memory_map \<Rightarrow> efi_memory_descriptor list" where
  "mds_of mmap \<equiv> take (unat (MapCount mmap)) (MapAddress mmap)"

lemma map_md:
  assumes "map_ok mmap" "i < unat (MapCount mmap)"
  shows "array_get (MapAddress mmap) i = Some (MapAddress mmap ! i)" "md_ok (MapAddress mmap ! i)"
    "MapAddress mmap ! i \<in> set (mds_of mmap)"
    "take (Suc i) (mds_of mmap) = take i (mds_of mmap) @ [MapAddress mmap ! i]"
proof -
  have l: "i < length (MapAddress mmap)" using assms by (simp add: map_ok_def)
  then show "array_get (MapAddress mmap) i = Some (MapAddress mmap ! i)" by simp
  show m: "MapAddress mmap ! i \<in> set (mds_of mmap)"
    using l assms(2) nth_mem [of i "mds_of mmap"] by simp
  then show "md_ok (MapAddress mmap ! i)" using assms(1) by (simp add: map_ok_def)
  show "take (Suc i) (mds_of mmap) = take i (mds_of mmap) @ [MapAddress mmap ! i]"
    using l assms(2) take_Suc_conv_app_nth [of i "mds_of mmap"] by simp
qed

definition usable_size :: "efi_memory_descriptor list \<Rightarrow> u64" where
  "usable_size mds = (\<Sum>md \<leftarrow> usable_mds mds. NumberOfPages md * PAGE_SIZE)"

lemma PmmDetermineMemoryLimits_run:
  assumes m: "map_ok mmap" and r: "length regions = EfiMaxMemoryType"
  shows "\<exists>present available. PmmDetermineMemoryLimits mmap regions =
      Some (usable_size (mds_of mmap), present, available, counted regions (mds_of mmap)) \<and>
    unat present = top_of (present_mds (mds_of mmap)) \<and> unat available = top_of (usable_mds (mds_of mmap))"
proof -
  let ?P = "\<lambda>i (s :: u64 \<times> u64 \<times> u64 \<times> memory_region_list list). \<exists>present available. s = (usable_size (take i (mds_of mmap)), present, available, counted regions (take i (mds_of mmap))) \<and>
    unat present = top_of (present_mds (take i (mds_of mmap))) \<and> unat available = top_of (usable_mds (take i (mds_of mmap)))"
  have "\<exists>s. for_upto 0 (unat (MapCount mmap))
       (\<lambda>i s. do { md \<leftarrow> array_get (MapAddress mmap) i; limits_step md s }) (0, 0, 0, regions) = Some s \<and> ?P (0 + unat (MapCount mmap)) s"
  proof (rule for_upto_rule)
    have "counted regions [] = regions" by (intro nth_equalityI) (auto simp: counted_def present_mds_def)
    then show "?P 0 (0, 0, 0, regions)" by (simp add: usable_size_def usable_mds_def present_mds_def top_of_def)
  next
    fix i s assume i: "0 \<le> i" "i < 0 + unat (MapCount mmap)" and P: "?P i s"
    then have i': "i < unat (MapCount mmap)" by simp
    note md = map_md [OF m i']
    have d: "\<forall>x \<in> set (take i (mds_of mmap)). md_ok x"
      using m in_set_takeD [of _ i "mds_of mmap"] unfolding map_ok_def by blast
    obtain pr av where s: "s = (usable_size (take i (mds_of mmap)), pr, av, counted regions (take i (mds_of mmap)))"
      "unat pr = top_of (present_mds (take i (mds_of mmap)))" "unat av = top_of (usable_mds (take i (mds_of mmap)))"
      using P by blast
    have "usable_size (take i (mds_of mmap) @ [MapAddress mmap ! i]) =
      (if PmmIsMemoryUsable (EfiType (MapAddress mmap ! i))
       then usable_size (take i (mds_of mmap)) + NumberOfPages (MapAddress mmap ! i) * PAGE_SIZE else usable_size (take i (mds_of mmap)))"
      by (simp add: usable_size_def usable_mds_def)
    then show "\<exists>s'. (do { md \<leftarrow> array_get (MapAddress mmap) i; limits_step md s }) = Some s' \<and> ?P (Suc i) s'"
      using limits_step_run [OF md(2) r d s(2,3), of "usable_size (take i (mds_of mmap))"] md(1) unfolding s(1) md(4) by auto
  qed
  then show ?thesis using m by (auto simp: PmmDetermineMemoryLimits_def map_ok_def)
qed

text \<open>The second pass frees exactly the usable regions that lie above the first megabyte.\<close>

definition free_regions :: "efi_memory_descriptor list \<Rightarrow> nat set" where
  "free_regions mds = (\<Union>md \<in> {md \<in> set mds. PmmIsMemoryUsable (EfiType md) \<and> 0x100000 \<le> unat (PhysicalStart md)}. region_frames md)"

lemma page_align_same:
  assumes "unat a < 2 ^ 44" "unat a = i * 4096"
  shows "unat (AlignAddressUpper a PAGE_SIZE) = i * 4096"
proof -
  have "unat (AlignAddressUpper a (2 ^ 12)) = (unat a + (2 ^ 12 - 1)) div 2 ^ 12 * 2 ^ 12"
    using assms(1) by (intro unat_AlignAddressUpper) simp_all
  moreover have "(i * 4096 + 4095) div 4096 = i" by simp
  ultimately show ?thesis using assms(2) by simp
qed

lemma dword_le_max: "(x :: u32) \<le> 0xFFFFFFFF"
  using unat_lt_u32 [of x] by (simp add: word_le_nat_alt)

lemma release_step_run:
  assumes md: "md_ok md" "PmmIsMemoryUsable (EfiType md) \<longrightarrow> region_end md \<le> num_frames d * 4096"
    and ok: "pmm_ok mon d" "cpu \<noteq> 0"
  shows "\<exists>d'. release_step (lock_table mon) cpu ra md (d, intr) = Some (d', intr) \<and> pmm_ok mon d' \<and>
    num_frames d' = num_frames d \<and> frames_used d' = frames_used d - free_regions [md]"
proof (cases "PmmIsMemoryUsable (EfiType md) \<and> 0x100000 \<le> unat (PhysicalStart md)")
  case False
  then have "free_regions [md] = {}" by (auto simp: free_regions_def)
  then show ?thesis using False ok by (auto simp: release_step_def word_less_nat_alt)
next
  case True
  let ?i = "unat (PhysicalStart md) div 4096"
  have al: "unat (PhysicalStart md) = ?i * 4096" using md(1) by (auto simp: md_ok_def)
  have e: "?i * 4096 + unat (NumberOfPages md) * 4096 \<le> num_frames d * 4096"
    using md(2) True al by (simp add: region_end_def)
  then have le: "?i + unat (NumberOfPages md) \<le> num_frames d" by linarith
  have n0: "0 < unat (NumberOfPages md)" using md(1) by (simp add: md_ok_def unat_gt_0)
  have n: "unat (ucast (NumberOfPages md) :: u32) = unat (NumberOfPages md)"
    using le unat_lt_u32 [of "BitCount (AllocationBitmap d)"] by (simp add: unsigned_ucast_eq take_bit_nat_eq_self)
  have "unat (PhysicalStart md) < 2 ^ 44" using md(1) by (simp add: md_ok_def region_end_def)
  then have a: "unat (AlignAddressUpper (PhysicalStart md) PAGE_SIZE) = ?i * 4096"
    using page_align_same [OF _ al] by simp
  obtain d' where d': "PmmReleaseMemory (lock_table mon) cpu ra d intr (AlignAddressUpper (PhysicalStart md) PAGE_SIZE)
      (ucast (NumberOfPages md)) = Some (d', intr)" "pmm_ok mon d'" "num_frames d' = num_frames d"
    "frames_used d' = frames_used d - {?i ..< ?i + unat (NumberOfPages md)}"
    using PmmReleaseMemory_run [OF ok a, of "ucast (NumberOfPages md)" ra intr] le n n0 by auto
  have "free_regions [md] = {?i ..< ?i + unat (NumberOfPages md)}"
    using True by (auto simp: free_regions_def region_frames_def)
  then show ?thesis using True d' dword_le_max [of "ucast (NumberOfPages md)"]
    by (simp add: release_step_def Let_def word_less_nat_alt)
qed

lemma free_regions_snoc: "free_regions (mds @ [md]) = free_regions mds \<union> free_regions [md]"
  by (auto simp: free_regions_def)

lemma release_loop_run:
  assumes m: "map_ok mmap" and ok: "pmm_ok mon d" "cpu \<noteq> 0"
    and e: "\<forall>md \<in> set (mds_of mmap). PmmIsMemoryUsable (EfiType md) \<longrightarrow> region_end md \<le> num_frames d * 4096"
  shows "\<exists>d'. for_upto 0 (unat (MapCount mmap))
       (\<lambda>i s. do { md \<leftarrow> array_get (MapAddress mmap) i; release_step (lock_table mon) cpu ra md s }) (d, intr) = Some (d', intr) \<and>
    pmm_ok mon d' \<and> num_frames d' = num_frames d \<and> frames_used d' = frames_used d - free_regions (mds_of mmap)"
proof -
  let ?P = "\<lambda>i s. snd s = intr \<and> pmm_ok mon (fst s) \<and> num_frames (fst s) = num_frames d \<and>
    frames_used (fst s) = frames_used d - free_regions (take i (mds_of mmap))"
  have "\<exists>s. for_upto 0 (unat (MapCount mmap))
       (\<lambda>i s. do { md \<leftarrow> array_get (MapAddress mmap) i; release_step (lock_table mon) cpu ra md s }) (d, intr) = Some s \<and>
    ?P (0 + unat (MapCount mmap)) s"
  proof (rule for_upto_rule)
    show "?P 0 (d, intr)" using ok(1) by (simp add: free_regions_def)
  next
    fix i s assume i: "0 \<le> i" "i < 0 + unat (MapCount mmap)" and P: "?P i s"
    then have i': "i < unat (MapCount mmap)" by simp
    note md = map_md [OF m i']
    have "\<exists>d'. release_step (lock_table mon) cpu ra (MapAddress mmap ! i) (fst s, intr) = Some (d', intr) \<and> pmm_ok mon d' \<and>
      num_frames d' = num_frames (fst s) \<and> frames_used d' = frames_used (fst s) - free_regions [MapAddress mmap ! i]"
      using e md(3) P by (intro release_step_run [OF md(2) _ _ ok(2)]) simp_all
    then show "\<exists>s'. (do { md \<leftarrow> array_get (MapAddress mmap) i; release_step (lock_table mon) cpu ra md s }) = Some s' \<and> ?P (Suc i) s'"
      using P md(1) unfolding md(4) free_regions_snoc by (cases s) auto
  qed
  then show ?thesis by auto
qed

text \<open>The bitmap starts with all frames reserved.\<close>

lemma frames_all_clear: "bits (AllocationBitmap d) = replicate (num_frames d) False \<Longrightarrow> frames_used d = {}"
  by (auto simp: frames_used_def set_bits_of_def)

lemma PmmInitSystem_run:
  assumes m: "map_ok mmap" and l: "union_ok mon (AllocationLock d)" "lock_owner (as_spin (AllocationLock d)) = None" "cpu \<noteq> 0"
    and r: "length (MemoryRegionList d) = EfiMaxMemoryType"
    and some: "present_mds (mds_of mmap) \<noteq> []"
    and buf: "(top_of (present_mds (mds_of mmap)) div 4096 + 7) div 8 \<le> length buf"
  shows "\<exists>d' sz. PmmInitSystem (lock_table mon) cpu ra d intr (Some buf) (Some mmap) (Some x) = Some (STATUS_SUCCESS, (d', intr), Some sz) \<and>
    pmm_ok mon d' \<and> num_frames d' = top_of (present_mds (mds_of mmap)) div 4096 \<and>
    frames_used d' = {..< num_frames d'} - free_regions (mds_of mmap)"
proof -
  let ?mds = "mds_of mmap"
  obtain pr av where lim: "PmmDetermineMemoryLimits mmap (MemoryRegionList d) = Some (usable_size ?mds, pr, av, counted (MemoryRegionList d) ?mds)"
    "unat pr = top_of (present_mds ?mds)"
    using PmmDetermineMemoryLimits_run [OF m r] by blast
  define d1 where "d1 = d\<lparr>PhysicalMemorySize := usable_size ?mds, HighestPhysicalAddressPresent := pr,
    HighestPhysicalAddressAvailable := av, MemoryRegionList := counted (MemoryRegionList d) ?mds\<rparr>"
  let ?N = "unat pr div 4096"
  have mdok: "\<forall>md \<in> set ?mds. md_ok md" using m by (simp add: map_ok_def)
  have top: "unat pr < 2 ^ 44" unfolding lim(2) using mdok
    by (intro top_of_less) (auto simp: present_mds_def md_ok_def)
  obtain md where md: "md \<in> set (present_mds ?mds)" using some by (cases "present_mds ?mds") auto
  then have "md_ok md" using mdok by (simp add: present_mds_def)
  then have "4096 \<le> region_end md" by (auto simp: md_ok_def region_end_def unat_gt_0 [symmetric] simp del: unat_gt_0)
  then have pos: "4096 \<le> unat pr" using top_of_le [OF md] lim(2) by simp
  have nf: "unat (ucast (pr div PAGE_SIZE) :: u32) = ?N" using top by (intro index_dword) (simp add: page_index)
  have n0: "(ucast (pr div PAGE_SIZE) :: u32) \<noteq> 0" using nf pos by (auto simp: unat_eq_0 [symmetric])
  have nM: "pr div PAGE_SIZE \<le> 0xFFFFFFFF" using page_index [of pr] top by (simp add: word_le_nat_alt)
  obtain b0 where b0: "BitmapPreinit (Some (AllocationBitmap d1)) (ucast (pr div PAGE_SIZE)) = Some (b0, BufferSize b0)"
    "BitCount b0 = ucast (pr div PAGE_SIZE)" "unat (BufferSize b0) = (?N + 7) div 8"
    using BitmapPreinit_run [OF n0, of "AllocationBitmap d1"] nf by auto
  have "unat (BufferSize b0) \<le> length buf" using buf b0(3) lim(2) by simp
  then obtain b where b: "BitmapInitEx (Some b0) (Some buf) False = Some b" "bitmap_ok b" "BitCount b = BitCount b0"
    "bits b = replicate (unat (BitCount b0)) False"
    using BitmapInitEx_run [of b0 buf False] b0 n0 nf by auto
  define d2 where "d2 = d1\<lparr>AllocationBitmap := b\<rparr>"
  have ok2: "pmm_ok mon d2" using l b(2) by (simp add: pmm_ok_def d2_def d1_def)
  have f2: "frames_used d2 = {}" "num_frames d2 = ?N" using b(3,4) b0(2) nf by (simp_all add: frames_all_clear d2_def)
  have bn: "BitCount b \<noteq> 0" using b(3) b0(2) n0 by simp
  have z: "4096 dvd unat (0 :: u64)" "unat (0 :: u64) div 4096 < 2 ^ 32" by simp_all
  obtain d3 addr q where d3: "PmmReserveMemoryEx (lock_table mon) cpu ra d2 intr (BitCount b) 0 = Some ((d3, intr), addr)"
    "pmm_ok mon d3" "reserves d2 d3 (unat (0 :: u64) div 4096) (unat (BitCount b)) q"
    using PmmReserveMemoryEx_run [OF ok2 l(3) bn z, of ra intr] by blast
  have bc: "unat (BitCount b) = ?N" using b(3) b0(2) nf by simp
  have fr: "free_run d2 0 ?N" using f2 by (simp add: free_run_def)
  have "q = Some 0" using d3(3) fr bc by (auto simp: reserves_def split: option.splits)
  then have f3: "frames_used d3 = {..< ?N}" "num_frames d3 = ?N" using d3(3) f2 bc by (auto simp: reserves_def)
  have "4096 dvd unat pr" unfolding lim(2) using mdok by (intro top_of_aligned) (simp add: present_mds_def)
  then have "region_end md \<le> num_frames d3 * 4096" if "md \<in> set ?mds" "PmmIsMemoryUsable (EfiType md)" for md
    using top_of_le [of md "present_mds ?mds"] usable_present [OF that(2)] that(1) lim(2) f3(2) by (auto simp: present_mds_def)
  then obtain d4 where d4: "for_upto 0 (unat (MapCount mmap))
       (\<lambda>i s. do { md \<leftarrow> array_get (MapAddress mmap) i; release_step (lock_table mon) cpu ra md s }) (d3, intr) = Some (d4, intr)"
    "pmm_ok mon d4" "num_frames d4 = ?N" "frames_used d4 = {..< ?N} - free_regions ?mds"
    using release_loop_run [OF m d3(2) l(3), of ra intr] f3 by auto
  have pr0: "pr \<noteq> 0" using pos by auto
  have i: "PmmInitializeAllocationBitmap (lock_table mon) cpu ra (Some buf) pr mmap d1 intr = Some ((d4, intr), BufferSize b0)"
    using pr0 nM b0(1) b(1) d3(1) d4(1)
    by (simp add: PmmInitializeAllocationBitmap_def Let_def BitmapGetMaxElementCount_def d2_def [symmetric])
  have "MapCount mmap \<noteq> 0" using m by (simp add: map_ok_def)
  then have "PmmInitSystem (lock_table mon) cpu ra d intr (Some buf) (Some mmap) (Some x)
      = Some (STATUS_SUCCESS, (d4, intr), Some (ucast (AlignAddressUpper (ucast (BufferSize b0)) PAGE_SIZE)))"
    using lim(1) i by (simp add: PmmInitSystem_def Let_def d1_def [symmetric])
  then show ?thesis using d4 lim(2) by auto
qed

lemma frame_0_not_free: "0 \<notin> free_regions mds"
  by (auto simp: free_regions_def region_frames_def)

text \<open>A region of a type that the firmware or the vendor defines, \<open>0x70000000\<close> and above, makes the first
  pass write behind the table of regions.\<close>

lemma limits_unknown_type:
  "length regions = EfiMaxMemoryType \<Longrightarrow> EfiMaxMemoryType \<le> unat (EfiType md) \<Longrightarrow>
   limits_step md (sz, present, available, regions) = None"
  by (auto simp: limits_step_def Let_def)

text \<open>A small machine: four usable frames above the first megabyte, and one that is not usable.\<close>

definition sample_map :: hal_memory_map where
  "sample_map = \<lparr>MapCount = 2, MapAddress =
     [\<lparr>EfiType = 7, PhysicalStart = 0x100000, NumberOfPages = 4\<rparr>, \<lparr>EfiType = 2, PhysicalStart = 0x104000, NumberOfPages = 1\<rparr>]\<rparr>"

definition sample_pmm :: pmm_data where
  "sample_pmm = \<lparr>HighestPhysicalAddressAvailable = 0, HighestPhysicalAddressPresent = 0, PhysicalMemorySize = 0,
     MemoryRegionList = replicate 16 \<lparr>RegionType = 0, NumberOfEntries = 0\<rparr>, AllocationLock = zero_lock,
     AllocationBitmap = zero_bitmap\<rparr>"

lemma sample_map_facts:
  "map_ok sample_map" "present_mds (mds_of sample_map) \<noteq> []" "top_of (present_mds (mds_of sample_map)) = 0x105000"
  by (simp_all add: map_ok_def sample_map_def md_ok_def region_end_def present_mds_def top_of_def)

lemma sample_lock:
  "union_ok False (AllocationLock sample_pmm)" "lock_owner (as_spin (AllocationLock sample_pmm)) = None"
  "length (MemoryRegionList sample_pmm) = EfiMaxMemoryType"
  by (simp_all add: sample_pmm_def zero_lock_def union_ok_def lock_ok_def lock_owner_def zero_spinlock_def)

section \<open>Properties\<close>

text \<open>C22: whatever a client asks the memory manager for, in any order and from any minimal address, with
  releases of what it holds, no operation faults and the frames it holds are pairwise disjoint and do
  not contain frame 0, whose address stands for failure.\<close>

theorem pmm_clients_disjoint:
  assumes "pmm_inv mon cpu d"
  shows "\<exists>d' live. serve (pmm_reserve mon cpu ra intr mn) (pmm_release mon cpu ra intr) rs d [] = Some (d', live) \<and>
    pmm_inv mon cpu d' \<and>
    (\<forall>i < length live. \<forall>j < i. {unat (fst (live ! i)) ..< unat (fst (live ! i)) + unat (snd (live ! i))} \<inter>
       {unat (fst (live ! j)) ..< unat (fst (live ! j)) + unat (snd (live ! j))} = {}) \<and>
    (\<forall>p \<in> set live. {unat (fst p) ..< unat (fst p) + unat (snd p)} \<subseteq> frames_used d' - {0})"
proof -
  obtain d' live where s: "serve (pmm_reserve mon cpu ra intr mn) (pmm_release mon cpu ra intr) rs d [] = Some (d', live)"
    "pmm_inv mon cpu d'" "pm.live_ok d' live"
    using pm.serve_safe [OF assms pm.live_ok_Nil] by blast
  have "\<forall>i < length live. \<forall>j < i. pm.range_of (live ! i) \<inter> pm.range_of (live ! j) = {}"
    using pm.serve_disjoint [OF assms s(1)] by (metis inf_commute)
  then show ?thesis using s unfolding pm.live_ok_def pm.range_of_def by blast
qed

text \<open>C21: \<open>PmmInitSystem\<close> on a proper memory map leaves free exactly the frames of the usable regions
  that start above the first megabyte; everything else up to the highest address present is reserved,
  frame 0 too, so that the state is one in which clients are safe.\<close>

theorem pmm_init_exact:
  assumes "map_ok mmap" "union_ok mon (AllocationLock d)" "lock_owner (as_spin (AllocationLock d)) = None" "cpu \<noteq> 0"
    and "length (MemoryRegionList d) = EfiMaxMemoryType" "present_mds (mds_of mmap) \<noteq> []"
    and "(top_of (present_mds (mds_of mmap)) div 4096 + 7) div 8 \<le> length buf"
  shows "\<exists>d' sz. PmmInitSystem (lock_table mon) cpu ra d intr (Some buf) (Some mmap) (Some x) = Some (STATUS_SUCCESS, (d', intr), Some sz) \<and>
    num_frames d' = top_of (present_mds (mds_of mmap)) div 4096 \<and>
    frames_used d' = {..< num_frames d'} - free_regions (mds_of mmap) \<and> pmm_inv mon cpu d'"
proof -
  have "0 < num_frames d'" if "pmm_ok mon d'" for d'
    using that by (auto simp: pmm_ok_def bitmap_ok_def unat_gt_0 word_neq_0_conv)
  then show ?thesis using PmmInitSystem_run [OF assms, of ra intr x] assms(4) frame_0_not_free by (auto simp: pmm_inv_def)
qed

lemma pmm_init_exact_witness:
  "\<exists>d' sz. PmmInitSystem (lock_table False) 1 2 sample_pmm True (Some (replicate 64 0)) (Some sample_map) (Some 0)
      = Some (STATUS_SUCCESS, (d', True), Some sz) \<and>
    num_frames d' = top_of (present_mds (mds_of sample_map)) div 4096 \<and>
    frames_used d' = {..< num_frames d'} - free_regions (mds_of sample_map) \<and> pmm_inv False 1 d'"
  by (rule pmm_init_exact) (simp_all add: sample_map_facts sample_lock)

lemma pmm_clients_disjoint_witness:
  "\<exists>d d' live. serve (pmm_reserve False 1 2 True 0) (pmm_release False 1 2 True) [Acquire 2, Acquire 1, Acquire 2] d [] = Some (d', live) \<and>
    pmm_inv False 1 d'"
proof -
  have "(1 :: u64) \<noteq> 0" by simp
  moreover have "(top_of (present_mds (mds_of sample_map)) div 4096 + 7) div 8 \<le> length (replicate 64 (0 :: u8))"
    by (simp add: sample_map_facts)
  ultimately obtain d where d: "pmm_ok False d" "num_frames d = top_of (present_mds (mds_of sample_map)) div 4096"
      "frames_used d = {..< num_frames d} - free_regions (mds_of sample_map)"
    using PmmInitSystem_run [OF sample_map_facts(1) sample_lock(1,2) _ sample_lock(3) sample_map_facts(2),
        of 1 "replicate 64 0" 2 True 0] by blast
  have "pmm_inv False 1 d" using d by (simp add: pmm_inv_def frame_0_not_free sample_map_facts)
  then show ?thesis using pmm_clients_disjoint [of False 1 d 2 True 0 "[Acquire 2, Acquire 1, Acquire 2]"] by blast
qed

end
