(* ===== verification/CL_Crc32.thy ===== *)
theory CL_Crc32
  imports HAL_Prelude
begin

text \<open>
  \<open>CommonLib/src/crc32.c\<close>: the checksum of the firmware tables. The code looks up a byte at a
  time in a table of 256 words; \<open>crc_bits\<close> is the textbook definition, one bit at a time with the
  reflected polynomial. Each entry of the table is eight of these steps, so that the two agree, and
  the checksum detects every damage within 32 consecutive bits that start at a byte boundary.
\<close>

section \<open>The code\<close>

definition CrcLookupTable :: "u32 list" where
  "CrcLookupTable = [
    0x00000000, 0x77073096, 0xEE0E612C, 0x990951BA, 0x076DC419, 0x706AF48F, 0xE963A535, 0x9E6495A3,
    0x0EDB8832, 0x79DCB8A4, 0xE0D5E91E, 0x97D2D988, 0x09B64C2B, 0x7EB17CBD, 0xE7B82D07, 0x90BF1D91,
    0x1DB71064, 0x6AB020F2, 0xF3B97148, 0x84BE41DE, 0x1ADAD47D, 0x6DDDE4EB, 0xF4D4B551, 0x83D385C7,
    0x136C9856, 0x646BA8C0, 0xFD62F97A, 0x8A65C9EC, 0x14015C4F, 0x63066CD9, 0xFA0F3D63, 0x8D080DF5,
    0x3B6E20C8, 0x4C69105E, 0xD56041E4, 0xA2677172, 0x3C03E4D1, 0x4B04D447, 0xD20D85FD, 0xA50AB56B,
    0x35B5A8FA, 0x42B2986C, 0xDBBBC9D6, 0xACBCF940, 0x32D86CE3, 0x45DF5C75, 0xDCD60DCF, 0xABD13D59,
    0x26D930AC, 0x51DE003A, 0xC8D75180, 0xBFD06116, 0x21B4F4B5, 0x56B3C423, 0xCFBA9599, 0xB8BDA50F,
    0x2802B89E, 0x5F058808, 0xC60CD9B2, 0xB10BE924, 0x2F6F7C87, 0x58684C11, 0xC1611DAB, 0xB6662D3D,
    0x76DC4190, 0x01DB7106, 0x98D220BC, 0xEFD5102A, 0x71B18589, 0x06B6B51F, 0x9FBFE4A5, 0xE8B8D433,
    0x7807C9A2, 0x0F00F934, 0x9609A88E, 0xE10E9818, 0x7F6A0DBB, 0x086D3D2D, 0x91646C97, 0xE6635C01,
    0x6B6B51F4, 0x1C6C6162, 0x856530D8, 0xF262004E, 0x6C0695ED, 0x1B01A57B, 0x8208F4C1, 0xF50FC457,
    0x65B0D9C6, 0x12B7E950, 0x8BBEB8EA, 0xFCB9887C, 0x62DD1DDF, 0x15DA2D49, 0x8CD37CF3, 0xFBD44C65,
    0x4DB26158, 0x3AB551CE, 0xA3BC0074, 0xD4BB30E2, 0x4ADFA541, 0x3DD895D7, 0xA4D1C46D, 0xD3D6F4FB,
    0x4369E96A, 0x346ED9FC, 0xAD678846, 0xDA60B8D0, 0x44042D73, 0x33031DE5, 0xAA0A4C5F, 0xDD0D7CC9,
    0x5005713C, 0x270241AA, 0xBE0B1010, 0xC90C2086, 0x5768B525, 0x206F85B3, 0xB966D409, 0xCE61E49F,
    0x5EDEF90E, 0x29D9C998, 0xB0D09822, 0xC7D7A8B4, 0x59B33D17, 0x2EB40D81, 0xB7BD5C3B, 0xC0BA6CAD,
    0xEDB88320, 0x9ABFB3B6, 0x03B6E20C, 0x74B1D29A, 0xEAD54739, 0x9DD277AF, 0x04DB2615, 0x73DC1683,
    0xE3630B12, 0x94643B84, 0x0D6D6A3E, 0x7A6A5AA8, 0xE40ECF0B, 0x9309FF9D, 0x0A00AE27, 0x7D079EB1,
    0xF00F9344, 0x8708A3D2, 0x1E01F268, 0x6906C2FE, 0xF762575D, 0x806567CB, 0x196C3671, 0x6E6B06E7,
    0xFED41B76, 0x89D32BE0, 0x10DA7A5A, 0x67DD4ACC, 0xF9B9DF6F, 0x8EBEEFF9, 0x17B7BE43, 0x60B08ED5,
    0xD6D6A3E8, 0xA1D1937E, 0x38D8C2C4, 0x4FDFF252, 0xD1BB67F1, 0xA6BC5767, 0x3FB506DD, 0x48B2364B,
    0xD80D2BDA, 0xAF0A1B4C, 0x36034AF6, 0x41047A60, 0xDF60EFC3, 0xA867DF55, 0x316E8EEF, 0x4669BE79,
    0xCB61B38C, 0xBC66831A, 0x256FD2A0, 0x5268E236, 0xCC0C7795, 0xBB0B4703, 0x220216B9, 0x5505262F,
    0xC5BA3BBE, 0xB2BD0B28, 0x2BB45A92, 0x5CB36A04, 0xC2D7FFA7, 0xB5D0CF31, 0x2CD99E8B, 0x5BDEAE1D,
    0x9B64C2B0, 0xEC63F226, 0x756AA39C, 0x026D930A, 0x9C0906A9, 0xEB0E363F, 0x72076785, 0x05005713,
    0x95BF4A82, 0xE2B87A14, 0x7BB12BAE, 0x0CB61B38, 0x92D28E9B, 0xE5D5BE0D, 0x7CDCEFB7, 0x0BDBDF21,
    0x86D3D2D4, 0xF1D4E242, 0x68DDB3F8, 0x1FDA836E, 0x81BE16CD, 0xF6B9265B, 0x6FB077E1, 0x18B74777,
    0x88085AE6, 0xFF0F6A70, 0x66063BCA, 0x11010B5C, 0x8F659EFF, 0xF862AE69, 0x616BFFD3, 0x166CCF45,
    0xA00AE278, 0xD70DD2EE, 0x4E048354, 0x3903B3C2, 0xA7672661, 0xD06016F7, 0x4969474D, 0x3E6E77DB,
    0xAED16A4A, 0xD9D65ADC, 0x40DF0B66, 0x37D83BF0, 0xA9BCAE53, 0xDEBB9EC5, 0x47B2CF7F, 0x30B5FFE9,
    0xBDBDF21C, 0xCABAC28A, 0x53B39330, 0x24B4A3A6, 0xBAD03605, 0xCDD70693, 0x54DE5729, 0x23D967BF,
    0xB3667A2E, 0xC4614AB8, 0x5D681B02, 0x2A6F2B94, 0xB40BBE37, 0xC30C8EA1, 0x5A05DF1B, 0x2D02EF8D]"

text \<open>The loop over the data; an access behind the array is a fault.\<close>

definition crc_loop :: "u8 list \<Rightarrow> nat \<Rightarrow> u32 \<Rightarrow> u32 option" where
  "crc_loop Data n Crc = for_upto 0 n (\<lambda>i crc. do {
     b \<leftarrow> array_get Data i;
     t \<leftarrow> array_get CrcLookupTable (unat ((ucast crc :: u8) XOR b));
     Some (drop_bit 8 crc XOR t)
   }) Crc"

definition ComputeCrc32 :: "u8 list option \<Rightarrow> u32 \<Rightarrow> u32 option" where
  "ComputeCrc32 Data Length =
     (if Length = 0 then Some 0
      else case Data of
        None \<Rightarrow> Some 0
      | Some d \<Rightarrow> do {
          crc \<leftarrow> crc_loop d (unat Length) 0xFFFFFFFF;
          Some (crc XOR 0xFFFFFFFF)
        })"

section \<open>The checksum bit by bit\<close>

definition crc_bit :: "u32 \<Rightarrow> u32" where
  "crc_bit s = (if bit s 0 then drop_bit 1 s XOR 0xEDB88320 else drop_bit 1 s)"

definition crc_byte :: "u32 \<Rightarrow> u32" where
  "crc_byte s = crc_bit (crc_bit (crc_bit (crc_bit (crc_bit (crc_bit (crc_bit (crc_bit s)))))))"

definition crc_bits :: "u8 list \<Rightarrow> u32 \<Rightarrow> u32" where
  "crc_bits = fold (\<lambda>b s. crc_byte (s XOR ucast b))"

lemma crc_bit_numeral:
  "crc_bit (numeral (Num.Bit0 n)) = drop_bit 1 (numeral (Num.Bit0 n))"
  "crc_bit (numeral (Num.Bit1 n)) = drop_bit 1 (numeral (Num.Bit1 n)) XOR 0xEDB88320"
  "crc_bit 0 = 0" "crc_bit 1 = 0xEDB88320"
  by (simp_all add: crc_bit_def bit_0)

lemma table_length [simp]: "length CrcLookupTable = 256"
  by (simp add: CrcLookupTable_def)

lemma byte_bit: "bit (b :: u8) n \<Longrightarrow> n < 8"
  using bit_imp_le_length [of b n] by simp

lemma xor_cancel:
  "x XOR k = y XOR k \<longleftrightarrow> x = (y :: 'a::len word)" "k XOR x = k XOR y \<longleftrightarrow> x = y"
proof -
  have "(z XOR k) XOR k = z" for z :: "'a word" by (simp add: xor.assoc)
  then show "x XOR k = y XOR k \<longleftrightarrow> x = y" by metis
  then show "k XOR x = k XOR y \<longleftrightarrow> x = y" by (simp add: xor.commute)
qed

text \<open>The steps are linear and injective.\<close>

lemma drop_bit_xor_word: "drop_bit n (x XOR y) = drop_bit n x XOR drop_bit n (y :: u32)"
  by (rule bit_word_eqI) (simp add: bit_simps)

lemma xor_both: "(x XOR k) XOR (y XOR k) = x XOR (y :: u32)"
  by (rule bit_word_eqI) (auto simp: bit_xor_iff)

lemma crc_bit_xor: "crc_bit (x XOR y) = crc_bit x XOR crc_bit y"
proof -
  let ?k = "0xEDB88320 :: u32" and ?a = "drop_bit 1 x" and ?b = "drop_bit 1 y"
  have k: "(?a XOR ?k) XOR (?b XOR ?k) = ?a XOR ?b"
    by (rule xor_both)
  show ?thesis
  proof (cases "bit x 0"; cases "bit y 0")
    assume "bit x 0" "bit y 0"
    then show ?thesis using k by (simp add: crc_bit_def bit_xor_iff drop_bit_xor_word)
  qed (simp_all add: crc_bit_def bit_xor_iff drop_bit_xor_word xor.assoc xor.commute xor.left_commute)
qed

lemma crc_byte_xor: "crc_byte (x XOR y) = crc_byte x XOR crc_byte y"
  by (simp add: crc_byte_def crc_bit_xor)

text \<open>So the table doubles with every bit of the index.\<close>

lemma of_nat_double:
  assumes "i < 2 ^ k" "k < 32"
  shows "(of_nat (2 ^ k + i) :: u32) = of_nat i XOR 2 ^ k"
proof -
  have nb: "\<not> bit (of_nat i :: u32) n" if "k \<le> n" for n
  proof -
    have "i < 2 ^ n" using assms(1) that by (meson less_le_trans one_le_numeral power_increasing)
    then have "\<not> bit i n" by (simp add: bit_iff_odd)
    then show ?thesis by (simp add: bit_simps)
  qed
  have "\<not> bit (of_nat i :: u32) n \<or> \<not> bit (2 ^ k :: u32) n" for n
    using nb [of n] by (auto simp: bit_exp_iff)
  then have "(of_nat i :: u32) + 2 ^ k = of_nat i OR 2 ^ k" by (rule disjunctive_add)
  also have "\<dots> = of_nat i XOR 2 ^ k"
    by (rule bit_word_eqI) (use nb in \<open>auto simp: bit_or_iff bit_xor_iff bit_exp_iff\<close>)
  finally show ?thesis by (simp add: add.commute)
qed

definition crc_table :: "nat \<Rightarrow> u32 list" where
  "crc_table n = map (\<lambda>i. crc_byte (of_nat i)) [0 ..< n]"

lemma upt_shift: "[m ..< m + n] = map (\<lambda>i. m + i) [0 ..< n]"
  by (induction n) simp_all

lemma crc_table_double:
  assumes "k < 32"
  shows "crc_table (2 * 2 ^ k) = crc_table (2 ^ k) @ map (\<lambda>x. x XOR crc_byte (2 ^ k)) (crc_table (2 ^ k))"
proof -
  have "crc_byte (of_nat (2 ^ k + i)) = crc_byte (of_nat i) XOR crc_byte (2 ^ k)" if "i < 2 ^ k" for i
    using of_nat_double [OF that assms] crc_byte_xor by simp
  then have hi: "map (\<lambda>i. crc_byte (of_nat (2 ^ k + i))) [0 ..< 2 ^ k] =
      map (\<lambda>x. x XOR crc_byte (2 ^ k)) (crc_table (2 ^ k))"
    by (simp add: crc_table_def)
  have "2 * 2 ^ k = 2 ^ k + (2 ^ k :: nat)" by simp
  then have "[0 ..< 2 * 2 ^ k] = [0 ..< 2 ^ k] @ [2 ^ k ..< 2 ^ k + 2 ^ k :: nat]"
    by (simp only: upt_add_eq_append [OF le0])
  moreover have "[2 ^ k ..< 2 ^ k + 2 ^ k] = map (\<lambda>i. 2 ^ k + i) [0 ..< 2 ^ k :: nat]"
    by (rule upt_shift)
  ultimately have "crc_table (2 * 2 ^ k) = map (\<lambda>i. crc_byte (of_nat i)) ([0 ..< 2 ^ k] @ map (\<lambda>i. 2 ^ k + i) [0 ..< 2 ^ k])"
    by (simp only: crc_table_def)
  also have "\<dots> = crc_table (2 ^ k) @ map (\<lambda>i. crc_byte (of_nat (2 ^ k + i))) [0 ..< 2 ^ k]"
    by (simp only: crc_table_def map_append map_map comp_def)
  finally show ?thesis by (simp only: hi)
qed

lemmas crc_table_doubles = crc_table_double [of 0] crc_table_double [of 1] crc_table_double [of 2]
  crc_table_double [of 3] crc_table_double [of 4] crc_table_double [of 5] crc_table_double [of 6]
  crc_table_double [of 7]

lemma table_entries: "crc_table 256 = CrcLookupTable"
proof -
  have "crc_table 1 = [0]" by (simp add: crc_table_def crc_byte_def crc_bit_numeral)
  then show ?thesis
    using crc_table_doubles
    by (simp add: CrcLookupTable_def crc_byte_def crc_bit_numeral drop_bit_Suc)
qed

lemma table_nth: "i < 256 \<Longrightarrow> CrcLookupTable ! i = crc_byte (of_nat i)"
  unfolding table_entries [symmetric] crc_table_def by simp

lemma crc_bit_even: "\<not> bit s 0 \<Longrightarrow> crc_bit s = drop_bit 1 s"
  by (simp add: crc_bit_def)

lemma crc_byte_low_zero:
  assumes "take_bit 8 s = 0"
  shows "crc_byte s = drop_bit 8 s"
proof -
  have "\<not> bit s i" if "i < 8" for i
  proof -
    have "bit (take_bit 8 s) i = bit s i" using that by (simp add: bit_take_bit_iff)
    then show ?thesis using assms by simp
  qed
  then show ?thesis by (simp add: crc_byte_def crc_bit_even bit_drop_bit_eq numeral_eq_Suc)
qed

lemma crc_bit_zero:
  assumes "crc_bit z = 0"
  shows "z = 0"
proof (cases "bit z 0")
  case True
  then have "bit (drop_bit 1 z XOR 0xEDB88320) 31 = False" using assms by (simp add: crc_bit_def)
  moreover have "\<not> bit z 32" by (rule impossible_bit) simp
  ultimately show ?thesis by (simp add: bit_xor_iff bit_drop_bit_eq)
next
  case False
  then have "drop_bit 1 z = 0" using assms by (simp add: crc_bit_def)
  then have "\<not> bit (drop_bit 1 z) i" for i by simp
  then have "\<not> bit z (Suc i)" for i by (simp add: bit_drop_bit_eq)
  then have "\<not> bit z i" for i using False by (cases i) simp_all
  then show ?thesis by (intro bit_eqI) simp
qed

lemma crc_byte_zero:
  assumes "crc_byte z = 0"
  shows "z = 0"
  by (rule crc_bit_zero [OF crc_bit_zero [OF crc_bit_zero [OF crc_bit_zero [OF crc_bit_zero [OF crc_bit_zero [OF crc_bit_zero [OF crc_bit_zero [OF assms [unfolded crc_byte_def]]]]]]]]])

lemma crc_byte_inj: "crc_byte x = crc_byte y \<longleftrightarrow> x = y"
proof
  assume "crc_byte x = crc_byte y"
  then have "crc_byte (x XOR y) = 0" by (simp add: crc_byte_xor)
  then have "x XOR y = y XOR y" using crc_byte_zero by simp
  then show "x = y" by (simp only: xor_cancel)
qed simp

text \<open>One step of the code is one step of the textbook.\<close>

lemma split_low: "x = take_bit 8 x XOR push_bit 8 (drop_bit 8 (x :: u32))"
  by (rule bit_word_eqI) (auto simp: bit_simps)

lemma crc_step:
  "drop_bit 8 crc XOR CrcLookupTable ! unat ((ucast crc :: u8) XOR b) = crc_byte (crc XOR ucast b)"
proof -
  let ?x = "crc XOR ucast b"
  let ?i = "(ucast crc :: u8) XOR b"
  have i: "unat ?i < 256" using unsigned_less [of ?i] by simp
  have "(of_nat (unat ?i) :: u32) = ucast ?i" by simp
  also have "\<dots> = take_bit 8 ?x" by (rule bit_word_eqI) (auto simp: bit_simps dest: byte_bit)
  finally have t: "CrcLookupTable ! unat ?i = crc_byte (take_bit 8 ?x)" using table_nth [OF i] by simp
  have "drop_bit 8 ?x = drop_bit 8 crc"
    by (rule bit_word_eqI) (auto simp: bit_simps dest: byte_bit)
  moreover have "crc_byte (push_bit 8 (drop_bit 8 ?x)) = drop_bit 8 (push_bit 8 (drop_bit 8 ?x))"
    by (rule crc_byte_low_zero) (simp add: take_bit_push_bit)
  moreover have "drop_bit 8 (push_bit 8 (drop_bit 8 ?x)) = drop_bit 8 ?x"
    by (rule bit_word_eqI) (auto simp: bit_simps dest: bit_imp_le_length)
  moreover have "crc_byte ?x = crc_byte (take_bit 8 ?x) XOR crc_byte (push_bit 8 (drop_bit 8 ?x))"
    using crc_byte_xor split_low [of ?x] by metis
  ultimately show ?thesis using t by (simp add: xor.commute)
qed

lemma crc_loop_run:
  "for_upto i n (\<lambda>i crc. do {
     b \<leftarrow> array_get d i;
     t \<leftarrow> array_get CrcLookupTable (unat ((ucast crc :: u8) XOR b));
     Some (drop_bit 8 crc XOR t)
   }) s = (if i + n \<le> length d \<or> n = 0 then Some (crc_bits (take n (drop i d)) s) else None)"
proof (induction n arbitrary: i s)
  case (Suc n)
  have lt: "unat ((ucast s :: u8) XOR d ! i) < 256" using unsigned_less [of "(ucast s :: u8) XOR d ! i"] by simp
  show ?case
  proof (cases "i < length d")
    case True
    then have "take (Suc n) (drop i d) = d ! i # take n (drop (Suc i) d)"
      by (simp add: Cons_nth_drop_Suc [symmetric])
    then show ?thesis using True lt by (simp add: Suc.IH crc_step crc_bits_def)
  qed simp
qed (simp add: crc_bits_def)

lemma ComputeCrc32_Some:
  "ComputeCrc32 (Some d) n =
     (if unat n \<le> length d then Some (crc_bits (take (unat n) d) 0xFFFFFFFF XOR 0xFFFFFFFF) else None)"
proof -
  have "unat n = 0 \<longleftrightarrow> n = 0" by (simp add: unat_eq_0)
  then show ?thesis by (simp add: ComputeCrc32_def crc_loop_def crc_loop_run crc_bits_def)
qed

text \<open>C17: the checksum computed with the table is the checksum computed bit by bit with the polynomial
  0xEDB88320; the code faults exactly when the data is shorter than the length it is given.\<close>

theorem crc32_is_bitwise:
  "ComputeCrc32 Data Length = (case Data of None \<Rightarrow> Some 0 | Some d \<Rightarrow>
     if unat Length \<le> length d then Some (crc_bits (take (unat Length) d) 0xFFFFFFFF XOR 0xFFFFFFFF) else None)"
  by (cases Data) (simp_all add: ComputeCrc32_Some, simp add: ComputeCrc32_def)

text \<open>The check value of the algorithm: the checksum of the text \<open>123456789\<close>.\<close>

lemma crc32_check_value:
  "ComputeCrc32 (Some [0x31, 0x32, 0x33, 0x34, 0x35, 0x36, 0x37, 0x38, 0x39]) 9 = Some 0xCBF43926"
  by (simp add: ComputeCrc32_def crc_loop_def crc_loop_run crc_bits_def crc_byte_def crc_bit_numeral drop_bit_Suc)

section \<open>Detection of errors\<close>

primrec bytes_word :: "u8 list \<Rightarrow> u32" where
  "bytes_word [] = 0"
| "bytes_word (b # bs) = ucast b XOR push_bit 8 (bytes_word bs)"

lemma bytes_word_bits: "bit (bytes_word bs) k \<Longrightarrow> k < 8 * length bs"
proof (induction bs arbitrary: k)
  case (Cons b bs)
  then consider "bit (ucast b :: u32) k" | "8 \<le> k" "bit (bytes_word bs) (k - 8)"
    by (auto simp: bit_xor_iff bit_push_bit_iff)
  then show ?case
  proof cases
    case 1
    then have "bit b k" by (simp add: bit_ucast_iff)
    then have "k < 8" using bit_imp_le_length [of b k] by simp
    then show ?thesis by simp
  next
    case 2
    then show ?thesis using Cons.IH [of "k - 8"] by simp
  qed
qed simp

lemma bytes_word_unshift:
  assumes "length bs \<le> 3"
  shows "drop_bit 8 (push_bit 8 (bytes_word bs)) = bytes_word bs"
proof (rule bit_word_eqI)
  fix k assume "k < LENGTH(32)"
  have "k + 8 < 32" if "bit (bytes_word bs) k" using bytes_word_bits [OF that] assms by simp
  then show "bit (drop_bit 8 (push_bit 8 (bytes_word bs))) k = bit (bytes_word bs) k"
    by (auto simp: bit_drop_bit_eq bit_push_bit_iff add.commute)
qed

lemma crc_byte_shift:
  assumes "length bs \<le> 3"
  shows "crc_byte (s XOR push_bit 8 (bytes_word bs)) = crc_byte s XOR bytes_word bs"
proof -
  have "crc_byte (push_bit 8 (bytes_word bs)) = drop_bit 8 (push_bit 8 (bytes_word bs))"
    by (rule crc_byte_low_zero) (simp add: take_bit_push_bit)
  then show ?thesis by (simp add: crc_byte_xor bytes_word_unshift [OF assms])
qed

lemma crc_bits_word: "length bs \<le> 4 \<Longrightarrow> crc_bits bs s = (crc_byte ^^ length bs) (s XOR bytes_word bs)"
proof (induction bs arbitrary: s)
  case (Cons b bs)
  then have "crc_bits (b # bs) s = (crc_byte ^^ length bs) (crc_byte (s XOR ucast b) XOR bytes_word bs)"
    by (simp add: crc_bits_def)
  also have "\<dots> = (crc_byte ^^ length bs) (crc_byte ((s XOR ucast b) XOR push_bit 8 (bytes_word bs)))"
    using Cons.prems by (simp add: crc_byte_shift)
  also have "\<dots> = (crc_byte ^^ length (b # bs)) (s XOR bytes_word (b # bs))"
    by (simp add: xor.assoc funpow_swap1)
  finally show ?case .
qed (simp add: crc_bits_def)

lemma bytes_word_inj:
  "length bs \<le> 4 \<Longrightarrow> length cs = length bs \<Longrightarrow> bytes_word bs = bytes_word cs \<Longrightarrow> bs = cs"
proof (induction bs arbitrary: cs)
  case (Cons b bs)
  then obtain c cs' where cs: "cs = c # cs'" "length cs' = length bs" by (cases cs) auto
  have eq: "(ucast b :: u32) XOR push_bit 8 (bytes_word bs) = ucast c XOR push_bit 8 (bytes_word cs')"
    using Cons.prems(3) cs(1) by simp
  have low: "(ucast ((ucast x :: u32) XOR push_bit 8 y) :: u8) = x" for x :: u8 and y
    by (rule bit_word_eqI) (auto simp: bit_simps)
  have "b = c" using low [of b "bytes_word bs"] low [of c "bytes_word cs'"] eq by simp
  moreover from this eq have "push_bit 8 (bytes_word bs) = push_bit 8 (bytes_word cs')" by (simp only: xor_cancel)
  then have "drop_bit 8 (push_bit 8 (bytes_word bs)) = drop_bit 8 (push_bit 8 (bytes_word cs'))" by (rule arg_cong)
  moreover have "length bs \<le> 3" "length cs' \<le> 3" using Cons.prems(1) cs(2) by simp_all
  ultimately have "b = c" "bytes_word bs = bytes_word cs'" by (simp_all only: bytes_word_unshift)
  then show ?case using Cons.IH [of cs'] Cons.prems(1) cs by simp
qed simp

lemma crc_funpow_inj: "(crc_byte ^^ n) x = (crc_byte ^^ n) y \<longleftrightarrow> x = y"
  by (induction n) (simp_all add: crc_byte_inj)

lemma crc_bits_inj: "crc_bits bs s = crc_bits bs t \<longleftrightarrow> s = t"
  by (induction bs arbitrary: s t) (simp_all add: crc_bits_def crc_byte_inj xor_cancel)

text \<open>C18: data that differs from other data of the same length only within four consecutive bytes has
  another checksum; in particular every changed bit and every changed byte is detected.\<close>

theorem crc32_detects_bursts:
  assumes "length bs = length cs" "length bs \<le> 4" "bs \<noteq> cs" "length (p @ bs @ q) < 2 ^ 32"
  shows "\<exists>x y. ComputeCrc32 (Some (p @ bs @ q)) (of_nat (length (p @ bs @ q))) = Some x \<and>
    ComputeCrc32 (Some (p @ cs @ q)) (of_nat (length (p @ bs @ q))) = Some y \<and> x \<noteq> y"
proof -
  let ?s = "crc_bits p 0xFFFFFFFF"
  define n where "n = length (p @ bs @ q)"
  have n: "unat (of_nat n :: u32) = n" by (rule unat_of_nat_small) (use assms(4) in \<open>simp add: n_def\<close>)
  have run: "ComputeCrc32 (Some (p @ ds @ q)) (of_nat n) = Some (crc_bits q (crc_bits ds ?s) XOR 0xFFFFFFFF)"
    if "length ds = length bs" for ds
  proof -
    have "n = length (p @ ds @ q)" using that by (simp add: n_def)
    then show ?thesis using n by (simp only: ComputeCrc32_Some take_all order_refl if_True) (simp add: crc_bits_def)
  qed
  have "crc_bits bs ?s \<noteq> crc_bits cs ?s"
  proof
    assume "crc_bits bs ?s = crc_bits cs ?s"
    then have "(crc_byte ^^ length bs) (?s XOR bytes_word bs) = (crc_byte ^^ length bs) (?s XOR bytes_word cs)"
      using crc_bits_word [of bs ?s] crc_bits_word [of cs ?s] assms(1,2) by simp
    then have "bytes_word bs = bytes_word cs" by (simp only: crc_funpow_inj xor_cancel)
    then have "bs = cs" by (rule bytes_word_inj [OF assms(2) assms(1) [symmetric]])
    then show False using assms(3) by (rule notE [rotated])
  qed
  then have "crc_bits q (crc_bits bs ?s) XOR 0xFFFFFFFF \<noteq> crc_bits q (crc_bits cs ?s) XOR 0xFFFFFFFF"
    by (simp only: xor_cancel crc_bits_inj not_False_eq_True)
  then show ?thesis unfolding n_def [symmetric]
    by (intro exI conjI) (rule run [OF refl], rule run [OF assms(1) [symmetric]])
qed

lemma crc32_detects_bursts_witness:
  "\<exists>x y. ComputeCrc32 (Some ([1, 2] @ [3] @ [4])) (of_nat (length ([1, 2 :: u8] @ [3] @ [4]))) = Some x \<and>
    ComputeCrc32 (Some ([1, 2] @ [7] @ [4])) (of_nat (length ([1, 2 :: u8] @ [3] @ [4]))) = Some y \<and> x \<noteq> y"
  by (rule crc32_detects_bursts) simp_all

end
