(* ===== verification/CL_Stack.thy ===== *)
theory CL_Stack
  imports HAL_Interfaces
begin

text \<open>
  \<open>CommonLib/src/stack_dynamic.c\<close> and \<open>stack_interface.c\<close> over the singly linked list of
  \<open>slist.h\<close>. The items are structures of the client whose only member the stack knows is
  \<open>Next\<close>, at offset 0; the store maps the address of an item to it. \<open>StackCreate\<close> looks the
  type of the stack up in a table of functions; the row of \<open>StackTypeInterlocked\<close> holds NULL
  pointers, and calling one is a fault. The lemmas show that the operations of the table implement a
  stack of items, that \<open>Peek\<close> reads position \<open>Index\<close>, and that \<open>Clear\<close> ends and hands every
  item to the free function once, after the item has been unlinked.
\<close>

section \<open>Singly linked list\<close>

type_synonym slist_mem = "u64 \<Rightarrow> u64 option"

text \<open>The list head is a variable: its \<open>Next\<close> pointer goes in and out.\<close>

definition ClPopEntryList :: "slist_mem \<Rightarrow> u64 \<Rightarrow> (u64 \<times> u64) option" where
  "ClPopEntryList m ListHead =
     (let FirstEntry = ListHead in
      if FirstEntry \<noteq> 0 then do { n \<leftarrow> m FirstEntry; Some (n, FirstEntry) }
      else Some (ListHead, FirstEntry))"

definition ClPushEntryList :: "slist_mem \<Rightarrow> u64 \<Rightarrow> u64 \<Rightarrow> (slist_mem \<times> u64) option" where
  "ClPushEntryList m ListHead Entry =
     (case m Entry of None \<Rightarrow> None | Some _ \<Rightarrow> Some (m(Entry \<mapsto> ListHead), Entry))"

section \<open>The dynamic stack\<close>

record stack =
  TopOfStack :: u64
  NumberOfElements :: u32

text \<open>A function that frees an item may change the store and the state \<open>'e\<close> of its owner.\<close>

type_synonym 'e free_function = "u64 \<Rightarrow> u64 \<Rightarrow> slist_mem \<times> 'e \<Rightarrow> (slist_mem \<times> 'e) option"

definition StackDynamicPush :: "slist_mem \<Rightarrow> stack \<Rightarrow> u64 \<Rightarrow> (slist_mem \<times> stack \<times> bool) option" where
  "StackDynamicPush m Stack Item = do {
     ASSERT (Item \<noteq> 0);
     r \<leftarrow> ClPushEntryList m (TopOfStack Stack) Item;
     ASSERT (NumberOfElements Stack < MAX_DWORD);
     Some (fst r, Stack\<lparr>TopOfStack := snd r, NumberOfElements := NumberOfElements Stack + 1\<rparr>, True)
   }"

definition StackDynamicPop :: "slist_mem \<Rightarrow> stack \<Rightarrow> (stack \<times> u64) option" where
  "StackDynamicPop m Stack = do {
     r \<leftarrow> ClPopEntryList m (TopOfStack Stack);
     let pStackEntry = snd r;
     if pStackEntry = 0 then Some (Stack, 0)
     else do {
       ASSERT (0 < NumberOfElements Stack);
       Some (Stack\<lparr>TopOfStack := fst r, NumberOfElements := NumberOfElements Stack - 1\<rparr>, pStackEntry)
     }
   }"

text \<open>The loop of Peek, with \<open>Index - currentIndex\<close> rounds to go.\<close>

primrec peek_loop :: "slist_mem \<Rightarrow> u64 \<Rightarrow> nat \<Rightarrow> u64 option" where
  "peek_loop m pItem 0 = Some pItem"
| "peek_loop m pItem (Suc n) = (if pItem \<noteq> 0 then do { q \<leftarrow> m pItem; peek_loop m q n } else Some pItem)"

definition StackDynamicPeek :: "slist_mem \<Rightarrow> stack \<Rightarrow> u32 \<Rightarrow> u64 option" where
  "StackDynamicPeek m Stack Index =
     (if NumberOfElements Stack \<le> Index then Some 0
      else do {
        pItem \<leftarrow> peek_loop m (TopOfStack Stack) (unat Index);
        ASSERT (pItem \<noteq> 0);
        Some pItem
      })"

definition StackDynamicIsEmpty :: "stack \<Rightarrow> bool" where
  "StackDynamicIsEmpty Stack \<longleftrightarrow> TopOfStack Stack = 0"

definition StackDynamicSize :: "stack \<Rightarrow> u32" where
  "StackDynamicSize Stack = NumberOfElements Stack"

text \<open>The loop of Clear goes on while the stack is not empty, whatever the free function does.\<close>

partial_function (option) StackDynamicClear ::
  "slist_mem \<times> 'e \<Rightarrow> stack \<Rightarrow> 'e free_function option \<Rightarrow> u64 \<Rightarrow> ((slist_mem \<times> 'e) \<times> stack) option" where
  "StackDynamicClear s Stack FreeFunction FreeContext =
     (if \<not> StackDynamicIsEmpty Stack then do {
        r \<leftarrow> StackDynamicPop (fst s) Stack;
        ASSERT (snd r \<noteq> 0);
        s' \<leftarrow> (case FreeFunction of None \<Rightarrow> Some s | Some f \<Rightarrow> f (snd r) FreeContext s);
        StackDynamicClear s' (fst r) FreeFunction FreeContext
      }
      else Some (s, Stack))"

definition StackDynamicGetRequiredSize :: "u32 \<Rightarrow> u32" where
  "StackDynamicGetRequiredSize MaxElements = 16"

definition StackDynamicInit :: "STATUS \<times> stack" where
  "StackDynamicInit = (STATUS_SUCCESS, \<lparr>TopOfStack = 0, NumberOfElements = 0\<rparr>)"

section \<open>The table of functions\<close>

record 'e stack_interface_funcs =
  Push :: "slist_mem \<Rightarrow> stack \<Rightarrow> u64 \<Rightarrow> (slist_mem \<times> stack \<times> bool) option"
  Pop :: "slist_mem \<Rightarrow> stack \<Rightarrow> (stack \<times> u64) option"
  Peek :: "slist_mem \<Rightarrow> stack \<Rightarrow> u32 \<Rightarrow> u64 option"
  Clear :: "slist_mem \<times> 'e \<Rightarrow> stack \<Rightarrow> 'e free_function option \<Rightarrow> u64 \<Rightarrow> ((slist_mem \<times> 'e) \<times> stack) option"
  IsEmpty :: "stack \<Rightarrow> bool"
  Size :: "stack \<Rightarrow> u32"

record stack_private_funcs =
  GetRequiredSize :: "u32 \<Rightarrow> u32"
  StackInit :: "STATUS \<times> stack"

abbreviation (input) StackTypeDynamic :: u32 where "StackTypeDynamic \<equiv> 0"
abbreviation (input) StackTypeInterlocked :: u32 where "StackTypeInterlocked \<equiv> 1"
abbreviation (input) StackTypeReserved :: u32 where "StackTypeReserved \<equiv> 2"

text \<open>\<open>None\<close> is the row of NULL pointers.\<close>

definition STACK_FUNCS :: "('e stack_interface_funcs \<times> stack_private_funcs) option list" where
  "STACK_FUNCS =
     [Some (\<lparr>Push = StackDynamicPush, Pop = StackDynamicPop, Peek = StackDynamicPeek, Clear = StackDynamicClear,
             IsEmpty = StackDynamicIsEmpty, Size = StackDynamicSize\<rparr>,
            \<lparr>GetRequiredSize = StackDynamicGetRequiredSize, StackInit = StackDynamicInit\<rparr>),
      None]"

definition StackGetRequiredSize :: "u32 \<Rightarrow> u32 \<Rightarrow> u32 option" where
  "StackGetRequiredSize MaxElements Type = do {
     ASSERT (0 < MaxElements);
     ASSERT (Type < StackTypeReserved);
     row \<leftarrow> array_get (STACK_FUNCS :: (unit stack_interface_funcs \<times> stack_private_funcs) option list) (unat Type);
     fs \<leftarrow> row;
     Some (GetRequiredSize (snd fs) MaxElements)
   }"

text \<open>Whether the pointers to the interface and to the stack are given comes in, what is stored in
  them goes out.\<close>

definition StackCreate ::
  "bool \<Rightarrow> u32 \<Rightarrow> bool \<Rightarrow> (STATUS \<times> ('e stack_interface_funcs \<times> stack) option) option" where
  "StackCreate StackInterface Type Stack =
     (if \<not> StackInterface then Some (STATUS_INVALID_PARAMETER1, None)
      else if StackTypeReserved \<le> Type then Some (STATUS_INVALID_PARAMETER2, None)
      else if \<not> Stack then Some (STATUS_INVALID_PARAMETER3, None)
      else do {
        row \<leftarrow> array_get STACK_FUNCS (unat Type);
        fs \<leftarrow> row;
        if \<not> SUCCEEDED (fst (StackInit (snd fs))) then Some (fst (StackInit (snd fs)), None)
        else Some (STATUS_SUCCESS, Some (fst fs, snd (StackInit (snd fs))))
      })"

section \<open>The items on the stack\<close>

primrec slist :: "slist_mem \<Rightarrow> u64 \<Rightarrow> u64 list \<Rightarrow> bool" where
  "slist m p [] \<longleftrightarrow> p = 0"
| "slist m p (x # xs) \<longleftrightarrow> p = x \<and> x \<noteq> 0 \<and> x \<notin> set xs \<and> (\<exists>q. m x = Some q \<and> slist m q xs)"

lemma slist_frame: "slist m p xs \<Longrightarrow> (\<And>x. x \<in> set xs \<Longrightarrow> m' x = m x) \<Longrightarrow> slist m' p xs"
  by (induction xs arbitrary: p) auto

lemma slist_upd [simp]: "a \<notin> set xs \<Longrightarrow> slist (m(a := v)) p xs = slist m p xs"
  by (induction xs arbitrary: p) auto

definition stack_holds :: "slist_mem \<Rightarrow> stack \<Rightarrow> u64 list \<Rightarrow> bool" where
  "stack_holds m s xs \<longleftrightarrow> slist m (TopOfStack s) xs \<and> unat (NumberOfElements s) = length xs"

lemma push_run:
  assumes "stack_holds m s xs" "a \<notin> set xs" "a \<noteq> 0" "m a \<noteq> None" "length xs < 2 ^ 32 - 1"
  shows "\<exists>s'. StackDynamicPush m s a = Some (m(a \<mapsto> TopOfStack s), s', True) \<and> stack_holds (m(a \<mapsto> TopOfStack s)) s' (a # xs)"
proof -
  have n: "NumberOfElements s < MAX_DWORD" using assms(1,5) by (simp add: stack_holds_def word_less_nat_alt)
  then have "unat (NumberOfElements s + 1) = Suc (length xs)"
    using assms(1) by (simp add: stack_holds_def unat_add_small word_less_nat_alt)
  then show ?thesis using assms n by (auto simp: StackDynamicPush_def ClPushEntryList_def stack_holds_def)
qed

lemma pop_run:
  assumes "stack_holds m s (x # xs)"
  shows "\<exists>s'. StackDynamicPop m s = Some (s', x) \<and> stack_holds m s' xs"
proof -
  have "unat (NumberOfElements s) = Suc (length xs)" using assms by (simp add: stack_holds_def)
  then have "0 < NumberOfElements s" "unat (NumberOfElements s - 1) = length xs"
    by (simp_all add: word_less_nat_alt unat_sub_small word_le_nat_alt)
  then show ?thesis using assms by (auto simp: StackDynamicPop_def ClPopEntryList_def stack_holds_def)
qed

lemma pop_empty_run: "stack_holds m s [] \<Longrightarrow> StackDynamicPop m s = Some (s, 0)"
  by (simp add: StackDynamicPop_def ClPopEntryList_def stack_holds_def)

lemma peek_loop_run: "slist m p xs \<Longrightarrow> i < length xs \<Longrightarrow> peek_loop m p i = Some (xs ! i) \<and> xs ! i \<noteq> 0"
proof (induction xs arbitrary: p i)
  case (Cons x xs)
  then show ?case by (cases i) auto
qed simp

text \<open>The operations as a client of the table sees them, on the store and the stack.\<close>

definition stack_push :: "'e stack_interface_funcs \<Rightarrow> slist_mem \<times> stack \<Rightarrow> u64 \<Rightarrow> (slist_mem \<times> stack) option" where
  "stack_push fs ms a = do { r \<leftarrow> Push fs (fst ms) (snd ms) a; Some (fst r, fst (snd r)) }"

definition stack_pop :: "'e stack_interface_funcs \<Rightarrow> slist_mem \<times> stack \<Rightarrow> ((slist_mem \<times> stack) \<times> u64 option) option" where
  "stack_pop fs ms = do {
     r \<leftarrow> Pop fs (fst ms) (snd ms);
     Some ((fst ms, fst r), if snd r = 0 then None else Some (snd r))
   }"

definition dynamic_functions :: "'e stack_interface_funcs" where
  "dynamic_functions = fst (the (STACK_FUNCS ! 0))"

lemma dynamic_functions_simps [simp]:
  "Push dynamic_functions = StackDynamicPush" "Pop dynamic_functions = StackDynamicPop"
  "Peek dynamic_functions = StackDynamicPeek" "Clear dynamic_functions = StackDynamicClear"
  "IsEmpty dynamic_functions = StackDynamicIsEmpty" "Size dynamic_functions = StackDynamicSize"
  by (simp_all add: dynamic_functions_def STACK_FUNCS_def)

lemma StackCreate_dynamic:
  "StackCreate True StackTypeDynamic True =
     Some (STATUS_SUCCESS, Some (dynamic_functions, \<lparr>TopOfStack = 0, NumberOfElements = 0\<rparr>))"
  by (simp add: StackCreate_def dynamic_functions_def STACK_FUNCS_def array_get_def StackDynamicInit_def SUCCEEDED_def)

text \<open>The second type passes the check of the type, and a NULL pointer is called.\<close>

lemma StackCreate_interlocked: "StackCreate True StackTypeInterlocked True = None"
  by (simp add: StackCreate_def STACK_FUNCS_def array_get_def word_le_nat_alt)

interpretation st: stack_store "\<lambda>ms xs. stack_holds (fst ms) (snd ms) xs" "\<lambda>ms a. a \<noteq> 0 \<and> fst ms a \<noteq> None"
  "2 ^ 32 - 1" "stack_push dynamic_functions" "stack_pop dynamic_functions"
proof (unfold_locales, goal_cases)
  case (1 ms xs a)
  then obtain s' where "StackDynamicPush (fst ms) (snd ms) a = Some ((fst ms)(a \<mapsto> TopOfStack (snd ms)), s', True)"
      "stack_holds ((fst ms)(a \<mapsto> TopOfStack (snd ms))) s' (a # xs)"
    using push_run by blast
  then show ?case by (simp add: stack_push_def)
next
  case (2 ms)
  then show ?case by (simp add: stack_pop_def pop_empty_run)
next
  case (3 ms x xs)
  have "x \<noteq> 0" using 3 by (simp add: stack_holds_def)
  moreover obtain s' where "StackDynamicPop (fst ms) (snd ms) = Some (s', x)" "stack_holds (fst ms) s' xs"
    using pop_run [OF 3] by blast
  ultimately show ?case by (simp add: stack_pop_def)
qed

lemma stack_observers:
  assumes "stack_holds m s xs"
  shows "unat (StackDynamicSize s) = length xs" "StackDynamicIsEmpty s \<longleftrightarrow> xs = []"
    "StackDynamicPeek m s i = Some (if unat i < length xs then xs ! unat i else 0)"
proof -
  have n: "unat (NumberOfElements s) = length xs" and l: "slist m (TopOfStack s) xs"
    using assms by (simp_all add: stack_holds_def)
  show "unat (StackDynamicSize s) = length xs" using n by (simp add: StackDynamicSize_def)
  show "StackDynamicIsEmpty s \<longleftrightarrow> xs = []" using l by (cases xs) (auto simp: StackDynamicIsEmpty_def)
  show "StackDynamicPeek m s i = Some (if unat i < length xs then xs ! unat i else 0)"
    using peek_loop_run [OF l, of "unat i"] n by (simp add: StackDynamicPeek_def word_le_nat_alt)
qed

text \<open>C19: the table that StackCreate hands out implements a stack: after any schedule of pushes and
  pops that pushes no item twice and at most MAX_DWORD of them, the pops have answered what the list
  model answers (NULL when it is empty), and the size, the test for emptiness and every Peek are those
  of the list.\<close>

theorem stack_is_lifo:
  assumes "lifo_legal (2 ^ 32 - 1) ops []" "\<forall>a \<in> set (pushed ops). a \<noteq> 0 \<and> m a \<noteq> None"
  shows "\<exists>(fs :: 'e stack_interface_funcs) s m' s'. StackCreate True StackTypeDynamic True = Some (STATUS_SUCCESS, Some (fs, s)) \<and>
    stack_run (stack_push fs) (stack_pop fs) ops (m, s) = Some ((m', s'), snd (lifo ops [])) \<and>
    unat (Size fs s') = length (fst (lifo ops [])) \<and> IsEmpty fs s' = (fst (lifo ops []) = []) \<and>
    (\<forall>i. Peek fs m' s' i = Some (if unat i < length (fst (lifo ops [])) then fst (lifo ops []) ! unat i else 0))"
proof -
  let ?s = "\<lparr>TopOfStack = 0, NumberOfElements = 0\<rparr>"
  have "stack_holds m ?s []" by (simp add: stack_holds_def)
  then obtain m' s' where r: "stack_run (stack_push (dynamic_functions :: 'e stack_interface_funcs))
      (stack_pop (dynamic_functions :: 'e stack_interface_funcs)) ops (m, ?s) =
      Some ((m', s'), snd (lifo ops []))" "stack_holds m' s' (fst (lifo ops []))"
    using st.run [of "(m, ?s)" "[]" ops] assms by auto
  show ?thesis
    by (rule exI [of _ dynamic_functions], rule exI [of _ ?s], rule exI [of _ m'], rule exI [of _ s'])
      (simp add: r(1) StackCreate_dynamic stack_observers [OF r(2)])
qed

lemma stack_is_lifo_witness:
  "\<exists>(fs :: 'e stack_interface_funcs) s m' s'. StackCreate True StackTypeDynamic True = Some (STATUS_SUCCESS, Some (fs, s)) \<and>
    stack_run (stack_push fs) (stack_pop fs) [PushOp 8, PushOp 16, PopOp, PopOp, PopOp, PushOp 16] (\<lambda>a. if a < 32 then Some 0 else None, s) =
      Some ((m', s'), snd (lifo [PushOp 8, PushOp 16, PopOp, PopOp, PopOp, PushOp 16] [])) \<and>
    unat (Size fs s') = length (fst (lifo [PushOp (8 :: u64), PushOp 16, PopOp, PopOp, PopOp, PushOp 16] [])) \<and>
    IsEmpty fs s' = (fst (lifo [PushOp (8 :: u64), PushOp 16, PopOp, PopOp, PopOp, PushOp 16] []) = []) \<and>
    (\<forall>i. Peek fs m' s' i = Some (if unat i < length (fst (lifo [PushOp (8 :: u64), PushOp 16, PopOp, PopOp, PopOp, PushOp 16] []))
       then fst (lifo [PushOp (8 :: u64), PushOp 16, PopOp, PopOp, PopOp, PushOp 16] []) ! unat i else 0))"
  by (rule stack_is_lifo) simp_all

section \<open>Clearing the stack\<close>

primrec free_all :: "(u64 \<Rightarrow> u64 \<Rightarrow> 's \<Rightarrow> 's option) \<Rightarrow> u64 \<Rightarrow> u64 list \<Rightarrow> 's \<Rightarrow> 's option" where
  "free_all f c [] st = Some st"
| "free_all f c (x # xs) st = do { st' \<leftarrow> f x c st; free_all f c xs st' }"

text \<open>What the code requires of a free function: it returns and leaves the items alone that are still on
  the stack.\<close>

definition frees_only :: "'e free_function \<Rightarrow> u64 \<Rightarrow> u64 list \<Rightarrow> bool" where
  "frees_only f c xs \<longleftrightarrow> (\<forall>x \<in> set xs. \<forall>st. \<exists>st'. f x c st = Some st' \<and> (\<forall>q \<in> set xs. q \<noteq> x \<longrightarrow> fst st' q = fst st q))"

lemma clear_run:
  assumes "frees_only g c xs" "g = (case FreeFunction of None \<Rightarrow> \<lambda>x c st. Some st | Some f \<Rightarrow> f)"
    and "stack_holds (fst st) s xs"
  shows "\<exists>st' s'. free_all g c xs st = Some st' \<and> StackDynamicClear st s FreeFunction c = Some (st', s') \<and>
    stack_holds (fst st') s' []"
  using assms(1,3)
proof (induction xs arbitrary: st s)
  case Nil
  then show ?case by (simp add: StackDynamicClear.simps [of st s] stack_observers(2))
next
  case (Cons x xs)
  have ne: "\<not> StackDynamicIsEmpty s" "x \<noteq> 0" "x \<notin> set xs"
    using Cons.prems(2) stack_observers(2) [OF Cons.prems(2)] by (simp_all add: stack_holds_def)
  obtain s1 where s1: "StackDynamicPop (fst st) s = Some (s1, x)" "stack_holds (fst st) s1 xs"
    using pop_run [OF Cons.prems(2)] by blast
  obtain st1 where st1: "g x c st = Some st1" "\<forall>q \<in> set xs. fst st1 q = fst st q"
    using Cons.prems(1) ne(3) unfolding frees_only_def by (metis list.set_intros(1,2))
  have "stack_holds (fst st1) s1 xs"
    using s1(2) st1(2) slist_frame [of "fst st" _ xs "fst st1"] by (simp add: stack_holds_def)
  moreover have "frees_only g c xs" using Cons.prems(1) unfolding frees_only_def by (meson list.set_intros(2))
  ultimately obtain st' s' where r: "free_all g c xs st1 = Some st'" "StackDynamicClear st1 s1 FreeFunction c = Some (st', s')"
      "stack_holds (fst st') s' []" using Cons.IH by blast
  have "(case FreeFunction of None \<Rightarrow> Some st | Some f \<Rightarrow> f x c st) = Some st1"
    using st1(1) assms(2) by (cases FreeFunction) simp_all
  then have "StackDynamicClear st s FreeFunction c = Some (st', s')"
    using ne s1(1) r(2) by (subst StackDynamicClear.simps) (cases FreeFunction; simp)
  then show ?case using st1(1) r(1,3) by simp
qed

text \<open>C20: Clear ends on every stack. With a free function that leaves the remaining items alone it hands
  every item to it exactly once, from the top down, and without one it only unlinks them; the stack is
  empty afterwards.\<close>

theorem stack_clear_terminates:
  assumes "stack_holds m s xs" "frees_only f c xs"
  shows "(\<exists>st s'. free_all f c xs (m, e) = Some st \<and> StackDynamicClear (m, e) s (Some f) c = Some (st, s') \<and>
      StackDynamicIsEmpty s' \<and> StackDynamicSize s' = 0) \<and>
    (\<exists>s'. StackDynamicClear (m, e) s None c = Some ((m, e), s') \<and> StackDynamicIsEmpty s' \<and> StackDynamicSize s' = 0)"
proof -
  have e: "StackDynamicIsEmpty s' \<and> StackDynamicSize s' = 0" if "stack_holds m' s' []" for m' s'
    using that by (simp add: StackDynamicIsEmpty_def StackDynamicSize_def stack_holds_def unat_eq_0)
  have "free_all (\<lambda>x c st. Some st) c xs st = Some st" for st :: "slist_mem \<times> 'a" by (induction xs) simp_all
  moreover have "frees_only (\<lambda>x c st. Some st) c xs" by (simp add: frees_only_def)
  ultimately have "\<exists>s'. StackDynamicClear (m, e) s None c = Some ((m, e), s') \<and> stack_holds m s' []"
    using clear_run [of "\<lambda>x c st. Some st" c xs None "(m, e)" s] assms(1) by auto
  moreover have "\<exists>st s'. free_all f c xs (m, e) = Some st \<and> StackDynamicClear (m, e) s (Some f) c = Some (st, s') \<and>
      stack_holds (fst st) s' []"
    using clear_run [of f c xs "Some f" "(m, e)" s] assms by auto
  ultimately show ?thesis using e by blast
qed

lemma stack_clear_terminates_witness:
  "(\<exists>st s'. free_all (\<lambda>x c st. Some ((fst st)(x := None), snd st @ [x])) 7 [16, 8] ([16 \<mapsto> 8, 8 \<mapsto> 0], []) = Some st \<and>
      StackDynamicClear ([16 \<mapsto> 8, 8 \<mapsto> 0], []) \<lparr>TopOfStack = 16, NumberOfElements = 2\<rparr>
        (Some (\<lambda>x c st. Some ((fst st)(x := None), snd st @ [x]))) 7 = Some (st, s') \<and>
      StackDynamicIsEmpty s' \<and> StackDynamicSize s' = 0) \<and>
    (\<exists>s'. StackDynamicClear ([16 \<mapsto> 8, 8 \<mapsto> 0], [] :: u64 list) \<lparr>TopOfStack = 16, NumberOfElements = 2\<rparr> None 7 =
      Some (([16 \<mapsto> 8, 8 \<mapsto> 0], []), s') \<and> StackDynamicIsEmpty s' \<and> StackDynamicSize s' = 0)"
  by (rule stack_clear_terminates) (simp_all add: stack_holds_def frees_only_def)

end
