(* ===== verification/VmReservation.thy ===== *)
theory VmReservation
  imports CL_Bitmap CL_RwLock CL_Sync "HOL-Library.Signed_Division"
begin

text \<open>
  \<open>HAL9000/src/core/memory/vm_reservation_space.c\<close>: the reservations of virtual memory of a process
  or of the kernel. A reservation space has an area for its metadata: an array of reservations, ended by
  the slot whose state is \<open>VmmReservationStateLast\<close>, and behind it the buffers of the bitmaps that say
  which pages of a reservation are committed. The page fault handler asks this component whether an
  access is allowed.

  The array is the list \<open>Reservations\<close>, an access behind it a fault. The metadata lies in memory that
  reads as zero before it is written, and \<open>FreeBitmapAddress\<close> only grows, so the buffer of a new bitmap
  is a row of zeros. A bitmap holds the contents of its buffer; \<open>CommitBuffer\<close> is the address of it.
  The calls that leave the component, to unmap the buffer of a bitmap and to close the file behind a
  reservation, are returned as a list of effects.
\<close>

section \<open>State\<close>

record vmm_reservation =
  StartVa :: u64
  ReservationSize :: u64
  PageRights :: u32
  ReservationState :: u32
  Uncacheable :: bool
  BackingFile :: u64
  CommitBitmap :: bitmap
  CommitBuffer :: u64

abbreviation (input) VmmReservationStateFree :: u32 where "VmmReservationStateFree \<equiv> 0"
abbreviation (input) VmmReservationStateUsed :: u32 where "VmmReservationStateUsed \<equiv> 1"
abbreviation (input) VmmReservationStateLast :: u32 where "VmmReservationStateLast \<equiv> 2"

abbreviation (input) VMM_ALLOC_TYPE_RESERVE :: u32 where "VMM_ALLOC_TYPE_RESERVE \<equiv> 1"
abbreviation (input) VMM_ALLOC_TYPE_COMMIT :: u32 where "VMM_ALLOC_TYPE_COMMIT \<equiv> 2"
abbreviation (input) VMM_FREE_TYPE_DECOMMIT :: u32 where "VMM_FREE_TYPE_DECOMMIT \<equiv> 1"
abbreviation (input) VMM_FREE_TYPE_RELEASE :: u32 where "VMM_FREE_TYPE_RELEASE \<equiv> 2"
abbreviation (input) PAGE_RIGHTS_READWRITE :: u32 where "PAGE_RIGHTS_READWRITE \<equiv> 1"
abbreviation (input) PAGE_RIGHTS_EXECUTE :: u32 where "PAGE_RIGHTS_EXECUTE \<equiv> 2"

record vm_space =
  FreeVirtualAddressPointer :: u64
  StartOfVirtualAddressSpace :: u64
  BitmapAddressStart :: u64
  ReservedAreaSize :: u64
  ReservationLock :: rw_spinlock
  FreeBitmapAddress :: u64
  ReservationList :: u64
  Reservations :: "vmm_reservation list"

datatype vm_effect = UnmapMemory u64 u32 | CloseFile u64

text \<open>The size of the structure, and the address of slot \<open>i\<close>.\<close>

abbreviation (input) RESERVATION_SIZE :: u64 where "RESERVATION_SIZE \<equiv> 56"

definition slot_address :: "vm_space \<Rightarrow> nat \<Rightarrow> u64" where
  "slot_address sp i = ReservationList sp + of_nat i * RESERVATION_SIZE"

definition empty_bitmap :: bitmap where
  "empty_bitmap = \<lparr>BitmapBuffer = None, BufferSize = 0, BitCount = 0\<rparr>"

definition empty_reservation :: vmm_reservation where
  "empty_reservation = \<lparr>StartVa = 0, ReservationSize = 0, PageRights = 0, ReservationState = 0, Uncacheable = False,
     BackingFile = 0, CommitBitmap = empty_bitmap, CommitBuffer = 0\<rparr>"

section \<open>Operations\<close>

text \<open>\<open>metadata\<close> is the memory at the base of the metadata, as an array of reservations;
  \<open>name\<close> is the text \<open>ReservationLock\<close>. The lock is added to the list of all locks.\<close>

definition VmReservationSpaceInit ::
  "rw_spinlock lock_system \<Rightarrow> u64 \<Rightarrow> bool \<Rightarrow> vmm_reservation list \<Rightarrow> u8 list \<Rightarrow> u64 \<Rightarrow> u64 \<Rightarrow> u64 \<Rightarrow>
    (rw_spinlock lock_system \<times> vm_space \<times> bool) option" where
  "VmReservationSpaceInit sys cell intr metadata name MetadataBaseAddress BaseAddress MetadataSize = do {
     ASSERT (MetadataBaseAddress \<noteq> 0);
     ASSERT (IsAddressAligned MetadataBaseAddress PAGE_SIZE);
     ASSERT (MetadataSize \<noteq> 0);
     sizeForReservationList \<leftarrow> CalculatePercentage MetadataSize 2000;
     let bitmaps = MetadataBaseAddress + sizeForReservationList;
     let free = (if BaseAddress = 0 then MetadataBaseAddress + MetadataSize else BaseAddress);
     r \<leftarrow> RwSpinlockInit sys cell intr;
     l \<leftarrow> RwSpinlockSetName (fst (snd r)) name;
     Some (fst r, \<lparr>FreeVirtualAddressPointer = free, StartOfVirtualAddressSpace = free, BitmapAddressStart = bitmaps,
       ReservedAreaSize = MetadataSize, ReservationLock = l, FreeBitmapAddress = bitmaps,
       ReservationList = MetadataBaseAddress, Reservations = metadata\<rparr>, snd (snd r))
   }"

definition set_slot :: "vm_space \<Rightarrow> nat \<Rightarrow> (vmm_reservation \<Rightarrow> vmm_reservation) \<Rightarrow> vm_space option" where
  "set_slot sp i f = do {
     r \<leftarrow> array_get (Reservations sp) i;
     rs \<leftarrow> array_set (Reservations sp) i (f r);
     Some (sp\<lparr>Reservations := rs\<rparr>)
   }"

definition VmReservationSpaceFinishInit :: "vm_space \<Rightarrow> vm_space option" where
  "VmReservationSpaceFinishInit sp = set_slot sp 0 (\<lambda>r. r\<lparr>ReservationState := VmmReservationStateLast\<rparr>)"

text \<open>Atomic exchange and add.\<close>

definition VmReservationSpaceDetermineNextFreeVirtualAddress :: "vm_space \<Rightarrow> u64 \<Rightarrow> vm_space \<times> u64" where
  "VmReservationSpaceDetermineNextFreeVirtualAddress sp sz =
     (sp\<lparr>FreeVirtualAddressPointer := FreeVirtualAddressPointer sp + sz\<rparr>, FreeVirtualAddressPointer sp)"

text \<open>The state of a slot is read before its address is compared with the end of the array.\<close>

function find_reservation_loop :: "vm_space \<Rightarrow> nat \<Rightarrow> u64 \<Rightarrow> u64 \<Rightarrow> nat option option" where
  "find_reservation_loop sp i Address sz = (case array_get (Reservations sp) i of
     None \<Rightarrow> None
   | Some r \<Rightarrow>
       if ReservationState r \<noteq> VmmReservationStateLast \<and> slot_address sp i < BitmapAddressStart sp then
         if ReservationState r = VmmReservationStateFree then find_reservation_loop sp (Suc i) Address sz
         else if CHECK_BOUNDS Address sz (StartVa r) (ReservationSize r) then Some (Some i)
         else find_reservation_loop sp (Suc i) Address sz
       else Some None)"
  by pat_completeness auto
termination
  by (relation "measure (\<lambda>(sp, i, a, s). length (Reservations sp) - i)") (auto simp: array_get_conv)

definition VmFindReservation :: "vm_space \<Rightarrow> u64 \<Rightarrow> u64 \<Rightarrow> (STATUS \<times> nat option) option" where
  "VmFindReservation sp Address sz = do {
     ASSERT (Address \<noteq> 0);
     ASSERT (sz \<noteq> 0);
     r \<leftarrow> find_reservation_loop sp 0 Address sz;
     Some (if r = None then STATUS_ELEMENT_NOT_FOUND else STATUS_SUCCESS, r)
   }"

function free_reservation_loop :: "vm_space \<Rightarrow> nat \<Rightarrow> (vm_space \<times> nat option) option" where
  "free_reservation_loop sp i =
     (if slot_address sp i < BitmapAddressStart sp then
        (case array_get (Reservations sp) i of
           None \<Rightarrow> None
         | Some r \<Rightarrow>
             if ReservationState r = VmmReservationStateFree then Some (sp, Some i)
             else if ReservationState r = VmmReservationStateLast then do {
               sp1 \<leftarrow> set_slot sp i (\<lambda>r. r\<lparr>ReservationState := VmmReservationStateFree\<rparr>);
               sp2 \<leftarrow> set_slot sp1 (Suc i) (\<lambda>r. r\<lparr>ReservationState := VmmReservationStateLast\<rparr>);
               Some (sp2, Some i)
             }
             else free_reservation_loop sp (Suc i))
      else Some (sp, None))"
  by pat_completeness auto
termination
  by (relation "measure (\<lambda>(sp, i). length (Reservations sp) - i)") (auto simp: array_get_conv)

definition VmFindFirstFreeReservation :: "vm_space \<Rightarrow> (vm_space \<times> nat option) option" where
  "VmFindFirstFreeReservation sp = free_reservation_loop sp 0"

definition VmInitializeReservation ::
  "vm_space \<Rightarrow> u64 \<Rightarrow> u64 \<Rightarrow> u32 \<Rightarrow> bool \<Rightarrow> u64 \<Rightarrow> nat \<Rightarrow> vm_space option" where
  "VmInitializeReservation sp Address sz Rights Unc FileObject i = do {
     ASSERT (Address \<noteq> 0);
     ASSERT (sz \<noteq> 0);
     ASSERT (IsAddressAligned Address PAGE_SIZE);
     ASSERT (IsAddressAligned sz PAGE_SIZE);
     let noOfPages = sz div PAGE_SIZE;
     r \<leftarrow> array_get (Reservations sp) i;
     ASSERT (noOfPages \<le> 0xFFFFFFFF);
     p \<leftarrow> BitmapPreinit (Some (CommitBitmap r)) (ucast noOfPages);
     let bitmapSize = (ucast (snd p) :: u64);
     ASSERT (bitmapSize \<noteq> 0);
     ASSERT (IsAddressAligned (FreeBitmapAddress sp) PAGE_SIZE);
     b \<leftarrow> BitmapInitEx (Some (fst p)) (Some (replicate (unat (AlignAddressUpper bitmapSize PAGE_SIZE)) 0)) False;
     ASSERT (CHECK_BOUNDS (FreeBitmapAddress sp) (AlignAddressUpper bitmapSize PAGE_SIZE) (ReservationList sp) (ReservedAreaSize sp));
     sp' \<leftarrow> set_slot sp i (\<lambda>_. \<lparr>StartVa = Address, ReservationSize = sz, PageRights = Rights,
       ReservationState = VmmReservationStateUsed, Uncacheable = Unc, BackingFile = FileObject, CommitBitmap = b,
       CommitBuffer = FreeBitmapAddress sp\<rparr>);
     Some (sp'\<lparr>FreeBitmapAddress := FreeBitmapAddress sp + AlignAddressUpper bitmapSize PAGE_SIZE\<rparr>)
   }"

text \<open>The difference of two pointers is signed, and so is its division by the size of a page.\<close>

definition page_of :: "u64 \<Rightarrow> u64 \<Rightarrow> u64" where
  "page_of Address Start = word_of_int (sint (Address - Start) sdiv 4096)"

definition change_commit :: "bool \<Rightarrow> u64 \<Rightarrow> u64 \<Rightarrow> vmm_reservation \<Rightarrow> vmm_reservation option" where
  "change_commit Set Address sz r = do {
     ASSERT (Address \<noteq> 0);
     ASSERT (sz \<noteq> 0);
     ASSERT (IsAddressAligned Address PAGE_SIZE);
     ASSERT (IsAddressAligned sz PAGE_SIZE);
     let noOfPages = sz div PAGE_SIZE;
     let startIndex = page_of Address (StartVa r);
     ASSERT (noOfPages \<le> 0xFFFFFFFF);
     ASSERT (startIndex \<le> 0xFFFFFFFF);
     b \<leftarrow> BitmapSetBitsValue (Some (CommitBitmap r)) (ucast startIndex) (ucast noOfPages) Set;
     Some (r\<lparr>CommitBitmap := b\<rparr>)
   }"

definition VmCommitReservation :: "u64 \<Rightarrow> u64 \<Rightarrow> vmm_reservation \<Rightarrow> vmm_reservation option" where
  "VmCommitReservation = change_commit True"

definition VmDecommitReservation :: "u64 \<Rightarrow> u64 \<Rightarrow> vmm_reservation \<Rightarrow> vmm_reservation option" where
  "VmDecommitReservation = change_commit False"

definition VmIsVaCommited :: "vmm_reservation \<Rightarrow> u64 \<Rightarrow> bool option" where
  "VmIsVaCommited r Address = do {
     ASSERT (Address \<noteq> 0);
     let pageNo = page_of Address (StartVa r);
     ASSERT (pageNo \<le> 0xFFFFFFFF);
     BitmapGetBitValue (Some (CommitBitmap r)) (ucast pageNo)
   }"

definition VmUninitializeReservation :: "vmm_reservation \<Rightarrow> vm_effect list option" where
  "VmUninitializeReservation r = do {
     ASSERT (IsAddressAligned (CommitBuffer r) PAGE_SIZE);
     _ \<leftarrow> BitmapUninit (Some (CommitBitmap r));
     Some (UnmapMemory (CommitBuffer r) (BufferSize (CommitBitmap r)) #
       (if BackingFile r \<noteq> 0 then [CloseFile (BackingFile r)] else []))
   }"

definition VmChangeVaReservationState ::
  "vm_space \<Rightarrow> u64 \<Rightarrow> u64 \<Rightarrow> u32 \<Rightarrow> u32 \<Rightarrow> bool \<Rightarrow> u64 \<Rightarrow> (STATUS \<times> vm_space) option" where
  "VmChangeVaReservationState sp Address sz AllocationType Rights Unc FileObject = do {
     ASSERT (Address \<noteq> 0);
     ASSERT (sz \<noteq> 0);
     ASSERT ((AllocationType = VMM_ALLOC_TYPE_RESERVE) \<noteq> (AllocationType = VMM_ALLOC_TYPE_COMMIT));
     ASSERT (IsAddressAligned Address PAGE_SIZE);
     ASSERT (IsAddressAligned sz PAGE_SIZE);
     f \<leftarrow> VmFindReservation sp Address sz;
     if fst f = STATUS_ELEMENT_NOT_FOUND \<and> AllocationType \<noteq> VMM_ALLOC_TYPE_RESERVE then
       Some (STATUS_MEMORY_IS_NOT_RESERVED, sp)
     else if fst f \<noteq> STATUS_ELEMENT_NOT_FOUND \<and> SUCCEEDED (fst f) \<and> AllocationType = VMM_ALLOC_TYPE_RESERVE then
       Some (STATUS_MEMORY_ALREADY_RESERVED, sp)
     else if fst f \<noteq> STATUS_ELEMENT_NOT_FOUND \<and> \<not> SUCCEEDED (fst f) then Some (fst f, sp)
     else if AllocationType = VMM_ALLOC_TYPE_RESERVE then do {
       n \<leftarrow> VmFindFirstFreeReservation sp;
       i \<leftarrow> snd n;
       sp' \<leftarrow> VmInitializeReservation (fst n) Address sz Rights Unc FileObject i;
       Some (STATUS_SUCCESS, sp')
     }
     else do {
       i \<leftarrow> snd f;
       r \<leftarrow> array_get (Reservations sp) i;
       if PageRights r \<noteq> Rights then Some (STATUS_MEMORY_CONFLICTING_ACCESS_RIGHTS, sp)
       else if Uncacheable r \<noteq> Unc then Some (STATUS_MEMORY_CONFLICTING_CACHEABILITY, sp)
       else do {
         r' \<leftarrow> VmCommitReservation Address sz r;
         sp' \<leftarrow> set_slot sp i (\<lambda>_. r');
         Some (STATUS_SUCCESS, sp')
       }
     }
   }"

text \<open>\<open>cpu\<close> is the flag \<open>VmmMemoryAccess\<close> of the current processor, or \<open>None\<close> before processors
  are set up. The results are the rights, whether the memory is uncacheable, the backing file and the
  offset in it.\<close>

definition VmReservationCanAddressBeAccessed ::
  "vm_space \<Rightarrow> bool option \<Rightarrow> bool \<Rightarrow> u64 \<Rightarrow> u32 \<Rightarrow> (vm_space \<times> bool \<times> bool \<times> (u32 \<times> bool \<times> u64 \<times> u64) option) option" where
  "VmReservationCanAddressBeAccessed sp cpu intr FaultingAddress RightsRequested = do {
     ASSERT (\<not> intr);
     if FaultingAddress = 0 then Some (sp, intr, False, None)
     else if CHECK_BOUNDS FaultingAddress 1 (ReservationList sp) (ReservedAreaSize sp) then
       Some (sp, intr,
         if (cpu = None \<or> cpu = Some True) \<and> \<not> IsBooleanFlagOn RightsRequested PAGE_RIGHTS_EXECUTE
         then (True, Some (PAGE_RIGHTS_READWRITE, False, 0, 0)) else (False, None))
     else do {
       a \<leftarrow> RwSpinlockAcquire (ReservationLock sp) intr False;
       f \<leftarrow> VmFindReservation sp FaultingAddress 1;
       res \<leftarrow> (case snd f of
           None \<Rightarrow> Some (False, None)
         | Some i \<Rightarrow> do {
             r \<leftarrow> array_get (Reservations sp) i;
             c \<leftarrow> VmIsVaCommited r FaultingAddress;
             let offset = (if BackingFile r \<noteq> 0 then AlignAddressLower (FaultingAddress - StartVa r) PAGE_SIZE else 0);
             Some (if c \<and> IsBooleanFlagOn (PageRights r) RightsRequested
               then (True, Some (PageRights r, Uncacheable r, BackingFile r, offset)) else (False, None))
           });
       l \<leftarrow> RwSpinlockRelease (fst a) False False;
       Some (sp\<lparr>ReservationLock := fst l\<rparr>, snd l, res)
     }
   }"

definition VmReservationSpaceAllocRegion ::
  "vm_space \<Rightarrow> bool option \<Rightarrow> bool \<Rightarrow> u64 \<Rightarrow> u64 \<Rightarrow> u32 \<Rightarrow> u32 \<Rightarrow> bool \<Rightarrow> u64 \<Rightarrow>
    (STATUS \<times> (vm_space \<times> bool option \<times> bool) \<times> (u64 \<times> u64) option) option" where
  "VmReservationSpaceAllocRegion sp cpu intr BaseAddress sz AllocType Rights Unc FileObject = do {
     ASSERT (sz \<noteq> 0);
     ASSERT (IsFlagOn AllocType (VMM_ALLOC_TYPE_COMMIT OR VMM_ALLOC_TYPE_RESERVE));
     let lower = AlignAddressLower BaseAddress PAGE_SIZE;
     if BaseAddress \<noteq> 0 \<and> lower < StartOfVirtualAddressSpace sp then
       Some (STATUS_MEMORY_CANNOT_BE_RESERVED, (sp, cpu, intr), None)
     else do {
       let alignedSize = (if BaseAddress \<noteq> 0 then AlignAddressUpper (sz + (BaseAddress - lower)) PAGE_SIZE
         else AlignAddressUpper sz PAGE_SIZE);
       let n = (if BaseAddress \<noteq> 0 then (sp, lower) else VmReservationSpaceDetermineNextFreeVirtualAddress sp alignedSize);
       a \<leftarrow> RwSpinlockAcquire (ReservationLock (fst n)) intr True;
       let sp1 = (fst n)\<lparr>ReservationLock := fst a\<rparr>;
       r \<leftarrow> (if IsBooleanFlagOn AllocType VMM_ALLOC_TYPE_RESERVE
         then VmChangeVaReservationState sp1 (snd n) alignedSize VMM_ALLOC_TYPE_RESERVE Rights Unc FileObject
         else Some (STATUS_SUCCESS, sp1));
       c \<leftarrow> (if SUCCEEDED (fst r) \<and> IsBooleanFlagOn AllocType VMM_ALLOC_TYPE_COMMIT
         then VmChangeVaReservationState (snd r) (snd n) alignedSize VMM_ALLOC_TYPE_COMMIT Rights Unc FileObject
         else Some r);
       l \<leftarrow> RwSpinlockRelease (ReservationLock (snd c)) (snd (snd a)) True;
       Some (fst c, ((snd c)\<lparr>ReservationLock := fst l\<rparr>, map_option (\<lambda>_. False) cpu, snd l),
         if SUCCEEDED (fst c) then Some (snd n, alignedSize) else None)
     }
   }"

definition VmReservationSpaceFreeRegion ::
  "vm_space \<Rightarrow> bool option \<Rightarrow> bool \<Rightarrow> u64 \<Rightarrow> u64 \<Rightarrow> u32 \<Rightarrow>
    ((vm_space \<times> bool option \<times> bool) \<times> vm_effect list \<times> u64 \<times> u64) option" where
  "VmReservationSpaceFreeRegion sp cpu intr Address sz FreeType = do {
     ASSERT (Address \<noteq> 0);
     ASSERT (IsBooleanFlagOn FreeType VMM_FREE_TYPE_RELEASE \<and> sz = 0 \<or> IsBooleanFlagOn FreeType VMM_FREE_TYPE_DECOMMIT \<and> sz \<noteq> 0);
     ASSERT (IsBooleanFlagOn FreeType VMM_FREE_TYPE_RELEASE \<noteq> IsBooleanFlagOn FreeType VMM_FREE_TYPE_DECOMMIT);
     a \<leftarrow> RwSpinlockAcquire (ReservationLock sp) intr True;
     f \<leftarrow> VmFindReservation sp Address 1;
     ASSERT (SUCCEEDED (fst f));
     i \<leftarrow> snd f;
     r \<leftarrow> array_get (Reservations sp) i;
     if IsBooleanFlagOn FreeType VMM_FREE_TYPE_RELEASE then do {
       sp1 \<leftarrow> set_slot sp i (\<lambda>_. empty_reservation);
       l \<leftarrow> RwSpinlockRelease (fst a) (snd (snd a)) True;
       es \<leftarrow> VmUninitializeReservation r;
       Some ((sp1\<lparr>ReservationLock := fst l\<rparr>, map_option (\<lambda>_. False) cpu, snd l), es, StartVa r, ReservationSize r)
     }
     else do {
       let alignedAddress = AlignAddressLower Address PAGE_SIZE;
       let alignedSize = AlignAddressUpper (sz + (Address - alignedAddress)) PAGE_SIZE;
       r' \<leftarrow> VmDecommitReservation alignedAddress alignedSize r;
       sp1 \<leftarrow> set_slot sp i (\<lambda>_. r');
       l \<leftarrow> RwSpinlockRelease (fst a) (snd (snd a)) True;
       Some ((sp1\<lparr>ReservationLock := fst l\<rparr>, map_option (\<lambda>_. False) cpu, snd l), [], alignedAddress, alignedSize)
     }
   }"

text \<open>The loop steps through the range from its first byte, a page at a time; its counter is a QWORD.\<close>

partial_function (option) commited_loop :: "vmm_reservation \<Rightarrow> u64 \<Rightarrow> u64 \<Rightarrow> u64 \<Rightarrow> bool option" where
  "commited_loop r Address sz i =
     (if i < sz then do {
        c \<leftarrow> VmIsVaCommited r (Address + i);
        if \<not> c then Some False else commited_loop r Address sz (i + PAGE_SIZE)
      }
      else Some True)"

declare commited_loop.simps [code]

text \<open>The result is the status, the rights if they are stored, and the state.\<close>

definition VmReservationReturnRightsForAddress ::
  "vm_space \<Rightarrow> bool \<Rightarrow> u64 \<Rightarrow> u64 \<Rightarrow> (STATUS \<times> u32 option \<times> vm_space \<times> bool) option" where
  "VmReservationReturnRightsForAddress sp intr Address sz = do {
     ASSERT (Address \<noteq> 0);
     ASSERT (sz \<noteq> 0);
     a \<leftarrow> RwSpinlockAcquire (ReservationLock sp) intr False;
     f \<leftarrow> VmFindReservation sp Address sz;
     res \<leftarrow> (case snd f of
         None \<Rightarrow> Some (False, None)
       | Some i \<Rightarrow> do {
           r \<leftarrow> array_get (Reservations sp) i;
           c \<leftarrow> commited_loop r Address sz 0;
           Some (c, Some (PageRights r))
         });
     l \<leftarrow> RwSpinlockRelease (fst a) (snd (snd a)) False;
     Some (if fst res then STATUS_SUCCESS else STATUS_MEMORY_IS_NOT_COMMITED, snd res,
       sp\<lparr>ReservationLock := fst l\<rparr>, snd l)
   }"

section \<open>The live reservations\<close>

definition in_reservation :: "nat \<Rightarrow> vmm_reservation \<Rightarrow> bool" where
  "in_reservation a r \<longleftrightarrow> unat (StartVa r) \<le> a \<and> a < unat (StartVa r) + unat (ReservationSize r)"

definition live_reservations :: "vm_space \<Rightarrow> vmm_reservation list" where
  "live_reservations sp = filter (\<lambda>r. ReservationState r = VmmReservationStateUsed)
     (takeWhile (\<lambda>r. ReservationState r \<noteq> VmmReservationStateLast) (Reservations sp))"

definition reservation_at :: "vm_space \<Rightarrow> nat \<Rightarrow> vmm_reservation option" where
  "reservation_at sp a = List.find (in_reservation a) (live_reservations sp)"

text \<open>Whether the page of an address in a reservation is committed.\<close>

definition committed_at :: "vmm_reservation \<Rightarrow> nat \<Rightarrow> bool" where
  "committed_at r a = bits (CommitBitmap r) ! ((a - unat (StartVa r)) div 4096)"

definition res_ok :: "vmm_reservation \<Rightarrow> bool" where
  "res_ok r \<longleftrightarrow> bitmap_ok (CommitBitmap r) \<and> StartVa r \<noteq> 0 \<and> 4096 dvd unat (StartVa r) \<and>
     4096 * unat (BitCount (CommitBitmap r)) = unat (ReservationSize r) \<and>
     unat (StartVa r) + unat (ReservationSize r) < 2 ^ 64 \<and> IsAddressAligned (CommitBuffer r) PAGE_SIZE"

definition slots_ok :: "vm_space \<Rightarrow> nat \<Rightarrow> bool" where
  "slots_ok sp k \<longleftrightarrow> k < length (Reservations sp) \<and> ReservationState (Reservations sp ! k) = VmmReservationStateLast \<and>
     (\<forall>i < k. ReservationState (Reservations sp ! i) \<in> {VmmReservationStateFree, VmmReservationStateUsed}) \<and>
     (\<forall>i < length (Reservations sp). slot_address sp i < BitmapAddressStart sp)"

definition used_slot :: "vm_space \<Rightarrow> nat \<Rightarrow> bool" where
  "used_slot sp i \<longleftrightarrow> ReservationState (Reservations sp ! i) = VmmReservationStateUsed"

definition space_ok :: "vm_space \<Rightarrow> nat \<Rightarrow> bool" where
  "space_ok sp k \<longleftrightarrow> slots_ok sp k \<and> (\<forall>i < k. used_slot sp i \<longrightarrow> res_ok (Reservations sp ! i)) \<and>
     WaitingWriters (ReservationLock sp) = 0 \<and> ActiveWriter (ReservationLock sp) = 0 \<and>
     ActiveReaders (ReservationLock sp) = 0 \<and> IsAddressAligned (FreeBitmapAddress sp) PAGE_SIZE"

lemma res_ok_size: "res_ok r \<Longrightarrow> unat (ReservationSize r) < 2 ^ 44 \<and> 4096 \<le> unat (ReservationSize r)"
  using unat_lt_u32 [of "BitCount (CommitBitmap r)"]
  by (auto simp: res_ok_def bitmap_ok_def word_less_nat_alt)

lemma live_reservations_take:
  assumes "slots_ok sp k"
  shows "live_reservations sp = filter (\<lambda>r. ReservationState r = VmmReservationStateUsed) (take k (Reservations sp))"
proof -
  have k: "k < length (Reservations sp)" "ReservationState (Reservations sp ! k) = 2"
    using assms by (simp_all add: slots_ok_def)
  have "ReservationState r \<noteq> 2" if "r \<in> set (take k (Reservations sp))" for r
  proof -
    obtain i where "i < k" "r = Reservations sp ! i" using \<open>r \<in> _\<close> k by (auto simp: in_set_conv_nth)
    then show ?thesis using assms by (auto simp: slots_ok_def)
  qed
  then have "takeWhile (\<lambda>r. ReservationState r \<noteq> 2) (take k (Reservations sp) @ drop k (Reservations sp)) =
      take k (Reservations sp)"
    using k by (subst takeWhile_append2) (auto simp: Cons_nth_drop_Suc [symmetric])
  then show ?thesis by (simp add: live_reservations_def)
qed

lemma find_filter: "List.find P (filter Q xs) = List.find (\<lambda>x. Q x \<and> P x) xs"
  by (induction xs) auto

text \<open>What the loop looks for.\<close>

definition hit :: "vm_space \<Rightarrow> u64 \<Rightarrow> u64 \<Rightarrow> nat \<Rightarrow> bool" where
  "hit sp a n i \<longleftrightarrow> used_slot sp i \<and> CHECK_BOUNDS a n (StartVa (Reservations sp ! i)) (ReservationSize (Reservations sp ! i))"

definition first_hit :: "vm_space \<Rightarrow> nat \<Rightarrow> nat \<Rightarrow> u64 \<Rightarrow> u64 \<Rightarrow> nat option \<Rightarrow> bool" where
  "first_hit sp i k a n ro \<longleftrightarrow> (case ro of None \<Rightarrow> \<forall>j. i \<le> j \<and> j < k \<longrightarrow> \<not> hit sp a n j
     | Some j \<Rightarrow> i \<le> j \<and> j < k \<and> hit sp a n j \<and> (\<forall>j'. i \<le> j' \<and> j' < j \<longrightarrow> \<not> hit sp a n j'))"

lemma first_hit_step: "\<not> hit sp a n i \<Longrightarrow> first_hit sp (Suc i) k a n ro \<Longrightarrow> first_hit sp i k a n ro"
  unfolding first_hit_def by (cases ro) (simp_all, metis le_eq_less_or_eq less_eq_Suc_le, metis Suc_leD le_eq_less_or_eq less_eq_Suc_le)

declare find_reservation_loop.simps [simp del] free_reservation_loop.simps [simp del]

lemma find_reservation_loop_run:
  assumes "slots_ok sp k" "i \<le> k"
  shows "\<exists>ro. find_reservation_loop sp i a n = Some ro \<and> first_hit sp i k a n ro"
  using assms(2)
proof (induction "k - i" arbitrary: i)
  case 0
  then have "i = k" by simp
  then show ?case using assms(1)
    by (subst find_reservation_loop.simps) (auto simp: slots_ok_def first_hit_def)
next
  case (Suc d)
  then have i: "i < k" by simp
  have "d = k - Suc i" "Suc i \<le> k" using Suc.hyps(2) i by simp_all
  then obtain ro where ro: "find_reservation_loop sp (Suc i) a n = Some ro" "first_hit sp (Suc i) k a n ro"
    using Suc.hyps(1) by blast
  let ?r = "Reservations sp ! i"
  have s: "ReservationState ?r = 0 \<or> ReservationState ?r = 1" "i < length (Reservations sp)"
    "slot_address sp i < BitmapAddressStart sp"
    using assms(1) i by (auto simp: slots_ok_def)
  show ?case
  proof (cases "hit sp a n i")
    case True
    then have "find_reservation_loop sp i a n = Some (Some i)"
      using s by (subst find_reservation_loop.simps) (simp add: hit_def used_slot_def)
    then show ?thesis using True i by (auto simp: first_hit_def)
  next
    case False
    then have "find_reservation_loop sp i a n = find_reservation_loop sp (Suc i) a n"
      using s by (subst find_reservation_loop.simps) (auto simp: hit_def used_slot_def)
    then show ?thesis using ro first_hit_step [OF False ro(2)] by auto
  qed
qed

lemma VmFindReservation_run:
  assumes "slots_ok sp k" "a \<noteq> 0" "n \<noteq> 0"
  shows "\<exists>ro. VmFindReservation sp a n = Some (if ro = None then STATUS_ELEMENT_NOT_FOUND else STATUS_SUCCESS, ro) \<and>
    first_hit sp 0 k a n ro"
proof -
  obtain ro where "find_reservation_loop sp 0 a n = Some ro" "first_hit sp 0 k a n ro"
    using find_reservation_loop_run [OF assms(1), of 0 a n] by auto
  then show ?thesis using assms(2,3) by (simp add: VmFindReservation_def)
qed

text \<open>The test for one byte is membership, unless the byte is the last one of the address space.\<close>

lemma check_byte:
  assumes "res_ok r" "unat a < 2 ^ 64 - 1"
  shows "CHECK_BOUNDS a 1 (StartVa r) (ReservationSize r) \<longleftrightarrow> in_reservation (unat a) r"
proof -
  have "unat (a + 1) = unat a + 1" using assms(2) by (simp add: unat_add_small)
  moreover have "unat (StartVa r + ReservationSize r) = unat (StartVa r) + unat (ReservationSize r)"
    using assms(1) by (simp add: res_ok_def unat_add_small)
  ultimately show ?thesis by (auto simp: CHECK_BOUNDS_def in_reservation_def word_le_nat_alt)
qed

text \<open>The first hit of a range, whatever test it comes down to on the live reservations.\<close>

lemma first_hit_find:
  assumes "space_ok sp k" "first_hit sp 0 k a n ro"
    and P: "\<And>r. res_ok r \<Longrightarrow> CHECK_BOUNDS a n (StartVa r) (ReservationSize r) \<longleftrightarrow> P r"
  shows "List.find P (live_reservations sp) = map_option (\<lambda>j. Reservations sp ! j) ro"
    "ro = Some j \<Longrightarrow> j < k \<and> j < length (Reservations sp) \<and> used_slot sp j \<and> res_ok (Reservations sp ! j) \<and> P (Reservations sp ! j)"
proof -
  have s: "slots_ok sp k" and r: "\<And>i. i < k \<Longrightarrow> used_slot sp i \<Longrightarrow> res_ok (Reservations sp ! i)"
    using assms(1) by (simp_all add: space_ok_def)
  have k: "k < length (Reservations sp)" using s by (simp add: slots_ok_def)
  let ?P = "\<lambda>r. ReservationState r = 1 \<and> P r"
  have h: "hit sp a n i \<longleftrightarrow> ?P (Reservations sp ! i)" if "i < k" for i
    using r [OF that] P by (auto simp: hit_def used_slot_def)
  have "List.find ?P (take k (Reservations sp)) = map_option (\<lambda>j. Reservations sp ! j) ro"
  proof (cases ro)
    case None
    then have "\<forall>i < k. \<not> ?P (Reservations sp ! i)" using assms(2) h by (simp add: first_hit_def)
    then have "List.find ?P (take k (Reservations sp)) = None" using k by (auto simp: find_None_iff in_set_conv_nth)
    then show ?thesis using None by simp
  next
    case (Some j)
    then have "j < k" "?P (Reservations sp ! j)" "\<forall>i < j. \<not> ?P (Reservations sp ! i)"
      using assms(2) h by (auto simp: first_hit_def)
    then have "List.find ?P (take k (Reservations sp)) = Some (Reservations sp ! j)"
      using k by (auto simp: find_Some_iff intro!: exI [of _ j])
    then show ?thesis using Some by simp
  qed
  then show "List.find P (live_reservations sp) = map_option (\<lambda>j. Reservations sp ! j) ro"
    by (simp add: live_reservations_take [OF s] find_filter)
  show "j < k \<and> j < length (Reservations sp) \<and> used_slot sp j \<and> res_ok (Reservations sp ! j) \<and> P (Reservations sp ! j)" if "ro = Some j"
    using that assms(2) h [of j] r [of j] k by (auto simp: first_hit_def hit_def)
qed

lemma first_hit_byte:
  assumes "space_ok sp k" "unat a < 2 ^ 64 - 1" "first_hit sp 0 k a 1 ro"
  shows "reservation_at sp (unat a) = map_option (\<lambda>j. Reservations sp ! j) ro"
    "ro = Some j \<Longrightarrow> j < k \<and> j < length (Reservations sp) \<and> used_slot sp j \<and>
        res_ok (Reservations sp ! j) \<and> in_reservation (unat a) (Reservations sp ! j)"
  using first_hit_find [OF assms(1,3), of "in_reservation (unat a)"] check_byte [OF _ assms(2)]
  by (simp_all add: reservation_at_def)

section \<open>Pages\<close>

lemma sdiv_nonneg: "0 \<le> (k :: int) \<Longrightarrow> k sdiv 4096 = k div 4096"
  by (cases "k = 0") (simp_all add: signed_divide_int_def)

lemma page_of_small:
  assumes "unat (a - s) < 2 ^ 63"
  shows "page_of a s = (a - s) div PAGE_SIZE"
proof -
  have "int (unat (a - s)) < int (2 ^ 63)" using assms by (simp only: of_nat_less_iff)
  then have u: "uint (a - s) < 2 ^ 63" by simp
  have "- (2 ^ 63) \<le> uint (a - s)" by (rule order_trans [of _ 0]) simp_all
  then have "signed_take_bit 63 (uint (a - s)) = uint (a - s)" using u by (rule signed_take_bit_int_eq_self)
  then have "sint (a - s) = uint (a - s)" by (simp add: sint_uint)
  moreover have "uint (a - s) sdiv 4096 = uint (a - s) div 4096"
    by (rule sdiv_nonneg) simp
  ultimately have "page_of a s = word_of_int (uint (a - s) div 4096)" by (simp add: page_of_def)
  also have "\<dots> = (a - s) div 4096" by (simp add: word_div_def)
  finally show ?thesis by simp
qed

lemma page_in_reservation:
  assumes "res_ok r" "in_reservation (unat a) r"
  shows "unat (page_of a (StartVa r)) = (unat a - unat (StartVa r)) div 4096"
    "page_of a (StartVa r) \<le> 0xFFFFFFFF"
    "unat (ucast (page_of a (StartVa r)) :: u32) = (unat a - unat (StartVa r)) div 4096"
    "(unat a - unat (StartVa r)) div 4096 < unat (BitCount (CommitBitmap r))"
proof -
  have sz: "unat (ReservationSize r) < 2 ^ 44" using res_ok_size [OF assms(1)] by simp
  have d: "unat (a - StartVa r) = unat a - unat (StartVa r)"
    using assms(2) by (intro unat_sub_small) (simp add: in_reservation_def word_le_nat_alt)
  have lt: "unat a - unat (StartVa r) < unat (ReservationSize r)" using assms(2) by (auto simp: in_reservation_def)
  have "unat (a - StartVa r) < 2 ^ 63" using lt sz d by simp
  then have p: "page_of a (StartVa r) = (a - StartVa r) div PAGE_SIZE" by (rule page_of_small)
  show u: "unat (page_of a (StartVa r)) = (unat a - unat (StartVa r)) div 4096"
    by (simp add: p unat_div_distrib d)
  show c: "(unat a - unat (StartVa r)) div 4096 < unat (BitCount (CommitBitmap r))"
    using lt assms(1) by (simp add: res_ok_def less_mult_imp_div_less mult.commute)
  then have "unat (page_of a (StartVa r)) < 2 ^ 32" using u unat_lt_u32 [of "BitCount (CommitBitmap r)"] by simp
  then show "page_of a (StartVa r) \<le> 0xFFFFFFFF"
    and "unat (ucast (page_of a (StartVa r)) :: u32) = (unat a - unat (StartVa r)) div 4096"
    using u by (simp_all add: word_le_nat_alt unsigned_ucast_eq take_bit_nat_eq_self)
qed

lemma VmIsVaCommited_run:
  assumes "res_ok r" "in_reservation (unat a) r"
  shows "VmIsVaCommited r a = Some (committed_at r (unat a))"
proof -
  have "a \<noteq> 0" using assms by (auto simp: in_reservation_def res_ok_def unat_eq_0)
  moreover have "ucast (page_of a (StartVa r)) < BitCount (CommitBitmap r)"
    using page_in_reservation [OF assms] by (simp add: word_less_nat_alt)
  moreover have "bitmap_ok (CommitBitmap r)" using assms(1) by (simp add: res_ok_def)
  ultimately show ?thesis using page_in_reservation [OF assms]
    by (simp add: VmIsVaCommited_def BitmapGetBitValue_run committed_at_def)
qed

section \<open>Page faults\<close>

lemma shared_lock_restores:
  "l\<lparr>ActiveReaders := ActiveReaders l + 1 - 1\<rparr> = l" "(sp :: vm_space)\<lparr>ReservationLock := ReservationLock sp\<rparr> = sp"
  by simp_all

lemma find_byte:
  assumes "space_ok sp k" "a \<noteq> 0" "unat a < 2 ^ 64 - 1"
  obtains ro where "VmFindReservation sp a 1 = Some (if ro = None then STATUS_ELEMENT_NOT_FOUND else STATUS_SUCCESS, ro)"
    "reservation_at sp (unat a) = map_option (\<lambda>j. Reservations sp ! j) ro"
    "\<And>j. ro = Some j \<Longrightarrow> j < k \<and> j < length (Reservations sp) \<and> used_slot sp j \<and>
        res_ok (Reservations sp ! j) \<and> in_reservation (unat a) (Reservations sp ! j)"
proof -
  have s: "slots_ok sp k" using assms(1) by (simp add: space_ok_def)
  obtain ro where ro: "VmFindReservation sp a 1 = Some (if ro = None then STATUS_ELEMENT_NOT_FOUND else STATUS_SUCCESS, ro)"
    "first_hit sp 0 k a 1 ro" using VmFindReservation_run [OF s assms(2), of 1] by auto
  then show ?thesis using that [of ro] first_hit_byte [OF assms(1,3) ro(2)] by blast
qed

definition access_answer :: "vmm_reservation option \<Rightarrow> u64 \<Rightarrow> u32 \<Rightarrow> bool \<times> (u32 \<times> bool \<times> u64 \<times> u64) option" where
  "access_answer ro a rights = (case ro of None \<Rightarrow> (False, None)
   | Some r \<Rightarrow> if committed_at r (unat a) \<and> IsBooleanFlagOn (PageRights r) rights
       then (True, Some (PageRights r, Uncacheable r, BackingFile r,
         if BackingFile r \<noteq> 0 then AlignAddressLower (a - StartVa r) PAGE_SIZE else 0)) else (False, None))"

text \<open>C7: the page fault handler allows an access outside the metadata exactly when the address lies in a
  reservation, its page is committed and the rights of the reservation include the ones requested; it
  answers the attributes of that reservation and leaves the space and its lock as they were.\<close>

theorem page_fault_exact:
  assumes "space_ok sp k" "a \<noteq> 0" "unat a < 2 ^ 64 - 1"
    and "\<not> CHECK_BOUNDS a 1 (ReservationList sp) (ReservedAreaSize sp)"
  shows "VmReservationCanAddressBeAccessed sp cpu False a rights =
    Some (sp, False, access_answer (reservation_at sp (unat a)) a rights)"
proof -
  let ?l = "ReservationLock sp"
  have l: "RwSpinlockAcquire ?l False False = Some (?l\<lparr>ActiveReaders := ActiveReaders ?l + 1\<rparr>, False, False)"
    using assms(1) by (simp add: RwSpinlockAcquire_run space_ok_def)
  obtain ro where ro: "VmFindReservation sp a 1 = Some (if ro = None then STATUS_ELEMENT_NOT_FOUND else STATUS_SUCCESS, ro)"
    "reservation_at sp (unat a) = map_option (\<lambda>j. Reservations sp ! j) ro"
    "\<And>j. ro = Some j \<Longrightarrow> j < k \<and> j < length (Reservations sp) \<and> used_slot sp j \<and>
        res_ok (Reservations sp ! j) \<and> in_reservation (unat a) (Reservations sp ! j)"
    using find_byte [OF assms(1-3)] by blast
  show ?thesis
  proof (cases ro)
    case None
    then show ?thesis using ro(1,2) assms(2,4) l
      by (simp add: VmReservationCanAddressBeAccessed_def RwSpinlockRelease_run access_answer_def)
  next
    case (Some j)
    then show ?thesis using ro(1,2) ro(3) [OF Some] assms(2,4) l VmIsVaCommited_run [of "Reservations sp ! j" a]
      by (simp add: VmReservationCanAddressBeAccessed_def RwSpinlockRelease_run access_answer_def)
  qed
qed

section \<open>Buffers\<close>

text \<open>\<open>VmmIsBufferValid\<close> of \<open>vmm.c\<close>: whether a caller may use a buffer.\<close>

abbreviation (input) STATUS_MEMORY_PREVENTS_USERMODE_ACCESS :: STATUS where
  "STATUS_MEMORY_PREVENTS_USERMODE_ACCESS \<equiv> 0xE0100011"
abbreviation (input) STATUS_MEMORY_INSUFFICIENT_ACCESS_RIGHTS :: STATUS where
  "STATUS_MEMORY_INSUFFICIENT_ACCESS_RIGHTS \<equiv> 0xE0100012"

definition VmIsKernelAddress :: "u64 \<Rightarrow> bool" where
  "VmIsKernelAddress Address = IsBooleanFlagOn Address 0x800000000000"

definition VmIsKernelRange :: "u64 \<Rightarrow> u64 \<Rightarrow> bool option" where
  "VmIsKernelRange Address RangeSize = do {
     ASSERT (RangeSize \<noteq> 0);
     Some (VmIsKernelAddress Address \<or> VmIsKernelAddress (Address + (RangeSize - 1)))
   }"

definition VmmIsBufferValid ::
  "vm_space \<Rightarrow> bool \<Rightarrow> u64 \<Rightarrow> u64 \<Rightarrow> u32 \<Rightarrow> bool \<Rightarrow> (STATUS \<times> vm_space \<times> bool) option" where
  "VmmIsBufferValid sp intr Buffer sz RightsRequested KernelAccess = do {
     ASSERT (Buffer \<noteq> 0);
     ASSERT (sz \<noteq> 0);
     kernel \<leftarrow> (if KernelAccess then Some False else VmIsKernelRange Buffer sz);
     if kernel then Some (STATUS_MEMORY_PREVENTS_USERMODE_ACCESS, sp, intr)
     else do {
       r \<leftarrow> VmReservationReturnRightsForAddress sp intr Buffer sz;
       if \<not> SUCCEEDED (fst r) then Some (fst r, snd (snd r))
       else do {
         rightsGranted \<leftarrow> fst (snd r);
         Some (if \<not> IsBooleanFlagOn rightsGranted RightsRequested then STATUS_MEMORY_INSUFFICIENT_ACCESS_RIGHTS
           else STATUS_SUCCESS, snd (snd r))
       }
     }
   }"

lemma SUCCEEDED_status [simp]:
  "SUCCEEDED 0" "\<not> SUCCEEDED STATUS_ELEMENT_NOT_FOUND" "\<not> SUCCEEDED STATUS_MEMORY_IS_NOT_COMMITED"
  "\<not> SUCCEEDED STATUS_MEMORY_ALREADY_RESERVED" "\<not> SUCCEEDED STATUS_MEMORY_IS_NOT_RESERVED"
  by (simp_all add: SUCCEEDED_def)

text \<open>The pages that the loop looks at.\<close>

definition steps_committed :: "vmm_reservation \<Rightarrow> nat \<Rightarrow> nat \<Rightarrow> bool" where
  "steps_committed r a n \<longleftrightarrow> (\<forall>q. 4096 * q < n \<longrightarrow> committed_at r (a + 4096 * q))"

lemma all_Suc: "(\<forall>q. P q) \<longleftrightarrow> P 0 \<and> (\<forall>q. P (Suc q))"
  by (metis nat.exhaust)

lemma steps_committed_step:
  "0 < n \<Longrightarrow> steps_committed r a n \<longleftrightarrow> committed_at r a \<and> steps_committed r (a + 4096) (n - 4096)"
proof -
  assume n: "0 < n"
  have "(\<forall>q. 4096 * q < n \<longrightarrow> committed_at r (a + 4096 * q)) \<longleftrightarrow>
      committed_at r a \<and> (\<forall>q. 4096 * Suc q < n \<longrightarrow> committed_at r (a + 4096 * Suc q))"
    using all_Suc [of "\<lambda>q. 4096 * q < n \<longrightarrow> committed_at r (a + 4096 * q)"] n by simp
  then show ?thesis by (simp add: steps_committed_def less_diff_conv add.assoc add.commute)
qed

lemma commited_loop_run:
  assumes r: "res_ok r" "unat (StartVa r) \<le> unat a" "unat a + unat n \<le> unat (StartVa r) + unat (ReservationSize r)"
    and n: "unat n < 2 ^ 44 + 4096"
  shows "unat i \<le> unat n + 4096 \<Longrightarrow> commited_loop r a n i = Some (steps_committed r (unat a + unat i) (unat n - unat i))"
proof (induction "unat n - unat i" arbitrary: i rule: less_induct)
  case less
  show ?case
  proof (cases "i < n")
    case False
    then show ?thesis by (subst commited_loop.simps) (simp add: steps_committed_def word_less_nat_alt)
  next
    case True
    then have lt: "unat i < unat n" by (simp add: word_less_nat_alt)
    have ai: "unat (a + i) = unat a + unat i"
      using r lt by (intro unat_add_small) (auto simp: res_ok_def)
    then have "in_reservation (unat (a + i)) r" using r lt by (simp add: in_reservation_def)
    then have c: "VmIsVaCommited r (a + i) = Some (committed_at r (unat a + unat i))"
      using VmIsVaCommited_run [OF r(1)] ai by simp
    have ii: "unat (i + PAGE_SIZE) = unat i + 4096" using lt n by (simp add: unat_add_small)
    have "commited_loop r a n (i + PAGE_SIZE) =
        Some (steps_committed r (unat a + unat (i + PAGE_SIZE)) (unat n - unat (i + PAGE_SIZE)))"
      by (rule less.hyps) (use ii lt in simp_all)
    then show ?thesis using True c ii lt steps_committed_step [of "unat n - unat i" r "unat a + unat i"]
      by (subst commited_loop.simps) (auto simp: add.assoc)
  qed
qed

lemma steps_committed_aligned:
  assumes "res_ok r" "4096 dvd a" "unat (StartVa r) \<le> a"
  shows "steps_committed r a n \<longleftrightarrow> (\<forall>b. a \<le> b \<and> b < a + n \<longrightarrow> committed_at r b)"
proof -
  have "4096 dvd a - unat (StartVa r)" using assms by (simp add: res_ok_def dvd_diff_nat)
  then obtain m where m: "a - unat (StartVa r) = 4096 * m" by blast
  have page: "committed_at r b = committed_at r (a + 4096 * ((b - a) div 4096))" if "a \<le> b" for b
  proof -
    have "b - unat (StartVa r) = 4096 * m + (b - a)" using m that assms(3) by simp
    moreover have "a + 4096 * ((b - a) div 4096) - unat (StartVa r) = 4096 * (m + (b - a) div 4096)"
      using m assms(3) by (simp add: algebra_simps)
    ultimately show ?thesis by (simp only: committed_at_def) (simp add: div_mult_self1)
  qed
  show ?thesis
  proof
    assume s: "steps_committed r a n"
    show "\<forall>b. a \<le> b \<and> b < a + n \<longrightarrow> committed_at r b"
    proof (intro allI impI)
      fix b assume b: "a \<le> b \<and> b < a + n"
      have "4096 * ((b - a) div 4096) \<le> b - a" by simp
      then have "4096 * ((b - a) div 4096) < n" using b by linarith
      then show "committed_at r b" using s page [of b] b by (simp add: steps_committed_def)
    qed
  qed (simp add: steps_committed_def)
qed

lemma live_ok:
  assumes "space_ok sp k" "r \<in> set (live_reservations sp)"
  shows "res_ok r"
proof -
  have s: "slots_ok sp k" using assms(1) by (simp add: space_ok_def)
  then have "r \<in> set (take k (Reservations sp))" "ReservationState r = 1"
    using assms(2) by (simp_all add: live_reservations_take)
  then obtain i where "i < k" "r = Reservations sp ! i" "ReservationState r = 1"
    by (auto simp: in_set_conv_nth)
  then show ?thesis using assms(1) by (simp add: space_ok_def used_slot_def)
qed

definition reservation_of :: "vm_space \<Rightarrow> nat \<Rightarrow> nat \<Rightarrow> vmm_reservation option" where
  "reservation_of sp a n =
     List.find (\<lambda>r. unat (StartVa r) \<le> a \<and> a + n \<le> unat (StartVa r) + unat (ReservationSize r)) (live_reservations sp)"

lemma check_range:
  assumes "res_ok r" "unat a + unat n < 2 ^ 64"
  shows "CHECK_BOUNDS a n (StartVa r) (ReservationSize r) \<longleftrightarrow>
    unat (StartVa r) \<le> unat a \<and> unat a + unat n \<le> unat (StartVa r) + unat (ReservationSize r)"
  using assms by (auto simp: CHECK_BOUNDS_def res_ok_def word_le_nat_alt unat_add_small)

definition buffer_answer :: "vmm_reservation option \<Rightarrow> nat \<Rightarrow> nat \<Rightarrow> u32 \<Rightarrow> STATUS" where
  "buffer_answer ro a n rights = (case ro of None \<Rightarrow> STATUS_MEMORY_IS_NOT_COMMITED
   | Some r \<Rightarrow> if \<not> steps_committed r a n then STATUS_MEMORY_IS_NOT_COMMITED
       else if \<not> IsBooleanFlagOn (PageRights r) rights then STATUS_MEMORY_INSUFFICIENT_ACCESS_RIGHTS
       else STATUS_SUCCESS)"

lemma ReturnRights_run:
  assumes "space_ok sp k" "a \<noteq> 0" "n \<noteq> 0" "unat a + unat n < 2 ^ 64"
  shows "VmReservationReturnRightsForAddress sp intr a n = Some (case reservation_of sp (unat a) (unat n) of
      None \<Rightarrow> (STATUS_MEMORY_IS_NOT_COMMITED, None, sp, intr)
    | Some r \<Rightarrow> (if steps_committed r (unat a) (unat n) then STATUS_SUCCESS else STATUS_MEMORY_IS_NOT_COMMITED,
        Some (PageRights r), sp, intr))"
proof -
  let ?l = "ReservationLock sp"
  let ?P = "\<lambda>r. unat (StartVa r) \<le> unat a \<and> unat a + unat n \<le> unat (StartVa r) + unat (ReservationSize r)"
  have l: "RwSpinlockAcquire ?l intr False = Some (?l\<lparr>ActiveReaders := ActiveReaders ?l + 1\<rparr>, False, intr)"
    using assms(1) by (simp add: RwSpinlockAcquire_run space_ok_def)
  have s: "slots_ok sp k" using assms(1) by (simp add: space_ok_def)
  obtain ro where ro: "VmFindReservation sp a n = Some (if ro = None then STATUS_ELEMENT_NOT_FOUND else STATUS_SUCCESS, ro)"
    "first_hit sp 0 k a n ro" using VmFindReservation_run [OF s assms(2,3)] by blast
  have P: "CHECK_BOUNDS a n (StartVa r) (ReservationSize r) \<longleftrightarrow> ?P r" if "res_ok r" for r
    using check_range [OF that assms(4)] .
  note f = first_hit_find [OF assms(1) ro(2) P]
  show ?thesis
  proof (cases ro)
    case None
    then have "reservation_of sp (unat a) (unat n) = None" using f(1) by (simp add: reservation_of_def)
    then show ?thesis using None ro(1) assms(2,3) l
      by (simp add: VmReservationReturnRightsForAddress_def RwSpinlockRelease_run)
  next
    case (Some j)
    let ?r = "Reservations sp ! j"
    have r: "j < length (Reservations sp)" "res_ok ?r" "?P ?r" using f(2) [OF _ Some] by simp_all
    have "unat n < 2 ^ 44 + 4096" using r(3) res_ok_size [OF r(2)] by auto
    then have c: "commited_loop ?r a n 0 = Some (steps_committed ?r (unat a) (unat n))"
      using commited_loop_run [OF r(2), of a n 0] r(3) by simp
    have "reservation_of sp (unat a) (unat n) = Some ?r" using f(1) Some by (simp add: reservation_of_def)
    then show ?thesis using Some ro(1) r(1) c assms(2,3) l
      by (simp add: VmReservationReturnRightsForAddress_def RwSpinlockRelease_run)
  qed
qed

lemma kernel_range_no_wrap:
  assumes "n \<noteq> 0"
  shows "VmIsKernelRange a n = Some (VmIsKernelAddress a \<or> VmIsKernelAddress (a + (n - 1)))"
  using assms by (simp add: VmIsKernelRange_def)

text \<open>C10: for a buffer that starts at a page and does not reach behind the end of the address space the
  check succeeds exactly when one reservation contains the buffer, every byte of it is committed and the
  rights of the reservation include the ones requested; a caller from user mode is refused when an end of
  the buffer is a kernel address; the space, its lock and the interrupt flag are as before.\<close>

theorem buffer_valid_exact:
  assumes "space_ok sp k" "a \<noteq> 0" "n \<noteq> 0" "unat a + unat n < 2 ^ 64" "4096 dvd unat a"
  shows "VmmIsBufferValid sp intr a n rights KernelAccess = Some (
      if \<not> KernelAccess \<and> (VmIsKernelAddress a \<or> VmIsKernelAddress (a + (n - 1)))
      then STATUS_MEMORY_PREVENTS_USERMODE_ACCESS
      else case reservation_of sp (unat a) (unat n) of
        None \<Rightarrow> STATUS_MEMORY_IS_NOT_COMMITED
      | Some r \<Rightarrow>
          if \<not> (\<forall>b. unat a \<le> b \<and> b < unat a + unat n \<longrightarrow> committed_at r b) then STATUS_MEMORY_IS_NOT_COMMITED
          else if \<not> IsBooleanFlagOn (PageRights r) rights then STATUS_MEMORY_INSUFFICIENT_ACCESS_RIGHTS
          else STATUS_SUCCESS, sp, intr)"
proof -
  have k: "(if KernelAccess then Some False else VmIsKernelRange a n) =
      Some (\<not> KernelAccess \<and> (VmIsKernelAddress a \<or> VmIsKernelAddress (a + (n - 1))))"
    by (simp add: kernel_range_no_wrap [OF assms(3)])
  show ?thesis
  proof (cases "reservation_of sp (unat a) (unat n)")
    case None
    then show ?thesis using k ReturnRights_run [OF assms(1-4), of intr] assms(2,3)
      by (simp add: VmmIsBufferValid_def)
  next
    case (Some r)
    then have r: "r \<in> set (live_reservations sp)" "unat (StartVa r) \<le> unat a"
      by (auto simp: reservation_of_def find_Some_iff)
    have "res_ok r" using r(1) assms(1) by (rule live_ok [rotated])
    then have "steps_committed r (unat a) (unat n) \<longleftrightarrow> (\<forall>b. unat a \<le> b \<and> b < unat a + unat n \<longrightarrow> committed_at r b)"
      using assms(5) r(2) by (rule steps_committed_aligned)
    then show ?thesis using Some k ReturnRights_run [OF assms(1-4), of intr] assms(2,3)
      by (cases "steps_committed r (unat a) (unat n)") (simp_all add: VmmIsBufferValid_def)
  qed
qed

section \<open>Buffers that reach behind the end of the address space\<close>

lemma user_address:
  assumes "unat v < 2 ^ 47"
  shows "\<not> VmIsKernelAddress v"
proof
  assume "VmIsKernelAddress v"
  then have "v AND 2 ^ 47 = 2 ^ 47" by (simp add: VmIsKernelAddress_def IsBooleanFlagOn_def)
  then have "bit (v AND 2 ^ 47) 47" by (simp add: bit_exp_iff)
  then have "bit v 47" by (simp only: bit_and_iff)
  then have "odd (v div 2 ^ 47)" by (rule iffD1 [OF bit_iff_odd])
  moreover have "unat (v div 2 ^ 47) = 0" using assms by (simp add: unat_div_distrib)
  ultimately show False by (simp add: unat_eq_0)
qed

lemma not_committed_behind:
  assumes "res_ok r" "unat (StartVa r) + unat (ReservationSize r) \<le> unat a" "unat a < 2 ^ 48"
  shows "VmIsVaCommited r a = None"
proof -
  have le: "StartVa r \<le> a" using assms(2) by (simp add: word_le_nat_alt)
  then have d: "unat (a - StartVa r) = unat a - unat (StartVa r)" by (rule unat_sub_small)
  then have "unat (a - StartVa r) < 2 ^ 63" using assms(3) by simp
  then have p: "unat (page_of a (StartVa r)) = (unat a - unat (StartVa r)) div 4096"
    by (simp add: page_of_small unat_div_distrib d)
  have "unat (BitCount (CommitBitmap r)) * 4096 \<le> unat a - unat (StartVa r)"
    using assms(1,2) by (simp add: res_ok_def mult.commute)
  then have b: "unat (BitCount (CommitBitmap r)) \<le> (unat a - unat (StartVa r)) div 4096"
    by (simp add: less_eq_div_iff_mult_less_eq)
  show ?thesis
  proof (cases "page_of a (StartVa r) \<le> 0xFFFFFFFF")
    case True
    then have "unat (ucast (page_of a (StartVa r)) :: u32) = unat (page_of a (StartVa r))"
      by (simp add: word_le_nat_alt unsigned_ucast_eq take_bit_nat_eq_self)
    then have "\<not> ucast (page_of a (StartVa r)) < BitCount (CommitBitmap r)"
      using b p by (simp add: word_less_nat_alt)
    then show ?thesis by (simp add: VmIsVaCommited_def BitmapGetBitValue_def ASSERT_def)
  qed (simp add: VmIsVaCommited_def)
qed

lemma commited_loop_stops:
  assumes r: "res_ok r" "unat (StartVa r) \<le> unat a" "unat (StartVa r) + unat (ReservationSize r) \<le> 2 ^ 47"
    and all: "\<And>b. in_reservation b r \<Longrightarrow> committed_at r b" and n: "2 ^ 63 \<le> unat n"
  shows "unat a + unat i < unat (StartVa r) + unat (ReservationSize r) + 4096 \<Longrightarrow> commited_loop r a n i = None"
proof (induction "unat (StartVa r) + unat (ReservationSize r) + 4096 - (unat a + unat i)" arbitrary: i rule: less_induct)
  case less
  have lt: "unat a + unat i < 2 ^ 47 + 4096" using less.prems r(3) by linarith
  then have ai: "unat (a + i) = unat a + unat i" by (intro unat_add_small) simp
  have i: "i < n" using lt n by (simp add: word_less_nat_alt)
  show ?case
  proof (cases "unat a + unat i < unat (StartVa r) + unat (ReservationSize r)")
    case True
    then have "in_reservation (unat (a + i)) r" using ai r(2) by (simp add: in_reservation_def)
    then have c: "VmIsVaCommited r (a + i) = Some True" using VmIsVaCommited_run [OF r(1)] all by simp
    have ii: "unat (i + PAGE_SIZE) = unat i + 4096" using lt by (simp add: unat_add_small)
    have "commited_loop r a n (i + PAGE_SIZE) = None" by (rule less.hyps) (use ii True in simp_all)
    then show ?thesis using i c by (subst commited_loop.simps) simp
  next
    case False
    have "VmIsVaCommited r (a + i) = None" by (rule not_committed_behind [OF r(1)]) (use False ai lt in simp_all)
    then show ?thesis using i by (subst commited_loop.simps) simp
  qed
qed

text \<open>C11: a caller from user mode stops the system with a buffer whose size takes its end around the address
  space back to the first page: both ends are user addresses, the range test wraps and accepts the first
  reservation that starts at or below the buffer, and the loop over its committed pages runs into the
  assertion of the bitmap.\<close>

theorem buffer_check_stops_system:
  assumes "space_ok sp k" "List.find (\<lambda>r. unat (StartVa r) \<le> unat a) (live_reservations sp) = Some r"
    and "in_reservation (unat a) r" "\<And>b. in_reservation b r \<Longrightarrow> committed_at r b"
    and "unat (StartVa r) + unat (ReservationSize r) \<le> 2 ^ 47" "0 < w" "w < 0x1000"
  shows "VmmIsBufferValid sp intr a (w - a) rights False = None"
proof -
  have rl: "r \<in> set (live_reservations sp)" using assms(2) by (auto simp: find_Some_iff)
  then have r: "res_ok r" using assms(1) by (rule live_ok [rotated])
  have "0 < unat (StartVa r)" "4096 dvd unat (StartVa r)" using r by (simp_all add: res_ok_def unat_gt_0)
  then have "4096 \<le> unat (StartVa r)" by (rule dvd_imp_le [rotated])
  then have a: "4096 \<le> unat a" "unat a < 2 ^ 47" "a \<noteq> 0"
    using assms(3,5) by (auto simp: in_reservation_def)
  have w: "0 < unat w" "unat w < 4096" using assms(6,7) by (simp_all add: word_less_nat_alt)
  let ?n = "w - a"
  have n: "unat ?n = 2 ^ 64 + unat w - unat a"
    using a(1) w(2) unat_sub_if_size [of w a] by (simp add: word_size)
  then have n63: "2 ^ 63 \<le> unat ?n" and n0: "?n \<noteq> 0" using a(2) by (auto simp: unat_eq_0 [symmetric])
  have "a + (?n - 1) = w - 1" by simp
  moreover have "unat (w - 1) < 2 ^ 47" using w unat_sub_small [of 1 w] by (simp add: word_le_nat_alt)
  ultimately have k: "VmIsKernelRange a ?n = Some False"
    using user_address a(2) by (simp add: kernel_range_no_wrap [OF n0])
  have P: "CHECK_BOUNDS a ?n (StartVa q) (ReservationSize q) \<longleftrightarrow> unat (StartVa q) \<le> unat a" if "res_ok q" for q
  proof -
    have "unat (StartVa q + ReservationSize q) = unat (StartVa q) + unat (ReservationSize q)"
      using that by (simp add: res_ok_def unat_add_small)
    then have "w \<le> StartVa q + ReservationSize q"
      using w(2) res_ok_size [OF that] by (simp add: word_le_nat_alt)
    then show ?thesis by (simp add: CHECK_BOUNDS_def word_le_nat_alt)
  qed
  have s: "slots_ok sp k" using assms(1) by (simp add: space_ok_def)
  obtain ro where ro: "VmFindReservation sp a ?n = Some (if ro = None then STATUS_ELEMENT_NOT_FOUND else STATUS_SUCCESS, ro)"
    "first_hit sp 0 k a ?n ro" using VmFindReservation_run [OF s a(3) n0] by blast
  note f = first_hit_find [OF assms(1) ro(2) P]
  obtain j where j: "ro = Some j" "Reservations sp ! j = r" using f(1) assms(2) by (cases ro) auto
  have c: "commited_loop r a ?n 0 = None"
    by (rule commited_loop_stops [OF r _ assms(5,4) n63]) (use assms(3) in \<open>auto simp: in_reservation_def\<close>)
  have "VmReservationReturnRightsForAddress sp intr a ?n = None"
    using ro(1) j f(2) [OF _ j(1)] a(3) n0 c by (simp add: VmReservationReturnRightsForAddress_def)
  then show ?thesis using k a(3) n0 by (simp add: VmmIsBufferValid_def)
qed

section \<open>New reservations\<close>

definition is_res :: "u64 \<Rightarrow> u64 \<Rightarrow> u32 \<Rightarrow> bool \<Rightarrow> u64 \<Rightarrow> bool \<Rightarrow> vmm_reservation \<Rightarrow> bool" where
  "is_res addr sz rights unc file c r \<longleftrightarrow> res_ok r \<and> ReservationState r = VmmReservationStateUsed \<and> StartVa r = addr \<and>
     ReservationSize r = sz \<and> PageRights r = rights \<and> Uncacheable r = unc \<and> BackingFile r = file \<and>
     bits (CommitBitmap r) = replicate (unat sz div 4096) c"

text \<open>What stays the same when only the slots change.\<close>

lemma set_slot_run: "i < length (Reservations sp) \<Longrightarrow> set_slot sp i f = Some (sp\<lparr>Reservations := (Reservations sp)[i := f (Reservations sp ! i)]\<rparr>)"
  by (simp add: set_slot_def)

lemma slot_address_upd [simp]:
  "slot_address (sp\<lparr>Reservations := rs\<rparr>) i = slot_address sp i"
  "slot_address (sp\<lparr>FreeBitmapAddress := v\<rparr>) i = slot_address sp i"
  "slot_address (sp\<lparr>ReservationLock := l\<rparr>) i = slot_address sp i"
  "slot_address (sp\<lparr>FreeVirtualAddressPointer := p\<rparr>) i = slot_address sp i"
  by (simp_all add: slot_address_def)

text \<open>The slot that a search for a free one yields, and the number of slots in front of the last one.\<close>

definition takes_slot :: "vm_space \<Rightarrow> nat \<Rightarrow> vm_space \<Rightarrow> nat \<Rightarrow> nat \<Rightarrow> bool" where
  "takes_slot sp k sp1 k1 j \<longleftrightarrow> j < k1 \<and> k1 < length (Reservations sp) \<and> slots_ok sp1 k1 \<and> \<not> used_slot sp1 j \<and>
     length (Reservations sp1) = length (Reservations sp) \<and> sp1 = sp\<lparr>Reservations := Reservations sp1\<rparr> \<and>
     (\<forall>i. i < k1 \<and> used_slot sp1 i \<longleftrightarrow> i < k \<and> used_slot sp i) \<and>
     (\<forall>i. i < k \<and> used_slot sp i \<longrightarrow> Reservations sp1 ! i = Reservations sp ! i)"

lemma free_reservation_loop_run:
  assumes "slots_ok sp k" "Suc k < length (Reservations sp)" "i \<le> k"
  shows "\<exists>sp1 k1 j. free_reservation_loop sp i = Some (sp1, Some j) \<and> takes_slot sp k sp1 k1 j"
  using assms(3)
proof (induction "k - i" arbitrary: i)
  case 0
  then have i: "i = k" by simp
  let ?rs = "Reservations sp"
  let ?r0 = "(?rs ! k)\<lparr>ReservationState := 0\<rparr>" and ?r1 = "(?rs ! Suc k)\<lparr>ReservationState := 2\<rparr>"
  let ?sp1 = "sp\<lparr>Reservations := ?rs[k := ?r0, Suc k := ?r1]\<rparr>"
  have s: "slot_address sp k < BitmapAddressStart sp" "ReservationState (?rs ! k) = 2" "k < length ?rs"
    using assms(1) by (auto simp: slots_ok_def)
  have loop: "free_reservation_loop sp k = Some (?sp1, Some k)"
    using s assms(2) by (subst free_reservation_loop.simps) (simp add: set_slot_run)
  have "slots_ok ?sp1 (Suc k)" using assms(1,2) by (auto simp: slots_ok_def nth_list_update less_Suc_eq)
  then have "takes_slot sp k ?sp1 (Suc k) k"
    using assms(2) s by (auto simp: takes_slot_def used_slot_def nth_list_update less_Suc_eq)
  then show ?case using loop i by blast
next
  case (Suc d)
  then have i: "i < k" "d = k - Suc i" "Suc i \<le> k" by simp_all
  have s: "slot_address sp i < BitmapAddressStart sp" "i < length (Reservations sp)"
    "ReservationState (Reservations sp ! i) = 0 \<or> ReservationState (Reservations sp ! i) = 1"
    using assms(1) i by (auto simp: slots_ok_def)
  show ?case
  proof (cases "ReservationState (Reservations sp ! i) = 0")
    case True
    then have "free_reservation_loop sp i = Some (sp, Some i)"
      using s by (subst free_reservation_loop.simps) simp
    moreover have "takes_slot sp k sp k i" using assms(1) i True by (auto simp: takes_slot_def used_slot_def slots_ok_def)
    ultimately show ?thesis by blast
  next
    case False
    then have "free_reservation_loop sp i = free_reservation_loop sp (Suc i)"
      using s by (subst free_reservation_loop.simps) auto
    then show ?thesis using Suc.hyps(1) [OF i(2,3)] by simp
  qed
qed

lemma aligned_dvd: "IsAddressAligned a PAGE_SIZE \<longleftrightarrow> 4096 dvd unat a"
  using IsAddressAligned_iff [of a 12] by simp

lemma bitmap_room:
  assumes "4096 dvd unat sz" "unat sz < 2 ^ 44" "0 < unat sz"
  obtains p where "BitmapPreinit (Some b) (ucast (sz div PAGE_SIZE)) = Some (p, BufferSize p)"
    "BitCount p = ucast (sz div PAGE_SIZE)" "unat (BitCount p) = unat sz div 4096"
    "unat (BufferSize p) = (unat sz div 4096 + 7) div 8" "0 < unat sz div 4096"
    "unat (AlignAddressUpper (ucast (BufferSize p)) PAGE_SIZE) = (unat (BufferSize p) + 4095) div 4096 * 4096"
proof -
  have pg: "unat (sz div PAGE_SIZE) = unat sz div 4096" by (simp add: unat_div_distrib)
  have lt: "unat sz div 4096 < 2 ^ 32" using assms(2) by (simp add: div_less_iff_less_mult)
  have c: "unat (ucast (sz div PAGE_SIZE) :: u32) = unat sz div 4096"
    using lt by (simp add: unsigned_ucast_eq take_bit_nat_eq_self pg)
  have pos: "0 < unat sz div 4096" using assms(1,3) by (simp add: dvd_imp_le div_greater_zero_iff)
  then have "(ucast (sz div PAGE_SIZE) :: u32) \<noteq> 0" using c by (auto simp: unat_eq_0 [symmetric])
  then obtain p where p: "BitmapPreinit (Some b) (ucast (sz div PAGE_SIZE)) = Some (p, BufferSize p)"
    "BitCount p = ucast (sz div PAGE_SIZE)" "unat (BufferSize p) = (unat sz div 4096 + 7) div 8"
    using BitmapPreinit_run c by metis
  have u: "unat (ucast (BufferSize p) :: u64) = unat (BufferSize p)" by (rule unat_ucast_up)
  have "unat (AlignAddressUpper (ucast (BufferSize p)) (2 ^ 12)) = (unat (BufferSize p) + 4095) div 4096 * 4096"
    using unat_AlignAddressUpper [of "ucast (BufferSize p)" 12] u unat_lt_u32 [of "BufferSize p"] by simp
  then show ?thesis using that [OF p(1,2) _ p(3) pos] c p(2) by simp
qed

text \<open>The room that the buffer of the bitmap of a reservation takes.\<close>

definition buffer_room :: "nat \<Rightarrow> nat" where
  "buffer_room sz = ((sz div 4096 + 7) div 8 + 4095) div 4096 * 4096"

definition bitmap_fits :: "vm_space \<Rightarrow> nat \<Rightarrow> bool" where
  "bitmap_fits sp sz \<longleftrightarrow> unat (ReservationList sp) \<le> unat (FreeBitmapAddress sp) \<and>
     unat (FreeBitmapAddress sp) + buffer_room sz \<le> unat (ReservationList sp) + unat (ReservedAreaSize sp) \<and>
     unat (ReservationList sp) + unat (ReservedAreaSize sp) < 2 ^ 64"

lemma VmInitializeReservation_run:
  assumes a: "addr \<noteq> 0" "4096 dvd unat addr" "unat addr + unat sz < 2 ^ 64"
    and sz: "4096 dvd unat sz" "unat sz < 2 ^ 44" "0 < unat sz"
    and fits: "bitmap_fits sp (unat sz)" "IsAddressAligned (FreeBitmapAddress sp) PAGE_SIZE" and j: "j < length (Reservations sp)"
  shows "\<exists>r v. VmInitializeReservation sp addr sz rights unc file j =
      Some (sp\<lparr>Reservations := (Reservations sp)[j := r], FreeBitmapAddress := v\<rparr>) \<and>
    is_res addr sz rights unc file False r \<and> IsAddressAligned v PAGE_SIZE"
proof -
  obtain p where p: "BitmapPreinit (Some (CommitBitmap (Reservations sp ! j))) (ucast (sz div PAGE_SIZE)) = Some (p, BufferSize p)"
    "BitCount p = ucast (sz div PAGE_SIZE)" "unat (BitCount p) = unat sz div 4096"
    "unat (BufferSize p) = (unat sz div 4096 + 7) div 8" "0 < unat sz div 4096"
    "unat (AlignAddressUpper (ucast (BufferSize p)) PAGE_SIZE) = (unat (BufferSize p) + 4095) div 4096 * 4096"
    using bitmap_room [OF sz] by metis
  let ?up = "AlignAddressUpper (ucast (BufferSize p)) PAGE_SIZE"
  have up: "unat ?up = buffer_room (unat sz)" using p(4,6) by (simp add: buffer_room_def)
  have bs: "unat (BufferSize p) \<le> unat ?up"
  proof -
    have "unat (BufferSize p) + 4095 - (unat (BufferSize p) + 4095) mod 4096 = unat ?up"
      using p(6) by (simp add: minus_mod_eq_div_mult)
    moreover have "(unat (BufferSize p) + 4095) mod 4096 \<le> 4095" by simp
    ultimately show ?thesis by linarith
  qed
  have c0: "BitCount p \<noteq> 0" using p(3,5) by (auto simp: unat_eq_0 [symmetric])
  have sum: "unat (FreeBitmapAddress sp + ?up) = unat (FreeBitmapAddress sp) + buffer_room (unat sz)"
    using fits(1) up by (simp add: bitmap_fits_def unat_add_small)
  have bounds: "CHECK_BOUNDS (FreeBitmapAddress sp) ?up (ReservationList sp) (ReservedAreaSize sp)"
    using fits(1) sum by (simp add: bitmap_fits_def CHECK_BOUNDS_def word_le_nat_alt unat_add_small)
  have al: "IsAddressAligned (FreeBitmapAddress sp + ?up) PAGE_SIZE"
    using fits(2) sum by (simp add: aligned_dvd buffer_room_def)
  have "unat (BufferSize p) = (unat (BitCount p) + 7) div 8" using p(3,4) by simp
  then obtain b where b: "BitmapInitEx (Some p) (Some (replicate (unat ?up) 0)) False = Some b" "bitmap_ok b"
    "BitCount b = BitCount p" "bits b = replicate (unat (BitCount p)) False"
    using BitmapInitEx_run [OF c0, of "replicate (unat ?up) 0" False] bs by auto
  let ?r = "\<lparr>StartVa = addr, ReservationSize = sz, PageRights = rights, ReservationState = 1, Uncacheable = unc,
    BackingFile = file, CommitBitmap = b, CommitBuffer = FreeBitmapAddress sp\<rparr>"
  have r: "is_res addr sz rights unc file False ?r"
    using a sz(1) b p(3) fits(2) by (simp add: is_res_def res_ok_def)
  have "sz div PAGE_SIZE \<le> 0xFFFFFFFF"
    using sz(2) by (simp add: word_le_nat_alt unat_div_distrib)
  moreover have "BufferSize p \<noteq> 0" using p(4,5) by (auto simp: unat_eq_0 [symmetric])
  then have "(ucast (BufferSize p) :: u64) \<noteq> 0" by (simp add: unat_eq_0 [symmetric] unat_ucast_up)
  moreover have "sz \<noteq> 0" using sz(3) by auto
  ultimately have "VmInitializeReservation sp addr sz rights unc file j =
      Some (sp\<lparr>Reservations := (Reservations sp)[j := ?r], FreeBitmapAddress := FreeBitmapAddress sp + ?up\<rparr>)"
    using a(1,2) sz(1) j p(1) b(1) fits(2) bounds
    by (simp add: VmInitializeReservation_def aligned_dvd set_slot_run)
  then show ?thesis using r al by blast
qed

section \<open>The view of the address space\<close>

definition owner :: "vm_space \<Rightarrow> nat \<Rightarrow> nat \<Rightarrow> nat \<Rightarrow> bool" where
  "owner sp k a i \<longleftrightarrow> i < k \<and> used_slot sp i \<and> in_reservation a (Reservations sp ! i)"

definition vm_inv :: "vm_space \<Rightarrow> nat \<Rightarrow> bool" where
  "vm_inv sp k \<longleftrightarrow> space_ok sp k \<and> (\<forall>i j a. owner sp k a i \<and> owner sp k a j \<longrightarrow> i = j) \<and>
     (\<forall>i a. owner sp k a i \<longrightarrow> a < unat (FreeVirtualAddressPointer sp)) \<and>
     4096 dvd unat (FreeVirtualAddressPointer sp) \<and> FreeVirtualAddressPointer sp \<noteq> 0"

lemma reservation_at_owner:
  assumes "vm_inv sp k" "owner sp k a i"
  shows "reservation_at sp a = Some (Reservations sp ! i)"
proof -
  have s: "slots_ok sp k" using assms(1) by (simp add: vm_inv_def space_ok_def)
  then have k: "k < length (Reservations sp)" by (simp add: slots_ok_def)
  let ?P = "\<lambda>r. ReservationState r = 1 \<and> in_reservation a r"
  have o: "owner sp k a j \<longleftrightarrow> j < k \<and> ?P (Reservations sp ! j)" for j by (auto simp: owner_def used_slot_def)
  have "i < k" "?P (Reservations sp ! i)" using assms(2) o by simp_all
  moreover have "\<forall>j < i. \<not> ?P (Reservations sp ! j)"
    using assms o [of i] o by (auto simp: vm_inv_def) (metis less_irrefl less_trans)
  ultimately have "List.find ?P (take k (Reservations sp)) = Some (Reservations sp ! i)"
    using k by (auto simp: find_Some_iff intro!: exI [of _ i])
  then show ?thesis by (simp add: reservation_at_def live_reservations_take [OF s] find_filter)
qed

lemma reservation_at_none:
  assumes "slots_ok sp k" "\<And>i. \<not> owner sp k a i"
  shows "reservation_at sp a = None"
proof -
  have "\<not> (ReservationState r = 1 \<and> in_reservation a r)" if "r \<in> set (take k (Reservations sp))" for r
    using that assms(2) by (auto simp: in_set_conv_nth owner_def used_slot_def)
  then have "List.find (\<lambda>r. ReservationState r = 1 \<and> in_reservation a r) (take k (Reservations sp)) = None"
    by (simp add: find_None_iff)
  then show ?thesis by (simp add: reservation_at_def live_reservations_take [OF assms(1)] find_filter)
qed

text \<open>A slot \<open>j\<close> has been changed to \<open>new\<close>: what the address space looks like then.\<close>

lemma view_update:
  assumes "vm_inv sp k" "vm_inv sp' k'"
    and o: "\<And>a i. owner sp' k' a i \<longleftrightarrow> (if i = j then live \<and> in_reservation a new else owner sp k a i)"
    and n: "live \<Longrightarrow> Reservations sp' ! j = new" "\<And>i a. i \<noteq> j \<Longrightarrow> owner sp k a i \<Longrightarrow> Reservations sp' ! i = Reservations sp ! i"
  shows "reservation_at sp' a = (if live \<and> in_reservation a new then Some new
    else if owner sp k a j then None else reservation_at sp a)"
proof (cases "live \<and> in_reservation a new")
  case True
  then have "owner sp' k' a j" using o by simp
  then show ?thesis using reservation_at_owner [OF assms(2)] n(1) True by simp
next
  case False
  have s: "slots_ok sp k" "slots_ok sp' k'" using assms(1,2) by (simp_all add: vm_inv_def space_ok_def)
  show ?thesis
  proof (cases "\<exists>i. owner sp k a i")
    case True
    then obtain i where i: "owner sp k a i" by blast
    show ?thesis
    proof (cases "i = j")
      case True
      then have "\<not> owner sp' k' a l" for l using o [of a l] i assms(1) False by (auto simp: vm_inv_def)
      then show ?thesis using reservation_at_none [OF s(2)] i True False by simp
    next
      case ij: False
      then have "owner sp' k' a i" using o i by simp
      moreover have "\<not> owner sp k a j" using i ij assms(1) by (auto simp: vm_inv_def)
      ultimately show ?thesis
        using reservation_at_owner [OF assms(2)] reservation_at_owner [OF assms(1) i] n(2) [OF ij i] False by auto
    qed
  next
    case none: False
    then have "\<not> owner sp' k' a l" for l using o [of a l] False by auto
    then show ?thesis
      using reservation_at_none [OF s(2)] reservation_at_none [OF s(1)] none False by simp
  qed
qed

section \<open>Allocation\<close>

lemma change_commit_whole:
  assumes "is_res addr sz rights unc file c r" "0 < unat sz"
  shows "\<exists>r'. change_commit True addr sz r = Some r' \<and> is_res addr sz rights unc file True r'"
proof -
  have r: "res_ok r" "StartVa r = addr" "ReservationSize r = sz" "bits (CommitBitmap r) = replicate (unat sz div 4096) c"
    using assms(1) by (simp_all add: is_res_def)
  have n: "unat (BitCount (CommitBitmap r)) = unat sz div 4096"
    using r(1,3) unfolding res_ok_def by (metis nonzero_mult_div_cancel_left zero_neq_numeral)
  have pg: "unat (sz div PAGE_SIZE) = unat sz div 4096" by (simp add: unat_div_distrib)
  have lt: "unat sz div 4096 < 2 ^ 32" using n unat_lt_u32 [of "BitCount (CommitBitmap r)"] by simp
  then have c: "unat (ucast (sz div PAGE_SIZE) :: u32) = unat sz div 4096"
    by (simp add: unsigned_ucast_eq take_bit_nat_eq_self pg)
  have p0: "page_of addr (StartVa r) = 0" by (simp add: r(2) page_of_small)
  have al: "IsAddressAligned addr PAGE_SIZE" "IsAddressAligned sz PAGE_SIZE" "addr \<noteq> 0"
    using r by (auto simp: res_ok_def aligned_dvd) (metis dvd_triv_left)
  have ok: "bitmap_ok (CommitBitmap r)" using r(1) by (simp add: res_ok_def)
  then obtain b where b: "BitmapSetBitsValue (Some (CommitBitmap r)) 0 (ucast (sz div PAGE_SIZE)) True = Some b"
    "bitmap_ok b" "BitCount b = BitCount (CommitBitmap r)"
    "bits b = take (unat (0 :: u32)) (bits (CommitBitmap r)) @ replicate (unat sz div 4096) True @
       drop (unat (0 :: u32) + unat sz div 4096) (bits (CommitBitmap r))"
    using BitmapSetBitsValue_run [of "CommitBitmap r" 0 "ucast (sz div PAGE_SIZE)" True] n c
    by (auto simp: bitmap_ok_def)
  have "sz div PAGE_SIZE \<le> 0xFFFFFFFF" using lt by (simp add: word_le_nat_alt pg)
  moreover have "sz \<noteq> 0" using assms(2) by auto
  ultimately have "change_commit True addr sz r = Some (r\<lparr>CommitBitmap := b\<rparr>)"
    using al p0 b(1) by (simp add: change_commit_def)
  moreover have "is_res addr sz rights unc file True (r\<lparr>CommitBitmap := b\<rparr>)"
    using assms(1) b(2-4) r(4) by (auto simp: is_res_def res_ok_def)
  ultimately show ?thesis by blast
qed

text \<open>The whole of the reservations is below the free pointer, so nothing contains a range from there on.\<close>

lemma below_free:
  assumes "vm_inv sp k" "i < k" "used_slot sp i"
  shows "unat (StartVa (Reservations sp ! i)) + unat (ReservationSize (Reservations sp ! i)) \<le> unat (FreeVirtualAddressPointer sp)"
proof -
  let ?r = "Reservations sp ! i"
  have r: "res_ok ?r" using assms by (simp add: vm_inv_def space_ok_def)
  let ?a = "unat (StartVa ?r) + unat (ReservationSize ?r) - 1"
  have "owner sp k ?a i" using assms(2,3) conjunct2 [OF res_ok_size [OF r]] by (simp add: owner_def in_reservation_def)
  then have "?a < unat (FreeVirtualAddressPointer sp)" using assms(1) unfolding vm_inv_def by blast
  then show ?thesis by linarith
qed

lemma not_hit_free:
  assumes "vm_inv sp k" "i < k" "0 < unat n" "unat (FreeVirtualAddressPointer sp) + unat n < 2 ^ 64"
  shows "\<not> hit sp (FreeVirtualAddressPointer sp) n i"
proof
  assume h: "hit sp (FreeVirtualAddressPointer sp) n i"
  then have u: "used_slot sp i" by (simp add: hit_def)
  then have r: "res_ok (Reservations sp ! i)" using assms(1,2) by (simp add: vm_inv_def space_ok_def)
  show False using h check_range [OF r assms(4)] below_free [OF assms(1,2) u] assms(3) by (simp add: hit_def)
qed

lemma slots_ok_fields:
  "slots_ok (sp\<lparr>ReservationLock := l\<rparr>) k = slots_ok sp k" "used_slot (sp\<lparr>ReservationLock := l\<rparr>) i = used_slot sp i"
  "slots_ok (sp\<lparr>FreeBitmapAddress := v\<rparr>) k = slots_ok sp k" "used_slot (sp\<lparr>FreeBitmapAddress := v\<rparr>) i = used_slot sp i"
  "slots_ok (sp\<lparr>FreeVirtualAddressPointer := p\<rparr>) k = slots_ok sp k"
  "used_slot (sp\<lparr>FreeVirtualAddressPointer := p\<rparr>) i = used_slot sp i"
  by (simp_all add: slots_ok_def used_slot_def)

lemma reserve_run:
  assumes ok: "slots_ok sp k" "\<And>i. i < k \<Longrightarrow> used_slot sp i \<Longrightarrow> res_ok (Reservations sp ! i)"
      "IsAddressAligned (FreeBitmapAddress sp) PAGE_SIZE"
    and room: "Suc k < length (Reservations sp)" "bitmap_fits sp (unat sz)"
    and a: "addr \<noteq> 0" "4096 dvd unat addr" "unat addr + unat sz < 2 ^ 64"
    and sz: "4096 dvd unat sz" "unat sz < 2 ^ 44" "0 < unat sz"
    and free: "\<And>i. i < k \<Longrightarrow> \<not> hit sp addr sz i"
  shows "\<exists>sp' k' j r. VmChangeVaReservationState sp addr sz VMM_ALLOC_TYPE_RESERVE rights unc file = Some (STATUS_SUCCESS, sp') \<and>
    is_res addr sz rights unc file False r \<and> j < k' \<and> slots_ok sp' k' \<and> used_slot sp' j \<and> Reservations sp' ! j = r \<and>
    (\<forall>i. i \<noteq> j \<longrightarrow> (i < k' \<and> used_slot sp' i \<longleftrightarrow> i < k \<and> used_slot sp i)) \<and> \<not> (j < k \<and> used_slot sp j) \<and>
    (\<forall>i. i < k \<and> used_slot sp i \<longrightarrow> Reservations sp' ! i = Reservations sp ! i) \<and>
    IsAddressAligned (FreeBitmapAddress sp') PAGE_SIZE \<and>
    sp' = sp\<lparr>Reservations := Reservations sp', FreeBitmapAddress := FreeBitmapAddress sp'\<rparr>"
proof -
  have sz0: "sz \<noteq> 0" using sz(3) by auto
  obtain ro where ro: "VmFindReservation sp addr sz = Some (if ro = None then STATUS_ELEMENT_NOT_FOUND else STATUS_SUCCESS, ro)"
    "first_hit sp 0 k addr sz ro" using VmFindReservation_run [OF ok(1) a(1) sz0] by blast
  then have none: "VmFindReservation sp addr sz = Some (STATUS_ELEMENT_NOT_FOUND, None)"
    using free by (cases ro) (auto simp: first_hit_def)
  obtain sp1 k1 j where t: "free_reservation_loop sp 0 = Some (sp1, Some j)" "takes_slot sp k sp1 k1 j"
    using free_reservation_loop_run [OF ok(1) room(1), of 0] by auto
  have sp1: "sp1 = sp\<lparr>Reservations := Reservations sp1\<rparr>" "j < k1" "k1 < length (Reservations sp1)" "slots_ok sp1 k1"
    using t(2) by (simp_all add: takes_slot_def)
  have fits: "bitmap_fits sp1 (unat sz)" "IsAddressAligned (FreeBitmapAddress sp1) PAGE_SIZE"
    using room(2) ok(3) by (subst sp1(1), simp add: bitmap_fits_def)+
  have "\<exists>r v. VmInitializeReservation sp1 addr sz rights unc file j =
      Some (sp1\<lparr>Reservations := (Reservations sp1)[j := r], FreeBitmapAddress := v\<rparr>) \<and>
      is_res addr sz rights unc file False r \<and> IsAddressAligned v PAGE_SIZE"
    by (rule VmInitializeReservation_run [OF a sz fits less_trans [OF sp1(2,3)]])
  then obtain r v where r: "VmInitializeReservation sp1 addr sz rights unc file j =
      Some (sp1\<lparr>Reservations := (Reservations sp1)[j := r], FreeBitmapAddress := v\<rparr>)"
      "is_res addr sz rights unc file False r" "IsAddressAligned v PAGE_SIZE" by blast
  let ?sp' = "sp1\<lparr>Reservations := (Reservations sp1)[j := r], FreeBitmapAddress := v\<rparr>"
  have run: "VmChangeVaReservationState sp addr sz VMM_ALLOC_TYPE_RESERVE rights unc file = Some (STATUS_SUCCESS, ?sp')"
    using a(1,2) sz(1) sz0 none t(1) r(1)
    by (simp add: VmChangeVaReservationState_def aligned_dvd VmFindFirstFreeReservation_def)
  have st: "ReservationState r = 1" using r(2) by (simp add: is_res_def)
  have u: "used_slot ?sp' i \<longleftrightarrow> i = j \<or> used_slot sp1 i" for i
    using st sp1(2,3) t(2) by (auto simp: used_slot_def takes_slot_def nth_list_update)
  have "slots_ok ?sp' k1" using sp1(2-4) st by (auto simp: slots_ok_def nth_list_update)
  moreover have "?sp' = sp\<lparr>Reservations := Reservations ?sp', FreeBitmapAddress := FreeBitmapAddress ?sp'\<rparr>"
    by (subst sp1(1)) simp
  moreover have "Reservations ?sp' ! j = r" using sp1(2,3) by simp
  moreover have "\<forall>i. i \<noteq> j \<longrightarrow> (i < k1 \<and> used_slot ?sp' i \<longleftrightarrow> i < k \<and> used_slot sp i)"
    using u t(2) unfolding takes_slot_def by blast
  moreover have nj: "\<not> (j < k \<and> used_slot sp j)" using t(2) unfolding takes_slot_def by blast
  moreover have "\<forall>i. i < k \<and> used_slot sp i \<longrightarrow> Reservations ?sp' ! i = Reservations sp ! i"
  proof (intro allI impI)
    fix i assume "i < k \<and> used_slot sp i"
    then have "i \<noteq> j" "Reservations sp1 ! i = Reservations sp ! i" using nj t(2) unfolding takes_slot_def by blast+
    then show "Reservations ?sp' ! i = Reservations sp ! i" by simp
  qed
  moreover have "IsAddressAligned (FreeBitmapAddress ?sp') PAGE_SIZE" using r(3) by simp
  ultimately show ?thesis using run r(2) sp1(2) u [of j] by blast
qed

lemma commit_run:
  assumes ok: "slots_ok sp k" "\<And>i. i < k \<Longrightarrow> used_slot sp i \<Longrightarrow> res_ok (Reservations sp ! i)"
    and j: "j < k" "used_slot sp j" "Reservations sp ! j = r" "is_res addr sz rights unc file c r" "0 < unat sz"
    and free: "\<And>i. i < k \<Longrightarrow> i \<noteq> j \<Longrightarrow> \<not> hit sp addr sz i"
  shows "\<exists>r'. VmChangeVaReservationState sp addr sz VMM_ALLOC_TYPE_COMMIT rights unc file =
      Some (STATUS_SUCCESS, sp\<lparr>Reservations := (Reservations sp)[j := r']\<rparr>) \<and> is_res addr sz rights unc file True r'"
proof -
  have r: "res_ok r" "StartVa r = addr" "ReservationSize r = sz" using j(4) by (simp_all add: is_res_def)
  have a: "addr \<noteq> 0" "4096 dvd unat addr" "4096 dvd unat sz" "sz \<noteq> 0"
    using r j(5) by (auto simp: res_ok_def) (metis dvd_triv_left)
  have k: "j < length (Reservations sp)" using ok(1) j(1) by (simp add: slots_ok_def)
  obtain ro where ro: "VmFindReservation sp addr sz = Some (if ro = None then STATUS_ELEMENT_NOT_FOUND else STATUS_SUCCESS, ro)"
    "first_hit sp 0 k addr sz ro" using VmFindReservation_run [OF ok(1) a(1,4)] by blast
  have "hit sp addr sz j" using j(2,3) r by (simp add: hit_def CHECK_BOUNDS_def)
  then have "ro = Some j" using ro(2) free j(1) by (cases ro) (auto simp: first_hit_def)
  then have f: "VmFindReservation sp addr sz = Some (STATUS_SUCCESS, Some j)" using ro(1) by simp
  obtain r' where r': "change_commit True addr sz r = Some r'" "is_res addr sz rights unc file True r'"
    using change_commit_whole [OF j(4,5)] by blast
  have "PageRights r = rights" "Uncacheable r = unc" using j(4) by (simp_all add: is_res_def)
  then have "VmChangeVaReservationState sp addr sz VMM_ALLOC_TYPE_COMMIT rights unc file =
      Some (STATUS_SUCCESS, sp\<lparr>Reservations := (Reservations sp)[j := r']\<rparr>)"
    using a f j(3) k r'(1)
    by (simp add: VmChangeVaReservationState_def aligned_dvd VmCommitReservation_def set_slot_run)
  then show ?thesis using r'(2) by blast
qed

lemma view_after_insert:
  assumes inv: "vm_inv sp k" and ok: "space_ok sp' k'" "j < k'" "used_slot sp' j" "Reservations sp' ! j = r"
    and same: "\<And>i. i \<noteq> j \<Longrightarrow> i < k' \<and> used_slot sp' i \<longleftrightarrow> i < k \<and> used_slot sp i" "\<not> (j < k \<and> used_slot sp j)"
      "\<And>i. i < k \<Longrightarrow> used_slot sp i \<Longrightarrow> Reservations sp' ! i = Reservations sp ! i"
    and r: "StartVa r = FreeVirtualAddressPointer sp" "4096 dvd unat (ReservationSize r)"
      "unat (StartVa r) + unat (ReservationSize r) < 2 ^ 64"
    and free: "FreeVirtualAddressPointer sp' = FreeVirtualAddressPointer sp + ReservationSize r"
  shows "vm_inv sp' k'" "reservation_at sp' a = (if in_reservation a r then Some r else reservation_at sp a)"
proof -
  have o: "owner sp' k' a i \<longleftrightarrow> (if i = j then True \<and> in_reservation a r else owner sp k a i)" for a i
  proof (cases "i = j")
    case True
    then show ?thesis using ok(2-4) by (simp add: owner_def)
  next
    case False
    have "owner sp' k' a i \<longleftrightarrow> (i < k \<and> used_slot sp i) \<and> in_reservation a (Reservations sp' ! i)"
      using same(1) [OF False] unfolding owner_def by blast
    also have "\<dots> \<longleftrightarrow> owner sp k a i" using same(3) [of i] by (auto simp: owner_def)
    finally show ?thesis using False by simp
  qed
  have b: "a < unat (FreeVirtualAddressPointer sp)" if "owner sp k a i" for a i
    using inv that unfolding vm_inv_def by blast
  have f: "unat (FreeVirtualAddressPointer sp') = unat (FreeVirtualAddressPointer sp) + unat (ReservationSize r)"
    using r(1,3) by (simp add: free unat_add_small)
  have old: "4096 dvd unat (FreeVirtualAddressPointer sp)" "FreeVirtualAddressPointer sp \<noteq> 0"
    "\<And>i i' a. owner sp k a i \<Longrightarrow> owner sp k a i' \<Longrightarrow> i = i'"
    using inv unfolding vm_inv_def by blast+
  have "0 < unat (FreeVirtualAddressPointer sp')" using f old(2) by (simp add: unat_gt_0)
  then have "FreeVirtualAddressPointer sp' \<noteq> 0" by (simp add: unat_gt_0)
  moreover have "4096 dvd unat (FreeVirtualAddressPointer sp')" using f old(1) r(2) by simp
  moreover have "i = i'" if "owner sp' k' a i" "owner sp' k' a i'" for a i i'
    using that o b [of a i] b [of a i'] old(3) [of a i i'] r(1) by (auto simp: in_reservation_def split: if_splits)
  moreover have "a < unat (FreeVirtualAddressPointer sp')" if "owner sp' k' a i" for a i
    using that o b [of a i] f r(1) by (auto simp: in_reservation_def split: if_splits)
  ultimately show inv': "vm_inv sp' k'" using ok(1) unfolding vm_inv_def by blast
  have "\<not> owner sp k a j" using same(2) by (auto simp: owner_def)
  moreover have "Reservations sp' ! i = Reservations sp ! i" if "i \<noteq> j" "owner sp k a i" for i a
    using that same(3) by (simp add: owner_def)
  ultimately show "reservation_at sp' a = (if in_reservation a r then Some r else reservation_at sp a)"
    using view_update [OF inv inv' o, of a] ok(4) by simp
qed

lemma aligned_size:
  assumes "unat sz \<le> 2 ^ 43" "sz \<noteq> 0"
  shows "unat (AlignAddressUpper sz PAGE_SIZE) = (unat sz + 4095) div 4096 * 4096"
    "4096 dvd unat (AlignAddressUpper sz PAGE_SIZE)" "unat (AlignAddressUpper sz PAGE_SIZE) < 2 ^ 44"
    "0 < unat (AlignAddressUpper sz PAGE_SIZE)" "unat (AlignAddressUpper sz PAGE_SIZE) \<le> unat sz + 4095"
proof -
  show u: "unat (AlignAddressUpper sz PAGE_SIZE) = (unat sz + 4095) div 4096 * 4096"
    using unat_AlignAddressUpper [of sz 12] assms(1) by simp
  show "4096 dvd unat (AlignAddressUpper sz PAGE_SIZE)" unfolding u by simp
  show le: "unat (AlignAddressUpper sz PAGE_SIZE) \<le> unat sz + 4095" unfolding u by (rule div_times_less_eq_dividend)
  then show "unat (AlignAddressUpper sz PAGE_SIZE) < 2 ^ 44" using assms(1) by simp
  have "0 < unat sz" using assms(2) by (simp add: unat_gt_0)
  then show "0 < unat (AlignAddressUpper sz PAGE_SIZE)" unfolding u by (simp add: div_greater_zero_iff)
qed

lemma flag_1_3: "1 = v AND 1 \<Longrightarrow> v AND 3 \<noteq> (0 :: u32)"
proof
  assume v: "1 = v AND 1" "v AND 3 = 0"
  have "v AND 1 = (v AND 3) AND 1" by (simp add: and.assoc)
  then show False using v by simp
qed

text \<open>A reservation, and a commitment of all of it when that is asked for as well.\<close>

lemma reserve_commit_run:
  assumes slots: "slots_ok sp k" "\<And>i. i < k \<Longrightarrow> used_slot sp i \<Longrightarrow> res_ok (Reservations sp ! i)"
      "IsAddressAligned (FreeBitmapAddress sp) PAGE_SIZE"
    and room: "Suc k < length (Reservations sp)" "bitmap_fits sp (unat S)"
    and a: "a \<noteq> 0" "4096 dvd unat a" "unat a + unat S < 2 ^ 64" and S: "4096 dvd unat S" "unat S < 2 ^ 44" "0 < unat S"
    and nohit: "\<And>i. i < k \<Longrightarrow> \<not> hit sp a S i"
  obtains sp2 sp3 k' j r where
    "VmChangeVaReservationState sp a S VMM_ALLOC_TYPE_RESERVE rights unc FileObject = Some (STATUS_SUCCESS, sp2)"
    "(if com then VmChangeVaReservationState sp2 a S VMM_ALLOC_TYPE_COMMIT rights unc FileObject
      else Some (STATUS_SUCCESS, sp2)) = Some (STATUS_SUCCESS, sp3)"
    "is_res a S rights unc FileObject com r" "j < k'" "slots_ok sp3 k'" "used_slot sp3 j" "Reservations sp3 ! j = r"
    "\<And>i. i \<noteq> j \<Longrightarrow> (i < k' \<and> used_slot sp3 i \<longleftrightarrow> i < k \<and> used_slot sp i)" "\<not> (j < k \<and> used_slot sp j)"
    "\<And>i. i < k \<Longrightarrow> used_slot sp i \<Longrightarrow> Reservations sp3 ! i = Reservations sp ! i"
    "IsAddressAligned (FreeBitmapAddress sp3) PAGE_SIZE"
    "sp3 = sp\<lparr>Reservations := Reservations sp3, FreeBitmapAddress := FreeBitmapAddress sp3\<rparr>"
proof -
  obtain sp2 k' j r where r: "VmChangeVaReservationState sp a S VMM_ALLOC_TYPE_RESERVE rights unc FileObject = Some (STATUS_SUCCESS, sp2)"
    "is_res a S rights unc FileObject False r" "j < k'" "slots_ok sp2 k'" "used_slot sp2 j" "Reservations sp2 ! j = r"
    "\<And>i. i \<noteq> j \<Longrightarrow> (i < k' \<and> used_slot sp2 i \<longleftrightarrow> i < k \<and> used_slot sp i)" "\<not> (j < k \<and> used_slot sp j)"
    "\<And>i. i < k \<Longrightarrow> used_slot sp i \<Longrightarrow> Reservations sp2 ! i = Reservations sp ! i"
    "IsAddressAligned (FreeBitmapAddress sp2) PAGE_SIZE"
    "sp2 = sp\<lparr>Reservations := Reservations sp2, FreeBitmapAddress := FreeBitmapAddress sp2\<rparr>"
    using reserve_run [OF slots room a S nohit, of rights unc FileObject] by auto
  have rs2: "res_ok (Reservations sp2 ! i)" if "i < k'" "used_slot sp2 i" for i
    using that slots(2) r(2,6) r(7) [of i] r(9) [of i] by (cases "i = j") (simp_all add: is_res_def)
  have nohit2: "\<not> hit sp2 a S i" if "i < k'" "i \<noteq> j" for i
    using nohit [of i] r(7) [OF that(2)] r(9) [of i] that(1) by (auto simp: hit_def)
  have jl: "j < length (Reservations sp2)" using r(3,4) by (simp add: slots_ok_def)
  show thesis
  proof (cases com)
    case False
    then show thesis using that [of sp2 sp2 r j k'] r by simp
  next
    case True
    obtain r3 where c: "VmChangeVaReservationState sp2 a S VMM_ALLOC_TYPE_COMMIT rights unc FileObject =
        Some (STATUS_SUCCESS, sp2\<lparr>Reservations := (Reservations sp2)[j := r3]\<rparr>)" "is_res a S rights unc FileObject True r3"
      using commit_run [OF r(4) rs2 r(3,5,6,2) S(3) nohit2] by auto
    let ?sp3 = "sp2\<lparr>Reservations := (Reservations sp2)[j := r3]\<rparr>"
    have u: "used_slot ?sp3 i = used_slot sp2 i" for i
      using c(2) r(5) jl by (cases "i = j") (simp_all add: used_slot_def is_res_def)
    show thesis
    proof (rule that [OF r(1)])
      show "slots_ok ?sp3 k'" using r(3,4) c(2) by (auto simp: slots_ok_def is_res_def nth_list_update)
      show "Reservations ?sp3 ! i = Reservations sp ! i" if "i < k" "used_slot sp i" for i
        using r(8) r(9) [OF that] that by (cases "i = j") simp_all
      show "?sp3 = sp\<lparr>Reservations := Reservations ?sp3, FreeBitmapAddress := FreeBitmapAddress ?sp3\<rparr>"
        by (subst r(11)) simp
    qed (use True c u r jl in simp_all)
  qed
qed

text \<open>C8: an allocation that lets the component choose the address yields the free pointer and the size rounded
  up to pages; afterwards exactly the addresses of this range, none of which had a reservation, have a new
  one, with the rights asked for and committed as asked for, and all others are as before. The conditions
  are room for one more slot, for the bitmap and for the addresses.\<close>

theorem vm_alloc_fresh:
  assumes inv: "vm_inv sp k" and sz: "sz \<noteq> 0" "unat sz \<le> 2 ^ 43"
    and room: "Suc k < length (Reservations sp)" "bitmap_fits sp (unat (AlignAddressUpper sz PAGE_SIZE))"
      "unat (FreeVirtualAddressPointer sp) + unat sz + 4096 \<le> 2 ^ 64"
    and t: "IsBooleanFlagOn AllocType VMM_ALLOC_TYPE_RESERVE"
  shows "\<exists>sp' k' r. VmReservationSpaceAllocRegion sp cpu intr 0 sz AllocType rights unc FileObject =
      Some (STATUS_SUCCESS, (sp', map_option (\<lambda>_. False) cpu, intr),
        Some (FreeVirtualAddressPointer sp, AlignAddressUpper sz PAGE_SIZE)) \<and>
    vm_inv sp' k' \<and>
    is_res (FreeVirtualAddressPointer sp) (AlignAddressUpper sz PAGE_SIZE) rights unc FileObject
      (IsBooleanFlagOn AllocType VMM_ALLOC_TYPE_COMMIT) r \<and>
    (\<forall>a. reservation_at sp' a = (if in_reservation a r then Some r else reservation_at sp a)) \<and>
    (\<forall>a. in_reservation a r \<longrightarrow> reservation_at sp a = None)"
proof -
  let ?S = "AlignAddressUpper sz PAGE_SIZE" and ?a = "FreeVirtualAddressPointer sp" and ?l = "ReservationLock sp"
  let ?com = "IsBooleanFlagOn AllocType VMM_ALLOC_TYPE_COMMIT"
  note S = aligned_size [OF sz(2,1)]
  have sok: "space_ok sp k" and a: "?a \<noteq> 0" "4096 dvd unat ?a" using inv by (simp_all add: vm_inv_def)
  then have ok: "slots_ok sp k" "\<And>i. i < k \<Longrightarrow> used_slot sp i \<Longrightarrow> res_ok (Reservations sp ! i)"
    "IsAddressAligned (FreeBitmapAddress sp) PAGE_SIZE" "WaitingWriters ?l = 0" "ActiveWriter ?l = 0" "ActiveReaders ?l = 0"
    by (simp_all add: space_ok_def)
  have end': "unat ?a + unat ?S < 2 ^ 64" using room(3) S(5) by linarith
  let ?sp1 = "sp\<lparr>FreeVirtualAddressPointer := ?a + ?S, ReservationLock := ?l\<lparr>ActiveWriter := 1\<rparr>\<rparr>"
  have f1: "slots_ok ?sp1 k" "used_slot ?sp1 i = used_slot sp i" "bitmap_fits ?sp1 (unat ?S)" "hit ?sp1 ?a ?S i = hit sp ?a ?S i" for i
    using ok(1) room(2) by (simp_all add: slots_ok_def used_slot_def bitmap_fits_def hit_def)
  obtain sp2 sp3 k' j r where
    "VmChangeVaReservationState ?sp1 ?a ?S VMM_ALLOC_TYPE_RESERVE rights unc FileObject = Some (STATUS_SUCCESS, sp2)"
    "(if ?com then VmChangeVaReservationState sp2 ?a ?S VMM_ALLOC_TYPE_COMMIT rights unc FileObject
      else Some (STATUS_SUCCESS, sp2)) = Some (STATUS_SUCCESS, sp3)"
    "is_res ?a ?S rights unc FileObject ?com r" "j < k'" "slots_ok sp3 k'" "used_slot sp3 j" "Reservations sp3 ! j = r"
    "\<And>i. i \<noteq> j \<Longrightarrow> (i < k' \<and> used_slot sp3 i \<longleftrightarrow> i < k \<and> used_slot ?sp1 i)" "\<not> (j < k \<and> used_slot ?sp1 j)"
    "\<And>i. i < k \<Longrightarrow> used_slot ?sp1 i \<Longrightarrow> Reservations sp3 ! i = Reservations ?sp1 ! i"
    "IsAddressAligned (FreeBitmapAddress sp3) PAGE_SIZE"
    "sp3 = ?sp1\<lparr>Reservations := Reservations sp3, FreeBitmapAddress := FreeBitmapAddress sp3\<rparr>"
    by (rule reserve_commit_run [of ?sp1 k ?S ?a rights unc FileObject ?com])
      (use f1 ok(2,3) room(1) a end' S(2-4) not_hit_free [OF inv _ S(4) end'] in auto)
  note r = this
  let ?sp' = "sp3\<lparr>ReservationLock := ?l\<rparr>"
  have l3: "ReservationLock sp3 = ?l\<lparr>ActiveWriter := 1\<rparr>" "FreeVirtualAddressPointer sp3 = ?a + ?S"
    by (subst r(12), simp)+
  have flag: "IsFlagOn AllocType (VMM_ALLOC_TYPE_COMMIT OR VMM_ALLOC_TYPE_RESERVE)"
    using t flag_1_3 by (simp add: IsBooleanFlagOn_def IsFlagOn_def)
  have run: "VmReservationSpaceAllocRegion sp cpu intr 0 sz AllocType rights unc FileObject =
      Some (STATUS_SUCCESS, (?sp', map_option (\<lambda>_. False) cpu, intr), Some (?a, ?S))"
    using sz(1) flag t r(1,2) ok(4-6) l3(1)
    by (cases ?com) (simp_all add: VmReservationSpaceAllocRegion_def Let_def
        VmReservationSpaceDetermineNextFreeVirtualAddress_def RwSpinlockAcquire_run RwSpinlockRelease_run)
  have st: "StartVa r = ?a" "ReservationSize r = ?S" "res_ok r" using r(3) by (simp_all add: is_res_def)
  have u: "used_slot ?sp' i = used_slot sp3 i" for i by (simp add: used_slot_def)
  have res: "res_ok (Reservations ?sp' ! i)" if "i < k'" "used_slot ?sp' i" for i
    using that u ok(2) st(3) r(7) r(8) [of i] r(10) [of i] f1(2) by (cases "i = j") simp_all
  have space: "space_ok ?sp' k'" using r(5,11) res ok(4-6) by (simp add: space_ok_def slots_ok_def)
  note v = view_after_insert [of sp k ?sp' k' j r, OF inv space r(4)]
  have v': "vm_inv ?sp' k'" "reservation_at ?sp' b = (if in_reservation b r then Some r else reservation_at sp b)" for b
    using v u r(6-10) f1(2) S(2) end' st l3(2) by simp_all
  have "reservation_at sp b = None" if "in_reservation b r" for b
  proof (rule reservation_at_none [OF ok(1)])
    show "\<not> owner sp k b i" for i
      using that inv st(1) unfolding vm_inv_def in_reservation_def by (metis not_less)
  qed
  then show ?thesis using run v' r(3) by blast
qed

section \<open>Release\<close>

lemma find_owner:
  assumes "vm_inv sp k" "a \<noteq> 0" "unat a < 2 ^ 64 - 1" "reservation_at sp (unat a) = Some r"
  obtains i where "VmFindReservation sp a 1 = Some (STATUS_SUCCESS, Some i)" "i < k" "i < length (Reservations sp)"
    "used_slot sp i" "Reservations sp ! i = r" "res_ok r" "in_reservation (unat a) r"
proof -
  have s: "space_ok sp k" using assms(1) by (simp add: vm_inv_def)
  obtain ro where ro: "VmFindReservation sp a 1 = Some (if ro = None then STATUS_ELEMENT_NOT_FOUND else STATUS_SUCCESS, ro)"
    "reservation_at sp (unat a) = map_option (\<lambda>j. Reservations sp ! j) ro"
    "\<And>j. ro = Some j \<Longrightarrow> j < k \<and> j < length (Reservations sp) \<and> used_slot sp j \<and>
        res_ok (Reservations sp ! j) \<and> in_reservation (unat a) (Reservations sp ! j)"
    using find_byte [OF s assms(2,3)] by blast
  obtain i where i: "ro = Some i" "Reservations sp ! i = r" using ro(2) assms(4) by (cases ro) auto
  then show thesis using that [of i] ro(1) ro(3) [OF i(1)] by simp
qed

text \<open>C9: releasing the reservation that an address lies in removes exactly this reservation from the address
  space, whatever its other addresses, answers its range for the caller to unmap, and hands over the buffer
  of its bitmap and its backing file, if it has one, for disposal.\<close>

theorem vm_release_exact:
  assumes inv: "vm_inv sp k" and a: "a \<noteq> 0" "unat a < 2 ^ 64 - 1" "reservation_at sp (unat a) = Some r"
    and t: "IsBooleanFlagOn FreeType VMM_FREE_TYPE_RELEASE" "\<not> IsBooleanFlagOn FreeType VMM_FREE_TYPE_DECOMMIT"
  shows "\<exists>sp'. VmReservationSpaceFreeRegion sp cpu intr a 0 FreeType =
      Some ((sp', map_option (\<lambda>_. False) cpu, intr),
        UnmapMemory (CommitBuffer r) (BufferSize (CommitBitmap r)) # (if BackingFile r \<noteq> 0 then [CloseFile (BackingFile r)] else []),
        StartVa r, ReservationSize r) \<and> vm_inv sp' k \<and>
    (\<forall>b. reservation_at sp' b = (if in_reservation b r then None else reservation_at sp b))"
proof -
  let ?l = "ReservationLock sp"
  obtain i where i: "VmFindReservation sp a 1 = Some (STATUS_SUCCESS, Some i)" "i < k" "i < length (Reservations sp)"
    "used_slot sp i" "Reservations sp ! i = r" "res_ok r" "in_reservation (unat a) r"
    using find_owner [OF inv a] by blast
  have sok: "space_ok sp k" using inv by (simp add: vm_inv_def)
  then have ok: "slots_ok sp k" "\<And>i. i < k \<Longrightarrow> used_slot sp i \<Longrightarrow> res_ok (Reservations sp ! i)"
    "IsAddressAligned (FreeBitmapAddress sp) PAGE_SIZE" "WaitingWriters ?l = 0" "ActiveWriter ?l = 0" "ActiveReaders ?l = 0"
    by (simp_all add: space_ok_def)
  have ll: "?l\<lparr>ActiveWriter := 0\<rparr> = ?l" using ok(5) by simp
  let ?sp' = "sp\<lparr>Reservations := (Reservations sp)[i := empty_reservation]\<rparr>"
  have "VmUninitializeReservation r = Some (UnmapMemory (CommitBuffer r) (BufferSize (CommitBitmap r)) #
      (if BackingFile r \<noteq> 0 then [CloseFile (BackingFile r)] else []))"
    using i(6) by (simp add: VmUninitializeReservation_def BitmapUninit_def res_ok_def)
  then have run: "VmReservationSpaceFreeRegion sp cpu intr a 0 FreeType =
      Some ((?sp', map_option (\<lambda>_. False) cpu, intr),
        UnmapMemory (CommitBuffer r) (BufferSize (CommitBitmap r)) # (if BackingFile r \<noteq> 0 then [CloseFile (BackingFile r)] else []),
        StartVa r, ReservationSize r)"
    using a(1) t i(1,3,5) ok(4-6) ll
    by (simp add: VmReservationSpaceFreeRegion_def RwSpinlockAcquire_run RwSpinlockRelease_run set_slot_run)
  have u: "used_slot ?sp' j \<longleftrightarrow> j \<noteq> i \<and> used_slot sp j" for j
    using i(3) by (auto simp: used_slot_def nth_list_update empty_reservation_def)
  have sl: "slots_ok ?sp' k" using ok(1) i(2) by (auto simp: slots_ok_def nth_list_update empty_reservation_def)
  have space: "space_ok ?sp' k" unfolding space_ok_def u using sl ok(2-6) by simp
  have o: "owner ?sp' k b j \<longleftrightarrow> (if j = i then False \<and> in_reservation b empty_reservation else owner sp k b j)" for b j
    using u by (simp add: owner_def)
  have inv': "vm_inv ?sp' k" using inv space o unfolding vm_inv_def by simp
  have same: "Reservations ?sp' ! j = Reservations sp ! j" if "j \<noteq> i" "owner sp k b j" for j b using that by simp
  have "owner sp k b i \<longleftrightarrow> in_reservation b r" for b using i(2,4,5) by (simp add: owner_def)
  then have "reservation_at ?sp' b = (if in_reservation b r then None else reservation_at sp b)" for b
    using view_update [OF inv inv' o _ same] by simp
  then show ?thesis using run inv' by blast
qed

section \<open>The new space\<close>

lemma VmReservationSpaceInit_run:
  assumes "RwSpinlockInit sys cell intr = Some (sys', zero_rw_spinlock, intr)" "RwSpinlockSetName zero_rw_spinlock name = Some l"
    and base: "base \<noteq> 0" "IsAddressAligned base PAGE_SIZE" "msz \<noteq> 0" "CalculatePercentage msz 2000 = Some p"
    and al: "IsAddressAligned p PAGE_SIZE" "IsAddressAligned msz PAGE_SIZE" "unat base + unat msz < 2 ^ 64" "unat p \<le> unat msz"
    and slots: "metadata = replicate n empty_reservation" "0 < n" "n * 56 \<le> unat p"
  shows "\<exists>sp sp'. VmReservationSpaceInit sys cell intr metadata name base 0 msz = Some (sys', sp, intr) \<and>
    VmReservationSpaceFinishInit sp = Some sp' \<and> vm_inv sp' 0 \<and> (\<forall>a. reservation_at sp' a = None) \<and>
    FreeVirtualAddressPointer sp' = base + msz \<and> length (Reservations sp') = n"
proof -
  have l: "WaitingWriters l = 0" "ActiveWriter l = 0" "ActiveReaders l = 0"
    using assms(2) by (auto simp: RwSpinlockSetName_def bind_Some zero_rw_spinlock_def split: if_splits)
  let ?sp = "\<lparr>FreeVirtualAddressPointer = base + msz, StartOfVirtualAddressSpace = base + msz, BitmapAddressStart = base + p,
       ReservedAreaSize = msz, ReservationLock = l, FreeBitmapAddress = base + p, ReservationList = base,
       Reservations = metadata\<rparr>"
  let ?sp' = "?sp\<lparr>Reservations := metadata[0 := empty_reservation\<lparr>ReservationState := 2\<rparr>]\<rparr>"
  have init: "VmReservationSpaceInit sys cell intr metadata name base 0 msz = Some (sys', ?sp, intr)"
    using assms(1-6) by (simp add: VmReservationSpaceInit_def Let_def)
  have fin: "VmReservationSpaceFinishInit ?sp = Some ?sp'"
    using slots by (simp add: VmReservationSpaceFinishInit_def set_slot_run)
  have sums: "unat (base + p) = unat base + unat p" "unat (base + msz) = unat base + unat msz"
    using al(3,4) by (simp_all add: unat_add_small)
  have addr: "slot_address ?sp' i < base + p" if "i < n" for i
  proof -
    have i: "i * 56 < unat p" using that slots(3) by linarith
    then have "unat (of_nat i * 56 :: u64) = i * 56"
      using al(3,4) by (subst unat_mult_small) (simp_all add: unat_of_nat_small)
    then have "unat (base + of_nat i * 56) = unat base + i * 56"
      using i al(3,4) by (simp add: unat_add_small)
    then show ?thesis using i sums(1) by (simp add: slot_address_def word_less_nat_alt)
  qed
  have "slots_ok ?sp' 0" using slots addr by (simp add: slots_ok_def)
  moreover have "IsAddressAligned (base + p) PAGE_SIZE" "4096 dvd unat (base + msz)"
    using base(2) al(1,2) sums by (simp_all add: aligned_dvd)
  moreover have "unat (base + msz) \<noteq> 0" using base(1) sums(2) by (simp add: unat_eq_0)
  then have "base + msz \<noteq> 0" by (simp add: unat_eq_0)
  ultimately have inv: "vm_inv ?sp' 0" using l by (simp add: vm_inv_def space_ok_def owner_def)
  moreover have "\<forall>a. reservation_at ?sp' a = None"
    using reservation_at_none [OF \<open>slots_ok ?sp' 0\<close>] by (simp add: owner_def)
  moreover have "length (Reservations ?sp') = n" "FreeVirtualAddressPointer ?sp' = base + msz" using slots(1) by simp_all
  ultimately show ?thesis using init fin by blast
qed

section \<open>An example\<close>

definition sample_reservation :: vmm_reservation where
  "sample_reservation = \<lparr>StartVa = 0x20000, ReservationSize = 0x1000, PageRights = 1, ReservationState = 1, Uncacheable = False,
     BackingFile = 7, CommitBitmap = \<lparr>BitmapBuffer = Some [1], BufferSize = 1, BitCount = 1\<rparr>, CommitBuffer = 0x11000\<rparr>"

definition sample_space :: vm_space where
  "sample_space = \<lparr>FreeVirtualAddressPointer = 0x30000, StartOfVirtualAddressSpace = 0x20000, BitmapAddressStart = 0x11000,
     ReservedAreaSize = 0x10000, ReservationLock = zero_rw_spinlock, FreeBitmapAddress = 0x12000, ReservationList = 0x10000,
     Reservations = [sample_reservation, empty_reservation\<lparr>ReservationState := 2\<rparr>, empty_reservation, empty_reservation]\<rparr>"

lemma sample_res_ok: "res_ok sample_reservation"
  by (simp add: res_ok_def sample_reservation_def bitmap_ok_def IsAddressAligned_def)

lemma sample_bits: "bits (CommitBitmap sample_reservation) = [True]"
  by (simp add: bits_def sample_reservation_def bit_at_def bit_1_iff)

lemma sample_live: "live_reservations sample_space = [sample_reservation]"
  by (simp add: live_reservations_def sample_space_def sample_reservation_def)

lemma slot_address_sample:
  "i < 4 \<Longrightarrow> slot_address sample_space i < BitmapAddressStart sample_space"
proof -
  assume "i < 4"
  then consider "i = 0" | "i = 1" | "i = 2" | "i = 3" by linarith
  then show ?thesis by cases (simp_all add: slot_address_def sample_space_def)
qed

lemma sample_space_slots: "slots_ok sample_space 1"
proof -
  have "length (Reservations sample_space) = 4" by (simp add: sample_space_def)
  moreover have "Reservations sample_space ! 1 = empty_reservation\<lparr>ReservationState := 2\<rparr>"
    "Reservations sample_space ! 0 = sample_reservation" by (simp_all add: sample_space_def)
  ultimately show ?thesis using slot_address_sample
    by (simp add: slots_ok_def sample_reservation_def)
qed

lemma sample_ok: "space_ok sample_space 1"
  using sample_res_ok sample_space_slots
  by (simp add: space_ok_def sample_space_def zero_rw_spinlock_def IsAddressAligned_def)

lemma sample_inv: "vm_inv sample_space 1"
  using sample_ok by (auto simp: vm_inv_def owner_def in_reservation_def sample_space_def sample_reservation_def)

lemma sample_committed: "in_reservation b sample_reservation \<Longrightarrow> committed_at sample_reservation b"
proof -
  assume h: "in_reservation b sample_reservation"
  then have "(b - 0x20000) div 4096 = 0"
    by (intro div_less) (auto simp: in_reservation_def sample_reservation_def)
  then show ?thesis using h by (simp add: committed_at_def sample_bits) (simp add: sample_reservation_def)
qed

lemma page_fault_exact_witness:
  "VmReservationCanAddressBeAccessed sample_space None False 0x20010 1 =
    Some (sample_space, False, access_answer (reservation_at sample_space (unat (0x20010 :: u64))) 0x20010 1)"
  by (rule page_fault_exact [OF sample_ok]) (simp_all add: sample_space_def CHECK_BOUNDS_def)

lemma buffer_valid_exact_witness:
  "VmmIsBufferValid sample_space True 0x20000 0x1000 1 False = Some (
      if \<not> False \<and> (VmIsKernelAddress 0x20000 \<or> VmIsKernelAddress (0x20000 + (0x1000 - 1)))
      then STATUS_MEMORY_PREVENTS_USERMODE_ACCESS
      else case reservation_of sample_space (unat (0x20000 :: u64)) (unat (0x1000 :: u64)) of
        None \<Rightarrow> STATUS_MEMORY_IS_NOT_COMMITED
      | Some r \<Rightarrow>
          if \<not> (\<forall>b. unat (0x20000 :: u64) \<le> b \<and> b < unat (0x20000 :: u64) + unat (0x1000 :: u64) \<longrightarrow> committed_at r b)
          then STATUS_MEMORY_IS_NOT_COMMITED
          else if \<not> IsBooleanFlagOn (PageRights r) 1 then STATUS_MEMORY_INSUFFICIENT_ACCESS_RIGHTS
          else STATUS_SUCCESS, sample_space, True)"
  by (rule buffer_valid_exact [OF sample_ok]) simp_all

lemma buffer_check_stops_system_witness: "VmmIsBufferValid sample_space True 0x20010 (0x10 - 0x20010) 1 False = None"
  by (rule buffer_check_stops_system [OF sample_ok, of _ sample_reservation])
    (simp_all add: sample_live sample_committed, simp_all add: sample_reservation_def in_reservation_def)

lemma vm_alloc_fresh_witness:
  "\<exists>sp' k' r. VmReservationSpaceAllocRegion sample_space None True 0 0x1001 3 1 False 0 =
      Some (STATUS_SUCCESS, (sp', map_option (\<lambda>_. False) (None :: bool option), True),
        Some (FreeVirtualAddressPointer sample_space, AlignAddressUpper 0x1001 PAGE_SIZE)) \<and>
    vm_inv sp' k' \<and>
    is_res (FreeVirtualAddressPointer sample_space) (AlignAddressUpper 0x1001 PAGE_SIZE) 1 False 0
      (IsBooleanFlagOn (3 :: u32) VMM_ALLOC_TYPE_COMMIT) r \<and>
    (\<forall>a. reservation_at sp' a = (if in_reservation a r then Some r else reservation_at sample_space a)) \<and>
    (\<forall>a. in_reservation a r \<longrightarrow> reservation_at sample_space a = None)"
proof (rule vm_alloc_fresh [OF sample_inv])
  have "length (Reservations sample_space) = 4" by (simp add: sample_space_def)
  then show "Suc 1 < length (Reservations sample_space)" by simp
  have "AlignAddressUpper 0x1001 PAGE_SIZE = 0x2000"
    by (simp add: AlignAddressUpper_def AlignAddressLower_def)
  then show "bitmap_fits sample_space (unat (AlignAddressUpper 0x1001 PAGE_SIZE))"
    by (simp add: bitmap_fits_def buffer_room_def sample_space_def)
  show "unat (FreeVirtualAddressPointer sample_space) + unat (0x1001 :: u64) + 4096 \<le> 2 ^ 64"
    by (simp add: sample_space_def)
  show "IsBooleanFlagOn (3 :: u32) VMM_ALLOC_TYPE_RESERVE" by (simp add: IsBooleanFlagOn_def)
qed simp_all

lemma vm_release_exact_witness:
  "\<exists>sp'. VmReservationSpaceFreeRegion sample_space (Some True) False 0x20010 0 2 =
      Some ((sp', map_option (\<lambda>_. False) (Some True), False),
        UnmapMemory (CommitBuffer sample_reservation) (BufferSize (CommitBitmap sample_reservation)) #
          (if BackingFile sample_reservation \<noteq> 0 then [CloseFile (BackingFile sample_reservation)] else []),
        StartVa sample_reservation, ReservationSize sample_reservation) \<and> vm_inv sp' 1 \<and>
    (\<forall>b. reservation_at sp' b = (if in_reservation b sample_reservation then None else reservation_at sample_space b))"
  by (rule vm_release_exact [OF sample_inv])
    (simp_all add: reservation_at_def sample_live IsBooleanFlagOn_def, simp add: in_reservation_def sample_reservation_def)

section \<open>Overlapping and unaligned requests\<close>

text \<open>A reservation at an address of the caller's choice is only refused when one reservation contains all of
  it: a range that overlaps reservations at its ends is reserved once more.\<close>

lemma overlapping_reservation_accepted:
  assumes "space_ok sp k" "Suc k < length (Reservations sp)" "bitmap_fits sp (unat sz)"
    and "addr \<noteq> 0" "4096 dvd unat addr" "unat addr + unat sz < 2 ^ 64" "4096 dvd unat sz" "unat sz < 2 ^ 44" "0 < unat sz"
    and "reservation_of sp (unat addr) (unat sz) = None"
  shows "\<exists>sp'. VmChangeVaReservationState sp addr sz VMM_ALLOC_TYPE_RESERVE rights unc FileObject = Some (STATUS_SUCCESS, sp')"
proof -
  have ok: "slots_ok sp k" "\<And>i. i < k \<Longrightarrow> used_slot sp i \<Longrightarrow> res_ok (Reservations sp ! i)"
    "IsAddressAligned (FreeBitmapAddress sp) PAGE_SIZE" using assms(1) by (simp_all add: space_ok_def)
  have "\<not> hit sp addr sz i" if "i < k" for i
  proof
    assume h: "hit sp addr sz i"
    then have r: "res_ok (Reservations sp ! i)" "used_slot sp i" using ok(2) that by (simp_all add: hit_def)
    have "Reservations sp ! i \<in> set (live_reservations sp)"
      using that r(2) ok(1) by (auto simp: live_reservations_take [OF ok(1)] used_slot_def in_set_conv_nth slots_ok_def)
    then show False using assms(10) h check_range [OF r(1) assms(6)]
      by (auto simp: reservation_of_def find_None_iff hit_def)
  qed
  then show ?thesis using reserve_run [OF ok assms(2-9)] by blast
qed

text \<open>The check of a buffer that does not start at a page misses the page its end lies in: of a reservation of
  two pages only the first one is committed, and the second one holds the last byte of the buffer.\<close>

lemma unaligned_buffer_accepted:
  "VmmIsBufferValid (sample_space\<lparr>Reservations := [sample_reservation\<lparr>ReservationSize := 0x2000,
      CommitBitmap := \<lparr>BitmapBuffer = Some [1], BufferSize = 1, BitCount = 2\<rparr>\<rparr>,
      empty_reservation\<lparr>ReservationState := 2\<rparr>]\<rparr>) True 0x20001 0x1000 1 True =
    Some (STATUS_SUCCESS, sample_space\<lparr>Reservations := [sample_reservation\<lparr>ReservationSize := 0x2000,
      CommitBitmap := \<lparr>BitmapBuffer = Some [1], BufferSize = 1, BitCount = 2\<rparr>\<rparr>,
      empty_reservation\<lparr>ReservationState := 2\<rparr>]\<rparr>, True)"
  by code_simp

end
