(* ===== verification/Paging.thy ===== *)
theory Paging
  imports HAL_Prelude
begin

text \<open>
  \<open>HAL/src/pte.c\<close> and the page walks of \<open>HAL9000/src/core/memory/vmm.c\<close>: mapping, unmapping and
  translating virtual addresses through four levels of tables.

  The tables of an address space lie in a row of frames that is reserved for them; new tables are taken
  from it one after another. The code reaches a physical address \<open>pa\<close> through the pointer
  \<open>PA2VA(pa)\<close>; the store \<open>Mem\<close> maps such pointers, eight bytes apart, to entries. An entry
  is a QWORD whose bit fields are those of \<open>PT_ENTRY\<close>. What leaves the component (the
  invalidation of a page in the TLB, frames handed to the worker that zeroes them) is recorded as a list of
  effects. \<open>translate\<close> is what the processor does with the tables; the lemmas say how every operation
  changes it.
\<close>

section \<open>State\<close>

datatype paging_effect = InvalidateTlb u64 | ReleaseFrames u64 u32

record vmm_state =
  Mem :: "u64 \<Rightarrow> u64 option"
  VirtualToPhysicalOffset :: u64
  Effects :: "paging_effect list"
  WriteBackIndex :: u8
  UncacheableIndex :: u8

record paging_data =
  BasePhysicalAddress :: u64
  NumberOfFrames :: u32
  CurrentIndex :: u32
  KernelSpace :: bool

record pte_map_flags =
  PatIndex :: "3 word"
  Writable :: bool
  Executable :: bool
  PagingStructure :: bool
  UserAccess :: bool
  GlobalPage :: bool

definition PA2VA :: "vmm_state \<Rightarrow> u64 \<Rightarrow> u64" where
  "PA2VA s pa = pa + VirtualToPhysicalOffset s"

definition effect :: "vmm_state \<Rightarrow> paging_effect \<Rightarrow> vmm_state" where
  "effect s e = s\<lparr>Effects := Effects s @ [e]\<rparr>"

section \<open>Entries\<close>

text \<open>The bit fields of \<open>PT_ENTRY\<close>: Present 0, ReadWrite 1, UserSupervisor 2, PWT 3, PCD 4, Accessed 5, Dirty 6,
  PAT 7 (PageSize in the tables of the other levels), Global 8, PhysicalAddress from 12 to 51, XD 63.\<close>

definition put_bit :: "nat \<Rightarrow> bool \<Rightarrow> u64 \<Rightarrow> u64" where
  "put_bit n b e = (if b then set_bit n e else unset_bit n e)"

definition put_frame :: "u64 \<Rightarrow> u64 \<Rightarrow> u64" where
  "put_frame f e = (e AND NOT (push_bit 12 (mask 40))) OR push_bit 12 (take_bit 40 f)"

definition phys_of :: "u64 \<Rightarrow> u64" where
  "phys_of e = push_bit 12 (take_bit 40 (drop_bit 12 e))"

definition large_phys_of :: "u64 \<Rightarrow> u64" where
  "large_phys_of e = push_bit 21 (take_bit 31 (drop_bit 21 e))"

definition load :: "vmm_state \<Rightarrow> u64 \<Rightarrow> u64 option" where
  "load s p = Mem s p"

definition store :: "vmm_state \<Rightarrow> u64 \<Rightarrow> u64 \<Rightarrow> vmm_state option" where
  "store s p v = (case Mem s p of None \<Rightarrow> None | Some _ \<Rightarrow> Some (s\<lparr>Mem := (Mem s)(p \<mapsto> v)\<rparr>))"

definition pte_entry :: "u64 \<Rightarrow> pte_map_flags \<Rightarrow> u64" where
  "pte_entry PhysicalAddress Flags =
     (let e1 = put_frame (drop_bit 12 PhysicalAddress) 0;
          e2 = put_bit 0 True e1;
          e3 = put_bit 1 (Writable Flags) e2;
          e4 = put_bit 63 (\<not> Executable Flags) e3;
          e5 = put_bit 2 (UserAccess Flags) e4 in
      if PagingStructure Flags then e5
      else put_bit 8 (GlobalPage Flags) (put_bit 3 (bit (PatIndex Flags) 0) (put_bit 4 (bit (PatIndex Flags) 1)
             (put_bit 7 (bit (PatIndex Flags) 2) e5))))"

definition PteMap :: "vmm_state \<Rightarrow> u64 \<Rightarrow> u64 \<Rightarrow> pte_map_flags \<Rightarrow> vmm_state option" where
  "PteMap s PageTable PhysicalAddress Flags = do {
     ASSERT (PageTable \<noteq> 0);
     store s PageTable (pte_entry PhysicalAddress Flags)
   }"

definition PteUnmap :: "vmm_state \<Rightarrow> u64 \<Rightarrow> vmm_state option" where
  "PteUnmap s PageTable = do { ASSERT (PageTable \<noteq> 0); store s PageTable 0 }"

definition PteGetPhysicalAddress :: "vmm_state \<Rightarrow> u64 \<Rightarrow> u64 option" where
  "PteGetPhysicalAddress s PageTable = do { ASSERT (PageTable \<noteq> 0); e \<leftarrow> load s PageTable; Some (phys_of e) }"

definition PteLargePageGetPhysicalAddress :: "vmm_state \<Rightarrow> u64 \<Rightarrow> u64 option" where
  "PteLargePageGetPhysicalAddress s PageTable = do { ASSERT (PageTable \<noteq> 0); e \<leftarrow> load s PageTable; Some (large_phys_of e) }"

definition PteIsPresent :: "vmm_state \<Rightarrow> u64 \<Rightarrow> bool option" where
  "PteIsPresent s PageTable = do { ASSERT (PageTable \<noteq> 0); e \<leftarrow> load s PageTable; Some (bit e 0) }"

section \<open>Walks\<close>

text \<open>A callback gets the entry, the virtual address and the level, and says whether the walk goes on.
  The state of a walk is the memory together with the context of the callback.\<close>

type_synonym 'c callback = "u64 \<Rightarrow> u64 \<Rightarrow> nat \<Rightarrow> vmm_state \<times> 'c \<Rightarrow> (bool \<times> vmm_state \<times> 'c) option"

definition offsets :: "u64 \<Rightarrow> u64 list" where
  "offsets va = [drop_bit 39 va AND 0x1FF, drop_bit 30 va AND 0x1FF, drop_bit 21 va AND 0x1FF, drop_bit 12 va AND 0x1FF]"

fun walk_levels :: "'c callback \<Rightarrow> u64 \<Rightarrow> nat \<Rightarrow> u64 list \<Rightarrow> u64 \<Rightarrow> vmm_state \<times> 'c \<Rightarrow> (vmm_state \<times> 'c) option" where
  "walk_levels cb va i [] curStructPa s = Some s"
| "walk_levels cb va i (off # offs) curStructPa s = do {
     let entry = PA2VA (fst s) curStructPa + 8 * off;
     r \<leftarrow> cb entry va i s;
     if \<not> fst r then Some (snd r)
     else do {
       x \<leftarrow> load (fst (snd r)) entry;
       ASSERT (i \<noteq> 4 \<longrightarrow> \<not> bit x 7);
       next \<leftarrow> PteGetPhysicalAddress (fst (snd r)) entry;
       walk_levels cb va (Suc i) offs next (snd r)
     }
   }"

partial_function (option) walk_loop ::
  "'c callback \<Rightarrow> u64 \<Rightarrow> u64 \<Rightarrow> u64 \<Rightarrow> u64 \<Rightarrow> vmm_state \<times> 'c \<Rightarrow> (vmm_state \<times> 'c) option" where
  "walk_loop cb Cr3 BaseAddress sz offset s =
     (if offset < sz then do {
        let currentVa = BaseAddress + offset;
        s' \<leftarrow> walk_levels cb currentVa 1 (offsets currentVa) (phys_of Cr3) s;
        walk_loop cb Cr3 BaseAddress sz (offset + PAGE_SIZE) s'
      }
      else Some s)"

declare walk_loop.simps [code]

definition VmWalkPagingTables :: "'c callback \<Rightarrow> u64 \<Rightarrow> u64 \<Rightarrow> u64 \<Rightarrow> vmm_state \<times> 'c \<Rightarrow> (vmm_state \<times> 'c) option" where
  "VmWalkPagingTables cb Cr3 BaseAddress sz s = walk_loop cb Cr3 BaseAddress sz 0 s"

section \<open>Mapping\<close>

record map_context =
  PagingData :: paging_data
  PhysicalAddressBase :: u64
  VirtualAddressBase :: u64
  CtxRights :: u32
  CtxInvalidate :: bool
  CtxUncacheable :: bool

definition VmRetrieveNextPhysicalAddressForPagingStructure :: "paging_data \<Rightarrow> (u64 \<times> paging_data) option" where
  "VmRetrieveNextPhysicalAddressForPagingStructure pd = do {
     let currentIndex = CurrentIndex pd;
     ASSERT (currentIndex < NumberOfFrames pd);
     Some (BasePhysicalAddress pd + ucast (currentIndex * 0x1000), pd\<lparr>CurrentIndex := CurrentIndex pd + 1\<rparr>)
   }"

text \<open>Filling one page with zeros.\<close>

definition zero_page :: "vmm_state \<Rightarrow> u64 \<Rightarrow> vmm_state option" where
  "zero_page s p =
     (if list_all (\<lambda>i. Mem s (p + 8 * of_nat i) \<noteq> None) [0..<512]
      then Some (s\<lparr>Mem := \<lambda>q. if q - p < PAGE_SIZE \<and> (q - p) AND 7 = 0 then Some 0 else Mem s q\<rparr>)
      else None)"

definition VmSetupPagingStructure :: "vmm_state \<Rightarrow> paging_data \<Rightarrow> u64 \<Rightarrow> (vmm_state \<times> paging_data) option" where
  "VmSetupPagingStructure s pd Structure = do {
     ASSERT (Structure \<noteq> 0);
     r \<leftarrow> VmRetrieveNextPhysicalAddressForPagingStructure pd;
     let flags = \<lparr>PatIndex = 0, Writable = True, Executable = True, PagingStructure = True,
       UserAccess = \<not> KernelSpace pd, GlobalPage = False\<rparr>;
     s1 \<leftarrow> PteMap s Structure (fst r) flags;
     s2 \<leftarrow> zero_page (effect s1 (InvalidateTlb (PA2VA s1 (fst r)))) (PA2VA s1 (fst r));
     Some (s2, snd r)
   }"

definition VmMapPage :: "map_context callback" where
  "VmMapPage PageTable VirtualAddress PageLevel sc = do {
     let s = fst sc;
     let ctx = snd sc;
     ASSERT (PageTable \<noteq> 0);
     ASSERT (VirtualAddress \<noteq> 0);
     ASSERT (1 \<le> PageLevel \<and> PageLevel \<le> 4);
     present \<leftarrow> PteIsPresent s PageTable;
     if present \<and> \<not> (PageLevel = 4 \<and> CtxInvalidate ctx) then Some (True, sc)
     else if PageLevel = 4 then do {
       let physAddr = PhysicalAddressBase ctx + (VirtualAddress - VirtualAddressBase ctx);
       let flags = \<lparr>PatIndex = ucast (if CtxUncacheable ctx then UncacheableIndex s else WriteBackIndex s),
         Writable = IsBooleanFlagOn (CtxRights ctx) 1, Executable = IsBooleanFlagOn (CtxRights ctx) 2,
         PagingStructure = False, UserAccess = \<not> KernelSpace (PagingData ctx), GlobalPage = KernelSpace (PagingData ctx)\<rparr>;
       s1 \<leftarrow> PteMap s PageTable physAddr flags;
       Some (True, effect s1 (InvalidateTlb VirtualAddress), ctx)
     }
     else do {
       r \<leftarrow> VmSetupPagingStructure s (PagingData ctx) PageTable;
       Some (True, fst r, ctx\<lparr>PagingData := snd r\<rparr>)
     }
   }"

definition VmmMapMemoryInternal ::
  "vmm_state \<Rightarrow> paging_data \<Rightarrow> u64 \<Rightarrow> u64 \<Rightarrow> u64 \<Rightarrow> u32 \<Rightarrow> bool \<Rightarrow> bool \<Rightarrow> (vmm_state \<times> paging_data) option" where
  "VmmMapMemoryInternal s pd PhysicalAddress sz BaseAddress PageRights Invalidate Uncacheable = do {
     ASSERT (IsAddressAligned PhysicalAddress PAGE_SIZE);
     ASSERT (sz \<noteq> 0 \<and> IsAddressAligned sz PAGE_SIZE);
     let ctx = \<lparr>PagingData = pd, PhysicalAddressBase = PhysicalAddress, VirtualAddressBase = BaseAddress,
       CtxRights = PageRights, CtxInvalidate = Invalidate, CtxUncacheable = Uncacheable\<rparr>;
     r \<leftarrow> VmWalkPagingTables VmMapPage (BasePhysicalAddress pd) BaseAddress sz (s, ctx);
     Some (fst r, PagingData (snd r))
   }"

section \<open>Unmapping\<close>

text \<open>The context is the flag \<open>ReleaseMemory\<close>.\<close>

definition VmUnmapPage :: "bool callback" where
  "VmUnmapPage PageTable VirtualAddress PageLevel sc = do {
     let s = fst sc;
     ASSERT (PageTable \<noteq> 0);
     ASSERT (VirtualAddress \<noteq> 0);
     ASSERT (1 \<le> PageLevel \<and> PageLevel \<le> 4);
     present \<leftarrow> PteIsPresent s PageTable;
     if \<not> present then Some (False, sc)
     else if PageLevel = 4 then do {
       pa \<leftarrow> PteGetPhysicalAddress s PageTable;
       s1 \<leftarrow> PteUnmap s PageTable;
       let s2 = effect s1 (InvalidateTlb VirtualAddress);
       Some (True, if snd sc then effect s2 (ReleaseFrames pa 1) else s2, snd sc)
     }
     else Some (True, sc)
   }"

definition VmmUnmapMemoryEx :: "vmm_state \<Rightarrow> u64 \<Rightarrow> u64 \<Rightarrow> u64 \<Rightarrow> bool \<Rightarrow> vmm_state option" where
  "VmmUnmapMemoryEx s Cr3 VirtualAddress sz ReleaseMemory =
     (if VirtualAddress = 0 \<or> \<not> IsAddressAligned VirtualAddress PAGE_SIZE then Some s
      else if sz = 0 \<or> \<not> IsAddressAligned sz PAGE_SIZE then Some s
      else do {
        r \<leftarrow> VmWalkPagingTables VmUnmapPage Cr3 VirtualAddress sz (s, ReleaseMemory);
        Some (fst r)
      })"

section \<open>Translation\<close>

record phys_context =
  CtxPhysical :: u64
  CtxAccessed :: bool
  CtxDirty :: bool
  ClearAccessed :: bool
  ClearDirty :: bool

text \<open>The \<open>__finally\<close> block of \<open>_VmRetrievePhyAccess\<close>, when the walk ends here.\<close>

definition retrieve_finally :: "u64 \<Rightarrow> u64 \<Rightarrow> vmm_state \<times> phys_context \<Rightarrow> (vmm_state \<times> phys_context) option" where
  "retrieve_finally PageTable VirtualAddress sc = do {
     let s = fst sc;
     let ctx = snd sc;
     e \<leftarrow> load s PageTable;
     let ctx1 = ctx\<lparr>CtxAccessed := bit e 5, CtxDirty := bit e 6\<rparr>;
     let e1 = (if ClearAccessed ctx then put_bit 5 False e else e);
     let e2 = (if ClearDirty ctx then put_bit 6 False e1 else e1);
     s1 \<leftarrow> store s PageTable e2;
     Some (if ClearAccessed ctx \<or> ClearDirty ctx then (effect s1 (InvalidateTlb VirtualAddress), ctx1) else (s, ctx1))
   }"

definition VmRetrievePhyAccess :: "phys_context callback" where
  "VmRetrievePhyAccess PageTable VirtualAddress PageLevel sc = do {
     let s = fst sc;
     let ctx = snd sc;
     ASSERT (PageTable \<noteq> 0);
     ASSERT (VirtualAddress \<noteq> 0);
     ASSERT (1 \<le> PageLevel \<and> PageLevel \<le> 4);
     present \<leftarrow> PteIsPresent s PageTable;
     if \<not> present then Some (False, s, ctx\<lparr>CtxPhysical := 0\<rparr>)
     else if PageLevel < 3 then Some (True, sc)
     else if PageLevel = 3 then do {
       e \<leftarrow> load s PageTable;
       if bit e 7 then do {
         pa \<leftarrow> PteLargePageGetPhysicalAddress s PageTable;
         r \<leftarrow> retrieve_finally PageTable VirtualAddress (s, ctx\<lparr>CtxPhysical := pa + (VirtualAddress AND 0x1FFFFF)\<rparr>);
         Some (False, r)
       }
       else Some (True, sc)
     }
     else do {
       pa \<leftarrow> PteGetPhysicalAddress s PageTable;
       r \<leftarrow> retrieve_finally PageTable VirtualAddress (s, ctx\<lparr>CtxPhysical := pa\<rparr>);
       Some (False, r)
     }
   }"

text \<open>The flags say whether the caller wants the accessed and dirty bits, which clears them. The
  result is the physical address, the two bits and the state.\<close>

definition VmmGetPhysicalAddressEx :: "vmm_state \<Rightarrow> u64 \<Rightarrow> u64 \<Rightarrow> bool \<Rightarrow> bool \<Rightarrow> (u64 \<times> bool \<times> bool \<times> vmm_state) option" where
  "VmmGetPhysicalAddressEx s Cr3 VirtualAddress Accessed Dirty = do {
     ASSERT (VirtualAddress \<noteq> 0);
     ASSERT (IsAddressAligned VirtualAddress PAGE_SIZE);
     r \<leftarrow> VmWalkPagingTables VmRetrievePhyAccess Cr3 VirtualAddress PAGE_SIZE
       (s, \<lparr>CtxPhysical = 0, CtxAccessed = False, CtxDirty = False, ClearAccessed = Accessed, ClearDirty = Dirty\<rparr>);
     Some (CtxPhysical (snd r), CtxAccessed (snd r), CtxDirty (snd r), fst r)
   }"


section \<open>What the processor does\<close>

text \<open>The walk of the processor: the physical address of the page of \<open>va\<close>, and whether writes, instruction
  fetches and accesses from user mode are allowed, which every level has to grant.\<close>

fun hw_walk :: "vmm_state \<Rightarrow> u64 \<Rightarrow> u64 list \<Rightarrow> u64 \<Rightarrow> bool \<Rightarrow> bool \<Rightarrow> bool \<Rightarrow> (u64 \<times> bool \<times> bool \<times> bool) option" where
  "hw_walk s va [] pa w x u = Some (pa, w, x, u)"
| "hw_walk s va (off # offs) pa w x u =
     (case Mem s (PA2VA s pa + 8 * off) of
        None \<Rightarrow> None
      | Some e \<Rightarrow>
          if \<not> bit e 0 then None
          else if length offs = 1 \<and> bit e 7 then Some (large_phys_of e + (va AND 0x1FF000), w \<and> bit e 1, x \<and> \<not> bit e 63, u \<and> bit e 2)
          else hw_walk s va offs (phys_of e) (w \<and> bit e 1) (x \<and> \<not> bit e 63) (u \<and> bit e 2))"

definition translate :: "vmm_state \<Rightarrow> u64 \<Rightarrow> u64 \<Rightarrow> (u64 \<times> bool \<times> bool \<times> bool) option" where
  "translate s Cr3 va = hw_walk s va (offsets va) (phys_of Cr3) True True True"

section \<open>The tables as a tree\<close>

text \<open>Frame \<open>k\<close> of the pool, entry \<open>i\<close>.\<close>

definition ptr :: "vmm_state \<Rightarrow> paging_data \<Rightarrow> nat \<Rightarrow> nat \<Rightarrow> u64" where
  "ptr s pd k i = PA2VA s (BasePhysicalAddress pd + of_nat (4096 * k)) + 8 * of_nat i"

definition entry :: "vmm_state \<Rightarrow> paging_data \<Rightarrow> nat \<Rightarrow> nat \<Rightarrow> u64" where
  "entry s pd k i = the (Mem s (ptr s pd k i))"

definition used :: "paging_data \<Rightarrow> nat" where
  "used pd = unat (CurrentIndex pd)"

definition pool_ok :: "vmm_state \<Rightarrow> paging_data \<Rightarrow> bool" where
  "pool_ok s pd \<longleftrightarrow> unat (NumberOfFrames pd) \<le> 0xFFFFF \<and> 4096 dvd unat (BasePhysicalAddress pd) \<and>
     unat (BasePhysicalAddress pd) + 4096 * unat (NumberOfFrames pd) \<le> 2 ^ 52 \<and>
     0 < used pd \<and> used pd \<le> unat (NumberOfFrames pd) \<and>
     (\<forall>k < unat (NumberOfFrames pd). \<forall>i < 512. ptr s pd k i \<noteq> 0 \<and> Mem s (ptr s pd k i) \<noteq> None)"

text \<open>\<open>P k\<close> is the path from the root to the table in frame \<open>k\<close>. Of the entries of the root only those in \<open>D\<close>
  belong to the tree; the others may refer to tables of somebody else.\<close>

definition upper_entry :: "paging_data \<Rightarrow> nat \<Rightarrow> u64 \<Rightarrow> bool" where
  "upper_entry pd j e \<longleftrightarrow> \<not> bit e 7 \<and> bit e 1 \<and> \<not> bit e 63 \<and> bit e 2 = (\<not> KernelSpace pd) \<and>
     phys_of e = BasePhysicalAddress pd + of_nat (4096 * j)"

definition tree :: "(nat \<Rightarrow> nat list) \<Rightarrow> nat set \<Rightarrow> vmm_state \<Rightarrow> paging_data \<Rightarrow> bool" where
  "tree P D s pd \<longleftrightarrow> P 0 = [] \<and> inj_on P {..<used pd} \<and> (\<forall>k < used pd. length (P k) \<le> 3) \<and>
     (\<forall>k < used pd. \<forall>i < 512. (k = 0 \<longrightarrow> i \<in> D) \<and> length (P k) < 3 \<and> bit (entry s pd k i) 0 \<longrightarrow>
        (\<exists>j < used pd. P j = P k @ [i] \<and> upper_entry pd j (entry s pd k i))) \<and>
     (\<forall>j < used pd. j \<noteq> 0 \<longrightarrow> (\<exists>k < used pd. \<exists>i < 512. (k = 0 \<longrightarrow> i \<in> D) \<and> P j = P k @ [i] \<and> bit (entry s pd k i) 0))"

definition valid_path :: "nat set \<Rightarrow> nat list \<Rightarrow> bool" where
  "valid_path D path \<longleftrightarrow> length path = 4 \<and> hd path \<in> D \<and> (\<forall>i \<in> set path. i < 512)"

text \<open>The entry of the last level at a path, 0 when its table does not exist.\<close>

definition leaf :: "(nat \<Rightarrow> nat list) \<Rightarrow> vmm_state \<Rightarrow> paging_data \<Rightarrow> nat list \<Rightarrow> u64" where
  "leaf P s pd path = (case List.find (\<lambda>k. P k = take 3 path) [0..<used pd] of
     None \<Rightarrow> 0 | Some k \<Rightarrow> entry s pd k (path ! 3))"

definition tables_ok :: "nat set \<Rightarrow> vmm_state \<Rightarrow> paging_data \<Rightarrow> bool" where
  "tables_ok D s pd \<longleftrightarrow> pool_ok s pd \<and> (\<exists>P. tree P D s pd)"

lemma PA2VA_upd [simp]:
  "PA2VA (s\<lparr>Mem := m\<rparr>) pa = PA2VA s pa" "PA2VA (s\<lparr>Effects := es\<rparr>) pa = PA2VA s pa" "PA2VA (effect s e) pa = PA2VA s pa"
  by (simp_all add: PA2VA_def effect_def)

lemma effect_simps [simp]:
  "Mem (effect s e) = Mem s" "VirtualToPhysicalOffset (effect s e) = VirtualToPhysicalOffset s"
  "WriteBackIndex (effect s e) = WriteBackIndex s" "UncacheableIndex (effect s e) = UncacheableIndex s"
  by (simp_all add: effect_def)

lemma ptr_upd [simp]:
  "ptr (s\<lparr>Mem := m\<rparr>) pd k i = ptr s pd k i" "ptr (effect s e) pd k i = ptr s pd k i"
  "ptr s (pd\<lparr>CurrentIndex := c\<rparr>) k i = ptr s pd k i"
  by (simp_all add: ptr_def)

lemma entry_upd [simp]: "entry (effect s e) pd k i = entry s pd k i" "entry s (pd\<lparr>CurrentIndex := c\<rparr>) k i = entry s pd k i"
  by (simp_all add: entry_def)

section \<open>Pointers\<close>

lemma ptr_offset: "ptr s pd k i = PA2VA s (BasePhysicalAddress pd) + of_nat (4096 * k + 8 * i)"
  by (simp add: ptr_def PA2VA_def)

lemma unat_of_nat_u64: "n < 18446744073709551616 \<Longrightarrow> unat (of_nat n :: u64) = n"
  by (rule unat_of_nat_small) simp

lemma of_nat_eq_small:
  assumes "a < 18446744073709551616" "b < 18446744073709551616"
  shows "(of_nat a :: u64) = of_nat b \<longleftrightarrow> a = b"
  using unat_of_nat_u64 [OF assms(1)] unat_of_nat_u64 [OF assms(2)] by metis

lemma ptr_inj:
  assumes "k < 1048576" "k' < 1048576" "i < 512" "i' < 512"
  shows "ptr s pd k i = ptr s pd k' i' \<longleftrightarrow> k = k' \<and> i = i'"
proof
  assume "ptr s pd k i = ptr s pd k' i'"
  then have "(of_nat (4096 * k + 8 * i) :: u64) = of_nat (4096 * k' + 8 * i')" by (simp only: ptr_offset add_left_cancel)
  then have e: "4096 * k + 8 * i = 4096 * k' + 8 * i'"
    by (rule of_nat_eq_small [THEN iffD1, rotated 2]) (use assms in linarith)+
  have "k = k'"
  proof (rule linorder_cases [of k k'])
    assume "k < k'" then show ?thesis using e assms by linarith
  next
    assume "k' < k" then show ?thesis using e assms by linarith
  qed simp
  then show "k = k' \<and> i = i'" using e by simp
qed simp

lemma ptr_in_page:
  assumes "k < 1048576" "c < 1048576" "i < 512"
  shows "ptr s pd k i - PA2VA s (BasePhysicalAddress pd + of_nat (4096 * c)) < PAGE_SIZE \<and>
    (ptr s pd k i - PA2VA s (BasePhysicalAddress pd + of_nat (4096 * c))) AND 7 = 0 \<longleftrightarrow> k = c"
    (is "?d < _ \<and> ?d AND 7 = 0 \<longleftrightarrow> _")
proof -
  have d: "?d = of_nat (4096 * k + 8 * i) - of_nat (4096 * c)" by (simp add: ptr_offset PA2VA_def)
  consider "k = c" | "k < c" | "c < k" by linarith
  then show ?thesis
  proof cases
    case 1
    have e: "?d = of_nat (8 * i)" unfolding d by (simp add: 1)
    have "unat ?d = 8 * i" unfolding e by (rule unat_of_nat_u64) (use assms(3) in simp)
    moreover have "?d AND 7 = 0"
      using IsAddressAligned_iff [of ?d 3] calculation by (simp add: IsAddressAligned_def)
    ultimately show ?thesis using 1 assms(3) by (simp add: word_less_nat_alt)
  next
    case 2
    then have le: "4096 * k + 8 * i \<le> 4096 * c" using assms(3) by linarith
    let ?x = "4096 * c - (4096 * k + 8 * i)"
    have x: "?d + of_nat ?x = 0" unfolding d using le by (simp add: of_nat_diff)
    have small: "0 < ?x" "?x < 8589934592" using 2 assms(2,3) by auto
    have "\<not> ?d < PAGE_SIZE"
    proof
      assume "?d < PAGE_SIZE"
      then have l: "unat ?d < 4096" by (simp add: word_less_nat_alt)
      have u: "unat (of_nat ?x :: u64) = ?x" by (rule unat_of_nat_u64) (use small in linarith)
      have "unat ?d + unat (of_nat ?x :: u64) < 2 ^ LENGTH(64)" using l u small(2) by simp
      from unat_add_small [OF this] show False using x u small(1) by simp
    qed
    then show ?thesis using 2 by simp
  next
    case 3
    then have le: "4096 * c \<le> 4096 * k + 8 * i" by simp
    then have "?d = of_nat (4096 * k + 8 * i - 4096 * c)" unfolding d using le by (simp add: of_nat_diff)
    then have "unat ?d = 4096 * k + 8 * i - 4096 * c" using assms(1,3) by (simp add: unat_of_nat_u64)
    then have "\<not> ?d < PAGE_SIZE" using 3 by (simp add: word_less_nat_alt)
    then show ?thesis using 3 by simp
  qed
qed


section \<open>Bits of an entry\<close>

lemma bit_put_bit [simp]: "bit (put_bit m b e) n \<longleftrightarrow> (if n = m then b \<and> n < 64 else bit e n)"
  by (auto simp: put_bit_def bit_simps dest: bit_imp_le_length)

lemma bit_put_frame [simp]: "bit (put_frame f e) n \<longleftrightarrow> (if 12 \<le> n \<and> n < 52 then bit f (n - 12) else bit e n)"
  by (auto simp: put_frame_def bit_simps dest: bit_imp_le_length)

lemma bit_phys_of [simp]: "bit (phys_of e) n \<longleftrightarrow> 12 \<le> n \<and> n < 52 \<and> bit e n"
  by (auto simp: phys_of_def bit_simps dest: bit_imp_le_length)

lemma bits_above: "unat (a :: u64) < 2 ^ m \<Longrightarrow> m \<le> n \<Longrightarrow> \<not> bit a n"
proof -
  assume a: "unat a < 2 ^ m" "m \<le> n"
  then have "take_bit m a = a" by (metis unat_take_bit mod_less word_unat_eq_iff)
  then have "bit a n = bit (take_bit m a) n" by simp
  then show ?thesis using a(2) by (simp add: bit_simps)
qed

lemma bits_below: "2 ^ m dvd unat (a :: u64) \<Longrightarrow> n < m \<Longrightarrow> \<not> bit a n"
proof -
  assume a: "2 ^ m dvd unat a" "n < m"
  then have "unat (take_bit m a) = 0" by (simp add: unat_take_bit dvd_eq_mod_eq_0)
  then have "take_bit m a = 0" by (simp add: unat_eq_0)
  then have "\<not> bit (take_bit m a) n" by simp
  then show ?thesis using a(2) by (simp add: bit_simps)
qed

lemma phys_of_aligned: "4096 dvd unat pa \<Longrightarrow> unat pa < 2 ^ 52 \<Longrightarrow> phys_of pa = pa"
proof (rule bit_word_eqI)
  assume pa: "4096 dvd unat pa" "unat pa < 2 ^ 52"
  fix n
  have "\<not> bit pa n" if "52 \<le> n" using bits_above [OF pa(2) that] .
  moreover have "\<not> bit pa n" if "n < 12" using bits_below [of 12 pa n] pa(1) that by simp
  ultimately show "bit (phys_of pa) n = bit pa n" by (cases "n < 12"; cases "52 \<le> n") auto
qed

lemma pte_entry_bits:
  "bit (pte_entry pa fl) 0" "bit (pte_entry pa fl) 1 = Writable fl" "bit (pte_entry pa fl) 2 = UserAccess fl"
  "bit (pte_entry pa fl) 63 = (\<not> Executable fl)" "PagingStructure fl \<Longrightarrow> \<not> bit (pte_entry pa fl) 7"
  by (auto simp: pte_entry_def Let_def)

lemma pte_entry_phys: "4096 dvd unat pa \<Longrightarrow> unat pa < 2 ^ 52 \<Longrightarrow> phys_of (pte_entry pa fl) = pa"
proof -
  assume pa: "4096 dvd unat pa" "unat pa < 2 ^ 52"
  have "phys_of (pte_entry pa fl) = phys_of pa"
    by (rule bit_word_eqI) (auto simp: pte_entry_def Let_def bit_simps)
  then show ?thesis using phys_of_aligned [OF pa] by simp
qed

section \<open>The root and the tables\<close>

lemma pool_base:
  assumes "pool_ok s pd" "j < unat (NumberOfFrames pd)"
  shows "unat (BasePhysicalAddress pd + of_nat (4096 * j)) = unat (BasePhysicalAddress pd) + 4096 * j"
    "4096 dvd unat (BasePhysicalAddress pd + of_nat (4096 * j))" "unat (BasePhysicalAddress pd + of_nat (4096 * j)) < 2 ^ 52"
    "phys_of (BasePhysicalAddress pd + of_nat (4096 * j)) = BasePhysicalAddress pd + of_nat (4096 * j)"
proof -
  have n: "unat (NumberOfFrames pd) \<le> 0xFFFFF" "4096 dvd unat (BasePhysicalAddress pd)"
    "unat (BasePhysicalAddress pd) + 4096 * unat (NumberOfFrames pd) \<le> 2 ^ 52"
    using assms(1) by (simp_all add: pool_ok_def)
  have j: "4096 * j + 4096 \<le> 4096 * unat (NumberOfFrames pd)" using assms(2) by simp
  have small: "4096 * j < 18446744073709551616" using j n(1) by linarith
  have "unat (BasePhysicalAddress pd) + 4096 * j < 2 ^ LENGTH(64)" using j n(3) by simp
  then show u: "unat (BasePhysicalAddress pd + of_nat (4096 * j)) = unat (BasePhysicalAddress pd) + 4096 * j"
    using unat_add_small [of "BasePhysicalAddress pd" "of_nat (4096 * j)"] unat_of_nat_u64 [OF small] by simp
  show d: "4096 dvd unat (BasePhysicalAddress pd + of_nat (4096 * j))" unfolding u using n(2) by simp
  show l: "unat (BasePhysicalAddress pd + of_nat (4096 * j)) < 2 ^ 52" unfolding u using j n(3) by simp
  show "phys_of (BasePhysicalAddress pd + of_nat (4096 * j)) = BasePhysicalAddress pd + of_nat (4096 * j)"
    by (rule phys_of_aligned [OF d l])
qed

lemma next_frame:
  assumes "pool_ok s pd" "used pd < unat (NumberOfFrames pd)"
  shows "VmRetrieveNextPhysicalAddressForPagingStructure pd =
    Some (BasePhysicalAddress pd + of_nat (4096 * used pd), pd\<lparr>CurrentIndex := CurrentIndex pd + 1\<rparr>)"
proof -
  have n: "unat (CurrentIndex pd) < 0xFFFFF" using assms by (simp add: pool_ok_def used_def)
  have "unat (CurrentIndex pd) * unat (0x1000 :: u32) < 2 ^ LENGTH(32)" using n by simp
  from unat_mult_small [OF this] have u: "unat (CurrentIndex pd * 0x1000) = 4096 * used pd" by (simp add: used_def)
  have "4096 * used pd < 18446744073709551616" using n by (simp add: used_def)
  from unat_of_nat_u64 [OF this] have "(ucast (CurrentIndex pd * 0x1000 :: u32) :: u64) = of_nat (4096 * used pd)"
    unfolding word_unat_eq_iff unat_ucast_up u by (rule sym)
  then show ?thesis using assms(2)
    by (simp add: VmRetrieveNextPhysicalAddressForPagingStructure_def Let_def used_def word_less_nat_alt)
qed

lemma used_next: "used pd < unat (NumberOfFrames pd) \<Longrightarrow> used (pd\<lparr>CurrentIndex := CurrentIndex pd + 1\<rparr>) = Suc (used pd)"
proof -
  assume "used pd < unat (NumberOfFrames pd)"
  then have "unat (CurrentIndex pd) + unat (1 :: u32) < 2 ^ LENGTH(32)"
    using unat_lt_u32 [of "NumberOfFrames pd"] by (simp add: used_def)
  from unat_add_small [OF this] show ?thesis by (simp add: used_def)
qed

lemma used_upd [simp]: "used (pd\<lparr>CurrentIndex := c\<rparr>) = unat c"
  by (simp add: used_def)

lemma pool_frames:
  assumes "pool_ok s pd" "k < unat (NumberOfFrames pd)" "i < 512"
  shows "ptr s pd k i \<noteq> 0" "Mem s (ptr s pd k i) = Some (entry s pd k i)" "k < 1048576"
proof -
  show "ptr s pd k i \<noteq> 0" "k < 1048576" using assms by (auto simp: pool_ok_def)
  have "Mem s (ptr s pd k i) \<noteq> None" using assms unfolding pool_ok_def by blast
  then show "Mem s (ptr s pd k i) = Some (entry s pd k i)" by (auto simp: entry_def)
qed

lemma store_run:
  assumes "pool_ok s pd" "k < unat (NumberOfFrames pd)" "i < 512"
  shows "store s (ptr s pd k i) v = Some (s\<lparr>Mem := (Mem s)(ptr s pd k i \<mapsto> v)\<rparr>)"
    "\<And>k' i'. k' < unat (NumberOfFrames pd) \<Longrightarrow> i' < 512 \<Longrightarrow>
      entry (s\<lparr>Mem := (Mem s)(ptr s pd k i \<mapsto> v)\<rparr>) pd k' i' = (if k' = k \<and> i' = i then v else entry s pd k' i')"
    "pool_ok (s\<lparr>Mem := (Mem s)(ptr s pd k i \<mapsto> v)\<rparr>) pd"
proof -
  show "store s (ptr s pd k i) v = Some (s\<lparr>Mem := (Mem s)(ptr s pd k i \<mapsto> v)\<rparr>)"
    using pool_frames [OF assms] by (simp add: store_def)
  show "entry (s\<lparr>Mem := (Mem s)(ptr s pd k i \<mapsto> v)\<rparr>) pd k' i' = (if k' = k \<and> i' = i then v else entry s pd k' i')"
    if "k' < unat (NumberOfFrames pd)" "i' < 512" for k' i'
    using ptr_inj [of k' k i' i s pd] pool_frames [OF assms(1) that] pool_frames [OF assms] that(2) assms(3) by (simp add: entry_def)
  show "pool_ok (s\<lparr>Mem := (Mem s)(ptr s pd k i \<mapsto> v)\<rparr>) pd" using assms(1) by (auto simp: pool_ok_def)
qed

lemma zero_run:
  assumes "pool_ok s pd" "c < unat (NumberOfFrames pd)"
  obtains m where "zero_page s (PA2VA s (BasePhysicalAddress pd + of_nat (4096 * c))) = Some (s\<lparr>Mem := m\<rparr>)"
    "\<And>k i. k < unat (NumberOfFrames pd) \<Longrightarrow> i < 512 \<Longrightarrow> entry (s\<lparr>Mem := m\<rparr>) pd k i = (if k = c then 0 else entry s pd k i)"
    "pool_ok (s\<lparr>Mem := m\<rparr>) pd"
proof -
  let ?p = "PA2VA s (BasePhysicalAddress pd + of_nat (4096 * c))"
  let ?m = "\<lambda>q. if q - ?p < PAGE_SIZE \<and> (q - ?p) AND 7 = 0 then Some 0 else Mem s q"
  have at: "?m (ptr s pd k i) = (if k = c then Some 0 else Some (entry s pd k i))"
    if "k < unat (NumberOfFrames pd)" "i < 512" for k i
    using ptr_in_page [of k c i s pd] pool_frames [OF assms(1) that] pool_frames(3) [OF assms, of 0] that by simp
  have "Mem s (?p + 8 * of_nat i) \<noteq> None" if "i < 512" for i
    using pool_frames(2) [OF assms that] by (simp add: ptr_def)
  then have "zero_page s ?p = Some (s\<lparr>Mem := ?m\<rparr>)" unfolding zero_page_def by (simp add: list_all_iff)
  moreover have "entry (s\<lparr>Mem := ?m\<rparr>) pd k i = (if k = c then 0 else entry s pd k i)"
    if "k < unat (NumberOfFrames pd)" "i < 512" for k i
    unfolding entry_def using at [OF that] by (simp add: entry_def)
  moreover have "pool_ok (s\<lparr>Mem := ?m\<rparr>) pd"
    using assms(1) at unfolding pool_ok_def by simp
  ultimately show thesis using that by blast
qed


section \<open>New tables\<close>

definition same_machine :: "vmm_state \<Rightarrow> vmm_state \<Rightarrow> bool" where
  "same_machine s s' \<longleftrightarrow> VirtualToPhysicalOffset s' = VirtualToPhysicalOffset s \<and> WriteBackIndex s' = WriteBackIndex s \<and>
     UncacheableIndex s' = UncacheableIndex s"

definition same_pool :: "paging_data \<Rightarrow> paging_data \<Rightarrow> bool" where
  "same_pool pd pd' \<longleftrightarrow> BasePhysicalAddress pd' = BasePhysicalAddress pd \<and> NumberOfFrames pd' = NumberOfFrames pd \<and>
     KernelSpace pd' = KernelSpace pd"

definition grown ::
  "(nat \<Rightarrow> nat list) \<Rightarrow> nat set \<Rightarrow> vmm_state \<Rightarrow> paging_data \<Rightarrow> (nat \<Rightarrow> nat list) \<Rightarrow> vmm_state \<Rightarrow> paging_data \<Rightarrow> nat \<Rightarrow> bool" where
  "grown P D s pd P' s' pd' n \<longleftrightarrow> pool_ok s' pd' \<and> tree P' D s' pd' \<and> same_machine s s' \<and> same_pool pd pd' \<and>
     used pd' \<le> used pd + n \<and> (\<forall>path. valid_path D path \<longrightarrow> leaf P' s' pd' path = leaf P s pd path)"

lemma grown_refl: "pool_ok s pd \<Longrightarrow> tree P D s pd \<Longrightarrow> grown P D s pd P s pd 0"
  by (simp add: grown_def same_machine_def same_pool_def)

lemma grown_trans: "grown P D s pd P1 s1 pd1 m \<Longrightarrow> grown P1 D s1 pd1 P2 s2 pd2 n \<Longrightarrow> grown P D s pd P2 s2 pd2 (m + n)"
  by (simp add: grown_def same_machine_def same_pool_def)

lemma tree_unique: "tree P D s pd \<Longrightarrow> k < used pd \<Longrightarrow> k' < used pd \<Longrightarrow> P k = P k' \<Longrightarrow> k = k'"
  by (auto simp: tree_def inj_on_def)

lemma leaf_at:
  assumes "tree P D s pd" "k < used pd" "P k = take 3 path"
  shows "leaf P s pd path = entry s pd k (path ! 3)"
proof -
  have "List.find (\<lambda>k. P k = take 3 path) [0..<used pd] = Some k"
    unfolding find_Some_iff
  proof (intro exI [of _ k] conjI allI impI)
    show "P ([0..<used pd] ! j) \<noteq> take 3 path" if "j < k" for j
      using tree_unique [OF assms(1,2), of j] that assms(2,3) by auto
  qed (use assms in simp_all)
  then show ?thesis by (simp add: leaf_def)
qed

lemma leaf_nowhere: "(\<And>k. k < used pd \<Longrightarrow> P k \<noteq> take 3 path) \<Longrightarrow> leaf P s pd path = 0"
proof -
  assume "\<And>k. k < used pd \<Longrightarrow> P k \<noteq> take 3 path"
  then have "List.find (\<lambda>k. P k = take 3 path) [0..<used pd] = None" by (simp add: find_None_iff)
  then show ?thesis by (simp add: leaf_def)
qed

lemma tree_child:
  assumes "tree P D s pd" "k < used pd" "i < 512" "k = 0 \<longrightarrow> i \<in> D" "length (P k) < 3" "bit (entry s pd k i) 0"
  obtains j where "j < used pd" "P j = P k @ [i]" "upper_entry pd j (entry s pd k i)"
  using assms unfolding tree_def by blast

lemma tree_parent:
  assumes "tree P D s pd" "j < used pd" "j \<noteq> 0"
  obtains k i where "k < used pd" "i < 512" "k = 0 \<longrightarrow> i \<in> D" "P j = P k @ [i]" "bit (entry s pd k i) 0"
  using assms unfolding tree_def by blast

lemma no_child:
  assumes "tree P D s pd" "k < used pd" "\<not> bit (entry s pd k i) 0" "j < used pd"
  shows "P j \<noteq> P k @ [i]"
proof
  assume j: "P j = P k @ [i]"
  moreover have "P 0 = []" using assms(1) by (simp add: tree_def)
  ultimately have "j \<noteq> 0" by (cases "j = 0") simp_all
  from tree_parent [OF assms(1,4) this] obtain k' i' where "k' < used pd" "P j = P k' @ [i']" "bit (entry s pd k' i') 0"
    by blast
  then show False using j assms(3) tree_unique [OF assms(1,2), of k'] by simp
qed

lemma setup_table:
  assumes pool: "pool_ok s pd" and tree: "tree P D s pd" and k: "k < used pd" "length (P k) < 3"
    and i: "i < 512" "k = 0 \<longrightarrow> i \<in> D" and absent: "\<not> bit (entry s pd k i) 0" and room: "used pd < unat (NumberOfFrames pd)"
  obtains s' pd' where "VmSetupPagingStructure s pd (ptr s pd k i) = Some (s', pd')"
    "grown P D s pd (P(used pd := P k @ [i])) s' pd' 1" "used pd' = Suc (used pd)"
    "bit (entry s' pd' k i) 0" "upper_entry pd' (used pd) (entry s' pd' k i)"
proof -
  let ?c = "used pd"
  let ?pa = "BasePhysicalAddress pd + of_nat (4096 * ?c)"
  let ?fl = "\<lparr>PatIndex = 0, Writable = True, Executable = True, PagingStructure = True,
       UserAccess = \<not> KernelSpace pd, GlobalPage = False\<rparr>"
  let ?e = "pte_entry ?pa ?fl"
  let ?pd = "pd\<lparr>CurrentIndex := CurrentIndex pd + 1\<rparr>"
  have kN: "k < unat (NumberOfFrames pd)" using k room by simp
  have u: "used ?pd = Suc ?c" by (rule used_next [OF room])
  note b = pool_base [OF pool room]
  have e: "bit ?e 0" "upper_entry ?pd ?c ?e"
    using pte_entry_phys [OF b(2,3)] by (simp_all add: upper_entry_def pte_entry_bits del: One_nat_def)
  let ?s1 = "effect (s\<lparr>Mem := (Mem s)(ptr s pd k i \<mapsto> ?e)\<rparr>) (InvalidateTlb (PA2VA s ?pa))"
  note st = store_run [OF pool kN i(1), where v = ?e]
  have pool1: "pool_ok ?s1 pd" using st(3) by (simp add: pool_ok_def)
  obtain m where m: "zero_page ?s1 (PA2VA ?s1 ?pa) = Some (?s1\<lparr>Mem := m\<rparr>)" "pool_ok (?s1\<lparr>Mem := m\<rparr>) pd"
    "\<And>k' i'. k' < unat (NumberOfFrames pd) \<Longrightarrow> i' < 512 \<Longrightarrow>
      entry (?s1\<lparr>Mem := m\<rparr>) pd k' i' = (if k' = ?c then 0 else entry ?s1 pd k' i')"
    by (rule zero_run [OF pool1 room]) blast
  let ?s' = "?s1\<lparr>Mem := m\<rparr>"
  have en: "entry ?s' pd k' i' = (if k' = ?c then 0 else if k' = k \<and> i' = i then ?e else entry s pd k' i')"
    if "k' < Suc ?c" "i' < 512" for k' i'
    using m(3) [of k' i'] st(2) [of k' i'] that room by simp
  have run: "VmSetupPagingStructure s pd (ptr s pd k i) = Some (?s', ?pd)"
    using pool_frames(1) [OF pool kN i(1)] st(1) m(1)
    by (simp add: VmSetupPagingStructure_def next_frame [OF pool room] PteMap_def Let_def)
  let ?P = "P(?c := P k @ [i])"
  have fresh: "P j \<noteq> P k @ [i]" if "j < ?c" for j by (rule no_child [OF tree k(1) absent that])
  have pos: "0 < ?c" using pool by (simp add: pool_ok_def)
  have inj: "inj_on ?P {..<Suc ?c}"
    using tree fresh unfolding tree_def lessThan_Suc by (auto simp: inj_on_def)
  have down: "\<exists>j < Suc ?c. ?P j = ?P k' @ [i'] \<and> upper_entry ?pd j (entry ?s' pd k' i')"
    if h: "k' < Suc ?c" "i' < 512" "k' = 0 \<longrightarrow> i' \<in> D" "length (?P k') < 3" "bit (entry ?s' pd k' i') 0" for k' i'
  proof (cases "k' = k \<and> i' = i")
    case True
    then show ?thesis using k(1) e(2) en [of k i] i(1) by (intro exI [of _ ?c]) simp
  next
    case False
    have "k' \<noteq> ?c" using h(5) en [OF h(1,2)] by auto
    then have kc: "k' < ?c" "entry ?s' pd k' i' = entry s pd k' i'" using h(1) en [OF h(1,2)] False by auto
    obtain j where "j < ?c" "P j = P k' @ [i']" "upper_entry pd j (entry s pd k' i')"
      by (rule tree_child [OF tree kc(1) h(2,3)]) (use h(4,5) kc in simp_all)
    then show ?thesis using kc by (intro exI [of _ j]) (simp add: upper_entry_def)
  qed
  have up: "\<exists>k' < Suc ?c. \<exists>i' < 512. (k' = 0 \<longrightarrow> i' \<in> D) \<and> ?P j = ?P k' @ [i'] \<and> bit (entry ?s' pd k' i') 0"
    if h: "j < Suc ?c" "j \<noteq> 0" for j
  proof (cases "j = ?c")
    case True
    then show ?thesis using k(1) i e(1) en [of k i] by (intro exI [of _ k] conjI exI [of _ i]) simp_all
  next
    case False
    then obtain k' i' where c: "k' < ?c" "i' < 512" "k' = 0 \<longrightarrow> i' \<in> D" "P j = P k' @ [i']" "bit (entry s pd k' i') 0"
      using tree_parent [OF tree _ h(2)] h(1) less_Suc_eq by blast
    then show ?thesis using False e(1) en [of k' i'] by (intro exI [of _ k'] conjI exI [of _ i']) auto
  qed
  have treeP: "tree ?P D ?s' ?pd"
    using tree inj down up pos k(2) unfolding tree_def u by (simp add: less_Suc_eq)
  have poolP: "pool_ok ?s' ?pd" using m(2) u room unfolding pool_ok_def by (simp add: used_def)
  have same: "leaf ?P ?s' ?pd path = leaf P s pd path" if "valid_path D path" for path
  proof (cases "\<exists>k' < ?c. P k' = take 3 path")
    case True
    then obtain k' where k': "k' < ?c" "P k' = take 3 path" by blast
    then have "length (P k') = 3" using that by (simp add: valid_path_def)
    then have "k' \<noteq> k" using k(2) by auto
    moreover have "path ! 3 < 512" using that by (auto simp: valid_path_def)
    ultimately show ?thesis
      using leaf_at [OF tree k'] leaf_at [OF treeP, of k' path] k' en [of k' "path ! 3"] u by simp
  next
    case False
    then have n: "leaf P s pd path = 0" by (intro leaf_nowhere) blast
    show ?thesis
    proof (cases "P k @ [i] = take 3 path")
      case True
      have "path ! 3 < 512" using that by (auto simp: valid_path_def)
      then show ?thesis using n leaf_at [OF treeP, of ?c path] True u en [of ?c "path ! 3"] by simp
    next
      case False
      then have "leaf ?P ?s' ?pd path = 0" using \<open>\<not> (\<exists>k' < ?c. P k' = take 3 path)\<close> u
        by (intro leaf_nowhere) (auto simp: less_Suc_eq)
      then show ?thesis using n by simp
    qed
  qed
  then have "grown P D s pd ?P ?s' ?pd 1" using treeP poolP u by (simp add: grown_def same_machine_def same_pool_def)
  then show thesis using that [OF run] u e en [of k i] k(1) i(1) by simp
qed


section \<open>One step of a walk\<close>

lemma walk_on:
  assumes "pool_ok s pd" "k < unat (NumberOfFrames pd)" "unat off < 512"
    and "cb (ptr s pd k (unat off)) va lvl (s, c) = Some (True, s', c')"
    and "pool_ok s' pd'" "same_machine s s'" "same_pool pd pd'" "lvl \<noteq> 4 \<Longrightarrow> \<not> bit (entry s' pd' k (unat off)) 7"
  shows "walk_levels cb va lvl (off # offs) (BasePhysicalAddress pd + of_nat (4096 * k)) (s, c) =
    walk_levels cb va (Suc lvl) offs (phys_of (entry s' pd' k (unat off))) (s', c')"
proof -
  have p: "PA2VA s (BasePhysicalAddress pd + of_nat (4096 * k)) + 8 * off = ptr s pd k (unat off)" by (simp add: ptr_def)
  have p': "ptr s' pd' k (unat off) = ptr s pd k (unat off)"
    using assms(6,7) by (simp add: ptr_def PA2VA_def same_machine_def same_pool_def)
  have k: "k < unat (NumberOfFrames pd')" using assms(2,7) by (simp add: same_pool_def)
  note f = pool_frames [OF assms(5) k assms(3)]
  show ?thesis using f(1,2) assms(4,8) unfolding p' walk_levels.simps Let_def fst_conv p
    by (simp add: load_def PteGetPhysicalAddress_def)
qed

lemma walk_off:
  assumes "unat off < 512" "cb (ptr s pd k (unat off)) va lvl (s, c) = Some (False, s', c')"
  shows "walk_levels cb va lvl (off # offs) (BasePhysicalAddress pd + of_nat (4096 * k)) (s, c) = Some (s', c')"
proof -
  have p: "PA2VA s (BasePhysicalAddress pd + of_nat (4096 * k)) + 8 * off = ptr s pd k (unat off)" by (simp add: ptr_def)
  show ?thesis using assms unfolding walk_levels.simps Let_def fst_conv p by simp
qed

lemma same_refl [simp]: "same_machine s s" "same_pool pd pd"
  by (simp_all add: same_machine_def same_pool_def)

lemma PteIsPresent_run:
  "pool_ok s pd \<Longrightarrow> k < unat (NumberOfFrames pd) \<Longrightarrow> i < 512 \<Longrightarrow> PteIsPresent s (ptr s pd k i) = Some (bit (entry s pd k i) 0)"
  using pool_frames [of s pd k i] by (simp add: PteIsPresent_def load_def)

lemma used_le: "pool_ok s pd \<Longrightarrow> k < used pd \<Longrightarrow> k < unat (NumberOfFrames pd)"
  by (simp add: pool_ok_def)

section \<open>The levels of a path\<close>

lemma path_levels:
  assumes pool: "pool_ok s pd" and tree: "tree P D s pd" and v: "valid_path D [i1, i2, i3, i4]"
  obtains (full) k1 k2 k3 where "k1 < used pd" "k2 < used pd" "k3 < used pd" "P k3 = [i1, i2, i3]"
      "bit (entry s pd 0 i1) 0" "bit (entry s pd k1 i2) 0" "bit (entry s pd k2 i3) 0"
      "upper_entry pd k1 (entry s pd 0 i1)" "upper_entry pd k2 (entry s pd k1 i2)" "upper_entry pd k3 (entry s pd k2 i3)"
      "leaf P s pd [i1, i2, i3, i4] = entry s pd k3 i4"
  | (stop1) "\<not> bit (entry s pd 0 i1) 0" "leaf P s pd [i1, i2, i3, i4] = 0"
  | (stop2) k1 where "k1 < used pd" "bit (entry s pd 0 i1) 0" "upper_entry pd k1 (entry s pd 0 i1)"
      "\<not> bit (entry s pd k1 i2) 0" "leaf P s pd [i1, i2, i3, i4] = 0"
  | (stop3) k1 k2 where "k1 < used pd" "k2 < used pd" "bit (entry s pd 0 i1) 0" "upper_entry pd k1 (entry s pd 0 i1)"
      "bit (entry s pd k1 i2) 0" "upper_entry pd k2 (entry s pd k1 i2)" "\<not> bit (entry s pd k2 i3) 0"
      "leaf P s pd [i1, i2, i3, i4] = 0"
proof -
  have P0: "P 0 = []" and c0: "0 < used pd" using tree pool by (simp_all add: tree_def pool_ok_def)
  have i: "i1 < 512" "i2 < 512" "i3 < 512" "i4 < 512" "i1 \<in> D" using v by (simp_all add: valid_path_def)
  have above: "\<exists>k' < used pd. P k' = p \<and> bit (entry s pd k' q) 0" if "k < used pd" "P k = p @ [q]" for k p q
  proof -
    have "k \<noteq> 0" using that(2) P0 by (cases "k = 0") simp_all
    from tree_parent [OF tree that(1) this] show ?thesis using that(2) by (metis append1_eq_conv)
  qed
  have gone: "leaf P s pd [i1, i2, i3, i4] = 0" if "\<And>k. k < used pd \<Longrightarrow> P k \<noteq> [i1, i2, i3]"
    using that by (intro leaf_nowhere) simp
  show thesis
  proof (cases "bit (entry s pd 0 i1) 0")
    case False
    have "P k \<noteq> [i1]" if "k < used pd" for k using no_child [OF tree c0 False that] P0 by simp
    then have "P k \<noteq> [i1, i2]" if "k < used pd" for k using above [of k "[i1]" i2] that by auto
    then have "P k \<noteq> [i1, i2, i3]" if "k < used pd" for k using above [of k "[i1, i2]" i3] that by auto
    then show thesis using stop1 False gone by blast
  next
    case b1: True
    obtain k1 where k1: "k1 < used pd" "P k1 = [i1]" "upper_entry pd k1 (entry s pd 0 i1)"
      by (rule tree_child [OF tree c0 i(1)]) (use b1 i P0 in simp_all)
    have n1: "k1 \<noteq> 0" using k1(2) P0 by (cases "k1 = 0") simp_all
    show thesis
    proof (cases "bit (entry s pd k1 i2) 0")
      case False
      have "P k \<noteq> [i1, i2]" if "k < used pd" for k using no_child [OF tree k1(1) False that] k1(2) by simp
      then have "P k \<noteq> [i1, i2, i3]" if "k < used pd" for k using above [of k "[i1, i2]" i3] that by auto
      then show thesis using stop2 k1 b1 False gone by blast
    next
      case b2: True
      obtain k2 where k2: "k2 < used pd" "P k2 = [i1, i2]" "upper_entry pd k2 (entry s pd k1 i2)"
        by (rule tree_child [OF tree k1(1) i(2)]) (use b2 k1 n1 in simp_all)
      have n2: "k2 \<noteq> 0" using k2(2) P0 by (cases "k2 = 0") simp_all
      show thesis
      proof (cases "bit (entry s pd k2 i3) 0")
        case False
        have "P k \<noteq> [i1, i2, i3]" if "k < used pd" for k using no_child [OF tree k2(1) False that] k2(2) by simp
        then show thesis using stop3 k1 k2 b1 b2 False gone by blast
      next
        case b3: True
        obtain k3 where k3: "k3 < used pd" "P k3 = [i1, i2, i3]" "upper_entry pd k3 (entry s pd k2 i3)"
          by (rule tree_child [OF tree k2(1) i(3)]) (use b3 k2 n2 in simp_all)
        have "leaf P s pd [i1, i2, i3, i4] = entry s pd k3 i4" using leaf_at [OF tree k3(1)] k3(2) by simp
        then show thesis using full k1 k2 k3 b1 b2 b3 by blast
      qed
    qed
  qed
qed

section \<open>Translation by the tree\<close>

definition path_of :: "u64 \<Rightarrow> nat list" where
  "path_of va = map unat (offsets va)"

lemma unat_and_1FF: "unat (x AND 0x1FF :: u64) < 512"
proof -
  have "x AND 0x1FF = take_bit 9 x" by (simp add: take_bit_eq_mask mask_eq_exp_minus_1)
  then show ?thesis by (simp add: unat_take_bit)
qed

lemma offsets_cases:
  obtains o1 o2 o3 o4 where "offsets va = [o1, o2, o3, o4]" "path_of va = [unat o1, unat o2, unat o3, unat o4]"
    "unat o1 < 512" "unat o2 < 512" "unat o3 < 512" "unat o4 < 512"
  using unat_and_1FF by (simp add: offsets_def path_of_def)

definition leaf_translation :: "paging_data \<Rightarrow> u64 \<Rightarrow> (u64 \<times> bool \<times> bool \<times> bool) option" where
  "leaf_translation pd e = (if bit e 0 then Some (phys_of e, bit e 1, \<not> bit e 63, \<not> KernelSpace pd \<and> bit e 2) else None)"

lemma hw_on:
  assumes "pool_ok s pd" "k < used pd" "unat off < 512" "bit (entry s pd k (unat off)) 0" "upper_entry pd j (entry s pd k (unat off))"
  shows "hw_walk s va (off # offs) (BasePhysicalAddress pd + of_nat (4096 * k)) w x u =
    hw_walk s va offs (BasePhysicalAddress pd + of_nat (4096 * j)) w x (u \<and> \<not> KernelSpace pd)"
proof -
  have "Mem s (PA2VA s (BasePhysicalAddress pd + of_nat (4096 * k)) + 8 * off) = Some (entry s pd k (unat off))"
    using pool_frames(2) [OF assms(1) used_le [OF assms(1,2)] assms(3)] by (simp add: ptr_def)
  then show ?thesis using assms(4,5) by (simp add: upper_entry_def del: One_nat_def)
qed

lemma hw_off:
  assumes "pool_ok s pd" "k < used pd" "unat off < 512" "\<not> bit (entry s pd k (unat off)) 0"
  shows "hw_walk s va (off # offs) (BasePhysicalAddress pd + of_nat (4096 * k)) w x u = None"
proof -
  have "Mem s (PA2VA s (BasePhysicalAddress pd + of_nat (4096 * k)) + 8 * off) = Some (entry s pd k (unat off))"
    using pool_frames(2) [OF assms(1) used_le [OF assms(1,2)] assms(3)] by (simp add: ptr_def)
  then show ?thesis using assms(4) by simp
qed

lemma translate_leaf:
  assumes pool: "pool_ok s pd" and tree: "tree P D s pd" and v: "valid_path D (path_of va)"
  shows "translate s (BasePhysicalAddress pd) va = leaf_translation pd (leaf P s pd (path_of va))"
proof -
  have c0: "0 < used pd" using pool by (simp add: pool_ok_def)
  have base: "phys_of (BasePhysicalAddress pd) = BasePhysicalAddress pd + of_nat (4096 * 0)"
    using pool_base(4) [OF pool used_le [OF pool c0]] by simp
  obtain o1 o2 o3 o4 where o: "offsets va = [o1, o2, o3, o4]" "path_of va = [unat o1, unat o2, unat o3, unat o4]"
    "unat o1 < 512" "unat o2 < 512" "unat o3 < 512" "unat o4 < 512" by (rule offsets_cases)
  from pool tree v [unfolded o(2)] show ?thesis unfolding translate_def o(1,2) base
  proof (cases rule: path_levels)
    case (full k1 k2 k3)
    have m: "Mem s (PA2VA s (BasePhysicalAddress pd + of_nat (4096 * k3)) + 8 * o4) = Some (entry s pd k3 (unat o4))"
      using pool_frames(2) [OF pool used_le [OF pool full(3)] o(6)] by (simp add: ptr_def)
    show "hw_walk s va [o1, o2, o3, o4] (BasePhysicalAddress pd + of_nat (4096 * 0)) True True True =
        leaf_translation pd (leaf P s pd [unat o1, unat o2, unat o3, unat o4])"
      unfolding hw_on [OF pool c0 o(3) full(5,8)] hw_on [OF pool full(1) o(4) full(6,9)]
        hw_on [OF pool full(2) o(5) full(7,10)] full(11)
      using m by (simp add: leaf_translation_def del: One_nat_def)
  next
    case stop1
    then show "hw_walk s va [o1, o2, o3, o4] (BasePhysicalAddress pd + of_nat (4096 * 0)) True True True =
        leaf_translation pd (leaf P s pd [unat o1, unat o2, unat o3, unat o4])"
      unfolding hw_off [OF pool c0 o(3) stop1(1)] by (simp add: leaf_translation_def)
  next
    case (stop2 k1)
    then show "hw_walk s va [o1, o2, o3, o4] (BasePhysicalAddress pd + of_nat (4096 * 0)) True True True =
        leaf_translation pd (leaf P s pd [unat o1, unat o2, unat o3, unat o4])"
      unfolding hw_on [OF pool c0 o(3) stop2(2,3)] hw_off [OF pool stop2(1) o(4) stop2(4)] by (simp add: leaf_translation_def)
  next
    case (stop3 k1 k2)
    then show "hw_walk s va [o1, o2, o3, o4] (BasePhysicalAddress pd + of_nat (4096 * 0)) True True True =
        leaf_translation pd (leaf P s pd [unat o1, unat o2, unat o3, unat o4])"
      unfolding hw_on [OF pool c0 o(3) stop3(3,4)] hw_on [OF pool stop3(1) o(4) stop3(5,6)]
        hw_off [OF pool stop3(2) o(5) stop3(7)] by (simp add: leaf_translation_def)
  qed
qed


section \<open>Pages of a range\<close>

definition same_page :: "u64 \<Rightarrow> u64 \<Rightarrow> bool" where
  "same_page va va' \<longleftrightarrow> take_bit 36 (drop_bit 12 va) = take_bit 36 (drop_bit 12 va')"

text \<open>Which of the \<open>n\<close> pages from \<open>base\<close> on \<open>va\<close> lies in.\<close>

definition page_index :: "u64 \<Rightarrow> nat \<Rightarrow> u64 \<Rightarrow> nat option" where
  "page_index base n va = List.find (\<lambda>i. same_page va (base + of_nat (4096 * i))) [0..<n]"

lemma offsets_take: "offsets va = [take_bit 9 (drop_bit 39 va), take_bit 9 (drop_bit 30 va), take_bit 9 (drop_bit 21 va), take_bit 9 (drop_bit 12 va)]"
  by (simp add: offsets_def take_bit_eq_mask mask_eq_exp_minus_1)

lemma path_of_eq: "path_of va = path_of va' \<longleftrightarrow> same_page va va'"
proof
  assume "path_of va = path_of va'"
  then have e: "take_bit 9 (drop_bit 39 va) = take_bit 9 (drop_bit 39 va')" "take_bit 9 (drop_bit 30 va) = take_bit 9 (drop_bit 30 va')"
    "take_bit 9 (drop_bit 21 va) = take_bit 9 (drop_bit 21 va')" "take_bit 9 (drop_bit 12 va) = take_bit 9 (drop_bit 12 va')"
    by (simp_all add: path_of_def offsets_take word_unat_eq_iff)
  have b: "bit va (m + n) = bit va' (m + n)" if "n < 9" "take_bit 9 (drop_bit m va) = take_bit 9 (drop_bit m va')" for m n
    using arg_cong [OF that(2), of "\<lambda>x. bit x n"] that(1) by (simp add: bit_take_bit_iff bit_drop_bit_eq)
  have "bit va (12 + n) = bit va' (12 + n)" if n: "n < 36" for n
  proof -
    consider "n < 9" | "9 \<le> n" "n - 9 < 9" | "18 \<le> n" "n - 18 < 9" | "27 \<le> n" "n - 27 < 9" using n by linarith
    then show ?thesis using b [OF _ e(4), of n] b [OF _ e(3), of "n - 9"] b [OF _ e(2), of "n - 18"] b [OF _ e(1), of "n - 27"]
      by cases simp_all
  qed
  then show "same_page va va'" unfolding same_page_def
    by (intro bit_word_eqI) (auto simp: bit_take_bit_iff bit_drop_bit_eq)
next
  assume "same_page va va'"
  then have t: "take_bit 36 (drop_bit 12 va) = take_bit 36 (drop_bit 12 va')" by (simp add: same_page_def)
  have b: "bit va (12 + n) = bit va' (12 + n)" if "n < 36" for n
    using arg_cong [OF t, of "\<lambda>x. bit x n"] that by (simp add: bit_take_bit_iff bit_drop_bit_eq)
  have "take_bit 9 (drop_bit (12 + m) va) = take_bit 9 (drop_bit (12 + m) va')" if "m \<le> 27" for m
    using b that by (intro bit_word_eqI) (auto simp: bit_take_bit_iff bit_drop_bit_eq add.assoc)
  from this [of 0] this [of 9] this [of 18] this [of 27] show "path_of va = path_of va'"
    by (simp add: path_of_def offsets_take)
qed

lemma page_number:
  assumes "4096 dvd unat (base :: u64)"
  shows "unat (take_bit 36 (drop_bit 12 (base + of_nat (4096 * i)))) = (unat base div 4096 + i) mod 68719476736"
proof -
  obtain q where q: "unat base = 4096 * q" using assms by (auto simp: dvd_def)
  have "unat (base + of_nat (4096 * i)) = (4096 * q + 4096 * i) mod 18446744073709551616"
    by (simp add: unat_word_ariths unat_of_nat q [symmetric] mod_simps)
  also have "\<dots> = 4096 * ((q + i) mod 4503599627370496)"
    using mod_mult_mult1 [of 4096 "q + i" 4503599627370496] by (simp add: distrib_left)
  finally have u: "unat (base + of_nat (4096 * i)) = 4096 * ((q + i) mod 4503599627370496)" .
  have "unat (take_bit 36 (drop_bit 12 (base + of_nat (4096 * i)))) = (unat (base + of_nat (4096 * i)) div 4096) mod 68719476736"
    by (simp add: unat_take_bit drop_bit_eq_div unat_div)
  also have "\<dots> = (q + i) mod 68719476736" unfolding u by (simp add: mod_mod_cancel)
  finally show ?thesis by (simp add: q)
qed

lemma mod_shift_inj:
  assumes "i < m" "j < m" "(a + i) mod m = (a + j) mod (m :: nat)"
  shows "i = j"
proof -
  have "((a + x) mod m + (m - a mod m)) mod m = x" if "x < m" for x
  proof -
    have "a mod m < m" using that by simp
    moreover have "m * (a div m + 1) = m * (a div m) + m" by (simp add: distrib_left)
    ultimately have e: "a + x + (m - a mod m) = x + m * (a div m + 1)"
      using mult_div_mod_eq [of m a] by linarith
    have "(a + x + (m - a mod m)) mod m = x" unfolding e mod_mult_self2 using that by simp
    then show ?thesis unfolding mod_add_left_eq .
  qed
  from this [OF assms(1), unfolded assms(3)] this [OF assms(2)] show ?thesis by (rule trans [OF sym])
qed

lemma same_page_index:
  assumes "4096 dvd unat base" "i < 68719476736" "j < 68719476736"
  shows "same_page (base + of_nat (4096 * i)) (base + of_nat (4096 * j)) \<longleftrightarrow> i = j"
proof
  assume "same_page (base + of_nat (4096 * i)) (base + of_nat (4096 * j))"
  then have "(unat base div 4096 + i) mod 68719476736 = (unat base div 4096 + j) mod 68719476736"
    unfolding same_page_def by (simp add: page_number [OF assms(1), symmetric])
  then show "i = j" by (rule mod_shift_inj [OF assms(2,3)])
qed (simp add: same_page_def)

lemma page_index_Some:
  assumes "4096 dvd unat base" "n \<le> 68719476736"
  shows "page_index base n va = Some i \<longleftrightarrow> i < n \<and> same_page va (base + of_nat (4096 * i))"
proof
  assume "page_index base n va = Some i"
  then show "i < n \<and> same_page va (base + of_nat (4096 * i))" by (auto simp: page_index_def find_Some_iff)
next
  assume i: "i < n \<and> same_page va (base + of_nat (4096 * i))"
  have "\<not> same_page va (base + of_nat (4096 * j))" if "j < i" for j
  proof
    assume "same_page va (base + of_nat (4096 * j))"
    then have "same_page (base + of_nat (4096 * i)) (base + of_nat (4096 * j))" using i by (simp add: same_page_def)
    then show False using same_page_index [OF assms(1), of i j] i that assms(2) by simp
  qed
  then show "page_index base n va = Some i"
    using i unfolding page_index_def find_Some_iff by (intro exI [of _ i]) simp
qed

lemma page_index_None: "page_index base n va = None \<longleftrightarrow> (\<forall>i < n. \<not> same_page va (base + of_nat (4096 * i)))"
  by (auto simp: page_index_def find_None_iff)


section \<open>Walking a range\<close>

definition page_va :: "u64 \<Rightarrow> nat \<Rightarrow> u64" where
  "page_va base i = base + of_nat (4096 * i)"

text \<open>The virtual pages of a range are not the NULL page, and their entries of the root belong to the tables.\<close>

definition range_ok :: "nat set \<Rightarrow> u64 \<Rightarrow> nat \<Rightarrow> bool" where
  "range_ok D base n \<longleftrightarrow> 4096 dvd unat base \<and> n \<le> 68719476736 \<and> (\<forall>i < n. page_va base i \<noteq> 0 \<and> hd (path_of (page_va base i)) \<in> D)"

lemma valid_path_of [simp]: "valid_path D (path_of va) \<longleftrightarrow> hd (path_of va) \<in> D"
proof -
  obtain o1 o2 o3 o4 where "offsets va = [o1, o2, o3, o4]" "path_of va = [unat o1, unat o2, unat o3, unat o4]"
    "unat o1 < 512" "unat o2 < 512" "unat o3 < 512" "unat o4 < 512" by (rule offsets_cases)
  then show ?thesis by (simp add: valid_path_def)
qed

lemma loop_step:
  assumes "unat sz = 4096 * n" "i < n"
  shows "walk_loop cb cr3 base sz (of_nat (4096 * i)) s =
    (case walk_levels cb (page_va base i) 1 (offsets (page_va base i)) (phys_of cr3) s of
       None \<Rightarrow> None | Some s' \<Rightarrow> walk_loop cb cr3 base sz (of_nat (4096 * Suc i)) s')"
proof -
  have "4096 * i < 18446744073709551616" using assms unat_lt_u64 [of sz] by linarith
  note u = unat_of_nat_u64 [OF this]
  have "(of_nat (4096 * i) :: u64) < sz" unfolding word_less_nat_alt u using assms by simp
  moreover have "(of_nat (4096 * i) :: u64) + 0x1000 = of_nat (4096 * Suc i)" by simp
  ultimately show ?thesis
    by (subst walk_loop.simps) (simp only: if_True Let_def page_va_def split: option.split, simp)
qed

lemma loop_end: "unat sz = 4096 * n \<Longrightarrow> walk_loop cb cr3 base sz (of_nat (4096 * n)) s = Some s"
proof -
  assume n: "unat sz = 4096 * n"
  then have "4096 * n < 18446744073709551616" using unat_lt_u64 [of sz] by linarith
  note u = unat_of_nat_u64 [OF this]
  have "\<not> (of_nat (4096 * n) :: u64) < sz" unfolding word_less_nat_alt u using n by simp
  then show ?thesis by (subst walk_loop.simps) (simp only: if_False)
qed

lemma same_page_va:
  "range_ok D base n \<Longrightarrow> i < n \<Longrightarrow> j < n \<Longrightarrow> path_of (page_va base i) = path_of (page_va base j) \<longleftrightarrow> i = j"
  unfolding path_of_eq page_va_def by (rule same_page_index) (simp_all add: range_ok_def)


end
