(* ===== verification/PagingOps.thy ===== *)
theory PagingOps
  imports Paging HAL_Interfaces
begin

text \<open>
  What the operations of \<open>Paging\<close> do to the translation of addresses: mapping and unmapping a range, looking
  an address up, and the round trip of the two.
\<close>

section \<open>Changing a leaf\<close>

lemma path_eqI: "length path = 4 \<Longrightarrow> path = take 3 path @ [path ! 3]"
  using take_Suc_conv_app_nth [of 3 path] by simp

lemma store_leaf:
  assumes pool: "pool_ok s pd" and tree: "tree P D s pd" and k: "k < used pd" "length (P k) = 3" "i < 512"
  shows "tree P D (s\<lparr>Mem := (Mem s)(ptr s pd k i \<mapsto> v)\<rparr>) pd"
    "\<And>path. valid_path D path \<Longrightarrow>
      leaf P (s\<lparr>Mem := (Mem s)(ptr s pd k i \<mapsto> v)\<rparr>) pd path = (if path = P k @ [i] then v else leaf P s pd path)"
proof -
  let ?s = "s\<lparr>Mem := (Mem s)(ptr s pd k i \<mapsto> v)\<rparr>"
  note kN = used_le [OF pool k(1)]
  note en = store_run(2) [OF pool kN k(3), where v = v]
  have same: "entry ?s pd k' i' = entry s pd k' i'" if "k' < used pd" "i' < 512" "length (P k') < 3" for k' i'
    using en [OF used_le [OF pool that(1)] that(2)] that(3) k(2) by auto
  show t: "tree P D ?s pd" unfolding tree_def
  proof (intro conjI allI impI)
    show "\<exists>j < used pd. P j = P k' @ [i'] \<and> upper_entry pd j (entry ?s pd k' i')"
      if h: "k' < used pd" "i' < 512" "(k' = 0 \<longrightarrow> i' \<in> D) \<and> length (P k') < 3 \<and> bit (entry ?s pd k' i') 0" for k' i'
    proof -
      have e: "entry ?s pd k' i' = entry s pd k' i'" by (rule same) (use h in simp_all)
      obtain j where "j < used pd" "P j = P k' @ [i']" "upper_entry pd j (entry s pd k' i')"
        by (rule tree_child [OF tree h(1,2)]) (use h(3) e in simp_all)
      then show ?thesis unfolding e by blast
    qed
    show "\<exists>k' < used pd. \<exists>i' < 512. (k' = 0 \<longrightarrow> i' \<in> D) \<and> P j = P k' @ [i'] \<and> bit (entry ?s pd k' i') 0"
      if h: "j < used pd" "j \<noteq> 0" for j
    proof -
      obtain k' i' where c: "k' < used pd" "i' < 512" "k' = 0 \<longrightarrow> i' \<in> D" "P j = P k' @ [i']" "bit (entry s pd k' i') 0"
        by (rule tree_parent [OF tree h])
      moreover have "length (P j) \<le> 3" using tree h(1) by (simp add: tree_def)
      ultimately have "entry ?s pd k' i' = entry s pd k' i'" by (intro same) simp_all
      then show ?thesis using c by auto
    qed
  qed (use tree in \<open>simp_all add: tree_def\<close>)
  show "leaf P ?s pd path = (if path = P k @ [i] then v else leaf P s pd path)" if v: "valid_path D path" for path
  proof (cases "\<exists>k' < used pd. P k' = take 3 path")
    case True
    then obtain k' where k': "k' < used pd" "P k' = take 3 path" by blast
    have "path ! 3 < 512" "length path = 4" using v by (auto simp: valid_path_def)
    then show ?thesis
      using leaf_at [OF t k'] leaf_at [OF tree k'] en [OF used_le [OF pool k'(1)], of "path ! 3"] path_eqI [of path] k' k(1)
        tree_unique [OF tree k'(1) k(1)] by (auto simp: nth_append k(2))
  next
    case False
    then have "path \<noteq> P k @ [i]" using k(1,2) by auto
    moreover have "leaf P s pd path = 0" "leaf P ?s pd path = 0" using False by (auto intro!: leaf_nowhere)
    ultimately show ?thesis by simp
  qed
qed

lemma tree_effect [simp]: "tree P D (effect s e) pd = tree P D s pd" "pool_ok (effect s e) pd = pool_ok s pd"
  "leaf P (effect s e) pd path = leaf P s pd path"
  by (simp_all add: tree_def pool_ok_def leaf_def split: option.split)

section \<open>Mapping\<close>

lemma map_descend:
  assumes pool: "pool_ok s pd" and tree: "tree P D s pd" and k: "k < used pd" "length (P k) < 3"
    and off: "unat off < 512" "k = 0 \<longrightarrow> unat off \<in> D" and va: "va \<noteq> 0" and room: "used pd < unat (NumberOfFrames pd)"
    and ctx: "PagingData ctx = pd"
  obtains s' pd' P' j where
    "walk_levels VmMapPage va (Suc (length (P k))) (off # offs) (BasePhysicalAddress pd + of_nat (4096 * k)) (s, ctx) =
      walk_levels VmMapPage va (Suc (Suc (length (P k)))) offs (BasePhysicalAddress pd' + of_nat (4096 * j)) (s', ctx\<lparr>PagingData := pd'\<rparr>)"
    "grown P D s pd P' s' pd' 1" "j < used pd'" "P' j = P k @ [unat off]"
proof -
  note kN = used_le [OF pool k(1)]
  note p = pool_frames(1) [OF pool kN off(1)] PteIsPresent_run [OF pool kN off(1)]
  have lvl: "Suc (length (P k)) \<le> 4" "Suc (length (P k)) \<noteq> 4" using k(2) by simp_all
  show thesis
  proof (cases "bit (entry s pd k (unat off)) 0")
    case True
    obtain j where j: "j < used pd" "P j = P k @ [unat off]" "upper_entry pd j (entry s pd k (unat off))"
      by (rule tree_child [OF tree k(1) off k(2) True])
    have cb: "VmMapPage (ptr s pd k (unat off)) va (Suc (length (P k))) (s, ctx) = Some (True, s, ctx)"
      using p va lvl True by (simp add: VmMapPage_def)
    have same: "ctx\<lparr>PagingData := pd\<rparr> = ctx" using ctx by simp
    have "grown P D s pd P s pd 1" using grown_refl [OF pool tree] by (simp add: grown_def)
    moreover have "\<not> bit (entry s pd k (unat off)) 7" "phys_of (entry s pd k (unat off)) = BasePhysicalAddress pd + of_nat (4096 * j)"
      using j(3) by (simp_all add: upper_entry_def)
    ultimately show thesis
      using that [of pd j s P] j(1,2) walk_on [where cb = VmMapPage, OF pool kN off(1) cb pool same_refl, of offs] unfolding same by simp
  next
    case False
    obtain s' pd' where s': "VmSetupPagingStructure s pd (ptr s pd k (unat off)) = Some (s', pd')"
      "grown P D s pd (P(used pd := P k @ [unat off])) s' pd' 1" "used pd' = Suc (used pd)"
      "bit (entry s' pd' k (unat off)) 0" "upper_entry pd' (used pd) (entry s' pd' k (unat off))"
      by (rule setup_table [OF pool tree k off False room])
    have cb: "VmMapPage (ptr s pd k (unat off)) va (Suc (length (P k))) (s, ctx) = Some (True, s', ctx\<lparr>PagingData := pd'\<rparr>)"
      using p va lvl False s'(1) ctx by (simp add: VmMapPage_def Let_def)
    have g: "pool_ok s' pd'" "same_machine s s'" "same_pool pd pd'" using s'(2) by (simp_all add: grown_def)
    have "\<not> bit (entry s' pd' k (unat off)) 7" "phys_of (entry s' pd' k (unat off)) = BasePhysicalAddress pd' + of_nat (4096 * used pd)"
      using s'(5) by (simp_all add: upper_entry_def)
    then show thesis
      using that [of pd' "used pd" s' "P(used pd := P k @ [unat off])"] s'(2,3) walk_on [where cb = VmMapPage, OF pool kN off(1) cb g, of offs] by simp
  qed
qed

text \<open>The entry that a context and an address ask for.\<close>

definition wanted :: "vmm_state \<Rightarrow> map_context \<Rightarrow> u64 \<Rightarrow> u64" where
  "wanted s ctx va = pte_entry (PhysicalAddressBase ctx + (va - VirtualAddressBase ctx))
     \<lparr>PatIndex = ucast (if CtxUncacheable ctx then UncacheableIndex s else WriteBackIndex s),
      Writable = IsBooleanFlagOn (CtxRights ctx) 1, Executable = IsBooleanFlagOn (CtxRights ctx) 2,
      PagingStructure = False, UserAccess = \<not> KernelSpace (PagingData ctx), GlobalPage = KernelSpace (PagingData ctx)\<rparr>"

lemma map_leaf:
  assumes pool: "pool_ok s pd" and tree: "tree P D s pd" and k: "k < used pd" "length (P k) = 3"
    and off: "unat off < 512" and va: "va \<noteq> 0" and ctx: "PagingData ctx = pd"
  obtains s' where
    "walk_levels VmMapPage va 4 [off] (BasePhysicalAddress pd + of_nat (4096 * k)) (s, ctx) = Some (s', ctx)"
    "pool_ok s' pd" "tree P D s' pd" "same_machine s s'"
    "\<And>path. valid_path D path \<Longrightarrow> leaf P s' pd path =
      (if path = P k @ [unat off] \<and> (CtxInvalidate ctx \<or> \<not> bit (leaf P s pd path) 0) then wanted s ctx va else leaf P s pd path)"
proof -
  note kN = used_le [OF pool k(1)]
  note p = pool_frames(1) [OF pool kN off(1)] PteIsPresent_run [OF pool kN off(1)]
  have l: "leaf P s pd (P k @ [unat off]) = entry s pd k (unat off)" using leaf_at [OF tree k(1)] k(2) by (simp add: nth_append)
  show thesis
  proof (cases "bit (entry s pd k (unat off)) 0 \<and> \<not> CtxInvalidate ctx")
    case True
    have cb: "VmMapPage (ptr s pd k (unat off)) va 4 (s, ctx) = Some (True, s, ctx)"
      using p va True by (simp add: VmMapPage_def)
    show thesis
    proof (rule that [of s])
      show "walk_levels VmMapPage va 4 [off] (BasePhysicalAddress pd + of_nat (4096 * k)) (s, ctx) = Some (s, ctx)"
        using walk_on [where cb = VmMapPage, OF pool kN off(1) cb pool same_refl, of "[]"] by simp
      show "leaf P s pd path = (if path = P k @ [unat off] \<and> (CtxInvalidate ctx \<or> \<not> bit (leaf P s pd path) 0)
          then wanted s ctx va else leaf P s pd path)" for path
        using True l by auto
    qed (use pool tree in simp_all)
  next
    case False
    let ?s1 = "s\<lparr>Mem := (Mem s)(ptr s pd k (unat off) \<mapsto> wanted s ctx va)\<rparr>"
    let ?s' = "effect ?s1 (InvalidateTlb va)"
    have cb: "VmMapPage (ptr s pd k (unat off)) va 4 (s, ctx) = Some (True, ?s', ctx)"
      using p va False store_run(1) [OF pool kN off(1)] by (auto simp: VmMapPage_def Let_def PteMap_def wanted_def)
    have pool': "pool_ok ?s' pd" using store_run(3) [OF pool kN off(1)] by simp
    have m: "same_machine s ?s'" by (simp add: same_machine_def)
    show thesis
    proof (rule that [of ?s'])
      show "walk_levels VmMapPage va 4 [off] (BasePhysicalAddress pd + of_nat (4096 * k)) (s, ctx) = Some (?s', ctx)"
        using walk_on [where cb = VmMapPage, OF pool kN off(1) cb pool' m same_refl(2), of "[]"] by simp
      show "leaf P ?s' pd path = (if path = P k @ [unat off] \<and> (CtxInvalidate ctx \<or> \<not> bit (leaf P s pd path) 0)
          then wanted s ctx va else leaf P s pd path)" if "valid_path D path" for path
        using store_leaf(2) [OF pool tree k off that] False l by auto
    qed (use pool' m store_leaf(1) [OF pool tree k off] in simp_all)
  qed
qed

lemma map_page:
  assumes pool: "pool_ok s pd" and tree: "tree P D s pd" and v: "valid_path D (path_of va)" and va: "va \<noteq> 0"
    and room: "used pd + 3 \<le> unat (NumberOfFrames pd)" and ctx: "PagingData ctx = pd"
  obtains s' pd' P' where
    "walk_levels VmMapPage va 1 (offsets va) (BasePhysicalAddress pd) (s, ctx) = Some (s', ctx\<lparr>PagingData := pd'\<rparr>)"
    "pool_ok s' pd'" "tree P' D s' pd'" "same_machine s s'" "same_pool pd pd'" "used pd' \<le> used pd + 3"
    "\<And>path. valid_path D path \<Longrightarrow> leaf P' s' pd' path =
      (if path = path_of va \<and> (CtxInvalidate ctx \<or> \<not> bit (leaf P s pd path) 0) then wanted s ctx va else leaf P s pd path)"
proof -
  obtain o1 o2 o3 o4 where o: "offsets va = [o1, o2, o3, o4]" "path_of va = [unat o1, unat o2, unat o3, unat o4]"
    "unat o1 < 512" "unat o2 < 512" "unat o3 < 512" "unat o4 < 512" by (rule offsets_cases)
  have P0: "P 0 = []" "0 < used pd" using tree pool by (simp_all add: tree_def pool_ok_def)
  have c0: "length (P 0) < 3" "0 = 0 \<longrightarrow> unat o1 \<in> D" "used pd < unat (NumberOfFrames pd)"
    using v P0 room unfolding o(2) valid_path_def by simp_all
  obtain s1 pd1 P1 k1 where 1: "walk_levels VmMapPage va (Suc (length (P 0))) [o1, o2, o3, o4] (BasePhysicalAddress pd + of_nat (4096 * 0)) (s, ctx) =
      walk_levels VmMapPage va (Suc (Suc (length (P 0)))) [o2, o3, o4] (BasePhysicalAddress pd1 + of_nat (4096 * k1)) (s1, ctx\<lparr>PagingData := pd1\<rparr>)"
    "grown P D s pd P1 s1 pd1 1" "k1 < used pd1" "P1 k1 = P 0 @ [unat o1]"
    by (rule map_descend [OF pool tree P0(2) c0(1) o(3) c0(2) va c0(3) ctx])
  have g1: "pool_ok s1 pd1" "tree P1 D s1 pd1" "used pd1 \<le> used pd + 1" "NumberOfFrames pd1 = NumberOfFrames pd"
    using 1(2) by (simp_all add: grown_def same_pool_def)
  have "k1 \<noteq> 0" using g1(2) 1(4) by (cases "k1 = 0") (simp_all add: tree_def)
  then have c1: "length (P1 k1) < 3" "k1 = 0 \<longrightarrow> unat o2 \<in> D" "used pd1 < unat (NumberOfFrames pd1)"
      "PagingData (ctx\<lparr>PagingData := pd1\<rparr>) = pd1"
    using P0 1(4) g1(3,4) room by simp_all
  obtain s2 pd2 P2 k2 where 2: "walk_levels VmMapPage va (Suc (length (P1 k1))) [o2, o3, o4] (BasePhysicalAddress pd1 + of_nat (4096 * k1)) (s1, ctx\<lparr>PagingData := pd1\<rparr>) =
      walk_levels VmMapPage va (Suc (Suc (length (P1 k1)))) [o3, o4] (BasePhysicalAddress pd2 + of_nat (4096 * k2)) (s2, ctx\<lparr>PagingData := pd1\<rparr>\<lparr>PagingData := pd2\<rparr>)"
    "grown P1 D s1 pd1 P2 s2 pd2 1" "k2 < used pd2" "P2 k2 = P1 k1 @ [unat o2]"
    by (rule map_descend [OF g1(1,2) 1(3) c1(1) o(4) c1(2) va c1(3,4)])
  have g2: "pool_ok s2 pd2" "tree P2 D s2 pd2" "used pd2 \<le> used pd1 + 1" "NumberOfFrames pd2 = NumberOfFrames pd1"
    using 2(2) by (simp_all add: grown_def same_pool_def)
  have "k2 \<noteq> 0" using g2(2) 2(4) by (cases "k2 = 0") (simp_all add: tree_def)
  then have c2: "length (P2 k2) < 3" "k2 = 0 \<longrightarrow> unat o3 \<in> D" "used pd2 < unat (NumberOfFrames pd2)"
      "PagingData (ctx\<lparr>PagingData := pd2\<rparr>) = pd2"
    using P0 1(4) 2(4) g1(3,4) g2(3,4) room by simp_all
  obtain s3 pd3 P3 k3 where 3: "walk_levels VmMapPage va (Suc (length (P2 k2))) [o3, o4] (BasePhysicalAddress pd2 + of_nat (4096 * k2)) (s2, ctx\<lparr>PagingData := pd2\<rparr>) =
      walk_levels VmMapPage va (Suc (Suc (length (P2 k2)))) [o4] (BasePhysicalAddress pd3 + of_nat (4096 * k3)) (s3, ctx\<lparr>PagingData := pd2\<rparr>\<lparr>PagingData := pd3\<rparr>)"
    "grown P2 D s2 pd2 P3 s3 pd3 1" "k3 < used pd3" "P3 k3 = P2 k2 @ [unat o3]"
    by (rule map_descend [OF g2(1,2) 2(3) c2(1) o(5) c2(2) va c2(3,4)])
  have "grown P D s pd P3 s3 pd3 (1 + 1 + 1)" by (rule grown_trans [OF grown_trans [OF 1(2) 2(2)] 3(2)])
  then have g3: "pool_ok s3 pd3" "tree P3 D s3 pd3" "same_machine s s3" "same_pool pd pd3" "used pd3 \<le> used pd + 3"
    "\<And>path. valid_path D path \<Longrightarrow> leaf P3 s3 pd3 path = leaf P s pd path" by (simp_all add: grown_def)
  have P3: "P3 k3 = [unat o1, unat o2, unat o3]" using 1(4) 2(4) 3(4) P0(1) by simp
  then have c3: "length (P3 k3) = 3" "PagingData (ctx\<lparr>PagingData := pd3\<rparr>) = pd3" by simp_all
  obtain s' where 4: "walk_levels VmMapPage va 4 [o4] (BasePhysicalAddress pd3 + of_nat (4096 * k3)) (s3, ctx\<lparr>PagingData := pd3\<rparr>) =
      Some (s', ctx\<lparr>PagingData := pd3\<rparr>)" "pool_ok s' pd3" "tree P3 D s' pd3" "same_machine s3 s'"
    "\<And>path. valid_path D path \<Longrightarrow> leaf P3 s' pd3 path =
      (if path = P3 k3 @ [unat o4] \<and> (CtxInvalidate (ctx\<lparr>PagingData := pd3\<rparr>) \<or> \<not> bit (leaf P3 s3 pd3 path) 0)
       then wanted s3 (ctx\<lparr>PagingData := pd3\<rparr>) va else leaf P3 s3 pd3 path)"
    by (rule map_leaf [OF g3(1,2) 3(3) c3(1) o(6) va c3(2)], rule that, assumption+)
  have w: "wanted s3 (ctx\<lparr>PagingData := pd3\<rparr>) va = wanted s ctx va"
    using g3(3,4) ctx by (simp add: wanted_def same_machine_def same_pool_def)
  have l: "Suc (length (P 0)) = 1" "Suc (Suc (length (P 0))) = Suc (length (P1 k1))"
    "Suc (Suc (length (P1 k1))) = Suc (length (P2 k2))" "Suc (Suc (length (P2 k2))) = 4"
    "BasePhysicalAddress pd + of_nat (4096 * 0) = BasePhysicalAddress pd" "\<And>x y. ctx\<lparr>PagingData := x\<rparr>\<lparr>PagingData := y\<rparr> = ctx\<lparr>PagingData := y\<rparr>"
    using P0(1) 1(4) 2(4) by simp_all
  have eq: "walk_levels VmMapPage va 1 (offsets va) (BasePhysicalAddress pd) (s, ctx) = Some (s', ctx\<lparr>PagingData := pd3\<rparr>)"
    unfolding o(1) using 1(1) [unfolded l(2) 2(1)] 3(1) 4(1) by (simp only: l)
  show thesis
  proof (rule that [OF eq 4(2,3) _ g3(4,5)])
    show "same_machine s s'" using g3(3) 4(4) by (simp add: same_machine_def)
    fix path assume p: "valid_path D path"
    have e: "P3 k3 @ [unat o4] = path_of va" by (simp add: o(2) P3)
    show "leaf P3 s' pd3 path =
      (if path = path_of va \<and> (CtxInvalidate ctx \<or> \<not> bit (leaf P s pd path) 0) then wanted s ctx va else leaf P s pd path)"
      using 4(5) [OF p] unfolding e g3(6) [OF p] w by simp
  qed
qed


section \<open>Mapping a range\<close>

text \<open>What is mapped at a path after the pages from \<open>i\<close> to \<open>n\<close> have been.\<close>

lemma map_loop:
  assumes r: "range_ok D base n" "unat sz = 4096 * n" and cr3: "phys_of cr3 = BasePhysicalAddress pd"
  shows "i \<le> n \<Longrightarrow> pool_ok s pd \<Longrightarrow> tree P D s pd \<Longrightarrow> used pd + 3 * (n - i) \<le> unat (NumberOfFrames pd) \<Longrightarrow> PagingData ctx = pd \<Longrightarrow>
    \<exists>s' pd' P'. walk_loop VmMapPage cr3 base sz (of_nat (4096 * i)) (s, ctx) = Some (s', ctx\<lparr>PagingData := pd'\<rparr>) \<and>
      pool_ok s' pd' \<and> tree P' D s' pd' \<and> same_machine s s' \<and> same_pool pd pd' \<and> used pd' \<le> used pd + 3 * (n - i) \<and>
      (\<forall>j. i \<le> j \<and> j < n \<longrightarrow> leaf P' s' pd' (path_of (page_va base j)) =
        (if CtxInvalidate ctx \<or> \<not> bit (leaf P s pd (path_of (page_va base j))) 0 then wanted s ctx (page_va base j)
         else leaf P s pd (path_of (page_va base j)))) \<and>
      (\<forall>path. valid_path D path \<and> (\<forall>j. i \<le> j \<and> j < n \<longrightarrow> path \<noteq> path_of (page_va base j)) \<longrightarrow>
        leaf P' s' pd' path = leaf P s pd path)"
  using cr3
proof (induction "n - i" arbitrary: i s pd P ctx)
  case 0
  then have "i = n" by simp
  then show ?case using 0 loop_end [OF r(2)] by (intro exI [of _ s] exI [of _ pd] exI [of _ P]) auto
next
  case (Suc d)
  then have i: "i < n" "d = n - Suc i" by simp_all
  let ?va = "page_va base i"
  have va: "?va \<noteq> 0" "valid_path D (path_of ?va)" using r(1) i(1) by (simp_all add: range_ok_def)
  have room: "used pd + 3 \<le> unat (NumberOfFrames pd)" using Suc.prems(4) i(1) by linarith
  obtain s1 pd1 P1 where 1: "walk_levels VmMapPage ?va 1 (offsets ?va) (BasePhysicalAddress pd) (s, ctx) = Some (s1, ctx\<lparr>PagingData := pd1\<rparr>)"
    "pool_ok s1 pd1" "tree P1 D s1 pd1" "same_machine s s1" "same_pool pd pd1" "used pd1 \<le> used pd + 3"
    "\<And>path. valid_path D path \<Longrightarrow> leaf P1 s1 pd1 path =
      (if path = path_of ?va \<and> (CtxInvalidate ctx \<or> \<not> bit (leaf P s pd path) 0) then wanted s ctx ?va else leaf P s pd path)"
    by (rule map_page [OF Suc.prems(2,3) va(2,1) room Suc.prems(5)], rule that, assumption+)
  let ?ctx = "ctx\<lparr>PagingData := pd1\<rparr>"
  have "\<exists>s' pd' P'. walk_loop VmMapPage cr3 base sz (of_nat (4096 * Suc i)) (s1, ?ctx) = Some (s', ?ctx\<lparr>PagingData := pd'\<rparr>) \<and>
      pool_ok s' pd' \<and> tree P' D s' pd' \<and> same_machine s1 s' \<and> same_pool pd1 pd' \<and> used pd' \<le> used pd1 + 3 * (n - Suc i) \<and>
      (\<forall>j. Suc i \<le> j \<and> j < n \<longrightarrow> leaf P' s' pd' (path_of (page_va base j)) =
        (if CtxInvalidate ?ctx \<or> \<not> bit (leaf P1 s1 pd1 (path_of (page_va base j))) 0 then wanted s1 ?ctx (page_va base j)
         else leaf P1 s1 pd1 (path_of (page_va base j)))) \<and>
      (\<forall>path. valid_path D path \<and> (\<forall>j. Suc i \<le> j \<and> j < n \<longrightarrow> path \<noteq> path_of (page_va base j)) \<longrightarrow>
        leaf P' s' pd' path = leaf P1 s1 pd1 path)"
  proof (rule Suc.hyps(1) [OF i(2)])
    show "used pd1 + 3 * (n - Suc i) \<le> unat (NumberOfFrames pd1)"
      using 1(5,6) Suc.prems(4) i(1) by (simp add: same_pool_def)
    show "phys_of cr3 = BasePhysicalAddress pd1" using 1(5) Suc.prems(6) by (simp add: same_pool_def)
  qed (use 1 i(1) in simp_all)
  then obtain s' pd' P' where 2: "walk_loop VmMapPage cr3 base sz (of_nat (4096 * Suc i)) (s1, ?ctx) = Some (s', ctx\<lparr>PagingData := pd'\<rparr>)"
    "pool_ok s' pd'" "tree P' D s' pd'" "same_machine s1 s'" "same_pool pd1 pd'" "used pd' \<le> used pd1 + 3 * (n - Suc i)"
    "\<And>j. Suc i \<le> j \<Longrightarrow> j < n \<Longrightarrow> leaf P' s' pd' (path_of (page_va base j)) =
        (if CtxInvalidate ctx \<or> \<not> bit (leaf P1 s1 pd1 (path_of (page_va base j))) 0 then wanted s1 ?ctx (page_va base j)
         else leaf P1 s1 pd1 (path_of (page_va base j)))"
    "\<And>path. valid_path D path \<Longrightarrow> (\<And>j. Suc i \<le> j \<Longrightarrow> j < n \<Longrightarrow> path \<noteq> path_of (page_va base j)) \<Longrightarrow>
        leaf P' s' pd' path = leaf P1 s1 pd1 path" by auto
  have w: "wanted s1 ?ctx v = wanted s ctx v" for v
    using 1(4,5) Suc.prems(5) by (simp add: wanted_def same_machine_def same_pool_def)
  show ?case
  proof (intro exI [of _ s'] exI [of _ pd'] exI [of _ P'] conjI allI impI)
    show "walk_loop VmMapPage cr3 base sz (of_nat (4096 * i)) (s, ctx) = Some (s', ctx\<lparr>PagingData := pd'\<rparr>)"
      unfolding loop_step [OF r(2) i(1)] Suc.prems(6) 1(1) option.case by (rule 2(1))
    show "used pd' \<le> used pd + 3 * (n - i)" using 1(6) 2(6) i(1) by linarith
    show "same_machine s s'" "same_pool pd pd'" using 1(4,5) 2(4,5) by (simp_all add: same_machine_def same_pool_def)
    show "leaf P' s' pd' (path_of (page_va base j)) =
        (if CtxInvalidate ctx \<or> \<not> bit (leaf P s pd (path_of (page_va base j))) 0 then wanted s ctx (page_va base j)
         else leaf P s pd (path_of (page_va base j)))" if j: "i \<le> j \<and> j < n" for j
    proof (cases "j = i")
      case True
      have "leaf P' s' pd' (path_of ?va) = leaf P1 s1 pd1 (path_of ?va)"
        by (rule 2(8) [OF va(2)]) (use same_page_va [OF r(1) i(1)] in auto)
      then show ?thesis using 1(7) [OF va(2)] True by simp
    next
      case False
      have "path_of (page_va base j) \<noteq> path_of ?va" using same_page_va [OF r(1), of j i] j i(1) False by simp
      moreover have "valid_path D (path_of (page_va base j))" using r(1) j by (simp add: range_ok_def)
      ultimately have "leaf P1 s1 pd1 (path_of (page_va base j)) = leaf P s pd (path_of (page_va base j))" using 1(7) by simp
      then show ?thesis using 2(7) [of j] j False w by simp
    qed
    show "leaf P' s' pd' path = leaf P s pd path"
      if p: "valid_path D path \<and> (\<forall>j. i \<le> j \<and> j < n \<longrightarrow> path \<noteq> path_of (page_va base j))" for path
    proof -
      have "path \<noteq> path_of ?va" using p i(1) by blast
      then have "leaf P1 s1 pd1 path = leaf P s pd path" using 1(7) [of path] p by simp
      moreover have "leaf P' s' pd' path = leaf P1 s1 pd1 path" by (rule 2(8)) (use p in auto)
      ultimately show ?thesis by simp
    qed
  qed (use 2 in simp_all)
qed

lemma wanted_translation:
  assumes pa: "4096 dvd unat (PhysicalAddressBase ctx)" "unat (PhysicalAddressBase ctx) + 4096 * n \<le> 2 ^ 52" and j: "j < n"
    and base: "VirtualAddressBase ctx = base" and pd: "PagingData ctx = pd"
  shows "leaf_translation pd (wanted s ctx (page_va base j)) = Some (PhysicalAddressBase ctx + of_nat (4096 * j),
      IsBooleanFlagOn (CtxRights ctx) 1, IsBooleanFlagOn (CtxRights ctx) 2, \<not> KernelSpace pd)"
proof -
  let ?pa = "PhysicalAddressBase ctx"
  have "4096 * j < 18446744073709551616" using j pa(2) by simp
  from unat_of_nat_u64 [OF this] have "unat (?pa + of_nat (4096 * j)) = unat ?pa + 4096 * j"
    using j pa(2) unat_add_small [of ?pa "of_nat (4096 * j)"] by simp
  then have "4096 dvd unat (?pa + of_nat (4096 * j))" "unat (?pa + of_nat (4096 * j)) < 2 ^ 52" using pa j by simp_all
  note ph = pte_entry_phys [OF this]
  have "?pa + (page_va base j - base) = ?pa + of_nat (4096 * j)" by (simp add: page_va_def)
  then show ?thesis using ph base pd by (simp add: leaf_translation_def wanted_def pte_entry_bits del: One_nat_def of_nat_mult)
qed

text \<open>What mapping a range does, in terms of the tree.\<close>

lemma map_range_run:
  assumes ok: "tables_ok D s pd" and sz: "sz \<noteq> 0" "4096 dvd unat sz" and pa: "4096 dvd unat pa"
    and range: "range_ok D base (unat sz div 4096)"
    and room: "used pd + 3 * (unat sz div 4096) \<le> unat (NumberOfFrames pd)"
    and ctx: "ctx = \<lparr>PagingData = pd, PhysicalAddressBase = pa, VirtualAddressBase = base,
       CtxRights = rights, CtxInvalidate = refresh, CtxUncacheable = unc\<rparr>"
  obtains s' pd' P P' where "VmmMapMemoryInternal s pd pa sz base rights refresh unc = Some (s', pd')"
    "pool_ok s pd" "tree P D s pd" "pool_ok s' pd'" "tree P' D s' pd'" "same_pool pd pd'"
    "used pd' \<le> used pd + 3 * (unat sz div 4096)"
    "\<forall>j < unat sz div 4096. leaf P' s' pd' (path_of (page_va base j)) =
        (if refresh \<or> \<not> bit (leaf P s pd (path_of (page_va base j))) 0 then wanted s ctx (page_va base j)
         else leaf P s pd (path_of (page_va base j)))"
    "\<forall>path. valid_path D path \<and> (\<forall>j < unat sz div 4096. path \<noteq> path_of (page_va base j)) \<longrightarrow>
       leaf P' s' pd' path = leaf P s pd path"
proof -
  let ?n = "unat sz div 4096"
  obtain P where P: "pool_ok s pd" "tree P D s pd" using ok by (auto simp: tables_ok_def)
  have n: "unat sz = 4096 * ?n" using sz(2) by simp
  have al: "IsAddressAligned pa PAGE_SIZE" "IsAddressAligned sz PAGE_SIZE"
    using IsAddressAligned_iff [of pa 12] IsAddressAligned_iff [of sz 12] pa(1) sz(2) by simp_all
  have c0: "0 < unat (NumberOfFrames pd)" using P(1) by (simp add: pool_ok_def)
  have cr3: "phys_of (BasePhysicalAddress pd) = BasePhysicalAddress pd" using pool_base(4) [OF P(1) c0] by simp
  have c: "PagingData ctx = pd" "CtxInvalidate ctx = refresh" "used pd + 3 * (?n - 0) \<le> unat (NumberOfFrames pd)"
    using room ctx by simp_all
  obtain s' pd' P' where m: "walk_loop VmMapPage (BasePhysicalAddress pd) base sz (of_nat (4096 * 0)) (s, ctx) = Some (s', ctx\<lparr>PagingData := pd'\<rparr>)"
    "pool_ok s' pd'" "tree P' D s' pd'" "same_machine s s'" "same_pool pd pd'" "used pd' \<le> used pd + 3 * (?n - 0)"
    "\<forall>j. 0 \<le> j \<and> j < ?n \<longrightarrow> leaf P' s' pd' (path_of (page_va base j)) =
        (if refresh \<or> \<not> bit (leaf P s pd (path_of (page_va base j))) 0 then wanted s ctx (page_va base j)
         else leaf P s pd (path_of (page_va base j)))"
    "\<forall>path. valid_path D path \<and> (\<forall>j. 0 \<le> j \<and> j < ?n \<longrightarrow> path \<noteq> path_of (page_va base j)) \<longrightarrow> leaf P' s' pd' path = leaf P s pd path"
    using map_loop [OF range n cr3 le0 P c(3,1), unfolded c(2)] by (elim exE conjE)
  have "VmmMapMemoryInternal s pd pa sz base rights refresh unc = Some (s', pd')"
    using m(1) sz(1) al by (simp add: VmmMapMemoryInternal_def VmWalkPagingTables_def ctx)
  then show thesis using that P m by simp
qed

lemma map_effect:
  assumes ok: "tables_ok D s pd" and sz: "sz \<noteq> 0" "4096 dvd unat sz" and pa: "4096 dvd unat pa" "unat pa + unat sz \<le> 2 ^ 52"
    and range: "range_ok D base (unat sz div 4096)"
    and room: "used pd + 3 * (unat sz div 4096) \<le> unat (NumberOfFrames pd)"
  shows "\<exists>s' pd'. VmmMapMemoryInternal s pd pa sz base rights refresh unc = Some (s', pd') \<and> tables_ok D s' pd' \<and>
    same_pool pd pd' \<and> used pd' \<le> used pd + 3 * (unat sz div 4096) \<and>
    (\<forall>va. hd (path_of va) \<in> D \<longrightarrow> translate s' (BasePhysicalAddress pd) va =
      (case page_index base (unat sz div 4096) va of
         None \<Rightarrow> translate s (BasePhysicalAddress pd) va
       | Some i \<Rightarrow> if refresh \<or> translate s (BasePhysicalAddress pd) va = None
           then Some (pa + of_nat (4096 * i), IsBooleanFlagOn rights 1, IsBooleanFlagOn rights 2, \<not> KernelSpace pd)
           else translate s (BasePhysicalAddress pd) va))"
proof -
  let ?n = "unat sz div 4096"
  define ctx where "ctx = \<lparr>PagingData = pd, PhysicalAddressBase = pa, VirtualAddressBase = base,
       CtxRights = rights, CtxInvalidate = refresh, CtxUncacheable = unc\<rparr>"
  obtain s' pd' P P' where m: "VmmMapMemoryInternal s pd pa sz base rights refresh unc = Some (s', pd')"
    "pool_ok s pd" "tree P D s pd" "pool_ok s' pd'" "tree P' D s' pd'" "same_pool pd pd'" "used pd' \<le> used pd + 3 * ?n"
    "\<forall>j < ?n. leaf P' s' pd' (path_of (page_va base j)) =
        (if refresh \<or> \<not> bit (leaf P s pd (path_of (page_va base j))) 0 then wanted s ctx (page_va base j)
         else leaf P s pd (path_of (page_va base j)))"
    "\<forall>path. valid_path D path \<and> (\<forall>j < ?n. path \<noteq> path_of (page_va base j)) \<longrightarrow> leaf P' s' pd' path = leaf P s pd path"
    by (rule map_range_run [OF ok sz pa(1) range room ctx_def])
  have t: "translate s (BasePhysicalAddress pd) va = leaf_translation pd (leaf P s pd (path_of va))"
    "translate s' (BasePhysicalAddress pd) va = leaf_translation pd (leaf P' s' pd' (path_of va))" if "hd (path_of va) \<in> D" for va
    using translate_leaf [OF m(2,3), of va] translate_leaf [OF m(4,5), of va] that m(6) by (simp_all add: leaf_translation_def same_pool_def)
  have w: "leaf_translation pd (wanted s ctx (page_va base j)) =
      Some (pa + of_nat (4096 * j), IsBooleanFlagOn rights 1, IsBooleanFlagOn rights 2, \<not> KernelSpace pd)" if "j < ?n" for j
    using wanted_translation [of ctx ?n j base pd s] that pa sz(2) by (simp add: ctx_def)
  have "translate s' (BasePhysicalAddress pd) va =
      (case page_index base ?n va of None \<Rightarrow> translate s (BasePhysicalAddress pd) va
       | Some i \<Rightarrow> if refresh \<or> translate s (BasePhysicalAddress pd) va = None
           then Some (pa + of_nat (4096 * i), IsBooleanFlagOn rights 1, IsBooleanFlagOn rights 2, \<not> KernelSpace pd)
           else translate s (BasePhysicalAddress pd) va)" if d: "hd (path_of va) \<in> D" for va
  proof (cases "page_index base ?n va")
    case None
    then have "leaf P' s' pd' (path_of va) = leaf P s pd (path_of va)"
      by (intro m(9) [rule_format]) (use d in \<open>simp_all add: page_index_None path_of_eq page_va_def\<close>)
    then show ?thesis using t [OF d] None by simp
  next
    case (Some i)
    then have i: "i < ?n" "path_of va = path_of (page_va base i)"
      using page_index_Some [of base ?n va i] range by (simp_all add: range_ok_def path_of_eq page_va_def)
    have "translate s (BasePhysicalAddress pd) va = None \<longleftrightarrow> \<not> bit (leaf P s pd (path_of va)) 0"
      unfolding t(1) [OF d] by (simp add: leaf_translation_def)
    then show ?thesis using t [OF d] m(8) [rule_format, OF i(1)] w [OF i(1)] Some i(2) by simp
  qed
  moreover have "tables_ok D s' pd'" using m(4,5) by (auto simp: tables_ok_def)
  ultimately show ?thesis using m(1,6,7) by blast
qed

text \<open>C13: mapping a range of physical memory at a page aligned virtual address, with room for the tables it may
  need, gives every page of the range its page of the physical range with the rights asked for (pages that
  were mapped already only if the caller asks for it) and leaves the translation of all other addresses as it was;
  at most three frames per page are taken for new tables.\<close>

theorem map_exact:
  assumes ok: "tables_ok D s pd" and sz: "sz \<noteq> 0" "4096 dvd unat sz" and pa: "4096 dvd unat pa" "unat pa + unat sz \<le> 2 ^ 52"
    and range: "range_ok D base (unat sz div 4096)"
    and room: "used pd + 3 * (unat sz div 4096) \<le> unat (NumberOfFrames pd)"
  shows "\<exists>s' pd'. VmmMapMemoryInternal s pd pa sz base rights refresh unc = Some (s', pd') \<and> tables_ok D s' pd' \<and>
    same_pool pd pd' \<and> used pd' \<le> used pd + 3 * (unat sz div 4096) \<and>
    (\<forall>va. hd (path_of va) \<in> D \<longrightarrow> translate s' (BasePhysicalAddress pd) va =
      (case page_index base (unat sz div 4096) va of
         None \<Rightarrow> translate s (BasePhysicalAddress pd) va
       | Some i \<Rightarrow> if refresh \<or> translate s (BasePhysicalAddress pd) va = None
           then Some (pa + of_nat (4096 * i), IsBooleanFlagOn rights 1, IsBooleanFlagOn rights 2, \<not> KernelSpace pd)
           else translate s (BasePhysicalAddress pd) va))"
  by (rule map_effect [OF assms])

section \<open>Unmapping a range\<close>

lemma unmap_upper:
  assumes "pool_ok s pd" "k < used pd" "i < 512" "va \<noteq> 0" "1 \<le> lvl" "lvl < 4"
  shows "VmUnmapPage (ptr s pd k i) va lvl (s, c) = Some (bit (entry s pd k i) 0, s, c)"
  using pool_frames(1) [OF assms(1) used_le [OF assms(1,2)] assms(3)] PteIsPresent_run [OF assms(1) used_le [OF assms(1,2)] assms(3)] assms(4-6)
  by (simp add: VmUnmapPage_def)

text \<open>What one page leaves behind.\<close>

definition unmap_effects :: "bool \<Rightarrow> u64 \<Rightarrow> u64 \<Rightarrow> paging_effect list" where
  "unmap_effects rel va e = (if bit e 0 then InvalidateTlb va # (if rel then [ReleaseFrames (phys_of e) 1] else []) else [])"

lemma unmap_leaf:
  assumes pool: "pool_ok s pd" and tree: "tree P D s pd" and k: "k < used pd" "length (P k) = 3"
    and off: "unat off < 512" and va: "va \<noteq> 0"
  obtains s' where
    "walk_levels VmUnmapPage va 4 [off] (BasePhysicalAddress pd + of_nat (4096 * k)) (s, rel) = Some (s', rel)"
    "pool_ok s' pd" "tree P D s' pd" "same_machine s s'"
    "Effects s' = Effects s @ unmap_effects rel va (leaf P s pd (P k @ [unat off]))"
    "\<And>path. valid_path D path \<Longrightarrow> leaf P s' pd path =
      (if path = P k @ [unat off] \<and> bit (leaf P s pd path) 0 then 0 else leaf P s pd path)"
proof -
  note kN = used_le [OF pool k(1)]
  note p = pool_frames(1,2) [OF pool kN off(1)] PteIsPresent_run [OF pool kN off(1)]
  have l: "leaf P s pd (P k @ [unat off]) = entry s pd k (unat off)" using leaf_at [OF tree k(1)] k(2) by (simp add: nth_append)
  show thesis
  proof (cases "bit (entry s pd k (unat off)) 0")
    case False
    have cb: "VmUnmapPage (ptr s pd k (unat off)) va 4 (s, rel) = Some (False, s, rel)"
      using p va False by (simp add: VmUnmapPage_def)
    show thesis
    proof (rule that [of s])
      show "walk_levels VmUnmapPage va 4 [off] (BasePhysicalAddress pd + of_nat (4096 * k)) (s, rel) = Some (s, rel)"
        by (rule walk_off [where cb = VmUnmapPage, OF off cb])
      show "leaf P s pd path = (if path = P k @ [unat off] \<and> bit (leaf P s pd path) 0 then 0 else leaf P s pd path)" for path
        using False l by auto
    qed (use pool tree False l in \<open>simp_all add: unmap_effects_def\<close>)
  next
    case True
    let ?s1 = "s\<lparr>Mem := (Mem s)(ptr s pd k (unat off) \<mapsto> 0)\<rparr>"
    let ?s2 = "effect ?s1 (InvalidateTlb va)"
    let ?s' = "if rel then effect ?s2 (ReleaseFrames (phys_of (entry s pd k (unat off))) 1) else ?s2"
    have cb: "VmUnmapPage (ptr s pd k (unat off)) va 4 (s, rel) = Some (True, ?s', rel)"
      using p va True store_run(1) [OF pool kN off(1)] by (simp add: VmUnmapPage_def Let_def PteUnmap_def PteGetPhysicalAddress_def load_def)
    have pool': "pool_ok ?s' pd" using store_run(3) [OF pool kN off(1)] by simp
    have m: "same_machine s ?s'" by (simp add: same_machine_def)
    show thesis
    proof (rule that [of ?s'])
      show "walk_levels VmUnmapPage va 4 [off] (BasePhysicalAddress pd + of_nat (4096 * k)) (s, rel) = Some (?s', rel)"
        using walk_on [where cb = VmUnmapPage, OF pool kN off(1) cb pool' m same_refl(2), of "[]"] by simp
      show "leaf P ?s' pd path = (if path = P k @ [unat off] \<and> bit (leaf P s pd path) 0 then 0 else leaf P s pd path)"
        if "valid_path D path" for path
        using store_leaf(2) [OF pool tree k off that] True l by auto
      show "Effects ?s' = Effects s @ unmap_effects rel va (leaf P s pd (P k @ [unat off]))"
        using True l by (simp add: unmap_effects_def effect_def)
    qed (use pool' m store_leaf(1) [OF pool tree k off] in simp_all)
  qed
qed

lemma unmap_descend:
  assumes pool: "pool_ok s pd" and tree: "tree P D s pd" and v: "valid_path D (path_of va)" and va: "va \<noteq> 0"
  obtains k off where "k < used pd" "length (P k) = 3" "unat off < 512" "P k @ [unat off] = path_of va"
      "walk_levels VmUnmapPage va 1 (offsets va) (BasePhysicalAddress pd) (s, rel) =
        walk_levels VmUnmapPage va 4 [off] (BasePhysicalAddress pd + of_nat (4096 * k)) (s, rel)"
  | "leaf P s pd (path_of va) = 0"
      "walk_levels VmUnmapPage va 1 (offsets va) (BasePhysicalAddress pd) (s, rel) = Some (s, rel)"
proof -
  obtain o1 o2 o3 o4 where o: "offsets va = [o1, o2, o3, o4]" "path_of va = [unat o1, unat o2, unat o3, unat o4]"
    "unat o1 < 512" "unat o2 < 512" "unat o3 < 512" "unat o4 < 512" by (rule offsets_cases)
  have c0: "0 < used pd" using pool by (simp add: pool_ok_def)
  let ?w = "\<lambda>lvl offs k. walk_levels VmUnmapPage va lvl offs (BasePhysicalAddress pd + of_nat (4096 * k)) (s, rel)"
  have b: "walk_levels VmUnmapPage va 1 (offsets va) (BasePhysicalAddress pd) (s, rel) = ?w 1 [o1, o2, o3, o4] 0"
    unfolding o(1) by simp
  have up: "?w lvl (off # offs) k = ?w (Suc lvl) offs j"
    if h: "k < used pd" "unat off < 512" "1 \<le> lvl" "lvl < 4" "bit (entry s pd k (unat off)) 0" "upper_entry pd j (entry s pd k (unat off))"
    for k off lvl j offs
  proof -
    have cb: "VmUnmapPage (ptr s pd k (unat off)) va lvl (s, rel) = Some (True, s, rel)"
      using unmap_upper [OF pool h(1,2) va h(3,4)] h(5) by simp
    have e: "\<not> bit (entry s pd k (unat off)) 7" "phys_of (entry s pd k (unat off)) = BasePhysicalAddress pd + of_nat (4096 * j)"
      using h(6) by (simp_all add: upper_entry_def)
    show ?thesis
      using walk_on [where cb = VmUnmapPage, OF pool used_le [OF pool h(1)] h(2) cb pool same_refl e(1)] unfolding e(2) .
  qed
  have stop: "?w lvl (off # offs) k = Some (s, rel)"
    if h: "k < used pd" "unat off < 512" "1 \<le> lvl" "lvl < 4" "\<not> bit (entry s pd k (unat off)) 0" for k off lvl offs
  proof -
    have cb: "VmUnmapPage (ptr s pd k (unat off)) va lvl (s, rel) = Some (False, s, rel)"
      using unmap_upper [OF pool h(1,2) va h(3,4)] h(5) by simp
    show ?thesis by (rule walk_off [where cb = VmUnmapPage, OF h(2) cb])
  qed
  have n: "(1 :: nat) \<le> 1" "(1 :: nat) < 4" "1 \<le> Suc 1" "Suc 1 < 4" "1 \<le> Suc (Suc 1)" "Suc (Suc 1) < 4" "Suc (Suc (Suc 1)) = 4" by simp_all
  from pool tree v [unfolded o(2)] show thesis
  proof (cases rule: path_levels)
    case (full k1 k2 k3)
    show thesis
      by (rule that(1) [of k3 o4], rule full(3), simp add: full(4), rule o(6), simp add: full(4) o(2),
          unfold b up [OF c0 o(3) n(1,2) full(5,8)] up [OF full(1) o(4) n(3,4) full(6,9)] up [OF full(2) o(5) n(5,6) full(7,10)] n(7), rule refl)
  next
    case stop1
    show thesis by (rule that(2), use stop1(2) o(2) in simp, unfold b stop [OF c0 o(3) n(1,2) stop1(1)], rule refl)
  next
    case (stop2 k1)
    show thesis
      by (rule that(2), use stop2(5) o(2) in simp,
          unfold b up [OF c0 o(3) n(1,2) stop2(2,3)] stop [OF stop2(1) o(4) n(3,4) stop2(4)], rule refl)
  next
    case (stop3 k1 k2)
    show thesis
      by (rule that(2), use stop3(8) o(2) in simp,
          unfold b up [OF c0 o(3) n(1,2) stop3(3,4)] up [OF stop3(1) o(4) n(3,4) stop3(5,6)] stop [OF stop3(2) o(5) n(5,6) stop3(7)], rule refl)
  qed
qed

lemma unmap_page:
  assumes pool: "pool_ok s pd" and tree: "tree P D s pd" and v: "valid_path D (path_of va)" and va: "va \<noteq> 0"
  obtains s' where
    "walk_levels VmUnmapPage va 1 (offsets va) (BasePhysicalAddress pd) (s, rel) = Some (s', rel)"
    "pool_ok s' pd" "tree P D s' pd" "same_machine s s'"
    "Effects s' = Effects s @ unmap_effects rel va (leaf P s pd (path_of va))"
    "\<And>path. valid_path D path \<Longrightarrow> leaf P s' pd path =
      (if path = path_of va \<and> bit (leaf P s pd path) 0 then 0 else leaf P s pd path)"
proof (rule unmap_descend [OF pool tree v va])
  fix k off assume k: "k < used pd" "length (P k) = 3" "unat off < 512" "P k @ [unat off] = path_of va"
      "walk_levels VmUnmapPage va 1 (offsets va) (BasePhysicalAddress pd) (s, rel) =
        walk_levels VmUnmapPage va 4 [off] (BasePhysicalAddress pd + of_nat (4096 * k)) (s, rel)"
  show thesis by (rule unmap_leaf [OF pool tree k(1-3) va, of rel], rule that, unfold k(4,5), assumption+)
next
  assume "leaf P s pd (path_of va) = 0"
      "walk_levels VmUnmapPage va 1 (offsets va) (BasePhysicalAddress pd) (s, rel) = Some (s, rel)"
  then show thesis by (intro that [of s]) (use pool tree in \<open>simp_all add: unmap_effects_def\<close>)
qed


lemma ex_range_split: "i < n \<Longrightarrow> (\<exists>j. i \<le> j \<and> j < n \<and> Q j) \<longleftrightarrow> Q i \<or> (\<exists>j. Suc i \<le> j \<and> j < (n :: nat) \<and> Q j)"
proof (rule iffI)
  assume "i < n" "\<exists>j. i \<le> j \<and> j < n \<and> Q j"
  then obtain j where "i \<le> j" "j < n" "Q j" by blast
  then show "Q i \<or> (\<exists>j. Suc i \<le> j \<and> j < n \<and> Q j)" by (cases "j = i") (simp_all, metis Suc_leI le_neq_implies_less)
next
  assume "i < n" "Q i \<or> (\<exists>j. Suc i \<le> j \<and> j < n \<and> Q j)"
  then show "\<exists>j. i \<le> j \<and> j < n \<and> Q j" by (elim disjE) (blast, blast dest: Suc_leD)
qed

lemma unmap_loop:
  assumes r: "range_ok D base n" "unat sz = 4096 * n" and cr3: "phys_of cr3 = BasePhysicalAddress pd"
  shows "i \<le> n \<Longrightarrow> pool_ok s pd \<Longrightarrow> tree P D s pd \<Longrightarrow>
    \<exists>s'. walk_loop VmUnmapPage cr3 base sz (of_nat (4096 * i)) (s, rel) = Some (s', rel) \<and>
      pool_ok s' pd \<and> tree P D s' pd \<and> same_machine s s' \<and>
      Effects s' = Effects s @ concat (map (\<lambda>j. unmap_effects rel (page_va base j) (leaf P s pd (path_of (page_va base j)))) [i..<n]) \<and>
      (\<forall>path. valid_path D path \<longrightarrow> leaf P s' pd path =
        (if (\<exists>j. i \<le> j \<and> j < n \<and> path = path_of (page_va base j)) \<and> bit (leaf P s pd path) 0 then 0 else leaf P s pd path))"
proof (induction "n - i" arbitrary: i s)
  case 0
  then have "i = n" by simp
  then show ?case using 0 loop_end [OF r(2)] by (intro exI [of _ s]) auto
next
  case (Suc d)
  then have i: "i < n" "d = n - Suc i" by simp_all
  let ?va = "page_va base i"
  have va: "?va \<noteq> 0" "valid_path D (path_of ?va)" using r(1) i(1) by (simp_all add: range_ok_def)
  obtain s1 where 1: "walk_levels VmUnmapPage ?va 1 (offsets ?va) (BasePhysicalAddress pd) (s, rel) = Some (s1, rel)"
    "pool_ok s1 pd" "tree P D s1 pd" "same_machine s s1"
    "Effects s1 = Effects s @ unmap_effects rel ?va (leaf P s pd (path_of ?va))"
    "\<And>path. valid_path D path \<Longrightarrow> leaf P s1 pd path =
      (if path = path_of ?va \<and> bit (leaf P s pd path) 0 then 0 else leaf P s pd path)"
    by (rule unmap_page [OF Suc.prems(2,3) va(2,1), of rel], rule that, assumption+)
  obtain s' where 2: "walk_loop VmUnmapPage cr3 base sz (of_nat (4096 * Suc i)) (s1, rel) = Some (s', rel)"
    "pool_ok s' pd" "tree P D s' pd" "same_machine s1 s'"
    "Effects s' = Effects s1 @ concat (map (\<lambda>j. unmap_effects rel (page_va base j) (leaf P s1 pd (path_of (page_va base j)))) [Suc i..<n])"
    "\<forall>path. valid_path D path \<longrightarrow> leaf P s' pd path =
        (if (\<exists>j. Suc i \<le> j \<and> j < n \<and> path = path_of (page_va base j)) \<and> bit (leaf P s1 pd path) 0 then 0 else leaf P s1 pd path)"
    using Suc.hyps(1) [OF i(2) Suc_leI [OF i(1)] 1(2,3)] by (elim exE conjE)
  have other: "leaf P s1 pd (path_of (page_va base j)) = leaf P s pd (path_of (page_va base j))" if "j \<in> set [Suc i..<n]" for j
    using that same_page_va [OF r(1), of j i] i(1) 1(6) r(1) by (simp add: range_ok_def)
  have e: "map (\<lambda>j. unmap_effects rel (page_va base j) (leaf P s1 pd (path_of (page_va base j)))) [Suc i..<n] =
      map (\<lambda>j. unmap_effects rel (page_va base j) (leaf P s pd (path_of (page_va base j)))) [Suc i..<n]"
    by (rule map_cong [OF refl]) (simp only: other)
  show ?case
  proof (intro exI [of _ s'] conjI allI impI)
    show "walk_loop VmUnmapPage cr3 base sz (of_nat (4096 * i)) (s, rel) = Some (s', rel)"
      unfolding loop_step [OF r(2) i(1)] cr3 1(1) option.case by (rule 2(1))
    show "same_machine s s'" using 1(4) 2(4) by (simp add: same_machine_def)
    show "Effects s' = Effects s @ concat (map (\<lambda>j. unmap_effects rel (page_va base j) (leaf P s pd (path_of (page_va base j)))) [i..<n])"
      unfolding 2(5) e 1(5) using i(1) by (simp add: upt_conv_Cons)
    show "leaf P s' pd path =
        (if (\<exists>j. i \<le> j \<and> j < n \<and> path = path_of (page_va base j)) \<and> bit (leaf P s pd path) 0 then 0 else leaf P s pd path)"
      if "valid_path D path" for path
    proof -
      have e: "(\<exists>j. i \<le> j \<and> j < n \<and> path = path_of (page_va base j)) \<longleftrightarrow>
          path = path_of ?va \<or> (\<exists>j. Suc i \<le> j \<and> j < n \<and> path = path_of (page_va base j))"
        by (rule ex_range_split [OF i(1)])
      show ?thesis unfolding e 2(6) [rule_format, OF that] 1(6) [OF that]
        by (cases "path = path_of ?va"; cases "\<exists>j. Suc i \<le> j \<and> j < n \<and> path = path_of (page_va base j)") (simp_all only: if_True if_False simp_thms, simp_all)
    qed
  qed (use 2 in simp_all)
qed

lemma unmap_effect:
  assumes ok: "tables_ok D s pd" and sz: "sz \<noteq> 0" "4096 dvd unat sz"
    and range: "range_ok D base (unat sz div 4096)"
  shows "\<exists>s'. VmmUnmapMemoryEx s (BasePhysicalAddress pd) base sz rel = Some s' \<and> tables_ok D s' pd \<and>
    (\<forall>va. hd (path_of va) \<in> D \<longrightarrow> translate s' (BasePhysicalAddress pd) va =
      (if page_index base (unat sz div 4096) va = None then translate s (BasePhysicalAddress pd) va else None)) \<and>
    Effects s' = Effects s @ concat (map (\<lambda>i. case translate s (BasePhysicalAddress pd) (page_va base i) of
        None \<Rightarrow> []
      | Some t \<Rightarrow> InvalidateTlb (page_va base i) # (if rel then [ReleaseFrames (fst t) 1] else [])) [0..<unat sz div 4096])"
proof -
  let ?n = "unat sz div 4096"
  obtain P where P: "pool_ok s pd" "tree P D s pd" using ok by (auto simp: tables_ok_def)
  have n: "unat sz = 4096 * ?n" "0 < ?n" using sz unat_gt_0 [of sz] by auto
  have base: "base \<noteq> 0" using range n(2) by (auto simp: range_ok_def page_va_def)
  have al: "IsAddressAligned base PAGE_SIZE" "IsAddressAligned sz PAGE_SIZE"
    using IsAddressAligned_iff [of base 12] IsAddressAligned_iff [of sz 12] range sz(2) by (simp_all add: range_ok_def)
  have c0: "0 < unat (NumberOfFrames pd)" using P(1) by (simp add: pool_ok_def)
  have cr3: "phys_of (BasePhysicalAddress pd) = BasePhysicalAddress pd" using pool_base(4) [OF P(1) c0] by simp
  obtain s' where m: "walk_loop VmUnmapPage (BasePhysicalAddress pd) base sz (of_nat (4096 * 0)) (s, rel) = Some (s', rel)"
    "pool_ok s' pd" "tree P D s' pd" "same_machine s s'"
    "Effects s' = Effects s @ concat (map (\<lambda>j. unmap_effects rel (page_va base j) (leaf P s pd (path_of (page_va base j)))) [0..<?n])"
    "\<forall>path. valid_path D path \<longrightarrow> leaf P s' pd path =
        (if (\<exists>j. 0 \<le> j \<and> j < ?n \<and> path = path_of (page_va base j)) \<and> bit (leaf P s pd path) 0 then 0 else leaf P s pd path)"
    using unmap_loop [OF range n(1) cr3 le0 P, of rel] by (elim exE conjE)
  have run: "VmmUnmapMemoryEx s (BasePhysicalAddress pd) base sz rel = Some s'"
    using m(1) sz(1) al base by (simp add: VmmUnmapMemoryEx_def VmWalkPagingTables_def)
  have t: "translate s (BasePhysicalAddress pd) va = leaf_translation pd (leaf P s pd (path_of va))"
    "translate s' (BasePhysicalAddress pd) va = leaf_translation pd (leaf P s' pd (path_of va))" if "hd (path_of va) \<in> D" for va
    using translate_leaf [OF P, of va] translate_leaf [OF m(2,3), of va] that by simp_all
  have "translate s' (BasePhysicalAddress pd) va =
      (if page_index base ?n va = None then translate s (BasePhysicalAddress pd) va else None)" if d: "hd (path_of va) \<in> D" for va
  proof -
    have "(\<exists>j. 0 \<le> j \<and> j < ?n \<and> path_of va = path_of (page_va base j)) \<longleftrightarrow> page_index base ?n va \<noteq> None"
      by (auto simp: page_index_None path_of_eq page_va_def)
    then show ?thesis using m(6) [rule_format, of "path_of va"] d by (simp add: t [OF d] leaf_translation_def)
  qed
  moreover have "unmap_effects rel (page_va base i) (leaf P s pd (path_of (page_va base i))) =
      (case translate s (BasePhysicalAddress pd) (page_va base i) of None \<Rightarrow> []
       | Some t \<Rightarrow> InvalidateTlb (page_va base i) # (if rel then [ReleaseFrames (fst t) 1] else []))" if "i < ?n" for i
    using range that by (simp add: t range_ok_def unmap_effects_def leaf_translation_def)
  then have "concat (map (\<lambda>j. unmap_effects rel (page_va base j) (leaf P s pd (path_of (page_va base j)))) [0..<?n]) =
      concat (map (\<lambda>i. case translate s (BasePhysicalAddress pd) (page_va base i) of None \<Rightarrow> []
       | Some t \<Rightarrow> InvalidateTlb (page_va base i) # (if rel then [ReleaseFrames (fst t) 1] else [])) [0..<?n])"
    by (intro arg_cong [where f = concat] map_cong) simp_all
  moreover have "tables_ok D s' pd" using m(2,3) by (auto simp: tables_ok_def)
  ultimately show ?thesis using run m(5) by auto
qed

text \<open>C14: unmapping a range takes the translation of exactly the pages of the range away, whether they were mapped
  or not; each page that was mapped is invalidated in the TLB and, when the caller asks for it, its frame is
  handed over for release, in the order of the pages.\<close>

theorem unmap_exact:
  assumes ok: "tables_ok D s pd" and sz: "sz \<noteq> 0" "4096 dvd unat sz"
    and range: "range_ok D base (unat sz div 4096)"
  shows "\<exists>s'. VmmUnmapMemoryEx s (BasePhysicalAddress pd) base sz rel = Some s' \<and> tables_ok D s' pd \<and>
    (\<forall>va. hd (path_of va) \<in> D \<longrightarrow> translate s' (BasePhysicalAddress pd) va =
      (if page_index base (unat sz div 4096) va = None then translate s (BasePhysicalAddress pd) va else None)) \<and>
    Effects s' = Effects s @ concat (map (\<lambda>i. case translate s (BasePhysicalAddress pd) (page_va base i) of
        None \<Rightarrow> []
      | Some t \<Rightarrow> InvalidateTlb (page_va base i) # (if rel then [ReleaseFrames (fst t) 1] else [])) [0..<unat sz div 4096])"
  by (rule unmap_effect [OF assms])

section \<open>Looking an address up\<close>

text \<open>The tables that a walk for \<open>va\<close> meets exist, and there are no pages larger than 2 MB.\<close>

fun walk_readable :: "vmm_state \<Rightarrow> u64 list \<Rightarrow> u64 \<Rightarrow> bool" where
  "walk_readable s [] pa = True"
| "walk_readable s (off # offs) pa =
     (let p = PA2VA s pa + 8 * off in p \<noteq> 0 \<and>
       (case Mem s p of None \<Rightarrow> False | Some e \<Rightarrow>
          bit e 0 \<longrightarrow> (if length offs = 1 \<and> bit e 7 then True else (offs \<noteq> [] \<longrightarrow> \<not> bit e 7) \<and> walk_readable s offs (phys_of e))))"

text \<open>The entry that maps the page.\<close>

fun last_entry :: "vmm_state \<Rightarrow> u64 list \<Rightarrow> u64 \<Rightarrow> (u64 \<times> u64) option" where
  "last_entry s [] pa = None"
| "last_entry s (off # offs) pa = (case Mem s (PA2VA s pa + 8 * off) of None \<Rightarrow> None | Some e \<Rightarrow>
     if \<not> bit e 0 then None
     else if offs = [] \<or> length offs = 1 \<and> bit e 7 then Some (PA2VA s pa + 8 * off, e)
     else last_entry s offs (phys_of e))"

definition cleared :: "bool \<Rightarrow> bool \<Rightarrow> u64 \<Rightarrow> u64" where
  "cleared acc dirty e = (let e1 = (if acc then put_bit 5 False e else e) in if dirty then put_bit 6 False e1 else e1)"

definition retrieved :: "vmm_state \<Rightarrow> u64 \<Rightarrow> phys_context \<Rightarrow> u64 \<Rightarrow> (u64 \<times> u64) option \<Rightarrow> vmm_state \<times> phys_context" where
  "retrieved s va ctx pa m = (case m of
     None \<Rightarrow> (s, ctx\<lparr>CtxPhysical := 0\<rparr>)
   | Some (p, e) \<Rightarrow>
       (if ClearAccessed ctx \<or> ClearDirty ctx then effect (s\<lparr>Mem := (Mem s)(p \<mapsto> cleared (ClearAccessed ctx) (ClearDirty ctx) e)\<rparr>)
          (InvalidateTlb va) else s,
        ctx\<lparr>CtxPhysical := pa, CtxAccessed := bit e 5, CtxDirty := bit e 6\<rparr>))"

lemma and_low_bits: "4096 dvd unat (va :: u64) \<Longrightarrow> va AND 0x1FFFFF = va AND 0x1FF000"
proof (rule bit_word_eqI)
  fix n assume va: "4096 dvd unat va"
  have f: "(0x1FFFFF :: u64) = mask 21" "(0x1FF000 :: u64) = push_bit 12 (mask 9)" by (simp_all add: mask_eq_exp_minus_1 push_bit_eq_mult)
  have "\<not> bit va n" if "n < 12" using bits_below [of 12 va n] va that by simp
  then show "bit (va AND 0x1FFFFF) n = bit (va AND 0x1FF000) n"
    unfolding f by (cases "n < 12") (auto simp: bit_simps)
qed

lemma retrieve_walk:
  assumes "va \<noteq> 0" "4096 dvd unat va"
  shows "lvl + length offs = 5 \<Longrightarrow> 1 \<le> lvl \<Longrightarrow> lvl \<le> 4 \<Longrightarrow> walk_readable s offs pa \<Longrightarrow>
    walk_levels VmRetrievePhyAccess va lvl offs pa (s, ctx) =
      Some (retrieved s va ctx (case hw_walk s va offs pa w x u of None \<Rightarrow> 0 | Some t \<Rightarrow> fst t) (last_entry s offs pa))"
proof (induction offs arbitrary: lvl pa w x u)
  case Nil
  then show ?case by simp
next
  case (Cons off offs)
  let ?p = "PA2VA s pa + 8 * off"
  obtain e where e: "Mem s ?p = Some e" "?p \<noteq> 0" using Cons.prems(4) by (auto simp: Let_def split: option.splits)
  have ld: "load s ?p = Some e" "PteIsPresent s ?p = Some (bit e 0)" "PteGetPhysicalAddress s ?p = Some (phys_of e)"
    "PteLargePageGetPhysicalAddress s ?p = Some (large_phys_of e)"
    using e by (simp_all add: load_def PteIsPresent_def PteGetPhysicalAddress_def PteLargePageGetPhysicalAddress_def)
  have fin: "retrieve_finally ?p va (s, ctx\<lparr>CtxPhysical := q\<rparr>) = Some (retrieved s va ctx q (Some (?p, e)))" for q
    using ld(1) e by (simp add: retrieve_finally_def retrieved_def cleared_def store_def Let_def)
  show ?case
  proof (cases "bit e 0")
    case False
    then show ?thesis using ld e assms(1) Cons.prems(2,3) by (simp add: VmRetrievePhyAccess_def Let_def retrieved_def)
  next
    case p: True
    show ?thesis
    proof (cases "lvl < 4 \<and> \<not> (lvl = 3 \<and> bit e 7)")
      case True
      then have l: "offs \<noteq> []" "length offs = 1 \<longrightarrow> \<not> bit e 7" using Cons.prems(1) by auto
      have cb: "VmRetrievePhyAccess ?p va lvl (s, ctx) = Some (True, s, ctx)"
        using ld e p True assms(1) Cons.prems(2) by (cases "lvl = 3") (simp_all add: VmRetrievePhyAccess_def Let_def)
      have r: "\<not> bit e 7" "walk_readable s offs (phys_of e)" using Cons.prems(4) e p l by (auto simp: Let_def)
      have "walk_levels VmRetrievePhyAccess va (Suc lvl) offs (phys_of e) (s, ctx) =
        Some (retrieved s va ctx (case hw_walk s va offs (phys_of e) (w \<and> bit e 1) (x \<and> \<not> bit e 63) (u \<and> bit e 2) of None \<Rightarrow> 0 | Some t \<Rightarrow> fst t)
          (last_entry s offs (phys_of e)))"
        by (rule Cons.IH) (use Cons.prems(1,2) True r(2) in simp_all)
      then show ?thesis using cb ld r(1) e p l by (simp add: Let_def del: One_nat_def)
    next
      case False
      then consider "lvl = 4" "offs = []" | "lvl = 3" "bit e 7" "length offs = 1" using Cons.prems(1,3) by (cases "lvl = 3") auto
      then show ?thesis
      proof cases
        case 1
        then show ?thesis using ld e p fin assms(1) by (simp add: VmRetrievePhyAccess_def Let_def)
      next
        case 2
        then show ?thesis using ld e p fin assms(1) and_low_bits [OF assms(2)] by (simp add: VmRetrievePhyAccess_def Let_def del: One_nat_def)
      qed
    qed
  qed
qed

text \<open>C15: the address that the code finds for a page is the one the processor translates to, with large pages
  too, and 0 when the page is not mapped; the accessed and dirty bits are those of the entry that maps it, and
  the bits that the caller asks for are cleared in this entry and nowhere else, with the page invalidated in the TLB.
  This holds for any contents of the tables the processor can walk.\<close>

theorem get_physical_exact:
  assumes va: "va \<noteq> 0" "4096 dvd unat va" and r: "walk_readable s (offsets va) (phys_of cr3)"
  shows "VmmGetPhysicalAddressEx s cr3 va acc dirty =
      Some (case translate s cr3 va of None \<Rightarrow> 0 | Some t \<Rightarrow> fst t,
        case last_entry s (offsets va) (phys_of cr3) of None \<Rightarrow> False | Some pe \<Rightarrow> bit (snd pe) 5,
        case last_entry s (offsets va) (phys_of cr3) of None \<Rightarrow> False | Some pe \<Rightarrow> bit (snd pe) 6,
        case last_entry s (offsets va) (phys_of cr3) of
          Some (p, e) \<Rightarrow> if acc \<or> dirty
            then effect (s\<lparr>Mem := (Mem s)(p \<mapsto> cleared acc dirty e)\<rparr>) (InvalidateTlb va) else s
        | None \<Rightarrow> s) \<and>
    (translate s cr3 va = None \<longleftrightarrow> last_entry s (offsets va) (phys_of cr3) = None)"
proof -
  let ?ctx = "\<lparr>CtxPhysical = 0, CtxAccessed = False, CtxDirty = False, ClearAccessed = acc, ClearDirty = dirty\<rparr>"
  have al: "IsAddressAligned va PAGE_SIZE" using IsAddressAligned_iff [of va 12] va(2) by simp
  have len: "1 + length (offsets va) = 5" by (simp add: offsets_def)
  have w: "walk_levels VmRetrievePhyAccess va 1 (offsets va) (phys_of cr3) (s, ?ctx) =
      Some (retrieved s va ?ctx (case translate s cr3 va of None \<Rightarrow> 0 | Some t \<Rightarrow> fst t) (last_entry s (offsets va) (phys_of cr3)))"
    unfolding translate_def by (rule retrieve_walk [OF va len _ _ r]) simp_all
  have loop: "VmWalkPagingTables VmRetrievePhyAccess cr3 va PAGE_SIZE (s, ?ctx) =
      Some (retrieved s va ?ctx (case translate s cr3 va of None \<Rightarrow> 0 | Some t \<Rightarrow> fst t) (last_entry s (offsets va) (phys_of cr3)))"
    using loop_step [of PAGE_SIZE 1 0 VmRetrievePhyAccess cr3 va "(s, ?ctx)"] loop_end [of PAGE_SIZE 1]
    by (simp add: VmWalkPagingTables_def page_va_def w del: One_nat_def)
  have none: "hw_walk s va offs pa w x u = None \<longleftrightarrow> last_entry s offs pa = None" if "offs \<noteq> []" for offs pa w x u
    using that by (induction offs arbitrary: pa w x u) (auto split: option.splits)
  have n: "translate s cr3 va = None \<longleftrightarrow> last_entry s (offsets va) (phys_of cr3) = None"
    unfolding translate_def by (rule none) (simp add: offsets_def)
  show ?thesis
  proof (cases "last_entry s (offsets va) (phys_of cr3)")
    case None
    then show ?thesis using loop n va(1) al by (simp add: VmmGetPhysicalAddressEx_def retrieved_def)
  next
    case (Some pe)
    then show ?thesis using loop n va(1) al by (cases pe) (auto simp: VmmGetPhysicalAddressEx_def retrieved_def)
  qed
qed


section \<open>An address space as a partial map\<close>

record map_request =
  ReqPhysical :: u64
  ReqSize :: u64
  ReqBase :: u64
  ReqRights :: u32
  ReqUncacheable :: bool

definition request_pages :: "map_request \<Rightarrow> nat" where
  "request_pages r = unat (ReqSize r) div 4096"

definition request_ok :: "nat set \<Rightarrow> map_request \<Rightarrow> bool" where
  "request_ok D r \<longleftrightarrow> ReqSize r \<noteq> 0 \<and> 4096 dvd unat (ReqSize r) \<and> 4096 dvd unat (ReqPhysical r) \<and>
     unat (ReqPhysical r) + unat (ReqSize r) \<le> 2 ^ 52 \<and> range_ok D (ReqBase r) (request_pages r)"

definition request_image :: "bool \<Rightarrow> map_request \<Rightarrow> u64 \<rightharpoonup> u64 \<times> bool \<times> bool \<times> bool" where
  "request_image ks r va = map_option (\<lambda>i. (ReqPhysical r + of_nat (4096 * i), IsBooleanFlagOn (ReqRights r) 1,
     IsBooleanFlagOn (ReqRights r) 2, \<not> ks)) (page_index (ReqBase r) (request_pages r) va)"

text \<open>A mapping with \<open>Invalidate\<close> TRUE: a page that is mapped already is mapped again. With FALSE it keeps its entry.\<close>

definition map_request :: "vmm_state \<times> paging_data \<Rightarrow> map_request \<Rightarrow> (vmm_state \<times> paging_data) option" where
  "map_request st r = VmmMapMemoryInternal (fst st) (snd st) (ReqPhysical r) (ReqSize r) (ReqBase r) (ReqRights r) True (ReqUncacheable r)"

definition unmap_request :: "bool \<Rightarrow> vmm_state \<times> paging_data \<Rightarrow> map_request \<Rightarrow> (vmm_state \<times> paging_data) option" where
  "unmap_request rel st r =
     map_option (\<lambda>s'. (s', snd st)) (VmmUnmapMemoryEx (fst st) (BasePhysicalAddress (snd st)) (ReqBase r) (ReqSize r) rel)"

definition space_view :: "nat set \<Rightarrow> vmm_state \<times> paging_data \<Rightarrow> u64 \<rightharpoonup> u64 \<times> bool \<times> bool \<times> bool" where
  "space_view D st va = (if hd (path_of va) \<in> D then translate (fst st) (BasePhysicalAddress (snd st)) va else None)"

definition frames_left :: "vmm_state \<times> paging_data \<Rightarrow> nat" where
  "frames_left st = unat (NumberOfFrames (snd st)) - used (snd st)"

lemma page_in_range:
  assumes "range_ok D base n" "page_index base n va = Some i"
  shows "hd (path_of va) \<in> D"
proof -
  have "i < n" "path_of va = path_of (page_va base i)"
    using page_index_Some [of base n va i] assms by (simp_all add: range_ok_def path_of_eq page_va_def)
  then show ?thesis using assms(1) by (simp add: range_ok_def)
qed

interpretation am: address_map "\<lambda>st. tables_ok D (fst st) (snd st) \<and> KernelSpace (snd st) = ks" "space_view D" frames_left
  "\<lambda>r. 3 * request_pages r" "request_ok D" "request_image ks" map_request "unmap_request rel"
proof (unfold_locales, goal_cases)
  case (1 st r)
  obtain s pd where st: "st = (s, pd)" by (cases st)
  have r: "ReqSize r \<noteq> 0" "4096 dvd unat (ReqSize r)" "4096 dvd unat (ReqPhysical r)"
    "unat (ReqPhysical r) + unat (ReqSize r) \<le> 2 ^ 52" "range_ok D (ReqBase r) (unat (ReqSize r) div 4096)"
    using 1(2) by (simp_all add: request_ok_def request_pages_def)
  have ok: "tables_ok D s pd" "KernelSpace pd = ks" using 1(1) st by simp_all
  have u: "used pd \<le> unat (NumberOfFrames pd)" using 1(1) st by (simp add: tables_ok_def pool_ok_def)
  then have room: "used pd + 3 * (unat (ReqSize r) div 4096) \<le> unat (NumberOfFrames pd)"
    using 1(3) st by (simp add: frames_left_def request_pages_def)
  obtain s' pd' where m: "VmmMapMemoryInternal s pd (ReqPhysical r) (ReqSize r) (ReqBase r) (ReqRights r) True (ReqUncacheable r) = Some (s', pd')"
    "tables_ok D s' pd'" "same_pool pd pd'" "used pd' \<le> used pd + 3 * (unat (ReqSize r) div 4096)"
    "\<And>va. hd (path_of va) \<in> D \<Longrightarrow> translate s' (BasePhysicalAddress pd) va =
      (case page_index (ReqBase r) (unat (ReqSize r) div 4096) va of
         None \<Rightarrow> translate s (BasePhysicalAddress pd) va
       | Some i \<Rightarrow> Some (ReqPhysical r + of_nat (4096 * i), IsBooleanFlagOn (ReqRights r) 1, IsBooleanFlagOn (ReqRights r) 2, \<not> KernelSpace pd))"
    using map_effect [OF ok(1) r room, of "ReqRights r" True "ReqUncacheable r", unfolded simp_thms if_True] by blast
  have v: "space_view D (s', pd') = space_view D (s, pd) ++ request_image ks r"
  proof
    fix va show "space_view D (s', pd') va = (space_view D (s, pd) ++ request_image ks r) va"
      using m(3) m(5) [of va] page_in_range [OF r(5), of va] 1(1) st
      by (auto simp: space_view_def map_add_def request_image_def request_pages_def same_pool_def split: option.split)
  qed
  show ?case
    using m(1-4) v 1(1) st u by (auto simp: map_request_def same_pool_def frames_left_def request_pages_def)
next
  case (2 st r)
  obtain s pd where st: "st = (s, pd)" by (cases st)
  have r: "ReqSize r \<noteq> 0" "4096 dvd unat (ReqSize r)" "range_ok D (ReqBase r) (unat (ReqSize r) div 4096)"
    using 2(2) by (simp_all add: request_ok_def request_pages_def)
  have ok: "tables_ok D s pd" "KernelSpace pd = ks" using 2(1) st by simp_all
  obtain s' where u: "VmmUnmapMemoryEx s (BasePhysicalAddress pd) (ReqBase r) (ReqSize r) rel = Some s'" "tables_ok D s' pd"
    "\<And>va. hd (path_of va) \<in> D \<Longrightarrow> translate s' (BasePhysicalAddress pd) va =
      (if page_index (ReqBase r) (unat (ReqSize r) div 4096) va = None then translate s (BasePhysicalAddress pd) va else None)"
    using unmap_effect [OF ok(1) r, of rel] by blast
  have v: "space_view D (s', pd) = space_view D (s, pd) |` (- dom (request_image ks r))"
  proof
    fix va show "space_view D (s', pd) va = (space_view D (s, pd) |` (- dom (request_image ks r))) va"
      using u(3) [of va] by (auto simp: space_view_def restrict_map_def request_image_def request_pages_def dom_def)
  qed
  show ?case using u(1,2) v ok(2) st by (auto simp: unmap_request_def frames_left_def)
qed


text \<open>C12: whatever sequence of mappings (with \<open>Invalidate\<close> TRUE) and removals is done on ranges that a set of tables can hold, with
  three frames left per page mapped, the operations succeed and the processor then translates addresses as the sequence says.\<close>

theorem paging_is_map:
  assumes "tables_ok D s pd" "\<forall>p \<in> set ops. request_ok D (op_range p)"
    and "range_cost (\<lambda>r. 3 * request_pages r) ops \<le> frames_left (s, pd)"
  shows "\<exists>s' pd'. range_run map_request (unmap_request rel) ops (s, pd) = Some (s', pd') \<and> tables_ok D s' pd' \<and>
    space_view D (s', pd') = range_after (request_image (KernelSpace pd)) ops (space_view D (s, pd))"
  using am.run [of D "(s, pd)" "KernelSpace pd" ops rel] assms by auto

text \<open>C16: mapping a range none of whose pages is mapped, with \<open>Invalidate\<close> TRUE, and unmapping it again restores every translation.\<close>

theorem map_unmap_roundtrip:
  assumes "tables_ok D s pd" "request_ok D r" "3 * request_pages r \<le> frames_left (s, pd)"
    and "\<And>va. page_index (ReqBase r) (request_pages r) va \<noteq> None \<Longrightarrow> translate s (BasePhysicalAddress pd) va = None"
  shows "\<exists>st1 st2. map_request (s, pd) r = Some st1 \<and>
    space_view D st1 = space_view D (s, pd) ++ request_image (KernelSpace pd) r \<and>
    unmap_request rel st1 r = Some st2 \<and> tables_ok D (fst st2) (snd st2) \<and> space_view D st2 = space_view D (s, pd)"
proof -
  have "dom (request_image (KernelSpace pd) r) \<inter> dom (space_view D (s, pd)) = {}"
    using assms(4) by (auto simp: request_image_def space_view_def split: if_splits)
  then show ?thesis using am.roundtrip [of D "(s, pd)" "KernelSpace pd" r rel] assms(1-3) by auto
qed

section \<open>Samples\<close>

text \<open>Eight frames at one megabyte, the root in the first of them, empty; the entries of the upper half
  of the addresses are the kernel's.\<close>

definition sample_tables :: vmm_state where
  "sample_tables = \<lparr>Mem = \<lambda>p. Some 0, VirtualToPhysicalOffset = 0x8000000000, Effects = [],
     WriteBackIndex = 0, UncacheableIndex = 3\<rparr>"

definition sample_paging :: paging_data where
  "sample_paging = \<lparr>BasePhysicalAddress = 0x100000, NumberOfFrames = 8, CurrentIndex = 1, KernelSpace = False\<rparr>"

definition sample_request :: map_request where
  "sample_request = \<lparr>ReqPhysical = 0x200000, ReqSize = 0x2000, ReqBase = 0x400000, ReqRights = 1, ReqUncacheable = False\<rparr>"

lemma sample_paging_ok: "tables_ok {..<256} sample_tables sample_paging"
  unfolding tables_ok_def
proof (intro conjI exI [of _ "\<lambda>_. []"])
  have "ptr sample_tables sample_paging k i \<noteq> 0" if "k < 8" "i < 512" for k i
  proof -
    have u: "unat (of_nat (4096 * k + 8 * i) :: u64) = 4096 * k + 8 * i" by (rule unat_of_nat_u64) (use that in linarith)
    have "ptr sample_tables sample_paging k i = 0x8000100000 + of_nat (4096 * k + 8 * i)"
      by (simp add: ptr_offset sample_tables_def sample_paging_def PA2VA_def)
    moreover have "unat (0x8000100000 + of_nat (4096 * k + 8 * i) :: u64) = 0x8000100000 + (4096 * k + 8 * i)"
      using unat_add_small [of "0x8000100000 :: u64" "of_nat (4096 * k + 8 * i)"] that unfolding u by simp
    ultimately show ?thesis by (metis add_is_0 unat_0 zero_neq_numeral)
  qed
  then show "pool_ok sample_tables sample_paging"
    by (simp add: pool_ok_def) (simp add: sample_tables_def sample_paging_def used_def)
  show "tree (\<lambda>_. []) {..<256} sample_tables sample_paging"
    by (simp add: tree_def used_def sample_paging_def entry_def sample_tables_def inj_on_def)
qed

lemma sample_request_ok: "request_ok {..<256} sample_request"
proof -
  have "page_va 0x400000 i \<noteq> 0 \<and> hd (path_of (page_va 0x400000 i)) < 256" if i: "i < 2" for i
  proof -
    consider "i = 0" | "i = 1" using i by linarith
    then show ?thesis by cases (simp_all add: page_va_def path_of_def offsets_def)
  qed
  then show ?thesis by (simp add: request_ok_def request_pages_def sample_request_def range_ok_def)
qed


lemma sample_range: "range_ok {..<256} 0x400000 2"
  using sample_request_ok by (simp add: request_ok_def request_pages_def sample_request_def)

lemma map_exact_witness:
  "\<exists>s' pd'. VmmMapMemoryInternal sample_tables sample_paging 0x200000 0x2000 0x400000 1 True False = Some (s', pd') \<and>
    translate s' 0x100000 0x401000 = Some (0x201000, True, False, True)"
proof -
  have "page_index 0x400000 2 0x401000 = Some 1" by (simp add: page_index_def same_page_def upt_rec)
  moreover have "hd (path_of 0x401000) \<in> {..<256}" by (simp add: path_of_def offsets_def)
  ultimately show ?thesis
    using map_exact [OF sample_paging_ok, where sz = "0x2000" and pa = "0x200000" and base = "0x400000" and rights = 1 and refresh = True and unc = False] sample_range
    by (fastforce simp: sample_paging_def used_def IsBooleanFlagOn_def)
qed

lemma unmap_exact_witness:
  "\<exists>s'. VmmUnmapMemoryEx sample_tables (BasePhysicalAddress sample_paging) 0x400000 0x2000 True = Some s' \<and> tables_ok {..<256} s' sample_paging"
  using unmap_exact [OF sample_paging_ok, where sz = "0x2000" and base = "0x400000" and rel = True] sample_range by auto

lemma paging_is_map_witness:
  "\<exists>s' pd'. range_run map_request (unmap_request True) [MapOp sample_request, UnmapOp sample_request]
    (sample_tables, sample_paging) = Some (s', pd') \<and> tables_ok {..<256} s' pd'"
  using paging_is_map [OF sample_paging_ok, of "[MapOp sample_request, UnmapOp sample_request]" True] sample_request_ok
  by (auto simp: frames_left_def request_pages_def sample_request_def sample_paging_def used_def)

lemma sample_unmapped: "translate sample_tables (BasePhysicalAddress sample_paging) va = None"
  by (simp add: translate_def offsets_def sample_tables_def)

lemma map_unmap_roundtrip_witness:
  "\<exists>st1 st2. map_request (sample_tables, sample_paging) sample_request = Some st1 \<and> unmap_request True st1 sample_request = Some st2 \<and>
    space_view {..<256} st2 = space_view {..<256} (sample_tables, sample_paging)"
  using map_unmap_roundtrip [OF sample_paging_ok sample_request_ok, of True] sample_unmapped
  by (auto simp: frames_left_def request_pages_def sample_request_def sample_paging_def used_def)

text \<open>Every entry refers to the frame at one megabyte and has been accessed and written through.\<close>

definition sample_mapped :: vmm_state where
  "sample_mapped = sample_tables\<lparr>Mem := \<lambda>p. Some 0x100063\<rparr>"

lemma get_physical_exact_witness:
  "\<exists>s'. VmmGetPhysicalAddressEx sample_mapped 0x100000 0x400000 True False = Some (0x100000, True, True, s') \<and>
    Effects s' = [InvalidateTlb 0x400000]"
proof -
  have e: "phys_of 0x100063 = 0x100000" "phys_of 0x100000 = 0x100000" by (simp_all add: phys_of_def)
  have b: "bit (0x100063 :: u64) 0" "\<not> bit (0x100063 :: u64) 7" "bit (0x100063 :: u64) 5" "bit (0x100063 :: u64) 6"
    by (simp_all add: bit_numeral_rec)
  have o: "offsets 0x400000 = [0, 0, 2, 0]" by (simp add: offsets_def)
  have p: "PA2VA sample_mapped 0x100000 = 0x8000100000" "Mem sample_mapped p = Some 0x100063" for p
    by (simp_all add: PA2VA_def sample_mapped_def sample_tables_def)
  have "walk_readable sample_mapped (offsets 0x400000) (phys_of 0x100000)"
    by (simp add: e o b p Let_def)
  then show ?thesis
    using get_physical_exact [where va = "0x400000" and s = sample_mapped and ?cr3.0 = "0x100000" and acc = True and dirty = False]
    by (simp add: e o b p translate_def effect_def sample_mapped_def sample_tables_def)
qed


end
