(* ===== verification/Scheduler.thy ===== *)
theory Scheduler
  imports HAL_Prelude
begin

text \<open>
  The scheduler of \<open>HAL9000/src/executive/thread.c\<close> with the two objects threads wait for, mutexes
  (\<open>mutex.c\<close>) and events (\<open>ex_event.c\<close>), as a step relation over processors and threads.

  A field of a structure is a function of the address of the structure. A thread is at a program point \<open>pc\<close>;
  a processor executes the thread it runs up to its next program point, which is before the next acquisition or
  release of a lock or the next access to data that no lock protects; the code between them touches only data that
  the locks it holds protect. A lock holds the processor that has it, 0 when it is free (the contract of
  \<open>CL_Lock\<close>); a processor that would have to spin has no step. An assertion that fails, among them those of
  \<open>LockAcquire\<close> and \<open>LockRelease\<close> about the holder of the lock, leads to \<open>Halted\<close>. The interrupt state of a processor is not
  part of this model, and neither is the assertion of \<open>LockRelease\<close> about it: theory \<open>CL_Lock\<close> has both for the lock itself. A list is the sequence of its entries (\<open>CL_List\<close>);
  a thread has a single entry for all of them, \<open>ReadyList\<close>, so that inserting one that is linked already would
  corrupt two lists, and is \<open>Halted\<close> too.

  Left out: the creation and the end of threads, and the switch of stacks and address spaces.
\<close>

section \<open>State\<close>

datatype wait_object = MutexAt u64 | EventAt u64

datatype thread_state = ThreadStateRunning | ThreadStateReady | ThreadStateBlocked | ThreadStateDying

datatype ex_evt_type = ExEventTypeNotification | ExEventTypeSynchronization

text \<open>Where a thread goes on when it is switched to again.\<close>

datatype resume = ResumeRun | ResumeMutex u64 | ResumeEvent u64 | ResumeIdle

datatype pc = Outside | Halted
  | AcquireLock u64 | AcquireFree u64 | AcquireLoop u64 | AcquireRelock u64 | AcquireDone u64
  | QueueBlock wait_object | QueueUnlock wait_object
  | Block resume | BlockLocking resume | Schedule resume
  | Cleanup resume | CleanupBlock resume
  | ReleaseLock u64 | ReleaseWake u64 | ReleaseDone u64
  | Unblock wait_object u64 | UnblockReady wait_object u64 | UnblockInsert wait_object u64
  | UnblockLeave wait_object u64 | UnblockDone wait_object u64
  | YieldLock | YieldInsert
  | WaitTest u64 | WaitLock u64 | WaitInsert u64
  | SignalLock u64 | SignalSet u64 | SignalNext u64 | SignalDone u64
  | IdleTake

text \<open>\<open>Linked\<close> says whether the entry of a thread is in a list, \<open>Inside\<close> how many calls of \<open>MutexAcquire\<close> of a
  thread have returned and not been matched by one of \<open>MutexRelease\<close>; no code looks at them.\<close>

record machine =
  CurrentThread :: "u64 \<Rightarrow> u64"
  PreviousThread :: "u64 \<Rightarrow> u64"
  IdleThread :: "u64 \<Rightarrow> u64"
  ReadyThreadsLock :: u64
  ReadyThreadsList :: "u64 list"
  ThreadState :: "u64 \<Rightarrow> thread_state"
  BlockLock :: "u64 \<Rightarrow> u64"
  Linked :: "u64 \<Rightarrow> bool"
  ObjectLock :: "wait_object \<Rightarrow> u64"
  WaitingList :: "wait_object \<Rightarrow> u64 list"
  MutexHolder :: "u64 \<Rightarrow> u64"
  CurrentRecursivityDepth :: "u64 \<Rightarrow> u8"
  MaxRecursivityDepth :: "u64 \<Rightarrow> u8"
  EventType :: "u64 \<Rightarrow> ex_evt_type"
  Signaled :: "u64 \<Rightarrow> bool"
  Pc :: "u64 \<Rightarrow> pc"
  Inside :: "u64 \<Rightarrow> u64 \<Rightarrow> nat"

definition at_pc :: "u64 \<Rightarrow> pc \<Rightarrow> machine \<Rightarrow> machine" where
  "at_pc t p s = s\<lparr>Pc := (Pc s)(t := p)\<rparr>"

text \<open>\<open>LockAcquire\<close> and \<open>LockRelease\<close> of the processor \<open>c\<close>, which runs \<open>t\<close>, on a lock that holds \<open>l\<close>, with their assertions about
  the holder.\<close>

definition locking :: "u64 \<Rightarrow> u64 \<Rightarrow> u64 \<Rightarrow> machine \<Rightarrow> machine \<Rightarrow> machine option" where
  "locking c t l s s' = (if l = c then Some (at_pc t Halted s) else if l = 0 then Some s' else None)"

definition unlocking :: "u64 \<Rightarrow> u64 \<Rightarrow> u64 \<Rightarrow> machine \<Rightarrow> machine \<Rightarrow> machine option" where
  "unlocking c t l s s' = Some (if l = c then s' else at_pc t Halted s)"

definition set_object_lock :: "wait_object \<Rightarrow> u64 \<Rightarrow> machine \<Rightarrow> machine" where
  "set_object_lock ob v s = s\<lparr>ObjectLock := (ObjectLock s)(ob := v)\<rparr>"

definition set_block_lock :: "u64 \<Rightarrow> u64 \<Rightarrow> machine \<Rightarrow> machine" where
  "set_block_lock u v s = s\<lparr>BlockLock := (BlockLock s)(u := v)\<rparr>"

definition set_state :: "u64 \<Rightarrow> thread_state \<Rightarrow> machine \<Rightarrow> machine" where
  "set_state t st s = s\<lparr>ThreadState := (ThreadState s)(t := st)\<rparr>"

definition set_holder :: "u64 \<Rightarrow> u64 \<Rightarrow> machine \<Rightarrow> machine" where
  "set_holder m t s = s\<lparr>MutexHolder := (MutexHolder s)(m := t)\<rparr>"

definition set_depth :: "u64 \<Rightarrow> u8 \<Rightarrow> machine \<Rightarrow> machine" where
  "set_depth m n s = s\<lparr>CurrentRecursivityDepth := (CurrentRecursivityDepth s)(m := n)\<rparr>"

definition set_inside :: "u64 \<Rightarrow> u64 \<Rightarrow> nat \<Rightarrow> machine \<Rightarrow> machine" where
  "set_inside t m n s = s\<lparr>Inside := (Inside s)(t := (Inside s t)(m := n))\<rparr>"

definition link :: "u64 \<Rightarrow> bool \<Rightarrow> machine \<Rightarrow> machine" where
  "link t b s = s\<lparr>Linked := (Linked s)(t := b)\<rparr>"

text \<open>\<open>InsertTailList\<close> and \<open>RemoveHeadList\<close> on the two kinds of lists.\<close>

definition insert_waiting :: "wait_object \<Rightarrow> u64 \<Rightarrow> machine \<Rightarrow> machine" where
  "insert_waiting ob t s = link t True (s\<lparr>WaitingList := (WaitingList s)(ob := WaitingList s ob @ [t])\<rparr>)"

definition remove_waiting :: "wait_object \<Rightarrow> machine \<Rightarrow> machine" where
  "remove_waiting ob s = link (hd (WaitingList s ob)) False (s\<lparr>WaitingList := (WaitingList s)(ob := tl (WaitingList s ob))\<rparr>)"

definition insert_ready :: "u64 \<Rightarrow> machine \<Rightarrow> machine" where
  "insert_ready t s = link t True (s\<lparr>ReadyThreadsList := ReadyThreadsList s @ [t]\<rparr>)"

definition remove_ready :: "machine \<Rightarrow> machine" where
  "remove_ready s = link (hd (ReadyThreadsList s)) False (s\<lparr>ReadyThreadsList := tl (ReadyThreadsList s)\<rparr>)"

section \<open>Scheduling\<close>

definition ThreadGetReadyThread :: "u64 \<Rightarrow> machine \<Rightarrow> u64 \<times> machine" where
  "ThreadGetReadyThread c s =
     (if ReadyThreadsList s = [] then (IdleThread s c, s) else (hd (ReadyThreadsList s), remove_ready s))"

text \<open>The processor \<open>c\<close> leaves \<open>t\<close>, which will go on at \<open>r\<close>.\<close>

definition ThreadSchedule :: "u64 \<Rightarrow> u64 \<Rightarrow> resume \<Rightarrow> machine \<Rightarrow> machine" where
  "ThreadSchedule c t r s =
     (let (pNext, s1) = ThreadGetReadyThread c s;
          s2 = at_pc t (Cleanup r) (s1\<lparr>PreviousThread := (PreviousThread s1)(c := t)\<rparr>) in
      if pNext \<noteq> t
      then set_state pNext ThreadStateRunning (s2\<lparr>CurrentThread := (CurrentThread s2)(c := pNext)\<rparr>)
      else s2)"

definition resume_pc :: "machine \<Rightarrow> resume \<Rightarrow> pc" where
  "resume_pc s r = (case r of
     ResumeRun \<Rightarrow> Outside
   | ResumeMutex m \<Rightarrow> AcquireRelock m
   | ResumeEvent e \<Rightarrow> (if EventType s e = ExEventTypeNotification then Outside else WaitTest e)
   | ResumeIdle \<Rightarrow> Outside)"

fun ThreadCleanupPostSchedule :: "u64 \<Rightarrow> u64 \<Rightarrow> pc \<Rightarrow> machine \<Rightarrow> machine option" where
  "ThreadCleanupPostSchedule c t (Cleanup r) s =
     unlocking c t (ReadyThreadsLock s) s (at_pc t (CleanupBlock r) (s\<lparr>ReadyThreadsLock := 0\<rparr>))"
| "ThreadCleanupPostSchedule c t (CleanupBlock r) s =
     (let prev = PreviousThread s c;
          s1 = (if prev \<noteq> 0 \<and> BlockLock s prev = c then set_block_lock prev 0 s else s) in
      Some (at_pc t (resume_pc s1 r) s1))"
| "ThreadCleanupPostSchedule c t p s = None"

fun ThreadBlock :: "u64 \<Rightarrow> u64 \<Rightarrow> pc \<Rightarrow> machine \<Rightarrow> machine option" where
  "ThreadBlock c t (Block r) s = Some (at_pc t (BlockLocking r) (set_state t ThreadStateBlocked s))"
| "ThreadBlock c t (BlockLocking r) s =
     locking c t (ReadyThreadsLock s) s (at_pc t (Schedule r) (s\<lparr>ReadyThreadsLock := c\<rparr>))"
| "ThreadBlock c t (Schedule r) s = Some (ThreadSchedule c t r s)"
| "ThreadBlock c t p s = None"

fun ThreadYield :: "u64 \<Rightarrow> u64 \<Rightarrow> pc \<Rightarrow> machine \<Rightarrow> machine option" where
  "ThreadYield c t YieldLock s =
     locking c t (ReadyThreadsLock s) s (at_pc t YieldInsert (s\<lparr>ReadyThreadsLock := c\<rparr>))"
| "ThreadYield c t YieldInsert s =
     (if t = IdleThread s c then Some (ThreadSchedule c t ResumeRun (set_state t ThreadStateReady s))
      else if Linked s t then Some (at_pc t Halted s)
      else Some (ThreadSchedule c t ResumeRun (set_state t ThreadStateReady (insert_ready t s))))"
| "ThreadYield c t p s = None"

text \<open>The end of \<open>ThreadUnblock\<close> returns to its caller, which signals the object.\<close>

definition unblocked_pc :: "machine \<Rightarrow> wait_object \<Rightarrow> pc" where
  "unblocked_pc s ob = (case ob of
     MutexAt m \<Rightarrow> ReleaseDone m
   | EventAt e \<Rightarrow> (if EventType s e = ExEventTypeSynchronization then SignalDone e else SignalNext e))"

fun ThreadUnblock :: "u64 \<Rightarrow> u64 \<Rightarrow> pc \<Rightarrow> machine \<Rightarrow> machine option" where
  "ThreadUnblock c t (Unblock ob u) s =
     locking c t (BlockLock s u) s (at_pc t (UnblockReady ob u) (set_block_lock u c s))"
| "ThreadUnblock c t (UnblockReady ob u) s =
     locking c t (ReadyThreadsLock s) s (at_pc t (UnblockInsert ob u) (s\<lparr>ReadyThreadsLock := c\<rparr>))"
| "ThreadUnblock c t (UnblockInsert ob u) s =
     (if Linked s u then Some (at_pc t Halted s)
      else Some (at_pc t (UnblockLeave ob u) (set_state u ThreadStateReady (insert_ready u s))))"
| "ThreadUnblock c t (UnblockLeave ob u) s =
     unlocking c t (ReadyThreadsLock s) s (at_pc t (UnblockDone ob u) (s\<lparr>ReadyThreadsLock := 0\<rparr>))"
| "ThreadUnblock c t (UnblockDone ob u) s =
     unlocking c t (BlockLock s u) s (at_pc t (unblocked_pc s ob) (set_block_lock u 0 s))"
| "ThreadUnblock c t p s = None"

text \<open>A thread that has put itself into a list of waiting threads: \<open>ThreadTakeBlockLock\<close>, the release of the lock of the
  object, \<open>ThreadBlock\<close>.\<close>

definition resume_of :: "wait_object \<Rightarrow> resume" where
  "resume_of ob = (case ob of MutexAt m \<Rightarrow> ResumeMutex m | EventAt e \<Rightarrow> ResumeEvent e)"

fun ThreadTakeBlockLock :: "u64 \<Rightarrow> u64 \<Rightarrow> pc \<Rightarrow> machine \<Rightarrow> machine option" where
  "ThreadTakeBlockLock c t (QueueBlock ob) s =
     locking c t (BlockLock s t) s (at_pc t (QueueUnlock ob) (set_block_lock t c s))"
| "ThreadTakeBlockLock c t (QueueUnlock ob) s =
     unlocking c t (ObjectLock s ob) s (at_pc t (Block (resume_of ob)) (set_object_lock ob 0 s))"
| "ThreadTakeBlockLock c t IdleTake s =
     locking c t (BlockLock s t) s (at_pc t (Block ResumeIdle) (set_block_lock t c s))"
| "ThreadTakeBlockLock c t p s = None"

section \<open>Mutexes and events\<close>

definition queue_thread :: "u64 \<Rightarrow> wait_object \<Rightarrow> machine \<Rightarrow> machine" where
  "queue_thread t ob s = (if Linked s t then at_pc t Halted s else at_pc t (QueueBlock ob) (insert_waiting ob t s))"

fun MutexAcquire :: "u64 \<Rightarrow> u64 \<Rightarrow> pc \<Rightarrow> machine \<Rightarrow> machine option" where
  "MutexAcquire c t (AcquireLock m) s =
     locking c t (ObjectLock s (MutexAt m)) s (at_pc t (AcquireFree m) (set_object_lock (MutexAt m) c s))"
| "MutexAcquire c t (AcquireFree m) s =
     Some (at_pc t (AcquireLoop m) (if MutexHolder s m = 0 then set_depth m 1 (set_holder m t s) else s))"
| "MutexAcquire c t (AcquireLoop m) s =
     Some (if MutexHolder s m \<noteq> t then queue_thread t (MutexAt m) s else at_pc t (AcquireDone m) s)"
| "MutexAcquire c t (AcquireRelock m) s =
     locking c t (ObjectLock s (MutexAt m)) s (at_pc t (AcquireLoop m) (set_object_lock (MutexAt m) c s))"
| "MutexAcquire c t (AcquireDone m) s =
     unlocking c t (ObjectLock s (MutexAt m)) s
       (at_pc t Outside (set_inside t m (Inside s t m + 1) (set_object_lock (MutexAt m) 0 s)))"
| "MutexAcquire c t p s = None"

fun MutexRelease :: "u64 \<Rightarrow> u64 \<Rightarrow> pc \<Rightarrow> machine \<Rightarrow> machine option" where
  "MutexRelease c t (ReleaseLock m) s =
     locking c t (ObjectLock s (MutexAt m)) s (at_pc t (ReleaseWake m) (set_object_lock (MutexAt m) c s))"
| "MutexRelease c t (ReleaseWake m) s =
     (let ws = WaitingList s (MutexAt m) in
      Some (if ws \<noteq> []
        then at_pc t (Unblock (MutexAt m) (hd ws)) (set_depth m 1 (set_holder m (hd ws) (remove_waiting (MutexAt m) s)))
        else at_pc t (ReleaseDone m) (set_holder m 0 s)))"
| "MutexRelease c t (ReleaseDone m) s =
     unlocking c t (ObjectLock s (MutexAt m)) s (at_pc t Outside (set_object_lock (MutexAt m) 0 s))"
| "MutexRelease c t p s = None"

fun ExEventWaitForSignal :: "u64 \<Rightarrow> u64 \<Rightarrow> pc \<Rightarrow> machine \<Rightarrow> machine option" where
  "ExEventWaitForSignal c t (WaitTest e) s =
     Some (if Signaled s e
       then at_pc t Outside (s\<lparr>Signaled := (Signaled s)(e := (EventType s e = ExEventTypeNotification))\<rparr>)
       else at_pc t (WaitLock e) s)"
| "ExEventWaitForSignal c t (WaitLock e) s =
     locking c t (ObjectLock s (EventAt e)) s (at_pc t (WaitInsert e) (set_object_lock (EventAt e) c s))"
| "ExEventWaitForSignal c t (WaitInsert e) s = Some (queue_thread t (EventAt e) s)"
| "ExEventWaitForSignal c t p s = None"

fun ExEventSignal :: "u64 \<Rightarrow> u64 \<Rightarrow> pc \<Rightarrow> machine \<Rightarrow> machine option" where
  "ExEventSignal c t (SignalLock e) s =
     locking c t (ObjectLock s (EventAt e)) s (at_pc t (SignalSet e) (set_object_lock (EventAt e) c s))"
| "ExEventSignal c t (SignalSet e) s = Some (at_pc t (SignalNext e) (s\<lparr>Signaled := (Signaled s)(e := True)\<rparr>))"
| "ExEventSignal c t (SignalNext e) s =
     (let ws = WaitingList s (EventAt e) in
      Some (if ws \<noteq> [] then at_pc t (Unblock (EventAt e) (hd ws)) (remove_waiting (EventAt e) s)
        else at_pc t (SignalDone e) s))"
| "ExEventSignal c t (SignalDone e) s =
     unlocking c t (ObjectLock s (EventAt e)) s (at_pc t Outside (set_object_lock (EventAt e) 0 s))"
| "ExEventSignal c t p s = None"

section \<open>Calls\<close>

text \<open>What a thread can do that is not inside one of the functions: call one of them, or be made to yield by the
  timer interrupt. The threads that the processors idle in only wait for work.\<close>

datatype call = CallAcquire u64 | CallRelease u64 | CallWait u64 | CallSignal u64 | CallClear u64 | CallYield | CallIdle

definition enter_acquire :: "u64 \<Rightarrow> u64 \<Rightarrow> machine \<Rightarrow> machine" where
  "enter_acquire t m s =
     (if t = MutexHolder s m
      then if CurrentRecursivityDepth s m < MaxRecursivityDepth s m
        then set_inside t m (Inside s t m + 1) (set_depth m (CurrentRecursivityDepth s m + 1) s)
        else at_pc t Halted s
      else at_pc t (AcquireLock m) s)"

definition enter_release :: "u64 \<Rightarrow> u64 \<Rightarrow> machine \<Rightarrow> machine" where
  "enter_release t m s =
     (if t = MutexHolder s m
      then let s1 = set_inside t m (Inside s t m - 1) s in
        if 1 < CurrentRecursivityDepth s m then set_depth m (CurrentRecursivityDepth s m - 1) s1
        else at_pc t (ReleaseLock m) s1
      else at_pc t Halted s)"

fun calls :: "u64 \<Rightarrow> call \<Rightarrow> machine \<Rightarrow> machine" where
  "calls t (CallAcquire m) s = enter_acquire t m s"
| "calls t (CallRelease m) s = enter_release t m s"
| "calls t (CallWait e) s = at_pc t (WaitTest e) s"
| "calls t (CallSignal e) s = at_pc t (SignalLock e) s"
| "calls t (CallClear e) s = s\<lparr>Signaled := (Signaled s)(e := False)\<rparr>"
| "calls t CallYield s = at_pc t YieldLock s"
| "calls t CallIdle s = at_pc t IdleTake s"

text \<open>The discipline of the callers, as the annotations of \<open>mutex.h\<close> state it: release what you hold, and do not
  acquire deeper than the mutex allows.\<close>

definition may_call :: "machine \<Rightarrow> u64 \<Rightarrow> u64 \<Rightarrow> call \<Rightarrow> bool" where
  "may_call s c t k = (case k of
     CallAcquire m \<Rightarrow> t \<noteq> IdleThread s c \<and> Inside s t m < unat (MaxRecursivityDepth s m)
   | CallRelease m \<Rightarrow> t \<noteq> IdleThread s c \<and> 0 < Inside s t m
   | CallIdle \<Rightarrow> t = IdleThread s c
   | CallYield \<Rightarrow> True
   | _ \<Rightarrow> t \<noteq> IdleThread s c)"

inductive ex_step :: "u64 set \<Rightarrow> machine \<Rightarrow> machine \<Rightarrow> bool" for cpus where
  call: "c \<in> cpus \<Longrightarrow> Pc s (CurrentThread s c) = Outside \<Longrightarrow> may_call s c (CurrentThread s c) k \<Longrightarrow>
    ex_step cpus s (calls (CurrentThread s c) k s)"
| acquire: "c \<in> cpus \<Longrightarrow> MutexAcquire c (CurrentThread s c) (Pc s (CurrentThread s c)) s = Some s' \<Longrightarrow> ex_step cpus s s'"
| release: "c \<in> cpus \<Longrightarrow> MutexRelease c (CurrentThread s c) (Pc s (CurrentThread s c)) s = Some s' \<Longrightarrow> ex_step cpus s s'"
| wait: "c \<in> cpus \<Longrightarrow> ExEventWaitForSignal c (CurrentThread s c) (Pc s (CurrentThread s c)) s = Some s' \<Longrightarrow> ex_step cpus s s'"
| signal: "c \<in> cpus \<Longrightarrow> ExEventSignal c (CurrentThread s c) (Pc s (CurrentThread s c)) s = Some s' \<Longrightarrow> ex_step cpus s s'"
| queue: "c \<in> cpus \<Longrightarrow> ThreadTakeBlockLock c (CurrentThread s c) (Pc s (CurrentThread s c)) s = Some s' \<Longrightarrow> ex_step cpus s s'"
| block: "c \<in> cpus \<Longrightarrow> ThreadBlock c (CurrentThread s c) (Pc s (CurrentThread s c)) s = Some s' \<Longrightarrow> ex_step cpus s s'"
| yield: "c \<in> cpus \<Longrightarrow> ThreadYield c (CurrentThread s c) (Pc s (CurrentThread s c)) s = Some s' \<Longrightarrow> ex_step cpus s s'"
| unblock: "c \<in> cpus \<Longrightarrow> ThreadUnblock c (CurrentThread s c) (Pc s (CurrentThread s c)) s = Some s' \<Longrightarrow> ex_step cpus s s'"
| cleanup: "c \<in> cpus \<Longrightarrow> ThreadCleanupPostSchedule c (CurrentThread s c) (Pc s (CurrentThread s c)) s = Some s' \<Longrightarrow> ex_step cpus s s'"

text \<open>At the start every processor runs its idle thread, and the other threads are ready: they go on behind
  the switch, in \<open>ThreadStart\<close>.\<close>

definition ex_start :: "u64 set \<Rightarrow> machine \<Rightarrow> bool" where
  "ex_start cpus s \<longleftrightarrow> 0 \<notin> cpus \<and> inj_on (IdleThread s) cpus \<and>
     (\<forall>c \<in> cpus. CurrentThread s c = IdleThread s c \<and> IdleThread s c \<noteq> 0 \<and> IdleThread s c \<notin> set (ReadyThreadsList s) \<and>
        Pc s (IdleThread s c) = Outside) \<and>
     distinct (ReadyThreadsList s) \<and> (\<forall>t \<in> set (ReadyThreadsList s). t \<noteq> 0 \<and> Pc s t = Cleanup ResumeRun) \<and>
     (\<forall>t. t \<notin> IdleThread s ` cpus \<union> set (ReadyThreadsList s) \<longrightarrow> Pc s t = Outside) \<and>
     ReadyThreadsLock s = 0 \<and> (\<forall>t. BlockLock s t = 0) \<and> (\<forall>t. Linked s t = (t \<in> set (ReadyThreadsList s))) \<and>
     (\<forall>ob. ObjectLock s ob = 0 \<and> WaitingList s ob = []) \<and>
     (\<forall>m. MutexHolder s m = 0 \<and> 1 \<le> MaxRecursivityDepth s m \<and> (\<forall>t. Inside s t m = 0))"

inductive ex_reach :: "u64 set \<Rightarrow> machine \<Rightarrow> machine \<Rightarrow> bool" for cpus s0 where
  start: "ex_start cpus s0 \<Longrightarrow> ex_reach cpus s0 s0"
| step: "ex_reach cpus s0 s \<Longrightarrow> ex_step cpus s s' \<Longrightarrow> ex_reach cpus s0 s'"

end
