(* ===== verification/SchedulerInv.thy ===== *)
theory SchedulerInv
  imports Scheduler
begin

text \<open>
  The invariants of the scheduler of theory \<open>Scheduler\<close> and the steps that keep them: which locks a processor holds at a
  program point, that no thread is in two lists or runs on two processors, whose \<open>BlockLock\<close> a processor holds across
  a switch, and that a waiting thread is in a list, ready or about to be made ready. Steps that stay on their thread are
  handled by \<open>local_step\<close>, the switch by \<open>switched\<close>.
\<close>

section \<open>What a program point says\<close>

fun obj_held :: "pc \<Rightarrow> wait_object option" where
  "obj_held (AcquireFree m) = Some (MutexAt m)"
| "obj_held (AcquireLoop m) = Some (MutexAt m)"
| "obj_held (AcquireDone m) = Some (MutexAt m)"
| "obj_held (QueueBlock ob) = Some ob"
| "obj_held (QueueUnlock ob) = Some ob"
| "obj_held (ReleaseWake m) = Some (MutexAt m)"
| "obj_held (ReleaseDone m) = Some (MutexAt m)"
| "obj_held (Unblock ob u) = Some ob"
| "obj_held (UnblockReady ob u) = Some ob"
| "obj_held (UnblockInsert ob u) = Some ob"
| "obj_held (UnblockLeave ob u) = Some ob"
| "obj_held (UnblockDone ob u) = Some ob"
| "obj_held (WaitInsert e) = Some (EventAt e)"
| "obj_held (SignalSet e) = Some (EventAt e)"
| "obj_held (SignalNext e) = Some (EventAt e)"
| "obj_held (SignalDone e) = Some (EventAt e)"
| "obj_held p = None"

fun ready_held :: "pc \<Rightarrow> bool" where
  "ready_held (Schedule r) = True"
| "ready_held (Cleanup r) = True"
| "ready_held YieldInsert = True"
| "ready_held (UnblockInsert ob u) = True"
| "ready_held (UnblockLeave ob u) = True"
| "ready_held p = False"

text \<open>The thread holds its own \<open>BlockLock\<close>; the processor may hold the one of the thread it left; it holds the one of
  the thread it unblocks.\<close>

fun blocker :: "pc \<Rightarrow> bool" where
  "blocker (QueueUnlock ob) = True"
| "blocker (Block r) = True"
| "blocker (BlockLocking r) = True"
| "blocker (Schedule r) = True"
| "blocker p = False"

fun cleaning :: "pc \<Rightarrow> bool" where
  "cleaning (Cleanup r) = True"
| "cleaning (CleanupBlock r) = True"
| "cleaning p = False"

fun unblocks :: "pc \<Rightarrow> u64 option" where
  "unblocks (UnblockReady ob u) = Some u"
| "unblocks (UnblockInsert ob u) = Some u"
| "unblocks (UnblockLeave ob u) = Some u"
| "unblocks (UnblockDone ob u) = Some u"
| "unblocks p = None"

text \<open>A thread taken out of a list of waiting threads and not yet put into the ready list.\<close>

fun target :: "pc \<Rightarrow> (wait_object \<times> u64) option" where
  "target (Unblock ob u) = Some (ob, u)"
| "target (UnblockReady ob u) = Some (ob, u)"
| "target (UnblockInsert ob u) = Some (ob, u)"
| "target p = None"

fun object_of :: "resume \<Rightarrow> wait_object option" where
  "object_of (ResumeMutex m) = Some (MutexAt m)"
| "object_of (ResumeEvent e) = Some (EventAt e)"
| "object_of r = None"

fun waits_for :: "pc \<Rightarrow> wait_object option" where
  "waits_for (QueueBlock ob) = Some ob"
| "waits_for (QueueUnlock ob) = Some ob"
| "waits_for (Block r) = object_of r"
| "waits_for (BlockLocking r) = object_of r"
| "waits_for (Schedule r) = object_of r"
| "waits_for (Cleanup r) = object_of r"
| "waits_for p = None"

fun out :: "pc \<Rightarrow> bool" where
  "out (Cleanup r) = True"
| "out p = False"

fun idle_pc :: "pc \<Rightarrow> bool" where
  "idle_pc Outside = True"
| "idle_pc IdleTake = True"
| "idle_pc YieldLock = True"
| "idle_pc YieldInsert = True"
| "idle_pc (Block r) = (r = ResumeIdle)"
| "idle_pc (BlockLocking r) = (r = ResumeIdle)"
| "idle_pc (Schedule r) = (r = ResumeIdle)"
| "idle_pc (Cleanup r) = (object_of r = None)"
| "idle_pc (CleanupBlock r) = (object_of r = None)"
| "idle_pc p = False"

lemma object_of_resume_of [simp]: "object_of (resume_of ob) = Some ob"
  by (simp add: resume_of_def split: wait_object.split)

section \<open>Invariants\<close>

abbreviation cur_pc :: "machine \<Rightarrow> u64 \<Rightarrow> pc" where
  "cur_pc s c \<equiv> Pc s (CurrentThread s c)"

definition runs :: "u64 set \<Rightarrow> machine \<Rightarrow> u64 \<Rightarrow> bool" where
  "runs cpus s t \<longleftrightarrow> (\<exists>c \<in> cpus. CurrentThread s c = t)"

definition idle :: "u64 set \<Rightarrow> machine \<Rightarrow> u64 \<Rightarrow> bool" where
  "idle cpus s t \<longleftrightarrow> (\<exists>c \<in> cpus. IdleThread s c = t)"

definition parked :: "u64 set \<Rightarrow> machine \<Rightarrow> u64 \<Rightarrow> wait_object \<Rightarrow> bool" where
  "parked cpus s t ob \<longleftrightarrow> waits_for (Pc s t) = Some ob \<and> runs cpus s t = (\<not> out (Pc s t)) \<and> t \<noteq> 0"

definition inv_cpus :: "u64 set \<Rightarrow> machine \<Rightarrow> bool" where
  "inv_cpus cpus s \<longleftrightarrow> 0 \<notin> cpus \<and> inj_on (IdleThread s) cpus \<and> inj_on (CurrentThread s) cpus \<and>
     (\<forall>c \<in> cpus. IdleThread s c \<noteq> 0 \<and> idle_pc (Pc s (IdleThread s c)) \<and>
        (IdleThread s c \<noteq> CurrentThread s c \<longrightarrow> out (Pc s (IdleThread s c)) \<and> \<not> runs cpus s (IdleThread s c)) \<and>
        CurrentThread s c \<noteq> 0 \<and> cur_pc s c \<noteq> Halted \<and> (cleaning (cur_pc s c) \<longrightarrow> PreviousThread s c \<noteq> 0))"

definition inv_locks :: "u64 set \<Rightarrow> machine \<Rightarrow> bool" where
  "inv_locks cpus s \<longleftrightarrow> (\<forall>c \<in> cpus. (\<forall>ob. (obj_held (cur_pc s c) = Some ob) = (ObjectLock s ob = c)) \<and>
       ready_held (cur_pc s c) = (ReadyThreadsLock s = c)) \<and>
     (\<forall>ob. ObjectLock s ob \<in> insert 0 cpus) \<and> ReadyThreadsLock s \<in> insert 0 cpus"

definition inv_block :: "u64 set \<Rightarrow> machine \<Rightarrow> bool" where
  "inv_block cpus s \<longleftrightarrow> (\<forall>t. BlockLock s t \<in> insert 0 cpus) \<and>
     (\<forall>c \<in> cpus. (blocker (cur_pc s c) \<longrightarrow> BlockLock s (CurrentThread s c) = c) \<and>
        (\<forall>u. unblocks (cur_pc s c) = Some u \<longrightarrow> BlockLock s u = c) \<and>
        (\<forall>t. BlockLock s t = c \<longrightarrow> blocker (cur_pc s c) \<and> t = CurrentThread s c \<or>
           cleaning (cur_pc s c) \<and> t = PreviousThread s c \<or> unblocks (cur_pc s c) = Some t))"

definition inv_queue :: "u64 set \<Rightarrow> machine \<Rightarrow> bool" where
  "inv_queue cpus s \<longleftrightarrow>
     distinct (ReadyThreadsList s) \<and>
     (\<forall>t \<in> set (ReadyThreadsList s). t \<noteq> 0 \<and> \<not> runs cpus s t \<and> \<not> idle cpus s t \<and> out (Pc s t)) \<and>
     (\<forall>ob. distinct (WaitingList s ob)) \<and>
     (\<forall>ob. \<forall>t \<in> set (WaitingList s ob). t \<notin> set (ReadyThreadsList s) \<and> parked cpus s t ob) \<and>
     (\<forall>t. Linked s t = (t \<in> set (ReadyThreadsList s) \<or> (\<exists>ob. t \<in> set (WaitingList s ob)))) \<and>
     (\<forall>c \<in> cpus. \<forall>ob u. target (cur_pc s c) = Some (ob, u) \<longrightarrow>
        \<not> Linked s u \<and> parked cpus s u ob \<and> (unblocks (cur_pc s c) = Some u \<longrightarrow> out (Pc s u)))"

text \<open>No thread gets lost: one that waits is in the list of its object, ready, or being unblocked.\<close>

definition inv_wait :: "u64 set \<Rightarrow> machine \<Rightarrow> bool" where
  "inv_wait cpus s \<longleftrightarrow> (\<forall>t ob. parked cpus s t ob \<longrightarrow>
     t \<in> set (ReadyThreadsList s) \<or> t \<in> set (WaitingList s ob) \<or> (\<exists>c \<in> cpus. target (cur_pc s c) = Some (ob, t)))"

fun idles :: "pc \<Rightarrow> bool" where
  "idles IdleTake = True"
| "idles (Block r) = (object_of r = None)"
| "idles (BlockLocking r) = (object_of r = None)"
| "idles (Schedule r) = (object_of r = None)"
| "idles p = False"

definition inv_threads :: "u64 set \<Rightarrow> u64 set \<Rightarrow> machine \<Rightarrow> bool" where
  "inv_threads cpus ts s \<longleftrightarrow> (\<forall>t \<in> ts. t \<noteq> 0 \<and> (runs cpus s t \<or> idle cpus s t \<or>
     out (Pc s t) \<and> (waits_for (Pc s t) = None \<longrightarrow> t \<in> set (ReadyThreadsList s)))) \<and>
     (\<forall>c \<in> cpus. idles (cur_pc s c) \<longrightarrow> CurrentThread s c = IdleThread s c)"

definition ex_inv :: "u64 set \<Rightarrow> machine \<Rightarrow> bool" where
  "ex_inv cpus s \<longleftrightarrow> inv_cpus cpus s \<and> inv_locks cpus s \<and> inv_block cpus s \<and> inv_queue cpus s \<and> inv_wait cpus s"

lemmas set_defs = at_pc_def set_object_lock_def set_block_lock_def set_state_def set_holder_def set_depth_def set_inside_def
  link_def insert_waiting_def remove_waiting_def insert_ready_def remove_ready_def queue_thread_def

section \<open>Steps that stay on their thread\<close>

text \<open>A step of the processor \<open>c\<close> that leaves its thread at \<open>p\<close> and does not switch.\<close>

definition local_step :: "u64 set \<Rightarrow> u64 \<Rightarrow> pc \<Rightarrow> machine \<Rightarrow> machine \<Rightarrow> bool" where
  "local_step cpus c p s s' \<longleftrightarrow> c \<in> cpus \<and> CurrentThread s' = CurrentThread s \<and> IdleThread s' = IdleThread s \<and>
     Pc s' = (Pc s)(CurrentThread s c := p) \<and> (BlockLock s' = BlockLock s \<longrightarrow> PreviousThread s' = PreviousThread s) \<and>
     PreviousThread s' = PreviousThread s"

lemma local_pc:
  assumes "inv_cpus cpus s" "local_step cpus c p s s'" "d \<in> cpus"
  shows "Pc s' (CurrentThread s d) = (if d = c then p else cur_pc s d)" "cur_pc s' d = (if d = c then p else cur_pc s d)"
  using assms by (auto simp: inv_cpus_def local_step_def dest: inj_onD)

lemma local_runs: "local_step cpus c p s s' \<Longrightarrow> runs cpus s' t = runs cpus s t"
  by (simp add: runs_def local_step_def)

lemma local_idle: "local_step cpus c p s s' \<Longrightarrow> idle cpus s' t = idle cpus s t"
  by (simp add: idle_def local_step_def)

lemma local_cpus:
  assumes inv: "inv_cpus cpus s" and st: "local_step cpus c p s s'"
    and p: "p \<noteq> Halted" "CurrentThread s c = IdleThread s c \<and> idle_pc (cur_pc s c) \<longrightarrow> idle_pc p" "cleaning p \<Longrightarrow> cleaning (cur_pc s c)"
  shows "inv_cpus cpus s'"
proof -
  have f: "CurrentThread s' = CurrentThread s" "IdleThread s' = IdleThread s" "Pc s' = (Pc s)(CurrentThread s c := p)" "c \<in> cpus"
    using st by (simp_all add: local_step_def)
  have "runs cpus s (CurrentThread s c)" using f(4) by (auto simp: runs_def)
  moreover have "idle_pc (Pc s' (IdleThread s d))" if "d \<in> cpus" for d
  proof (cases "IdleThread s d = CurrentThread s c")
    case True
    have "d = c"
    proof (rule ccontr)
      assume "d \<noteq> c"
      then have "IdleThread s d \<noteq> CurrentThread s d" using inv that f(4) True by (auto simp: inv_cpus_def dest: inj_onD)
      then have "\<not> runs cpus s (IdleThread s d)" using inv that by (simp add: inv_cpus_def)
      then show False using True f(4) by (auto simp: runs_def)
    qed
    moreover have "idle_pc (Pc s (IdleThread s d))" using inv that by (simp add: inv_cpus_def)
    ultimately show ?thesis using p(2) True unfolding f(3) by simp
  next
    case False
    then show ?thesis using inv that unfolding f(3) by (simp add: inv_cpus_def)
  qed
  moreover have "cur_pc s' d \<noteq> Halted" "cleaning (cur_pc s' d) \<Longrightarrow> PreviousThread s d \<noteq> 0" if "d \<in> cpus" for d
    using local_pc(2) [OF inv st that] inv p(1,3) that by (auto simp: inv_cpus_def split: if_splits)
  moreover have "out (Pc s' (IdleThread s d)) \<and> \<not> runs cpus s (IdleThread s d)" if d: "d \<in> cpus" "IdleThread s d \<noteq> CurrentThread s d" for d
  proof -
    have "out (Pc s (IdleThread s d)) \<and> \<not> runs cpus s (IdleThread s d)" using inv d by (simp add: inv_cpus_def)
    moreover have "runs cpus s (CurrentThread s c)" using f(4) by (auto simp: runs_def)
    ultimately show ?thesis unfolding f(3) by auto
  qed
  ultimately show ?thesis
    using inv st unfolding inv_cpus_def f(1,2) local_runs [OF st] by (simp add: f(1) local_step_def)
qed

lemma lock_after:
  assumes "hc = (l = c)" "h = (l = d)" "hp \<Longrightarrow> \<not> hc \<Longrightarrow> l = (0 :: u64)" "c \<noteq> 0" "d \<noteq> 0"
  shows "d \<noteq> c \<Longrightarrow> h = ((if hp then c else if hc then 0 else l) = d)" "hp = ((if hp then c else if hc then 0 else l) = c)"
  using assms by metis+

text \<open>The program point says which locks of objects are held, and whether the lock of the ready list is.\<close>

lemma local_locks:
  assumes inv: "inv_cpus cpus s" "inv_locks cpus s" and st: "local_step cpus c p s s'"
    and ob: "ObjectLock s' = (\<lambda>ob. if obj_held p = Some ob then c else if obj_held (cur_pc s c) = Some ob then 0 else ObjectLock s ob)"
      "\<And>ob. obj_held p = Some ob \<Longrightarrow> obj_held (cur_pc s c) \<noteq> Some ob \<Longrightarrow> ObjectLock s ob = 0"
    and rd: "ReadyThreadsLock s' = (if ready_held p then c else if ready_held (cur_pc s c) then 0 else ReadyThreadsLock s)"
      "ready_held p \<Longrightarrow> \<not> ready_held (cur_pc s c) \<Longrightarrow> ReadyThreadsLock s = 0"
  shows "inv_locks cpus s'"
proof -
  have c: "c \<in> cpus" "0 \<notin> cpus" using st inv(1) by (simp_all add: local_step_def inv_cpus_def)
  have L: "(obj_held (cur_pc s d) = Some ob) = (ObjectLock s ob = d)" "ready_held (cur_pc s d) = (ReadyThreadsLock s = d)"
    if "d \<in> cpus" for d ob using inv(2) that by (simp_all add: inv_locks_def)
  have "(obj_held (cur_pc s' d) = Some b) = (ObjectLock s' b = d)" if d: "d \<in> cpus" for d b
  proof -
    have "d \<noteq> 0" "c \<noteq> 0" using c d by auto
    then show ?thesis unfolding local_pc(2) [OF inv(1) st d] ob(1)
      using lock_after [OF L(1) [OF c(1), of b] L(1) [OF d, of b] ob(2) [of b]] by (cases "d = c") simp_all
  qed
  moreover have "ready_held (cur_pc s' d) = (ReadyThreadsLock s' = d)" if d: "d \<in> cpus" for d
  proof -
    have "d \<noteq> 0" "c \<noteq> 0" using c d by auto
    then show ?thesis unfolding local_pc(2) [OF inv(1) st d] rd(1)
      using lock_after [OF L(2) [OF c(1)] L(2) [OF d] rd(2)] by (cases "d = c") simp_all
  qed
  moreover have "ObjectLock s' b \<in> insert 0 cpus" "ReadyThreadsLock s' \<in> insert 0 cpus" for b
    using inv(2) c(1) unfolding ob(1) rd(1) by (simp_all add: inv_locks_def)
  ultimately show ?thesis by (simp add: inv_locks_def)
qed

text \<open>The threads whose \<open>BlockLock\<close> a program point holds.\<close>

definition locked_by :: "u64 \<Rightarrow> pc \<Rightarrow> u64 \<Rightarrow> bool" where
  "locked_by t p u \<longleftrightarrow> blocker p \<and> u = t \<or> unblocks p = Some u"

lemma inv_block_alt: "inv_block cpus s \<longleftrightarrow> (\<forall>t. BlockLock s t \<in> insert 0 cpus) \<and>
     (\<forall>c \<in> cpus. \<forall>u. (locked_by (CurrentThread s c) (cur_pc s c) u \<longrightarrow> BlockLock s u = c) \<and>
        (BlockLock s u = c \<longrightarrow> locked_by (CurrentThread s c) (cur_pc s c) u \<or> cleaning (cur_pc s c) \<and> u = PreviousThread s c))"
  unfolding inv_block_def locked_by_def by blast

lemma local_block:
  assumes inv: "inv_cpus cpus s" "inv_block cpus s" and st: "local_step cpus c p s s'"
    and b: "BlockLock s' = (\<lambda>u. if locked_by (CurrentThread s c) p u then c
        else if locked_by (CurrentThread s c) (cur_pc s c) u \<or> \<not> cleaning p \<and> BlockLock s u = c then 0 else BlockLock s u)"
      "\<And>u. locked_by (CurrentThread s c) p u \<Longrightarrow> \<not> locked_by (CurrentThread s c) (cur_pc s c) u \<Longrightarrow> BlockLock s u = 0"
      "cleaning p \<Longrightarrow> cleaning (cur_pc s c)"
  shows "inv_block cpus s'"
  unfolding inv_block_alt
proof (intro conjI ballI allI)
  have c: "c \<in> cpus" "0 \<notin> cpus" using st inv(1) by (simp_all add: local_step_def inv_cpus_def)
  have f: "CurrentThread s' = CurrentThread s" "PreviousThread s' = PreviousThread s" using st by (simp_all add: local_step_def)
  have B: "locked_by (CurrentThread s d) (cur_pc s d) u \<Longrightarrow> BlockLock s u = d"
    "BlockLock s u = d \<Longrightarrow> locked_by (CurrentThread s d) (cur_pc s d) u \<or> cleaning (cur_pc s d) \<and> u = PreviousThread s d"
    if "d \<in> cpus" for d u using inv(2) that unfolding inv_block_alt by blast+
  show "BlockLock s' u \<in> insert 0 cpus" for u using inv(2) c(1) unfolding b(1) by (simp add: inv_block_alt)
  fix d u assume d: "d \<in> cpus"
  then have "d \<noteq> 0" using c(2) by auto
  note pc = local_pc(1) [OF inv(1) st d]
  show "locked_by (CurrentThread s' d) (cur_pc s' d) u \<longrightarrow> BlockLock s' u = d"
    using B(1) [OF d, of u] B(1) [OF c(1), of u] b(2) [of u] \<open>d \<noteq> 0\<close> unfolding f pc b(1) by (cases "d = c") auto
  show "BlockLock s' u = d \<longrightarrow> locked_by (CurrentThread s' d) (cur_pc s' d) u \<or> cleaning (cur_pc s' d) \<and> u = PreviousThread s' d"
    using B(2) [OF d, of u] b(3) \<open>d \<noteq> 0\<close> unfolding f pc b(1) by (cases "d = c") auto
qed

lemma target_waits: "target p = Some x \<Longrightarrow> waits_for p = None" "target p = Some x \<Longrightarrow> \<not> out p"
  by (cases p; simp)+

lemma runs_cur [simp]: "c \<in> cpus \<Longrightarrow> runs cpus s (CurrentThread s c)"
  by (auto simp: runs_def)

lemma inv_queueD:
  assumes "inv_queue cpus s"
  shows "distinct (ReadyThreadsList s)"
    "\<And>t. t \<in> set (ReadyThreadsList s) \<Longrightarrow> t \<noteq> 0 \<and> \<not> runs cpus s t \<and> \<not> idle cpus s t \<and> out (Pc s t)"
    "\<And>ob. distinct (WaitingList s ob)"
    "\<And>ob t. t \<in> set (WaitingList s ob) \<Longrightarrow> t \<notin> set (ReadyThreadsList s) \<and> parked cpus s t ob"
    "\<And>t. Linked s t = (t \<in> set (ReadyThreadsList s) \<or> (\<exists>ob. t \<in> set (WaitingList s ob)))"
    "\<And>c ob u. c \<in> cpus \<Longrightarrow> target (cur_pc s c) = Some (ob, u) \<Longrightarrow>
       \<not> Linked s u \<and> parked cpus s u ob \<and> (unblocks (cur_pc s c) = Some u \<longrightarrow> out (Pc s u))"
  using assms unfolding inv_queue_def by blast+

lemma inv_queueI:
  assumes "distinct (ReadyThreadsList s)"
    "\<And>t. t \<in> set (ReadyThreadsList s) \<Longrightarrow> t \<noteq> 0 \<and> \<not> runs cpus s t \<and> \<not> idle cpus s t \<and> out (Pc s t)"
    "\<And>ob. distinct (WaitingList s ob)"
    "\<And>ob t. t \<in> set (WaitingList s ob) \<Longrightarrow> t \<notin> set (ReadyThreadsList s) \<and> parked cpus s t ob"
    "\<And>t. Linked s t = (t \<in> set (ReadyThreadsList s) \<or> (\<exists>ob. t \<in> set (WaitingList s ob)))"
    "\<And>c ob u. c \<in> cpus \<Longrightarrow> target (cur_pc s c) = Some (ob, u) \<Longrightarrow>
       \<not> Linked s u \<and> parked cpus s u ob \<and> (unblocks (cur_pc s c) = Some u \<longrightarrow> out (Pc s u))"
  shows "inv_queue cpus s"
  unfolding inv_queue_def by (intro conjI allI ballI impI) (use assms in \<open>blast+\<close>)

lemma local_parked:
  assumes st: "local_step cpus c p s s'"
    and p: "\<not> out p" "waits_for p = (if out (cur_pc s c) then None else waits_for (cur_pc s c))"
  shows "parked cpus s' u ob = parked cpus s u ob"
proof (cases "u = CurrentThread s c")
  case True
  have "runs cpus s u" using st True by (simp add: local_step_def)
  then show ?thesis using p st True unfolding parked_def local_runs [OF st] by (auto simp: local_step_def)
next
  case False
  then show ?thesis using st unfolding parked_def local_runs [OF st] by (simp add: local_step_def)
qed

lemma local_queue:
  assumes inv: "inv_cpus cpus s" "inv_queue cpus s" "inv_wait cpus s" and st: "local_step cpus c p s s'"
    and p: "\<not> out p" "waits_for p = (if out (cur_pc s c) then None else waits_for (cur_pc s c))"
      "target p = target (cur_pc s c)"
      "\<And>ob u. target p = Some (ob, u) \<Longrightarrow> unblocks p = Some u \<Longrightarrow> unblocks (cur_pc s c) = Some u \<or> out (Pc s u)"
    and same: "ReadyThreadsList s' = ReadyThreadsList s" "WaitingList s' = WaitingList s" "Linked s' = Linked s"
  shows "inv_queue cpus s'" "inv_wait cpus s'"
proof -
  let ?t = "CurrentThread s c"
  have c: "c \<in> cpus" using st by (simp add: local_step_def)
  have Pc: "Pc s' = (Pc s)(?t := p)" using st by (simp add: local_step_def)
  note par = local_parked [OF st p(1,2)] and pc = local_pc(2) [OF inv(1) st] and runs = local_runs [OF st] and idle = local_idle [OF st]
  have tgt: "target (cur_pc s' d) = target (cur_pc s d)" if "d \<in> cpus" for d using pc [OF that] p(3) by simp
  have no: "\<not> parked cpus s ?t ob" if "out (cur_pc s c) \<or> target (cur_pc s c) \<noteq> None" for ob
    using that c by (auto simp: parked_def target_waits)
  have Q: "\<And>d ob u. d \<in> cpus \<Longrightarrow> target (cur_pc s d) = Some (ob, u) \<Longrightarrow>
      \<not> Linked s u \<and> parked cpus s u ob \<and> (unblocks (cur_pc s d) = Some u \<longrightarrow> out (Pc s u))"
    by (rule inv_queueD(6) [OF inv(2)])
  have "out (Pc s' u)" if h: "d \<in> cpus" "target (cur_pc s d) = Some (ob, u)" "unblocks (cur_pc s' d) = Some u" for d ob u
  proof -
    have "out (Pc s u)"
    proof (cases "d = c")
      case True
      then have "unblocks p = Some u" "target p = Some (ob, u)" using h(3,2) pc [OF c] p(3) by simp_all
      then show ?thesis using p(4) Q [OF h(1,2)] True by blast
    next
      case False
      then show ?thesis using Q [OF h(1,2)] h(3) pc [OF h(1)] by simp
    qed
    moreover have "u \<noteq> ?t"
    proof
      assume u: "u = ?t"
      then have "parked cpus s ?t ob" using Q [OF h(1,2)] by simp
      then show False using no [of ob] \<open>out (Pc s u)\<close> u by simp
    qed
    ultimately show ?thesis unfolding Pc by simp
  qed
  moreover have "out (Pc s' t)" if "t \<in> set (ReadyThreadsList s)" for t
  proof -
    have "out (Pc s t)" "\<not> runs cpus s t" using inv_queueD(2) [OF inv(2) that] by simp_all
    moreover from this(2) have "t \<noteq> ?t" using c by auto
    ultimately show ?thesis unfolding Pc by simp
  qed
  ultimately show "inv_queue cpus s'"
    using inv_queueD(1-5) [OF inv(2)] Q by (intro inv_queueI) (unfold same par runs idle, simp_all add: tgt)
  show "inv_wait cpus s'" using inv(3) tgt unfolding inv_wait_def same par by auto
qed

lemma lock_facts:
  assumes "ex_inv cpus s" "c \<in> cpus"
  shows "c \<noteq> 0" "(ObjectLock s ob = c) = (obj_held (cur_pc s c) = Some ob)" "(ReadyThreadsLock s = c) = ready_held (cur_pc s c)"
    "locked_by (CurrentThread s c) (cur_pc s c) u \<Longrightarrow> BlockLock s u = c"
    "BlockLock s u = c \<Longrightarrow> locked_by (CurrentThread s c) (cur_pc s c) u \<or> cleaning (cur_pc s c) \<and> u = PreviousThread s c"
    "cur_pc s c \<noteq> Halted"
proof -
  have "inv_cpus cpus s" "inv_locks cpus s" "inv_block cpus s" using assms(1) by (simp_all add: ex_inv_def)
  with assms(2) show "c \<noteq> 0" "(ObjectLock s ob = c) = (obj_held (cur_pc s c) = Some ob)" "(ReadyThreadsLock s = c) = ready_held (cur_pc s c)"
    "cur_pc s c \<noteq> Halted" by (auto simp: inv_cpus_def inv_locks_def)
  show "locked_by (CurrentThread s c) (cur_pc s c) u \<Longrightarrow> BlockLock s u = c"
    "BlockLock s u = c \<Longrightarrow> locked_by (CurrentThread s c) (cur_pc s c) u \<or> cleaning (cur_pc s c) \<and> u = PreviousThread s c"
    using \<open>inv_block cpus s\<close> assms(2) unfolding inv_block_alt by blast+
qed

text \<open>What the fields of the locks are after a step to \<open>p\<close>.\<close>

definition objects_after :: "machine \<Rightarrow> u64 \<Rightarrow> pc \<Rightarrow> wait_object \<Rightarrow> u64" where
  "objects_after s c p = (\<lambda>ob. if obj_held p = Some ob then c else if obj_held (cur_pc s c) = Some ob then 0 else ObjectLock s ob)"

definition ready_after :: "machine \<Rightarrow> u64 \<Rightarrow> pc \<Rightarrow> u64" where
  "ready_after s c p = (if ready_held p then c else if ready_held (cur_pc s c) then 0 else ReadyThreadsLock s)"

definition blocks_after :: "machine \<Rightarrow> u64 \<Rightarrow> pc \<Rightarrow> u64 \<Rightarrow> u64" where
  "blocks_after s c p = (\<lambda>u. if locked_by (CurrentThread s c) p u then c
     else if locked_by (CurrentThread s c) (cur_pc s c) u \<or> \<not> cleaning p \<and> BlockLock s u = c then 0 else BlockLock s u)"

definition locks_after :: "machine \<Rightarrow> u64 \<Rightarrow> pc \<Rightarrow> machine \<Rightarrow> bool" where
  "locks_after s c p s' \<longleftrightarrow> ObjectLock s' = objects_after s c p \<and> ReadyThreadsLock s' = ready_after s c p \<and>
     BlockLock s' = blocks_after s c p \<and> p \<noteq> Halted \<and>
     (\<forall>ob. obj_held p = Some ob \<and> obj_held (cur_pc s c) \<noteq> Some ob \<longrightarrow> ObjectLock s ob = 0) \<and>
     (ready_held p \<and> \<not> ready_held (cur_pc s c) \<longrightarrow> ReadyThreadsLock s = 0) \<and>
     (\<forall>u. locked_by (CurrentThread s c) p u \<and> \<not> locked_by (CurrentThread s c) (cur_pc s c) u \<longrightarrow> BlockLock s u = 0) \<and>
     (cleaning p \<longrightarrow> cleaning (cur_pc s c)) \<and> (CurrentThread s c = IdleThread s c \<and> idle_pc (cur_pc s c) \<longrightarrow> idle_pc p)"

lemma local_lock_invs:
  assumes "ex_inv cpus s" "local_step cpus c p s s'" "locks_after s c p s'"
  shows "inv_cpus cpus s'" "inv_locks cpus s'" "inv_block cpus s'"
proof -
  have i: "inv_cpus cpus s" "inv_locks cpus s" "inv_block cpus s" using assms(1) by (simp_all add: ex_inv_def)
  have l: "ObjectLock s' = objects_after s c p" "ReadyThreadsLock s' = ready_after s c p" "BlockLock s' = blocks_after s c p"
    "p \<noteq> Halted" using assms(3) by (simp_all add: locks_after_def)
  have "CurrentThread s c = IdleThread s c \<and> idle_pc (cur_pc s c) \<longrightarrow> idle_pc p" "cleaning p \<longrightarrow> cleaning (cur_pc s c)"
    using assms(3) unfolding locks_after_def by blast+
  then show "inv_cpus cpus s'" using local_cpus [OF i(1) assms(2) l(4)] by blast
  show "inv_locks cpus s'"
    by (rule local_locks [OF i(1,2) assms(2) l(1) [unfolded objects_after_def] _ l(2) [unfolded ready_after_def]])
      (use assms(3) in \<open>simp_all add: locks_after_def\<close>)
  show "inv_block cpus s'"
    by (rule local_block [OF i(1,3) assms(2) l(3) [unfolded blocks_after_def]])
      (use assms(3) in \<open>simp_all add: locks_after_def\<close>)
qed

text \<open>The common case: no thread is queued, woken or switched to.\<close>

definition lists_kept :: "machine \<Rightarrow> u64 \<Rightarrow> pc \<Rightarrow> machine \<Rightarrow> bool" where
  "lists_kept s c p s' \<longleftrightarrow> ReadyThreadsList s' = ReadyThreadsList s \<and> WaitingList s' = WaitingList s \<and> Linked s' = Linked s \<and>
     \<not> out p \<and> waits_for p = (if out (cur_pc s c) then None else waits_for (cur_pc s c)) \<and> target p = target (cur_pc s c) \<and>
     (\<forall>ob u. target p = Some (ob, u) \<and> unblocks p = Some u \<longrightarrow> unblocks (cur_pc s c) = Some u \<or> out (Pc s u))"

lemma local_inv:
  assumes "ex_inv cpus s" "local_step cpus c p s s'" "locks_after s c p s'" "lists_kept s c p s'"
  shows "ex_inv cpus s'"
proof -
  have "inv_queue cpus s'" "inv_wait cpus s'"
    by (rule local_queue [OF _ _ _ assms(2)]; use assms(1,4) in \<open>auto simp: ex_inv_def lists_kept_def\<close>)+
  then show ?thesis using local_lock_invs [OF assms(1-3)] by (simp add: ex_inv_def)
qed

text \<open>A step that takes no lock and gives none back.\<close>

lemma locks_unchanged:
  assumes "ex_inv cpus s" "c \<in> cpus" "cur_pc s c = q"
    and "ObjectLock s' = ObjectLock s" "ReadyThreadsLock s' = ReadyThreadsLock s" "BlockLock s' = BlockLock s"
    and "obj_held p = obj_held q" "ready_held p = ready_held q" "blocker p = blocker q" "unblocks p = unblocks q" "\<not> cleaning q"
      "\<not> cleaning p" "p \<noteq> Halted" "CurrentThread s c = IdleThread s c \<and> idle_pc q \<longrightarrow> idle_pc p"
  shows "locks_after s c p s'"
proof -
  note f = lock_facts [OF assms(1,2), unfolded assms(3)]
  have h: "locked_by (CurrentThread s c) p = locked_by (CurrentThread s c) q" using assms(9,10) by (simp add: locked_by_def fun_eq_iff)
  have "ObjectLock s = objects_after s c p" using f(2) assms(3,7) by (auto simp: objects_after_def fun_eq_iff)
  moreover have "ReadyThreadsLock s = ready_after s c p" using f(3) assms(3,8) by (auto simp: ready_after_def)
  moreover have "BlockLock s = blocks_after s c p" using f(4,5) assms(3,11) by (auto simp: blocks_after_def fun_eq_iff h)
  ultimately show ?thesis using assms h by (simp add: locks_after_def)
qed

lemma locks_object:
  assumes "ex_inv cpus s" "c \<in> cpus" "cur_pc s c = q"
    and "obj_held q = None \<and> obj_held p = Some ob \<and> ObjectLock s ob = 0 \<and> ObjectLock s' = (ObjectLock s)(ob := c) \<or>
         obj_held q = Some ob \<and> obj_held p = None \<and> ObjectLock s' = (ObjectLock s)(ob := 0)"
    and "ReadyThreadsLock s' = ReadyThreadsLock s" "BlockLock s' = BlockLock s"
    and "ready_held p = ready_held q" "blocker p = blocker q" "unblocks p = unblocks q" "\<not> cleaning q"
      "\<not> cleaning p" "p \<noteq> Halted" "CurrentThread s c = IdleThread s c \<and> idle_pc q \<longrightarrow> idle_pc p"
  shows "locks_after s c p s'"
proof -
  note f = lock_facts [OF assms(1,2), unfolded assms(3)]
  have h: "locked_by (CurrentThread s c) p = locked_by (CurrentThread s c) q" using assms(8,9) by (simp add: locked_by_def fun_eq_iff)
  have "ObjectLock s' = objects_after s c p" using f(2) assms(3,4) by (auto simp: objects_after_def fun_eq_iff)
  moreover have "ReadyThreadsLock s = ready_after s c p" using f(3) assms(3,7) by (auto simp: ready_after_def)
  moreover have "BlockLock s = blocks_after s c p" using f(4,5) assms(3,10) by (auto simp: blocks_after_def fun_eq_iff h)
  ultimately show ?thesis using assms h by (auto simp: locks_after_def)
qed

lemma locks_ready:
  assumes "ex_inv cpus s" "c \<in> cpus" "cur_pc s c = q"
    and "\<not> ready_held q \<and> ready_held p \<and> ReadyThreadsLock s = 0 \<and> ReadyThreadsLock s' = c \<or>
         ready_held q \<and> \<not> ready_held p \<and> ReadyThreadsLock s' = 0"
    and "ObjectLock s' = ObjectLock s" "BlockLock s' = BlockLock s"
    and "obj_held p = obj_held q" "blocker p = blocker q" "unblocks p = unblocks q" "cleaning p = cleaning q"
      "p \<noteq> Halted" "CurrentThread s c = IdleThread s c \<and> idle_pc q \<longrightarrow> idle_pc p"
  shows "locks_after s c p s'"
proof -
  note f = lock_facts [OF assms(1,2), unfolded assms(3)]
  have h: "locked_by (CurrentThread s c) p = locked_by (CurrentThread s c) q" using assms(8,9) by (simp add: locked_by_def fun_eq_iff)
  have "ObjectLock s = objects_after s c p" using f(2) assms(3,7) by (auto simp: objects_after_def fun_eq_iff)
  moreover have "ReadyThreadsLock s' = ready_after s c p" using f(3) assms(3,4) by (auto simp: ready_after_def)
  moreover have "BlockLock s = blocks_after s c p" using f(4,5) assms(3,10) by (auto simp: blocks_after_def fun_eq_iff h)
  ultimately show ?thesis using assms h by (auto simp: locks_after_def)
qed

lemma locks_block:
  assumes "ex_inv cpus s" "c \<in> cpus" "cur_pc s c = q"
    and "(\<forall>x. \<not> locked_by (CurrentThread s c) q x) \<and> (\<forall>x. locked_by (CurrentThread s c) p x = (x = u)) \<and> BlockLock s u = 0 \<and>
           BlockLock s' = (BlockLock s)(u := c) \<or>
         (\<forall>x. \<not> locked_by (CurrentThread s c) p x) \<and> (\<forall>x. locked_by (CurrentThread s c) q x = (x = u)) \<and>
           BlockLock s' = (BlockLock s)(u := 0)"
    and "ObjectLock s' = ObjectLock s" "ReadyThreadsLock s' = ReadyThreadsLock s"
    and "obj_held p = obj_held q" "ready_held p = ready_held q" "\<not> cleaning q" "\<not> cleaning p" "p \<noteq> Halted" "CurrentThread s c = IdleThread s c \<and> idle_pc q \<longrightarrow> idle_pc p"
  shows "locks_after s c p s'"
proof -
  note f = lock_facts [OF assms(1,2), unfolded assms(3)]
  have "ObjectLock s = objects_after s c p" using f(2) assms(3,7) by (auto simp: objects_after_def fun_eq_iff)
  moreover have "ReadyThreadsLock s = ready_after s c p" using f(3) assms(3,8) by (auto simp: ready_after_def)
  moreover have "BlockLock s' = blocks_after s c p"
  proof
    fix x show "BlockLock s' x = blocks_after s c p x"
      using f(4) [of x] f(5) [of x] assms(3,4,9,10) unfolding blocks_after_def by (cases "x = u") auto
  qed
  ultimately show ?thesis using assms by (auto simp: locks_after_def)
qed

text \<open>What an acquisition or a release of a lock amounts to.\<close>

lemma locking_Some: "locking c t l s s' = Some x \<Longrightarrow> l \<noteq> c \<Longrightarrow> l = 0 \<and> x = s'"
  by (simp add: locking_def split: if_splits)

lemma unlocking_Some: "unlocking c t l s s' = Some x \<Longrightarrow> l = c \<Longrightarrow> x = s'"
  by (simp add: unlocking_def)

lemma local_stepI:
  "c \<in> cpus \<Longrightarrow> CurrentThread s' = CurrentThread s \<Longrightarrow> IdleThread s' = IdleThread s \<Longrightarrow> PreviousThread s' = PreviousThread s \<Longrightarrow>
   Pc s' = (Pc s)(CurrentThread s c := p) \<Longrightarrow> local_step cpus c p s s'"
  by (simp add: local_step_def)

lemma take_object_step:
  assumes "ex_inv cpus s" "c \<in> cpus" "cur_pc s c = q" "obj_held q = None" "obj_held p = Some ob"
    "locking c (CurrentThread s c) (ObjectLock s ob) s (at_pc (CurrentThread s c) p (set_object_lock ob c s)) = Some s'"
    "ready_held p = ready_held q" "blocker p = blocker q" "unblocks p = unblocks q" "\<not> cleaning q" "\<not> cleaning p" "p \<noteq> Halted"
    "CurrentThread s c = IdleThread s c \<and> idle_pc q \<longrightarrow> idle_pc p" "\<not> out p" "waits_for p = waits_for q" "target p = target q" "target q = None" "\<not> out q"
  shows "ex_inv cpus s'"
proof -
  have "ObjectLock s ob \<noteq> c" using lock_facts(2) [OF assms(1,2), of ob] assms(3,4) by simp
  from locking_Some [OF assms(6) this] have s': "ObjectLock s ob = 0" "s' = at_pc (CurrentThread s c) p (set_object_lock ob c s)" by simp_all
  have k: "lists_kept s c p s'"
    unfolding lists_kept_def assms(3) using s'(2) assms(14-18) by (simp add: set_defs)
  show ?thesis
    by (rule local_inv [OF assms(1) local_stepI [OF assms(2)] locks_object [OF assms(1-3), where ob = ob] k])
      (use s' assms(4,5,7-13) in \<open>simp_all add: set_defs\<close>)
qed

lemma drop_object_step:
  assumes "ex_inv cpus s" "c \<in> cpus" "cur_pc s c = q" "obj_held q = Some ob" "obj_held p = None"
    "unlocking c (CurrentThread s c) (ObjectLock s ob) s (at_pc (CurrentThread s c) p s1) = Some s'"
    "ObjectLock s1 = (ObjectLock s)(ob := 0)" "CurrentThread s1 = CurrentThread s" "IdleThread s1 = IdleThread s"
    "PreviousThread s1 = PreviousThread s" "Pc s1 = Pc s" "ReadyThreadsLock s1 = ReadyThreadsLock s" "BlockLock s1 = BlockLock s"
    "ReadyThreadsList s1 = ReadyThreadsList s" "WaitingList s1 = WaitingList s" "Linked s1 = Linked s"
    "ready_held p = ready_held q" "blocker p = blocker q" "unblocks p = unblocks q" "\<not> cleaning q" "\<not> cleaning p" "p \<noteq> Halted"
    "CurrentThread s c = IdleThread s c \<and> idle_pc q \<longrightarrow> idle_pc p" "\<not> out p" "waits_for p = waits_for q" "target p = target q" "target q = None" "\<not> out q"
  shows "ex_inv cpus s'"
proof -
  have "ObjectLock s ob = c" using lock_facts(2) [OF assms(1,2), of ob] assms(3,4) by simp
  from unlocking_Some [OF assms(6) this] have s': "s' = at_pc (CurrentThread s c) p s1" .
  have k: "lists_kept s c p s'"
    unfolding lists_kept_def assms(3) using s' assms(14-16,24-28) by (simp add: set_defs)
  show ?thesis
    by (rule local_inv [OF assms(1) local_stepI [OF assms(2)] locks_object [OF assms(1-3), where ob = ob] k])
      (use s' assms(4,5,7-13,17-23) in \<open>simp_all add: set_defs\<close>)
qed

text \<open>A step that touches nothing of the scheduler but the program point.\<close>

lemma plain_step:
  assumes "ex_inv cpus s" "c \<in> cpus" "cur_pc s c = q" "local_step cpus c p s s'"
    "ObjectLock s' = ObjectLock s" "ReadyThreadsLock s' = ReadyThreadsLock s" "BlockLock s' = BlockLock s"
    "ReadyThreadsList s' = ReadyThreadsList s" "WaitingList s' = WaitingList s" "Linked s' = Linked s"
    "obj_held p = obj_held q" "ready_held p = ready_held q" "blocker p = blocker q" "unblocks p = unblocks q" "\<not> cleaning q"
    "\<not> cleaning p" "p \<noteq> Halted" "CurrentThread s c = IdleThread s c \<and> idle_pc q \<longrightarrow> idle_pc p" "\<not> out p" "waits_for p = waits_for q" "target p = target q" "\<not> out q"
  shows "ex_inv cpus s'"
  by (rule local_inv [OF assms(1,4) locks_unchanged [OF assms(1-3)]]) (use assms in \<open>simp_all add: lists_kept_def\<close>)

lemma target_held: "target p = Some (ob, u) \<Longrightarrow> obj_held p = Some ob"
  by (cases p) simp_all

lemma idle_waits: "idle_pc p \<Longrightarrow> waits_for p = None"
  by (cases p) simp_all

lemma waits_held: "waits_for p = Some ob \<Longrightarrow> \<not> out p \<Longrightarrow> obj_held p = Some ob \<or> blocker p"
  by (cases p) simp_all

lemma ex_invD:
  assumes "ex_inv cpus s"
  shows "inv_cpus cpus s" "inv_locks cpus s" "inv_block cpus s" "inv_queue cpus s" "inv_wait cpus s"
  using assms by (simp_all add: ex_inv_def)

lemma parked_not_idle:
  assumes "ex_inv cpus s" "parked cpus s u ob"
  shows "\<not> idle cpus s u"
  using assms idle_waits by (fastforce simp: idle_def parked_def ex_inv_def inv_cpus_def)

lemma parked_object: "parked cpus s u ob \<Longrightarrow> parked cpus s u ob' \<Longrightarrow> ob = ob'"
  by (simp add: parked_def)

text \<open>Two processors never unblock the same thread.\<close>

lemma target_unique:
  assumes inv: "ex_inv cpus s" and c: "c \<in> cpus" "d \<in> cpus"
    and t: "target (cur_pc s c) = Some (ob, u)" "target (cur_pc s d) = Some (ob', u)"
  shows "c = d"
proof -
  have "parked cpus s u ob" "parked cpus s u ob'"
    using inv_queueD(6) [OF ex_invD(4) [OF inv] c(1) t(1)] inv_queueD(6) [OF ex_invD(4) [OF inv] c(2) t(2)] by simp_all
  then have "ob' = ob" by (simp add: parked_def)
  then show ?thesis
    using lock_facts(2) [OF inv c(1), of ob] lock_facts(2) [OF inv c(2), of ob] target_held [OF t(1)] target_held [OF t(2)] by simp
qed

lemma parked_other:
  "local_step cpus c p s s' \<Longrightarrow> u \<noteq> CurrentThread s c \<Longrightarrow> parked cpus s' u ob = parked cpus s u ob"
  unfolding parked_def by (simp add: local_runs) (simp add: local_step_def)

lemma not_linked:
  assumes "ex_inv cpus s" "c \<in> cpus" "waits_for (cur_pc s c) = None"
  shows "\<not> Linked s (CurrentThread s c)"
proof -
  have "CurrentThread s c \<notin> set (ReadyThreadsList s)" using inv_queueD(2) [OF ex_invD(4) [OF assms(1)]] assms(2) runs_cur by blast
  moreover have "CurrentThread s c \<notin> set (WaitingList s ob)" for ob
    using inv_queueD(4) [OF ex_invD(4) [OF assms(1)], of "CurrentThread s c" ob] assms(3) by (auto simp: parked_def)
  ultimately show ?thesis unfolding inv_queueD(5) [OF ex_invD(4) [OF assms(1)]] by blast
qed

text \<open>A thread queues up at an object whose lock it has.\<close>

lemma queue_step:
  assumes inv: "ex_inv cpus s" and c: "c \<in> cpus" and q: "cur_pc s c = q" "q = AcquireLoop m \<or> q = WaitInsert e" "obj_held q = Some ob"
    and s': "s' = queue_thread (CurrentThread s c) ob s"
  shows "ex_inv cpus s'"
proof -
  let ?t = "CurrentThread s c"
  have w: "waits_for q = None" "target q = None" using q(2) by auto
  have nl: "\<not> Linked s ?t" by (rule not_linked [OF inv c]) (simp add: q(1) w)
  then have e: "s' = at_pc ?t (QueueBlock ob) (insert_waiting ob ?t s)" using s' by (simp add: queue_thread_def)
  have st: "local_step cpus c (QueueBlock ob) s s'" by (rule local_stepI [OF c]) (simp_all add: e set_defs)
  have l: "locks_after s c (QueueBlock ob) s'"
    by (rule locks_unchanged [OF inv c q(1)]) (use q(2,3) in \<open>auto simp: e set_defs\<close>)
  note Q = inv_queueD [OF ex_invD(4) [OF inv]] and pc = local_pc(2) [OF ex_invD(1) [OF inv] st] and par = parked_other [OF st]
  have f: "ReadyThreadsList s' = ReadyThreadsList s" "WaitingList s' = (WaitingList s)(ob := WaitingList s ob @ [?t])"
    "Linked s' = (Linked s)(?t := True)" "Pc s' = (Pc s)(?t := QueueBlock ob)" by (simp_all add: e set_defs)
  have t: "?t \<noteq> 0" "runs cpus s ?t" "?t \<notin> set (ReadyThreadsList s)" "\<And>ob'. ?t \<notin> set (WaitingList s ob')"
    using ex_invD(1) [OF inv] c Q(2,5) nl by (auto simp: inv_cpus_def)
  have pt: "parked cpus s' ?t ob' = (ob' = ob)" for ob'
    unfolding parked_def local_runs [OF st] f(4) using t(1,2) by auto
  have npt: "\<not> parked cpus s ?t ob'" for ob' using q(1) w(1) by (simp add: parked_def)
  have tg: "target (cur_pc s' d) = target (cur_pc s d)" if "d \<in> cpus" for d using pc [OF that] q(1) w(2) by simp
  have "inv_queue cpus s'"
  proof (rule inv_queueI)
    show "distinct (ReadyThreadsList s')" using Q(1) f(1) by simp
    show "u \<noteq> 0 \<and> \<not> runs cpus s' u \<and> \<not> idle cpus s' u \<and> out (Pc s' u)" if "u \<in> set (ReadyThreadsList s')" for u
      using Q(2) [of u] that t(3) unfolding local_runs [OF st] local_idle [OF st] f(1,4) by auto
    show "distinct (WaitingList s' ob')" for ob' using Q(3) [of ob'] t(4) [of ob'] f(2) by auto
    show "u \<notin> set (ReadyThreadsList s') \<and> parked cpus s' u ob'" if "u \<in> set (WaitingList s' ob')" for u ob'
      using Q(4) [of u ob'] that t(3,4) pt par [of u ob'] unfolding f(1,2) by (cases "u = ?t") (auto split: if_splits)
    show "Linked s' u = (u \<in> set (ReadyThreadsList s') \<or> (\<exists>ob'. u \<in> set (WaitingList s' ob')))" for u
      unfolding f(1-3) using Q(5) [of u] by (cases "u = ?t") auto
    show "\<not> Linked s' u \<and> parked cpus s' u ob' \<and> (unblocks (cur_pc s' d) = Some u \<longrightarrow> out (Pc s' u))"
      if d: "d \<in> cpus" "target (cur_pc s' d) = Some (ob', u)" for d ob' u
    proof -
      note R = Q(6) [OF d(1) d(2) [unfolded tg [OF d(1)]]]
      have "u \<noteq> ?t" using R npt by auto
      moreover have "d \<noteq> c" using d(2) pc [OF c] by auto
      ultimately show ?thesis using R par pc [OF d(1)] unfolding f(3,4) by simp
    qed
  qed
  moreover have "inv_wait cpus s'"
    unfolding inv_wait_def
  proof (intro allI impI)
    fix u ob' assume p: "parked cpus s' u ob'"
    show "u \<in> set (ReadyThreadsList s') \<or> u \<in> set (WaitingList s' ob') \<or> (\<exists>c \<in> cpus. target (cur_pc s' c) = Some (ob', u))"
    proof (cases "u = ?t")
      case True
      then show ?thesis using p pt unfolding f(2) by simp
    next
      case False
      then have "parked cpus s u ob'" using p par by simp
      then show ?thesis using ex_invD(5) [OF inv] tg unfolding inv_wait_def f(1,2) by auto
    qed
  qed
  ultimately show ?thesis using local_lock_invs [OF inv st l] by (simp add: ex_inv_def)
qed

text \<open>The first waiting thread is taken out, to be unblocked.\<close>

lemma wake_step:
  assumes inv: "ex_inv cpus s" and c: "c \<in> cpus" and q: "cur_pc s c = q" "q = ReleaseWake m \<or> q = SignalNext e" "obj_held q = Some ob"
    and ws: "WaitingList s ob = u # us" and st: "local_step cpus c (Unblock ob u) s s'"
    and f: "ObjectLock s' = ObjectLock s" "ReadyThreadsLock s' = ReadyThreadsLock s" "BlockLock s' = BlockLock s"
      "ReadyThreadsList s' = ReadyThreadsList s" "WaitingList s' = (WaitingList s)(ob := us)" "Linked s' = (Linked s)(u := False)"
  shows "ex_inv cpus s'"
proof -
  let ?t = "CurrentThread s c"
  note Q = inv_queueD [OF ex_invD(4) [OF inv]] and pc = local_pc(2) [OF ex_invD(1) [OF inv] st] and par = parked_other [OF st]
  have w: "waits_for q = None" "target q = None" using q(2) by auto
  have l: "locks_after s c (Unblock ob u) s'"
    by (rule locks_unchanged [OF inv c q(1) f(1-3)]) (use q(2,3) in auto)
  have Pc: "Pc s' = (Pc s)(?t := Unblock ob u)" using st by (simp add: local_step_def)
  have u: "u \<in> set (WaitingList s ob)" "u \<notin> set us" using ws Q(3) [of ob] by simp_all
  have pu: "parked cpus s u ob" "u \<notin> set (ReadyThreadsList s)" using Q(4) [OF u(1)] by simp_all
  have npt: "\<not> parked cpus s ?t ob'" "\<not> parked cpus s' ?t ob'" for ob' using q(1) w(1) Pc by (simp_all add: parked_def)
  have up: "parked cpus s' x ob' = parked cpus s x ob'" for x ob' using npt par by (cases "x = ?t") simp_all
  have only: "u \<notin> set (WaitingList s ob')" if "ob' \<noteq> ob" for ob'
    using Q(4) [of u ob'] pu(1) that by (auto simp: parked_def)
  have sub: "x \<in> set (WaitingList s' ob') \<longleftrightarrow> x \<noteq> u \<and> x \<in> set (WaitingList s ob')" for x ob'
    using only [of ob'] u(2) ws unfolding f(5) by (cases "ob' = ob") auto
  have "inv_queue cpus s'"
  proof (rule inv_queueI)
    show "distinct (ReadyThreadsList s')" using Q(1) f(4) by simp
    show "x \<noteq> 0 \<and> \<not> runs cpus s' x \<and> \<not> idle cpus s' x \<and> out (Pc s' x)" if "x \<in> set (ReadyThreadsList s')" for x
      using Q(2) [of x] that runs_cur [OF c, of s] unfolding local_runs [OF st] local_idle [OF st] f(4) Pc by auto
    show "distinct (WaitingList s' ob')" for ob' using Q(3) [of ob'] ws f(5) by auto
    show "x \<notin> set (ReadyThreadsList s') \<and> parked cpus s' x ob'" if "x \<in> set (WaitingList s' ob')" for x ob'
      using Q(4) [of x ob'] that up unfolding sub f(4) by blast
    show "Linked s' x = (x \<in> set (ReadyThreadsList s') \<or> (\<exists>ob'. x \<in> set (WaitingList s' ob')))" for x
      unfolding sub f(4,6) using Q(5) [of x] pu(2) by (cases "x = u") auto
    show "\<not> Linked s' x \<and> parked cpus s' x ob' \<and> (unblocks (cur_pc s' d) = Some x \<longrightarrow> out (Pc s' x))"
      if d: "d \<in> cpus" "target (cur_pc s' d) = Some (ob', x)" for d ob' x
    proof (cases "d = c")
      case True
      then have "x = u" "ob' = ob" using d(2) pc [OF c] by auto
      then show ?thesis using True pc [OF c] up pu(1) f(6) by simp
    next
      case False
      have t: "target (cur_pc s d) = Some (ob', x)" using False d pc [OF d(1)] by simp
      note R = Q(6) [OF d(1) t]
      have "x \<noteq> ?t" using R npt by auto
      then show ?thesis using R up False pc [OF d(1)] unfolding f(6) Pc by simp
    qed
  qed
  moreover have "inv_wait cpus s'"
    unfolding inv_wait_def up
  proof (intro allI impI)
    fix x ob' assume p: "parked cpus s x ob'"
    show "x \<in> set (ReadyThreadsList s') \<or> x \<in> set (WaitingList s' ob') \<or> (\<exists>c \<in> cpus. target (cur_pc s' c) = Some (ob', x))"
    proof (cases "x = u")
      case True
      then have "ob' = ob" using parked_object [OF p] pu(1) by blast
      moreover have "target (cur_pc s' c) = Some (ob, u)" using pc [OF c] by simp
      ultimately show ?thesis using c True by blast
    next
      case False
      have "target (cur_pc s' d) = target (cur_pc s d)" if "d \<in> cpus" "target (cur_pc s d) = Some (ob', x)" for d
        using pc [OF that(1)] q(1) w(2) that(2) by (cases "d = c") simp_all
      then show ?thesis using ex_invD(5) [OF inv] p False unfolding inv_wait_def f(4) sub by metis
    qed
  qed
  ultimately show ?thesis using local_lock_invs [OF inv st l] by (simp add: ex_inv_def)
qed

text \<open>The thread that is unblocked becomes ready.\<close>

lemma ready_step:
  assumes inv: "ex_inv cpus s" and c: "c \<in> cpus" and q: "cur_pc s c = UnblockInsert ob u"
    and s': "s' = at_pc (CurrentThread s c) (UnblockLeave ob u) (set_state u ThreadStateReady (insert_ready u s))"
  shows "\<not> Linked s u" "ex_inv cpus s'"
proof -
  let ?t = "CurrentThread s c"
  have st: "local_step cpus c (UnblockLeave ob u) s s'" by (rule local_stepI [OF c]) (simp_all add: s' set_defs)
  note Q = inv_queueD [OF ex_invD(4) [OF inv]] and pc = local_pc(2) [OF ex_invD(1) [OF inv] st] and par = parked_other [OF st]
  have l: "locks_after s c (UnblockLeave ob u) s'" by (rule locks_unchanged [OF inv c q]) (simp_all add: s' set_defs)
  have f: "ReadyThreadsList s' = ReadyThreadsList s @ [u]" "WaitingList s' = WaitingList s" "Linked s' = (Linked s)(u := True)"
    "Pc s' = (Pc s)(?t := UnblockLeave ob u)" by (simp_all add: s' set_defs)
  have u: "\<not> Linked s u" "parked cpus s u ob" "out (Pc s u)" using Q(6) [OF c, of ob u] q by simp_all
  show "\<not> Linked s u" by (rule u(1))
  have nl: "u \<notin> set (ReadyThreadsList s)" "\<And>ob'. u \<notin> set (WaitingList s ob')" using u(1) Q(5) by auto
  have npt: "\<not> parked cpus s ?t ob'" "\<not> parked cpus s' ?t ob'" for ob' using q f(4) by (simp_all add: parked_def)
  have ut: "u \<noteq> ?t" using npt u(2) by auto
  have up: "parked cpus s' x ob' = parked cpus s x ob'" for x ob' using npt par by (cases "x = ?t") simp_all
  have "inv_queue cpus s'"
  proof (rule inv_queueI)
    show "distinct (ReadyThreadsList s')" using Q(1) nl(1) f(1) by simp
    show "x \<noteq> 0 \<and> \<not> runs cpus s' x \<and> \<not> idle cpus s' x \<and> out (Pc s' x)" if "x \<in> set (ReadyThreadsList s')" for x
    proof (cases "x = u")
      case True
      then show ?thesis using u(2,3) parked_not_idle [OF inv u(2)] ut
        unfolding local_runs [OF st] local_idle [OF st] f(4) by (simp add: parked_def)
    next
      case False
      then show ?thesis using Q(2) [of x] that runs_cur [OF c, of s] unfolding local_runs [OF st] local_idle [OF st] f(1,4) by auto
    qed
    show "distinct (WaitingList s' ob')" for ob' using Q(3) f(2) by simp
    show "x \<notin> set (ReadyThreadsList s') \<and> parked cpus s' x ob'" if "x \<in> set (WaitingList s' ob')" for x ob'
      using Q(4) [of x ob'] that nl(2) [of ob'] unfolding f(1,2) up by auto
    show "Linked s' x = (x \<in> set (ReadyThreadsList s') \<or> (\<exists>ob'. x \<in> set (WaitingList s' ob')))" for x
      unfolding f(1-3) using Q(5) [of x] by auto
    show "\<not> Linked s' x \<and> parked cpus s' x ob' \<and> (unblocks (cur_pc s' d) = Some x \<longrightarrow> out (Pc s' x))"
      if d: "d \<in> cpus" "target (cur_pc s' d) = Some (ob', x)" for d ob' x
    proof -
      have dc: "d \<noteq> c" using d(2) pc [OF c] by auto
      have t: "target (cur_pc s d) = Some (ob', x)" using dc d pc [OF d(1)] by simp
      note R = Q(6) [OF d(1) t]
      have "x \<noteq> ?t" using R npt by auto
      moreover have "x \<noteq> u" using target_unique [OF inv d(1) c, of ob' x ob] t q dc by auto
      ultimately show ?thesis using R up dc pc [OF d(1)] unfolding f(3,4) by simp
    qed
  qed
  moreover have "inv_wait cpus s'"
    unfolding inv_wait_def up f(1,2)
  proof (intro allI impI)
    fix x ob' assume p: "parked cpus s x ob'"
    have "target (cur_pc s' d) = target (cur_pc s d)" if "d \<in> cpus" "target (cur_pc s d) = Some (ob', x)" "x \<noteq> u" for d
      using pc [OF that(1)] q that(2,3) by (cases "d = c") simp_all
    then show "x \<in> set (ReadyThreadsList s @ [u]) \<or> x \<in> set (WaitingList s ob') \<or> (\<exists>c \<in> cpus. target (cur_pc s' c) = Some (ob', x))"
      using ex_invD(5) [OF inv] p unfolding inv_wait_def by (cases "x = u") (simp, metis UnI1 set_append)
  qed
  ultimately show "ex_inv cpus s'" using local_lock_invs [OF inv st l] by (simp add: ex_inv_def)
qed

text \<open>The lock of a thread that is unblocked is free only after the processor has left it.\<close>

lemma target_out:
  assumes inv: "ex_inv cpus s" and c: "c \<in> cpus" and t: "target (cur_pc s c) = Some (ob, u)" and b: "BlockLock s u = 0"
  shows "out (Pc s u)"
proof (rule ccontr)
  assume n: "\<not> out (Pc s u)"
  have p: "parked cpus s u ob" using inv_queueD(6) [OF ex_invD(4) [OF inv] c t] by simp
  then obtain d where d: "d \<in> cpus" "CurrentThread s d = u" using n by (auto simp: parked_def runs_def)
  have "obj_held (Pc s u) = Some ob \<or> blocker (Pc s u)" using waits_held p n by (auto simp: parked_def)
  then show False
  proof
    assume "obj_held (Pc s u) = Some ob"
    then have "c = d" using lock_facts(2) [OF inv c, of ob] lock_facts(2) [OF inv d(1), of ob] target_held [OF t] d(2) by simp
    then show False using t p d(2) by (auto simp: parked_def target_waits)
  next
    assume "blocker (Pc s u)"
    then have "BlockLock s u = d" using lock_facts(4) [OF inv d(1), of u] d(2) by (simp add: locked_by_def)
    then show False using b lock_facts(1) [OF inv d(1)] by simp
  qed
qed

lemma ready_lock_step:
  assumes inv: "ex_inv cpus s" and c: "c \<in> cpus" and q: "cur_pc s c = q"
    and r: "\<not> ready_held q \<and> ready_held p \<and> locking c (CurrentThread s c) (ReadyThreadsLock s) s (at_pc (CurrentThread s c) p (s\<lparr>ReadyThreadsLock := c\<rparr>)) = Some s' \<or>
      ready_held q \<and> \<not> ready_held p \<and> unlocking c (CurrentThread s c) (ReadyThreadsLock s) s (at_pc (CurrentThread s c) p (s\<lparr>ReadyThreadsLock := 0\<rparr>)) = Some s'"
    and p: "obj_held p = obj_held q" "blocker p = blocker q" "unblocks p = unblocks q" "cleaning p = cleaning q"
      "p \<noteq> Halted" "CurrentThread s c = IdleThread s c \<and> idle_pc q \<longrightarrow> idle_pc p" "\<not> out p" "waits_for p = (if out q then None else waits_for q)" "target p = target q"
  shows "ex_inv cpus s'"
proof -
  have s': "\<not> ready_held q \<and> ready_held p \<and> ReadyThreadsLock s = 0 \<and> s' = at_pc (CurrentThread s c) p (s\<lparr>ReadyThreadsLock := c\<rparr>) \<or>
      ready_held q \<and> \<not> ready_held p \<and> s' = at_pc (CurrentThread s c) p (s\<lparr>ReadyThreadsLock := 0\<rparr>)"
    using r lock_facts(3) [OF inv c] q by (auto simp: locking_def unlocking_def split: if_splits)
  have st: "local_step cpus c p s s'" using s' by (auto intro!: local_stepI [OF c] simp: at_pc_def)
  have k: "lists_kept s c p s'" unfolding lists_kept_def q using s' p(3,7-9) by (auto simp: at_pc_def)
  show ?thesis
    by (rule local_inv [OF inv st locks_ready [OF inv c q _ _ _ p(1-6)] k]) (use s' in \<open>auto simp: at_pc_def\<close>)
qed

lemma block_lock_step:
  assumes inv: "ex_inv cpus s" and c: "c \<in> cpus" and q: "cur_pc s c = q"
    and r: "(\<forall>x. \<not> locked_by (CurrentThread s c) q x) \<and> (\<forall>x. locked_by (CurrentThread s c) p x = (x = u)) \<and>
        locking c (CurrentThread s c) (BlockLock s u) s (at_pc (CurrentThread s c) p (set_block_lock u c s)) = Some s' \<or>
      (\<forall>x. \<not> locked_by (CurrentThread s c) p x) \<and> (\<forall>x. locked_by (CurrentThread s c) q x = (x = u)) \<and>
        unlocking c (CurrentThread s c) (BlockLock s u) s (at_pc (CurrentThread s c) p (set_block_lock u 0 s)) = Some s'"
    and p: "obj_held p = obj_held q" "ready_held p = ready_held q" "\<not> cleaning q" "\<not> cleaning p" "p \<noteq> Halted" "CurrentThread s c = IdleThread s c \<and> idle_pc q \<longrightarrow> idle_pc p"
      "\<not> out q" "\<not> out p" "waits_for p = waits_for q" "target p = target q" "\<And>ob u. target p = Some (ob, u) \<Longrightarrow> BlockLock s u = 0"
  shows "ex_inv cpus s'"
proof -
  let ?t = "CurrentThread s c"
  have "BlockLock s u \<noteq> c" if "\<forall>x. \<not> locked_by ?t q x" using lock_facts(5) [OF inv c, of u] that p(3) q by auto
  moreover have "BlockLock s u = c" if "\<forall>x. locked_by ?t q x = (x = u)" using lock_facts(4) [OF inv c, of u] that q by auto
  ultimately have s': "(\<forall>x. \<not> locked_by ?t q x) \<and> (\<forall>x. locked_by ?t p x = (x = u)) \<and> BlockLock s u = 0 \<and> s' = at_pc ?t p (set_block_lock u c s) \<or>
      (\<forall>x. \<not> locked_by ?t p x) \<and> (\<forall>x. locked_by ?t q x = (x = u)) \<and> s' = at_pc ?t p (set_block_lock u 0 s)"
    using r by (auto simp: locking_def unlocking_def split: if_splits)
  have st: "local_step cpus c p s s'" using s' by (auto intro!: local_stepI [OF c] simp: set_defs)
  have "out (Pc s x)" if "target p = Some (ob, x)" for ob x
    by (rule target_out [OF inv c]) (use that p(10,11) q in auto)
  then have k: "lists_kept s c p s'" unfolding lists_kept_def q using s' p(7-10) by (auto simp: set_defs)
  show ?thesis
    by (rule local_inv [OF inv st locks_block [OF inv c q _ _ _ p(1-6), where u = u] k]) (use s' in \<open>auto simp: set_defs\<close>)
qed

lemma unblock_inv:
  assumes inv: "ex_inv cpus s" and c: "c \<in> cpus" and r: "ThreadUnblock c (CurrentThread s c) (cur_pc s c) s = Some s'"
  shows "ex_inv cpus s'"
proof (cases "cur_pc s c")
  case (Unblock ob u)
  then have l: "locking c (CurrentThread s c) (BlockLock s u) s (at_pc (CurrentThread s c) (UnblockReady ob u) (set_block_lock u c s)) = Some s'"
    using r by simp
  have "BlockLock s u \<noteq> c" using lock_facts(5) [OF inv c, of u] Unblock by (auto simp: locked_by_def)
  then have "BlockLock s u = 0" using locking_Some [OF l] by simp
  then show ?thesis
    by (intro block_lock_step [OF inv c Unblock, where p = "UnblockReady ob u" and u = u]) (use l in \<open>auto simp: locked_by_def\<close>)
next
  case (UnblockReady ob u)
  show ?thesis
    by (rule ready_lock_step [OF inv c UnblockReady, where p = "UnblockInsert ob u"]) (use r UnblockReady in auto)
next
  case (UnblockInsert ob u)
  have "s' = at_pc (CurrentThread s c) (UnblockLeave ob u) (set_state u ThreadStateReady (insert_ready u s))"
    using r UnblockInsert ready_step(1) [OF inv c UnblockInsert refl] by simp
  then show ?thesis by (rule ready_step(2) [OF inv c UnblockInsert])
next
  case (UnblockLeave ob u)
  show ?thesis
    by (rule ready_lock_step [OF inv c UnblockLeave, where p = "UnblockDone ob u"]) (use r UnblockLeave in auto)
next
  case (UnblockDone ob u)
  show ?thesis
    by (rule block_lock_step [OF inv c UnblockDone, where p = "unblocked_pc s ob" and u = u])
      (use r UnblockDone in \<open>auto simp: locked_by_def unblocked_pc_def split: wait_object.splits if_splits\<close>)
qed (use r in simp_all)

lemma take_block_lock_inv:
  assumes inv: "ex_inv cpus s" and c: "c \<in> cpus" and r: "ThreadTakeBlockLock c (CurrentThread s c) (cur_pc s c) s = Some s'"
  shows "ex_inv cpus s'"
proof (cases "cur_pc s c")
  case (QueueBlock ob)
  show ?thesis
    by (rule block_lock_step [OF inv c QueueBlock, where p = "QueueUnlock ob" and u = "CurrentThread s c"])
      (use r QueueBlock in \<open>auto simp: locked_by_def\<close>)
next
  case (QueueUnlock ob)
  show ?thesis
    by (rule drop_object_step [OF inv c QueueUnlock, where p = "Block (resume_of ob)" and ob = ob and ?s1.0 = "set_object_lock ob 0 s"])
      (use r QueueUnlock in \<open>auto simp: set_defs\<close>)
next
  case IdleTake
  show ?thesis
    by (rule block_lock_step [OF inv c IdleTake, where p = "Block ResumeIdle" and u = "CurrentThread s c"])
      (use r IdleTake in \<open>auto simp: locked_by_def\<close>)
qed (use r in simp_all)

lemma acquire_inv:
  assumes inv: "ex_inv cpus s" and c: "c \<in> cpus" and r: "MutexAcquire c (CurrentThread s c) (cur_pc s c) s = Some s'"
  shows "ex_inv cpus s'"
proof (cases "cur_pc s c")
  case (AcquireLock m)
  show ?thesis
    by (rule take_object_step [OF inv c AcquireLock, where p = "AcquireFree m" and ob = "MutexAt m"]) (use r AcquireLock in simp_all)
next
  case (AcquireRelock m)
  show ?thesis
    by (rule take_object_step [OF inv c AcquireRelock, where p = "AcquireLoop m" and ob = "MutexAt m"]) (use r AcquireRelock in simp_all)
next
  case (AcquireFree m)
  have st: "local_step cpus c (AcquireLoop m) s s'"
    by (rule local_stepI [OF c]) (use r AcquireFree in \<open>auto simp: set_defs\<close>)
  show ?thesis by (rule plain_step [OF inv c AcquireFree st]) (use r AcquireFree in \<open>auto simp: set_defs\<close>)
next
  case (AcquireLoop m)
  show ?thesis
  proof (cases "MutexHolder s m = CurrentThread s c")
    case True
    have st: "local_step cpus c (AcquireDone m) s s'"
      by (rule local_stepI [OF c]) (use r AcquireLoop True in \<open>auto simp: set_defs\<close>)
    show ?thesis by (rule plain_step [OF inv c AcquireLoop st]) (use r AcquireLoop True in \<open>auto simp: set_defs\<close>)
  next
    case False
    then show ?thesis
      by (intro queue_step [OF inv c AcquireLoop disjI1, where ob = "MutexAt m" and m = m]) (use r AcquireLoop in auto)
  qed
next
  case (AcquireDone m)
  show ?thesis
    by (rule drop_object_step [OF inv c AcquireDone, where p = Outside and ob = "MutexAt m" and
        ?s1.0 = "set_inside (CurrentThread s c) m (Inside s (CurrentThread s c) m + 1) (set_object_lock (MutexAt m) 0 s)"])
      (use r AcquireDone in \<open>simp_all add: set_defs\<close>)
qed (use r in simp_all)

lemma release_inv:
  assumes inv: "ex_inv cpus s" and c: "c \<in> cpus" and r: "MutexRelease c (CurrentThread s c) (cur_pc s c) s = Some s'"
  shows "ex_inv cpus s'"
proof (cases "cur_pc s c")
  case (ReleaseLock m)
  show ?thesis
    by (rule take_object_step [OF inv c ReleaseLock, where p = "ReleaseWake m" and ob = "MutexAt m"]) (use r ReleaseLock in simp_all)
next
  case (ReleaseWake m)
  show ?thesis
  proof (cases "WaitingList s (MutexAt m)")
    case Nil
    have st: "local_step cpus c (ReleaseDone m) s s'"
      by (rule local_stepI [OF c]) (use r ReleaseWake Nil in \<open>auto simp: set_defs\<close>)
    show ?thesis by (rule plain_step [OF inv c ReleaseWake st]) (use r ReleaseWake Nil in \<open>auto simp: set_defs\<close>)
  next
    case (Cons u us)
    have st: "local_step cpus c (Unblock (MutexAt m) u) s s'"
      by (rule local_stepI [OF c]) (use r ReleaseWake Cons in \<open>auto simp: set_defs\<close>)
    show ?thesis
      by (rule wake_step [OF inv c ReleaseWake disjI1 _ Cons st, where m = m]) (use r ReleaseWake Cons in \<open>auto simp: set_defs\<close>)
  qed
next
  case (ReleaseDone m)
  show ?thesis
    by (rule drop_object_step [OF inv c ReleaseDone, where p = Outside and ob = "MutexAt m" and ?s1.0 = "set_object_lock (MutexAt m) 0 s"])
      (use r ReleaseDone in \<open>simp_all add: set_defs\<close>)
qed (use r in simp_all)

lemma wait_inv:
  assumes inv: "ex_inv cpus s" and c: "c \<in> cpus" and r: "ExEventWaitForSignal c (CurrentThread s c) (cur_pc s c) s = Some s'"
  shows "ex_inv cpus s'"
proof (cases "cur_pc s c")
  case (WaitTest e)
  have st: "local_step cpus c (if Signaled s e then Outside else WaitLock e) s s'"
    by (rule local_stepI [OF c]) (use r WaitTest in \<open>auto simp: set_defs\<close>)
  show ?thesis by (rule plain_step [OF inv c WaitTest st]) (use r WaitTest in \<open>auto simp: set_defs split: if_splits\<close>)
next
  case (WaitLock e)
  show ?thesis
    by (rule take_object_step [OF inv c WaitLock, where p = "WaitInsert e" and ob = "EventAt e"]) (use r WaitLock in simp_all)
next
  case (WaitInsert e)
  show ?thesis by (rule queue_step [OF inv c WaitInsert disjI2, where ob = "EventAt e" and e = e]) (use r WaitInsert in auto)
qed (use r in simp_all)

lemma signal_inv:
  assumes inv: "ex_inv cpus s" and c: "c \<in> cpus" and r: "ExEventSignal c (CurrentThread s c) (cur_pc s c) s = Some s'"
  shows "ex_inv cpus s'"
proof (cases "cur_pc s c")
  case (SignalLock e)
  show ?thesis
    by (rule take_object_step [OF inv c SignalLock, where p = "SignalSet e" and ob = "EventAt e"]) (use r SignalLock in simp_all)
next
  case (SignalSet e)
  have st: "local_step cpus c (SignalNext e) s s'"
    by (rule local_stepI [OF c]) (use r SignalSet in \<open>auto simp: set_defs\<close>)
  show ?thesis by (rule plain_step [OF inv c SignalSet st]) (use r SignalSet in \<open>auto simp: set_defs\<close>)
next
  case (SignalNext e)
  show ?thesis
  proof (cases "WaitingList s (EventAt e)")
    case Nil
    have st: "local_step cpus c (SignalDone e) s s'"
      by (rule local_stepI [OF c]) (use r SignalNext Nil in \<open>auto simp: set_defs\<close>)
    show ?thesis by (rule plain_step [OF inv c SignalNext st]) (use r SignalNext Nil in \<open>auto simp: set_defs\<close>)
  next
    case (Cons u us)
    have st: "local_step cpus c (Unblock (EventAt e) u) s s'"
      by (rule local_stepI [OF c]) (use r SignalNext Cons in \<open>auto simp: set_defs\<close>)
    show ?thesis
      by (rule wake_step [OF inv c SignalNext disjI2 _ Cons st, where e = e]) (use r SignalNext Cons in \<open>auto simp: set_defs\<close>)
  qed
next
  case (SignalDone e)
  show ?thesis
    by (rule drop_object_step [OF inv c SignalDone, where p = Outside and ob = "EventAt e" and ?s1.0 = "set_object_lock (EventAt e) 0 s"])
      (use r SignalDone in \<open>simp_all add: set_defs\<close>)
qed (use r in simp_all)

lemma cleanup_inv:
  assumes inv: "ex_inv cpus s" and c: "c \<in> cpus" and r: "ThreadCleanupPostSchedule c (CurrentThread s c) (cur_pc s c) s = Some s'"
  shows "ex_inv cpus s'"
proof (cases "cur_pc s c")
  case (Cleanup r')
  show ?thesis
    by (rule ready_lock_step [OF inv c Cleanup, where p = "CleanupBlock r'"]) (use r Cleanup in auto)
next
  case (CleanupBlock r')
  let ?p = "resume_pc s r'"
  have prev: "PreviousThread s c \<noteq> 0" using ex_invD(1) [OF inv] c CleanupBlock by (auto simp: inv_cpus_def)
  define s1 where "s1 = (if BlockLock s (PreviousThread s c) = c then set_block_lock (PreviousThread s c) 0 s else s)"
  have e: "s' = at_pc (CurrentThread s c) ?p s1"
    using r CleanupBlock prev by (auto simp: s1_def Let_def set_block_lock_def resume_pc_def split: resume.splits)
  have p: "obj_held ?p = None" "\<not> ready_held ?p" "\<not> locked_by (CurrentThread s c) ?p x" "\<not> cleaning ?p" "?p \<noteq> Halted"
    "object_of r' = None \<Longrightarrow> idle_pc ?p" "\<not> out ?p" "waits_for ?p = None" "target ?p = None" for x
    by (cases r'; simp add: resume_pc_def locked_by_def)+
  have st: "local_step cpus c ?p s s'" by (rule local_stepI [OF c]) (auto simp: e s1_def set_defs)
  have b: "BlockLock s' = blocks_after s c ?p"
  proof
    fix x
    have "\<not> locked_by (CurrentThread s c) (cur_pc s c) x" using CleanupBlock by (simp add: locked_by_def)
    moreover from this have "BlockLock s x = c \<Longrightarrow> x = PreviousThread s c" using lock_facts(5) [OF inv c, of x] by blast
    moreover have "BlockLock s' x = (if BlockLock s (PreviousThread s c) = c \<and> x = PreviousThread s c then 0 else BlockLock s x)"
      by (simp add: e s1_def set_defs)
    ultimately show "BlockLock s' x = blocks_after s c ?p x"
      unfolding blocks_after_def using p(3,4) by (simp only: if_False simp_thms) (cases "BlockLock s x = c"; auto)
  qed
  have "ObjectLock s' = objects_after s c ?p" "ReadyThreadsLock s' = ready_after s c ?p"
    using p(1,2) CleanupBlock by (auto simp: objects_after_def ready_after_def e s1_def set_defs fun_eq_iff)
  then have l: "locks_after s c ?p s'" using b p CleanupBlock by (simp add: locks_after_def)
  have "lists_kept s c ?p s'" using p CleanupBlock by (auto simp: lists_kept_def e s1_def set_defs)
  then show ?thesis by (rule local_inv [OF inv st l])
qed (use r in simp_all)

section \<open>Switching\<close>

text \<open>The processor \<open>c\<close> goes over from its thread \<open>t\<close> to \<open>n\<close>, perhaps \<open>t\<close> itself; \<open>n\<close> leaves the ready list, and \<open>t\<close>
  has joined it if \<open>y\<close>.\<close>

definition switched :: "u64 \<Rightarrow> resume \<Rightarrow> u64 \<Rightarrow> bool \<Rightarrow> machine \<Rightarrow> machine \<Rightarrow> bool" where
  "switched c r n y s s' \<longleftrightarrow>
     CurrentThread s' = (CurrentThread s)(c := n) \<and> IdleThread s' = IdleThread s \<and>
     PreviousThread s' = (PreviousThread s)(c := CurrentThread s c) \<and> Pc s' = (Pc s)(CurrentThread s c := Cleanup r) \<and>
     ObjectLock s' = ObjectLock s \<and> ReadyThreadsLock s' = ReadyThreadsLock s \<and> BlockLock s' = BlockLock s \<and>
     WaitingList s' = WaitingList s \<and>
     (if n = CurrentThread s c then ReadyThreadsList s = [] \<and> ReadyThreadsList s' = [] \<and> Linked s' = Linked s
      else ReadyThreadsList s' = tl (ReadyThreadsList s) @ (if y then [CurrentThread s c] else []) \<and>
        Linked s' = (\<lambda>u. if u = CurrentThread s c \<and> y then True else if u = n then False else Linked s u)) \<and>
     n = (if ReadyThreadsList s = [] then if y then CurrentThread s c else IdleThread s c else hd (ReadyThreadsList s))"

lemma switchedD:
  assumes "switched c r n y s s'"
  shows "CurrentThread s' = (CurrentThread s)(c := n)" "IdleThread s' = IdleThread s"
    "PreviousThread s' = (PreviousThread s)(c := CurrentThread s c)" "Pc s' = (Pc s)(CurrentThread s c := Cleanup r)"
    "ObjectLock s' = ObjectLock s" "ReadyThreadsLock s' = ReadyThreadsLock s" "BlockLock s' = BlockLock s" "WaitingList s' = WaitingList s"
    "if n = CurrentThread s c then ReadyThreadsList s = [] \<and> ReadyThreadsList s' = [] \<and> Linked s' = Linked s
      else ReadyThreadsList s' = tl (ReadyThreadsList s) @ (if y then [CurrentThread s c] else []) \<and>
        Linked s' = (\<lambda>u. if u = CurrentThread s c \<and> y then True else if u = n then False else Linked s u)"
    "n = (if ReadyThreadsList s = [] then if y then CurrentThread s c else IdleThread s c else hd (ReadyThreadsList s))"
  using assms unfolding switched_def by - (elim conjE, assumption)+

lemma schedule_switched:
  "\<exists>n. switched c r n False s (ThreadSchedule c (CurrentThread s c) r s)" if "\<not> Linked s (IdleThread s c)" "CurrentThread s c \<notin> set (ReadyThreadsList s)"
  using that by (cases "ReadyThreadsList s") (auto simp: ThreadSchedule_def ThreadGetReadyThread_def switched_def set_defs fun_eq_iff)

lemma yield_switched:
  "\<not> Linked s (CurrentThread s c) \<Longrightarrow> CurrentThread s c \<notin> set (ReadyThreadsList s) \<Longrightarrow>
   \<exists>n. switched c r n True s (ThreadSchedule c (CurrentThread s c) r (set_state (CurrentThread s c) st (insert_ready (CurrentThread s c) s)))"
  by (cases "ReadyThreadsList s") (auto simp: ThreadSchedule_def ThreadGetReadyThread_def switched_def set_defs fun_eq_iff)

lemma schedule_state [simp]:
  "switched c r n y (set_state t st s) s' = switched c r n y s s'"
  by (simp add: switched_def set_state_def)

lemma next_thread:
  assumes inv: "ex_inv cpus s" and c: "c \<in> cpus" and sw: "switched c r n y s s'" and n: "n \<noteq> CurrentThread s c"
  shows "\<not> runs cpus s n" "out (Pc s n)" "n \<noteq> 0" "idle cpus s n \<Longrightarrow> n = IdleThread s c"
    "Linked s n \<Longrightarrow> ReadyThreadsList s = n # tl (ReadyThreadsList s)" "\<not> Linked s n \<Longrightarrow> ReadyThreadsList s = []"
    "n \<notin> set (WaitingList s ob)"
proof -
  note Q = inv_queueD [OF ex_invD(4) [OF inv]]
  have "\<not> runs cpus s n \<and> out (Pc s n) \<and> n \<noteq> 0 \<and> (idle cpus s n \<longrightarrow> n = IdleThread s c) \<and>
    (Linked s n \<longrightarrow> ReadyThreadsList s = n # tl (ReadyThreadsList s)) \<and> (\<not> Linked s n \<longrightarrow> ReadyThreadsList s = []) \<and> n \<notin> set (WaitingList s ob)" for ob
  proof (cases "ReadyThreadsList s")
    case Nil
    then have e: "n = IdleThread s c" using switchedD(10) [OF sw] n by (auto split: if_splits)
    then have w: "idle cpus s n" "out (Pc s n)" "\<not> runs cpus s n" "n \<noteq> 0" using ex_invD(1) [OF inv] c n by (auto simp: inv_cpus_def idle_def)
    have nw: "n \<notin> set (WaitingList s ob)" for ob
      using Q(4) [of n ob] parked_not_idle [OF inv, of n ob] w(1) by auto
    then have "\<not> Linked s n" using Q(5) [of n] Nil by simp
    then show ?thesis using w e nw Nil by auto
  next
    case (Cons x xs)
    then have e: "n = x" using switchedD(10) [OF sw] by simp
    have "x \<in> set (ReadyThreadsList s)" using Cons by simp
    then show ?thesis using Q(2) [of x] Q(4) [of x ob] Q(5) [of x] Cons e by auto
  qed
  then show "\<not> runs cpus s n" "out (Pc s n)" "n \<noteq> 0" "idle cpus s n \<Longrightarrow> n = IdleThread s c"
    "Linked s n \<Longrightarrow> ReadyThreadsList s = n # tl (ReadyThreadsList s)" "\<not> Linked s n \<Longrightarrow> ReadyThreadsList s = []"
    "n \<notin> set (WaitingList s ob)" by blast+
qed

lemma switched_cpus:
  assumes inv: "ex_inv cpus s" and c: "c \<in> cpus" and sw: "switched c r n y s s'"
    and i: "idle_pc (cur_pc s c) \<longrightarrow> object_of r = None"
  shows "inv_cpus cpus s'"
    "\<And>u. runs cpus s' u = (u = n \<or> runs cpus s u \<and> u \<noteq> CurrentThread s c)"
    "\<And>d. d \<in> cpus \<Longrightarrow> cur_pc s' d = (if d = c then if n = CurrentThread s c then Cleanup r else Pc s n else cur_pc s d)"
proof -
  let ?t = "CurrentThread s c"
  have I: "inj_on (CurrentThread s) cpus" "inj_on (IdleThread s) cpus" "0 \<notin> cpus"
    "\<And>d. d \<in> cpus \<Longrightarrow> IdleThread s d \<noteq> 0 \<and> idle_pc (Pc s (IdleThread s d)) \<and>
       (IdleThread s d \<noteq> CurrentThread s d \<longrightarrow> out (Pc s (IdleThread s d)) \<and> \<not> runs cpus s (IdleThread s d)) \<and>
        CurrentThread s d \<noteq> 0 \<and> cur_pc s d \<noteq> Halted \<and> (cleaning (cur_pc s d) \<longrightarrow> PreviousThread s d \<noteq> 0)"
    using ex_invD(1) [OF inv] by (simp_all add: inv_cpus_def)
  have f: "CurrentThread s' = (CurrentThread s)(c := n)" "IdleThread s' = IdleThread s"
    "PreviousThread s' = (PreviousThread s)(c := ?t)" "Pc s' = (Pc s)(?t := Cleanup r)" by (rule switchedD [OF sw])+
  note N = next_thread [OF inv c sw]
  have other: "CurrentThread s d \<noteq> ?t" if "d \<in> cpus" "d \<noteq> c" for d using inj_onD [OF I(1) _ that(1) c] that(2) by blast
  have run_n: "CurrentThread s d \<noteq> n" if "d \<in> cpus" "d \<noteq> c" for d
    using other [OF that] N(1) runs_cur [OF that(1), of s] by (cases "n = ?t") auto
  show pc: "cur_pc s' d = (if d = c then if n = ?t then Cleanup r else Pc s n else cur_pc s d)" if "d \<in> cpus" for d
    using other [OF that] unfolding f by simp
  show run: "runs cpus s' u = (u = n \<or> runs cpus s u \<and> u \<noteq> ?t)" for u
  proof
    assume "runs cpus s' u"
    then obtain d where "d \<in> cpus" "CurrentThread s' d = u" by (auto simp: runs_def)
    then show "u = n \<or> runs cpus s u \<and> u \<noteq> ?t" using other [of d] runs_cur [of d cpus s] f(1) by (cases "d = c") auto
  next
    assume a: "u = n \<or> runs cpus s u \<and> u \<noteq> ?t"
    show "runs cpus s' u"
    proof (cases "u = n")
      case True
      then show ?thesis using runs_cur [OF c, of s'] f(1) by simp
    next
      case False
      then obtain d where "d \<in> cpus" "CurrentThread s d = u" "u \<noteq> ?t" using a by (auto simp: runs_def)
      then show ?thesis using runs_cur [of d cpus s'] f(1) by (cases "d = c") auto
    qed
  qed
  have "IdleThread s d \<noteq> CurrentThread s' d \<longrightarrow> out (Pc s' (IdleThread s d)) \<and> \<not> runs cpus s' (IdleThread s d)" if d: "d \<in> cpus" for d
  proof
    assume a: "IdleThread s d \<noteq> CurrentThread s' d"
    have nd: "IdleThread s d \<noteq> n"
    proof
      assume e: "IdleThread s d = n"
      then have "n \<noteq> ?t \<Longrightarrow> n = IdleThread s c" using N(4) d by (auto simp: idle_def)
      then have "n \<noteq> ?t \<Longrightarrow> d = c" using e inj_onD [OF I(2) _ d c] by simp
      moreover have "n = ?t \<Longrightarrow> d = c" using e I(4) [OF d] other [OF d] c runs_cur [OF c, of s] by metis
      ultimately have "d = c" by blast
      then show False using a e f(1) by simp
    qed
    show "out (Pc s' (IdleThread s d)) \<and> \<not> runs cpus s' (IdleThread s d)"
    proof (cases "IdleThread s d = ?t")
      case True
      then show ?thesis using nd unfolding run f(4) by auto
    next
      case False
      have "IdleThread s d \<noteq> CurrentThread s d" using a False f(1) by (cases "d = c") auto
      then show ?thesis using I(4) [OF d] nd False unfolding run f(4) by auto
    qed
  qed
  moreover have "idle_pc (Pc s' (IdleThread s d))" if "d \<in> cpus" for d using I(4) [OF that] i unfolding f(4) by auto
  moreover have "inj_on (CurrentThread s') cpus" using I(1) run_n unfolding f(1) inj_on_def by auto
  moreover have "cur_pc s' d \<noteq> Halted" "CurrentThread s' d \<noteq> 0" "PreviousThread s' d \<noteq> 0 \<or> \<not> cleaning (cur_pc s' d)" if "d \<in> cpus" for d
    using pc [OF that] I(4) [OF that] I(4) [OF c] N(2,3) unfolding f(1,3) by (auto split: if_splits)
  ultimately show "inv_cpus cpus s'" using I unfolding inv_cpus_def f(2) by blast
qed

lemma out_simps: "out p \<Longrightarrow> obj_held p = None \<and> ready_held p \<and> \<not> blocker p \<and> cleaning p \<and> unblocks p = None \<and> target p = None"
  by (cases p) simp_all

lemma switched_locks:
  assumes inv: "ex_inv cpus s" and c: "c \<in> cpus" and sw: "switched c r n y s s'"
    and i: "idle_pc (cur_pc s c) \<longrightarrow> object_of r = None"
    and q: "ready_held (cur_pc s c)" "obj_held (cur_pc s c) = None" "unblocks (cur_pc s c) = None" "\<not> cleaning (cur_pc s c)"
  shows "inv_locks cpus s'" "inv_block cpus s'"
proof -
  let ?t = "CurrentThread s c"
  have f: "CurrentThread s' = (CurrentThread s)(c := n)" "PreviousThread s' = (PreviousThread s)(c := ?t)"
    "ObjectLock s' = ObjectLock s" "ReadyThreadsLock s' = ReadyThreadsLock s" "BlockLock s' = BlockLock s" by (rule switchedD [OF sw])+
  note pc = switched_cpus(3) [OF inv c sw i]
  have o: "out (cur_pc s' c)" using pc [OF c] next_thread(2) [OF inv c sw] by (cases "n = ?t") simp_all
  have "(obj_held (cur_pc s' d) = Some ob) = (ObjectLock s ob = d)" "ready_held (cur_pc s' d) = (ReadyThreadsLock s = d)"
    if d: "d \<in> cpus" for d ob
    using lock_facts(2,3) [OF inv d] pc [OF d] q(1,2) out_simps [OF o] by (cases "d = c"; simp)+
  then show "inv_locks cpus s'" using ex_invD(2) [OF inv] unfolding inv_locks_def f by blast
  have h: "locked_by (CurrentThread s' d) (cur_pc s' d) u \<longrightarrow> BlockLock s u = d"
    "BlockLock s u = d \<longrightarrow> locked_by (CurrentThread s' d) (cur_pc s' d) u \<or> cleaning (cur_pc s' d) \<and> u = PreviousThread s' d"
    if d: "d \<in> cpus" for d u
  proof -
    show "locked_by (CurrentThread s' d) (cur_pc s' d) u \<longrightarrow> BlockLock s u = d"
      using lock_facts(4) [OF inv d, of u] pc [OF d] out_simps [OF o] f(1) by (cases "d = c") (auto simp: locked_by_def)
    show "BlockLock s u = d \<longrightarrow> locked_by (CurrentThread s' d) (cur_pc s' d) u \<or> cleaning (cur_pc s' d) \<and> u = PreviousThread s' d"
    proof (cases "d = c")
      case True
      then show ?thesis using lock_facts(5) [OF inv c, of u] q(3,4) out_simps [OF o] f(2) by (auto simp: locked_by_def)
    next
      case False
      then show ?thesis using lock_facts(5) [OF inv d, of u] pc [OF d] f(1,2) by auto
    qed
  qed
  have "\<forall>u. BlockLock s u \<in> insert 0 cpus" using ex_invD(3) [OF inv] by (simp add: inv_block_alt)
  then show "inv_block cpus s'" unfolding inv_block_alt f(5) using h by blast
qed

lemma switched_queue:
  assumes inv: "ex_inv cpus s" and c: "c \<in> cpus" and sw: "switched c r n y s s'"
    and i: "idle_pc (cur_pc s c) \<longrightarrow> object_of r = None"
    and q: "\<not> out (cur_pc s c)" "target (cur_pc s c) = None" "waits_for (cur_pc s c) = object_of r"
    and y: "y \<Longrightarrow> object_of r = None" "y \<Longrightarrow> \<not> idle cpus s (CurrentThread s c)"
  shows "inv_queue cpus s'" "inv_wait cpus s'"
proof -
  let ?t = "CurrentThread s c"
  note Q = inv_queueD [OF ex_invD(4) [OF inv]] and N = next_thread [OF inv c sw] and f = switchedD [OF sw]
    and pc = switched_cpus(3) [OF inv c sw i] and run = switched_cpus(2) [OF inv c sw i]
  have t: "?t \<noteq> 0" "runs cpus s ?t" "?t \<notin> set (ReadyThreadsList s)"
    using ex_invD(1) [OF inv] c Q(2) [of ?t] runs_cur [OF c, of s] by (auto simp: inv_cpus_def)
  have stay: "object_of r = None" if "n = ?t"
  proof (cases "ReadyThreadsList s = [] \<and> \<not> y")
    case True
    then have "IdleThread s c = ?t" using f(10) that by simp
    then have "idle_pc (cur_pc s c)" using ex_invD(1) [OF inv] c by (metis inv_cpus_def)
    then show ?thesis using i by blast
  next
    case False
    then show ?thesis using y(1) f(10) that t(3) by (cases "ReadyThreadsList s") auto
  qed
  have nparked: "\<not> parked cpus s ?t ob" if "object_of r = None" for ob using q(3) that by (simp add: parked_def)
  have parked: "parked cpus s' x ob = (x \<noteq> n \<and> parked cpus s x ob)" for x ob
  proof (cases "x = ?t")
    case True
    show ?thesis
    proof (cases "n = ?t")
      case True
      then show ?thesis using \<open>x = ?t\<close> nparked [OF stay [OF True]] run [of x] f(4) by (simp add: parked_def)
    next
      case False
      then show ?thesis using True t(1,2) q(1,3) run [of x] f(4) by (simp add: parked_def)
    qed
  next
    case False
    then show ?thesis using N(1,2) run [of x] f(4) by (cases "x = n") (auto simp: parked_def)
  qed
  have pn: "\<not> parked cpus s n ob" if "\<not> Linked s n" for ob
  proof (cases "n = ?t")
    case True
    then show ?thesis using nparked stay by simp
  next
    case False
    then have "n = IdleThread s c" using N(6) [OF False that] f(10) by (auto split: if_splits)
    then show ?thesis using parked_not_idle [OF inv, of n ob] c by (auto simp: idle_def)
  qed
  have tn: "\<not> Linked s ?t" if "object_of r = None" by (rule not_linked [OF inv c]) (simp add: q(3) that)
  have rd: "u \<in> set (ReadyThreadsList s') \<longleftrightarrow> u \<noteq> n \<and> (u \<in> set (ReadyThreadsList s) \<or> y \<and> u = ?t)" for u
  proof (cases "n = ?t")
    case True
    then show ?thesis using f(9) by auto
  next
    case False
    then show ?thesis using f(9) N(5,6) [OF False] Q(1) by (cases "ReadyThreadsList s") auto
  qed
  have wn: "n \<notin> set (WaitingList s ob)" for ob
    using N(7) Q(4) [of n ob] pn [of ob] tn [OF stay] by (cases "n = ?t") auto
  show "inv_queue cpus s'"
  proof (rule inv_queueI)
    show "distinct (ReadyThreadsList s')" using f(9) Q(1) t(3) by (cases "ReadyThreadsList s"; cases "n = ?t"; cases y) simp_all
    show "u \<noteq> 0 \<and> \<not> runs cpus s' u \<and> \<not> idle cpus s' u \<and> out (Pc s' u)" if "u \<in> set (ReadyThreadsList s')" for u
      using Q(2) [of u] that [unfolded rd] t(1,3) y(2) unfolding run idle_def f(2,4) by (cases "u = ?t") (auto simp: idle_def)
    show "distinct (WaitingList s' ob)" for ob using Q(3) f(8) by simp
    show "u \<notin> set (ReadyThreadsList s') \<and> parked cpus s' u ob" if "u \<in> set (WaitingList s' ob)" for u ob
      using Q(4) [of u ob] that wn [of ob] nparked [of ob] y(1) unfolding rd parked f(8) by auto
    show "Linked s' u = (u \<in> set (ReadyThreadsList s') \<or> (\<exists>ob. u \<in> set (WaitingList s' ob)))" for u
    proof (cases "n = ?t")
      case True
      then show ?thesis using f(9) Q(5) [of u] unfolding f(8) by simp
    next
      case False
      then have "Linked s' u = (if u = ?t \<and> y then True else if u = n then False else Linked s u)" using f(9) by simp
      then show ?thesis using Q(5) [of u] wn False unfolding rd f(8) by auto
    qed
    show "\<not> Linked s' u \<and> parked cpus s' u ob \<and> (unblocks (cur_pc s' d) = Some u \<longrightarrow> out (Pc s' u))"
      if d: "d \<in> cpus" "target (cur_pc s' d) = Some (ob, u)" for d ob u
    proof -
      have dc: "d \<noteq> c" using d(2) pc [OF c] N(2) out_simps [of "Pc s n"] by (cases "n = ?t") auto
      then have R: "\<not> Linked s u \<and> parked cpus s u ob \<and> (unblocks (cur_pc s d) = Some u \<longrightarrow> out (Pc s u))"
        using Q(6) [OF d(1), of ob u] d(2) pc [OF d(1)] by simp
      have un: "u \<noteq> n" using R pn by blast
      have uy: "\<not> (u = ?t \<and> y)" using R nparked y(1) by blast
      have "\<not> Linked s' u" using f(9) R un uy by (cases "n = ?t") simp_all
      moreover have "out (Pc s u) \<Longrightarrow> out (Pc s' u)" unfolding f(4) by simp
      ultimately show ?thesis using R un dc pc [OF d(1)] unfolding parked by simp
    qed
  qed
  show "inv_wait cpus s'"
    unfolding inv_wait_def parked f(8)
  proof (intro allI impI)
    fix x ob assume x: "x \<noteq> n \<and> parked cpus s x ob"
    have "target (cur_pc s' d) = target (cur_pc s d)" if "d \<in> cpus" "target (cur_pc s d) = Some (ob, x)" for d
      using pc [OF that(1)] that(2) q(2) by (cases "d = c") simp_all
    then show "x \<in> set (ReadyThreadsList s') \<or> x \<in> set (WaitingList s ob) \<or> (\<exists>c \<in> cpus. target (cur_pc s' c) = Some (ob, x))"
      using ex_invD(5) [OF inv] x unfolding inv_wait_def rd by metis
  qed
qed

lemma switched_inv:
  assumes "ex_inv cpus s" "c \<in> cpus" "switched c r n y s s'" "idle_pc (cur_pc s c) \<longrightarrow> object_of r = None"
    and "ready_held (cur_pc s c)" "obj_held (cur_pc s c) = None" "unblocks (cur_pc s c) = None" "\<not> cleaning (cur_pc s c)"
    and "\<not> out (cur_pc s c)" "target (cur_pc s c) = None" "waits_for (cur_pc s c) = object_of r"
    and "y \<Longrightarrow> object_of r = None" "y \<Longrightarrow> \<not> idle cpus s (CurrentThread s c)"
  shows "ex_inv cpus s'"
  unfolding ex_inv_def
  by (intro conjI switched_cpus(1) [OF assms(1-4)] switched_locks [OF assms(1-8)] switched_queue [OF assms(1-4,9-11)]) (use assms(12,13) in blast)+

lemma idle_not_linked: "ex_inv cpus s \<Longrightarrow> c \<in> cpus \<Longrightarrow> \<not> Linked s (IdleThread s c)"
proof -
  assume inv: "ex_inv cpus s" and c: "c \<in> cpus"
  have i: "idle cpus s (IdleThread s c)" using c by (auto simp: idle_def)
  note Q = inv_queueD [OF ex_invD(4) [OF inv]]
  show ?thesis unfolding Q(5) using Q(2) [of "IdleThread s c"] Q(4) [of "IdleThread s c"] parked_not_idle [OF inv, of "IdleThread s c"] i by blast
qed

lemma cur_not_ready: "ex_inv cpus s \<Longrightarrow> c \<in> cpus \<Longrightarrow> CurrentThread s c \<notin> set (ReadyThreadsList s)"
  using inv_queueD(2) [OF ex_invD(4)] runs_cur by blast

lemma block_inv:
  assumes inv: "ex_inv cpus s" and c: "c \<in> cpus" and r: "ThreadBlock c (CurrentThread s c) (cur_pc s c) s = Some s'"
  shows "ex_inv cpus s'"
proof (cases "cur_pc s c")
  case (Block r')
  have st: "local_step cpus c (BlockLocking r') s s'" by (rule local_stepI [OF c]) (use r Block in \<open>auto simp: set_defs\<close>)
  show ?thesis by (rule plain_step [OF inv c Block st]) (use r Block in \<open>auto simp: set_defs\<close>)
next
  case (BlockLocking r')
  show ?thesis by (rule ready_lock_step [OF inv c BlockLocking, where p = "Schedule r'"]) (use r BlockLocking in auto)
next
  case (Schedule r')
  obtain n where "switched c r' n False s s'"
    using schedule_switched [OF idle_not_linked [OF inv c] cur_not_ready [OF inv c], of r'] r Schedule by auto
  then show ?thesis by (rule switched_inv [OF inv c]) (simp_all add: Schedule)
qed (use r in simp_all)

lemma idle_cur: "ex_inv cpus s \<Longrightarrow> c \<in> cpus \<Longrightarrow> idle cpus s (CurrentThread s c) = (CurrentThread s c = IdleThread s c)"
  by (auto simp: ex_inv_def inv_cpus_def idle_def) (metis inj_onD runs_cur)

lemma yield_inv:
  assumes inv: "ex_inv cpus s" and c: "c \<in> cpus" and r: "ThreadYield c (CurrentThread s c) (cur_pc s c) s = Some s'"
  shows "ex_inv cpus s'"
proof (cases "cur_pc s c")
  case YieldLock
  show ?thesis by (rule ready_lock_step [OF inv c YieldLock, where p = YieldInsert]) (use r YieldLock in auto)
next
  case YieldInsert
  show ?thesis
  proof (cases "CurrentThread s c = IdleThread s c")
    case True
    let ?s = "set_state (CurrentThread s c) ThreadStateReady s"
    have e: "CurrentThread ?s = CurrentThread s" "IdleThread ?s = IdleThread s" "Linked ?s = Linked s" "ReadyThreadsList ?s = ReadyThreadsList s"
      by (simp_all add: set_state_def)
    have "s' = ThreadSchedule c (CurrentThread s c) ResumeRun ?s" using r YieldInsert True by simp
    then obtain n where "switched c ResumeRun n False s s'"
      using schedule_switched [of ?s c ResumeRun, unfolded e schedule_state, OF idle_not_linked [OF inv c] cur_not_ready [OF inv c]] by blast
    then show ?thesis by (rule switched_inv [OF inv c]) (simp_all add: YieldInsert)
  next
    case False
    have nl: "\<not> Linked s (CurrentThread s c)" by (rule not_linked [OF inv c]) (simp add: YieldInsert)
    obtain n where "switched c ResumeRun n True s s'"
      using yield_switched [OF nl cur_not_ready [OF inv c], of ResumeRun ThreadStateReady] r YieldInsert False nl by auto
    then show ?thesis by (rule switched_inv [OF inv c]) (use False idle_cur [OF inv c] in \<open>simp_all add: YieldInsert\<close>)
  qed
qed (use r in simp_all)

end
