(* ===== verification/Executive.thy ===== *)
theory Executive
  imports SchedulerInv
begin

text \<open>
  The state of a mutex against what its callers have done with it, that no thread is lost, and the theorems about the reachable
  states of theory \<open>Scheduler\<close>: no assertion fails, mutual exclusion with recursion, and the order in which a mutex is
  handed over.
\<close>

section \<open>Mutexes\<close>

text \<open>The mutex that a thread is getting or giving up.\<close>

fun busy :: "pc \<Rightarrow> u64 option" where
  "busy (AcquireLoop m) = Some m"
| "busy (AcquireRelock m) = Some m"
| "busy (AcquireDone m) = Some m"
| "busy (ReleaseLock m) = Some m"
| "busy (ReleaseWake m) = Some m"
| "busy (QueueBlock (MutexAt m)) = Some m"
| "busy (QueueUnlock (MutexAt m)) = Some m"
| "busy (Block (ResumeMutex m)) = Some m"
| "busy (BlockLocking (ResumeMutex m)) = Some m"
| "busy (Schedule (ResumeMutex m)) = Some m"
| "busy (Cleanup (ResumeMutex m)) = Some m"
| "busy (CleanupBlock (ResumeMutex m)) = Some m"
| "busy p = None"

fun entering :: "pc \<Rightarrow> u64 option" where
  "entering (AcquireLock m) = Some m"
| "entering (AcquireFree m) = Some m"
| "entering p = None"

definition mutex_ok :: "machine \<Rightarrow> u64 \<Rightarrow> u64 \<Rightarrow> bool" where
  "mutex_ok s m t \<longleftrightarrow>
     (MutexHolder s m \<noteq> t \<longrightarrow> Inside s t m = 0) \<and>
     (busy (Pc s t) = Some m \<longrightarrow> Inside s t m = 0) \<and>
     (MutexHolder s m = t \<longrightarrow> unat (CurrentRecursivityDepth s m) = Inside s t m + (if busy (Pc s t) = Some m then 1 else 0)) \<and>
     (t \<in> set (WaitingList s (MutexAt m)) \<longrightarrow> MutexHolder s m \<noteq> t) \<and>
     (entering (Pc s t) = Some m \<longrightarrow> MutexHolder s m \<noteq> t) \<and>
     (busy (Pc s t) = Some m \<and> Pc s t \<noteq> AcquireLoop m \<and> t \<notin> set (WaitingList s (MutexAt m)) \<longrightarrow> MutexHolder s m = t)"

definition mutex_free_ok :: "u64 set \<Rightarrow> machine \<Rightarrow> u64 \<Rightarrow> bool" where
  "mutex_free_ok cpus s m \<longleftrightarrow> 1 \<le> MaxRecursivityDepth s m \<and>
     (MutexHolder s m = 0 \<longrightarrow> WaitingList s (MutexAt m) = [] \<and> (\<forall>c \<in> cpus. cur_pc s c \<noteq> AcquireLoop m)) \<and>
     (MutexHolder s m \<noteq> 0 \<longrightarrow> CurrentRecursivityDepth s m \<noteq> 0 \<and> CurrentRecursivityDepth s m \<le> MaxRecursivityDepth s m)"

definition inv_mutex :: "u64 set \<Rightarrow> machine \<Rightarrow> bool" where
  "inv_mutex cpus s \<longleftrightarrow> (\<forall>m t. t \<noteq> 0 \<longrightarrow> mutex_ok s m t) \<and> (\<forall>m. mutex_free_ok cpus s m)"

definition full_inv :: "u64 set \<Rightarrow> u64 set \<Rightarrow> machine \<Rightarrow> bool" where
  "full_inv cpus ts s \<longleftrightarrow> ex_inv cpus s \<and> inv_mutex cpus s \<and> inv_threads cpus ts s"

lemma object_of_mutex [simp]: "object_of r = Some (MutexAt m) \<longleftrightarrow> r = ResumeMutex m"
  by (cases r) auto

lemma waits_busy: "waits_for p = Some (MutexAt m) \<Longrightarrow> busy p = Some m"
  by (cases p) simp_all

definition same_class :: "pc \<Rightarrow> pc \<Rightarrow> bool" where
  "same_class q p \<longleftrightarrow> busy p = busy q \<and> entering p = entering q \<and> (\<forall>m. p \<noteq> AcquireLoop m \<and> q \<noteq> AcquireLoop m)"

text \<open>Steps that do not change the state of a mutex.\<close>

lemma mutex_keep:
  assumes inv: "ex_inv cpus s" "inv_mutex cpus s" and c: "c \<in> cpus" and Pc: "Pc s' = (Pc s)(CurrentThread s c := p)"
    and cl: "same_class (cur_pc s c) p"
    and f: "MutexHolder s' = MutexHolder s" "CurrentRecursivityDepth s' = CurrentRecursivityDepth s"
      "MaxRecursivityDepth s' = MaxRecursivityDepth s" "Inside s' = Inside s"
      "\<And>m. WaitingList s' (MutexAt m) = WaitingList s (MutexAt m)"
    and cur: "\<And>d m. d \<in> cpus \<Longrightarrow> cur_pc s' d = AcquireLoop m \<Longrightarrow> cur_pc s d = AcquireLoop m"
  shows "inv_mutex cpus s'"
proof -
  have "mutex_ok s' m t" if "mutex_ok s m t" for m t
  proof (cases "t = CurrentThread s c")
    case True
    have e: "Pc s' t = p" "busy p = busy (Pc s t)" "entering p = entering (Pc s t)" "p \<noteq> AcquireLoop m" "Pc s t \<noteq> AcquireLoop m"
      using cl True unfolding Pc same_class_def by simp_all
    show ?thesis using that e(4,5) unfolding mutex_ok_def f e(1-3) by blast
  next
    case False
    then have e: "Pc s' t = Pc s t" unfolding Pc by simp
    show ?thesis using that unfolding mutex_ok_def f e .
  qed
  moreover have "mutex_free_ok cpus s' m" for m
  proof -
    have m: "mutex_free_ok cpus s m" using inv(2) by (simp add: inv_mutex_def)
    have "cur_pc s' d \<noteq> AcquireLoop m" if "MutexHolder s m = 0" "d \<in> cpus" for d
      using m that cur [OF that(2), of m] by (auto simp: mutex_free_ok_def)
    then show ?thesis using m unfolding mutex_free_ok_def f by simp
  qed
  ultimately show ?thesis using inv(2) by (simp add: inv_mutex_def)
qed

lemma mutex_keep_local:
  assumes "ex_inv cpus s" "inv_mutex cpus s" "local_step cpus c p s s'" "same_class (cur_pc s c) p"
    and "MutexHolder s' = MutexHolder s" "CurrentRecursivityDepth s' = CurrentRecursivityDepth s"
      "MaxRecursivityDepth s' = MaxRecursivityDepth s" "Inside s' = Inside s"
      "\<And>m. WaitingList s' (MutexAt m) = WaitingList s (MutexAt m)"
  shows "inv_mutex cpus s'"
proof (rule mutex_keep [OF assms(1,2) _ _ assms(4-9)])
  show "c \<in> cpus" "Pc s' = (Pc s)(CurrentThread s c := p)" using assms(3) by (simp_all add: local_step_def)
  show "cur_pc s' d = AcquireLoop m \<Longrightarrow> cur_pc s d = AcquireLoop m" if "d \<in> cpus" for d m
    using local_pc(2) [OF ex_invD(1) [OF assms(1)] assms(3) that] assms(4) by (auto simp: same_class_def split: if_splits)
qed

text \<open>A step that stays on its thread, does not take a thread out of the ready list and, the second part, leaves the mutexes alone.\<close>

definition stays :: "machine \<Rightarrow> u64 \<Rightarrow> machine \<Rightarrow> bool" where
  "stays s c s' \<longleftrightarrow> CurrentThread s' = CurrentThread s \<and> IdleThread s' = IdleThread s \<and> PreviousThread s' = PreviousThread s \<and>
     Pc s' = (Pc s)(CurrentThread s c := Pc s' (CurrentThread s c)) \<and>
     (idles (Pc s' (CurrentThread s c)) \<longrightarrow> idles (cur_pc s c)) \<and> set (ReadyThreadsList s) \<subseteq> set (ReadyThreadsList s')"

definition keeps_mutexes :: "machine \<Rightarrow> u64 \<Rightarrow> machine \<Rightarrow> bool" where
  "keeps_mutexes s c s' \<longleftrightarrow> same_class (cur_pc s c) (Pc s' (CurrentThread s c)) \<and>
     MutexHolder s' = MutexHolder s \<and> CurrentRecursivityDepth s' = CurrentRecursivityDepth s \<and>
     MaxRecursivityDepth s' = MaxRecursivityDepth s \<and> Inside s' = Inside s \<and>
     (\<forall>m. WaitingList s' (MutexAt m) = WaitingList s (MutexAt m))"

lemma stays_local: "stays s c s' \<Longrightarrow> c \<in> cpus \<Longrightarrow> local_step cpus c (Pc s' (CurrentThread s c)) s s'"
  by (simp add: stays_def local_step_def)

lemma keeps_inv:
  assumes "ex_inv cpus s" "inv_mutex cpus s" "c \<in> cpus" "stays s c s'" "keeps_mutexes s c s'"
  shows "inv_mutex cpus s'"
  by (rule mutex_keep_local [OF assms(1,2) stays_local [OF assms(4,3)]]) (use assms(5) in \<open>simp_all add: keeps_mutexes_def\<close>)

lemma stays_threads:
  assumes inv: "ex_inv cpus s" and a: "inv_threads cpus ts s" "c \<in> cpus" "stays s c s'"
  shows "inv_threads cpus ts s'"
proof -
  have run: "runs cpus s' t = runs cpus s t" "idle cpus s' t = idle cpus s t" for t using a(3) by (simp_all add: stays_def runs_def idle_def)
  have "Pc s' t = Pc s t" if "\<not> runs cpus s t" for t
  proof -
    have "t \<noteq> CurrentThread s c" using that a(2) by auto
    then show ?thesis using a(3) by (metis fun_upd_other stays_def)
  qed
  moreover have "CurrentThread s' d = IdleThread s' d" if "d \<in> cpus" "idles (cur_pc s' d)" for d
    using local_pc(2) [OF ex_invD(1) [OF inv] stays_local [OF a(3,2)] that(1)] that a
    by (cases "d = c") (simp_all add: stays_def inv_threads_def)
  ultimately show ?thesis using a(1,3) unfolding inv_threads_def run by (auto simp: stays_def)
qed

lemmas step_defs = stays_def keeps_mutexes_def locking_def unlocking_def set_defs same_class_def Let_def

lemma object_of_resume_pc: "busy (resume_pc s r) = (case r of ResumeMutex m \<Rightarrow> Some m | _ \<Rightarrow> None)" "entering (resume_pc s r) = None"
   "resume_pc s r \<noteq> AcquireLoop m" "\<not> idles (resume_pc s r)"
  by (simp_all add: resume_pc_def split: resume.split)

lemma busy_resume: "busy (Block r) = (case r of ResumeMutex m \<Rightarrow> Some m | _ \<Rightarrow> None)"
  "busy (BlockLocking r) = (case r of ResumeMutex m \<Rightarrow> Some m | _ \<Rightarrow> None)"
  "busy (Schedule r) = (case r of ResumeMutex m \<Rightarrow> Some m | _ \<Rightarrow> None)"
  "busy (Cleanup r) = (case r of ResumeMutex m \<Rightarrow> Some m | _ \<Rightarrow> None)"
  "busy (CleanupBlock r) = (case r of ResumeMutex m \<Rightarrow> Some m | _ \<Rightarrow> None)"
  "busy (QueueBlock ob) = (case ob of MutexAt m \<Rightarrow> Some m | _ \<Rightarrow> None)"
  "busy (QueueUnlock ob) = (case ob of MutexAt m \<Rightarrow> Some m | _ \<Rightarrow> None)"
  by (simp_all split: resume.split wait_object.split)

lemma unblock_keeps:
  assumes "ThreadUnblock c (CurrentThread s c) (cur_pc s c) s = Some s'" "Pc s' (CurrentThread s c) \<noteq> Halted"
  shows "stays s c s' \<and> keeps_mutexes s c s'"
  using assms by (cases "cur_pc s c") (auto simp: step_defs unblocked_pc_def split: if_splits wait_object.splits)

lemma take_block_keeps:
  assumes "ThreadTakeBlockLock c (CurrentThread s c) (cur_pc s c) s = Some s'" "Pc s' (CurrentThread s c) \<noteq> Halted"
  shows "stays s c s' \<and> keeps_mutexes s c s'"
  using assms by (cases "cur_pc s c") (auto simp: step_defs busy_resume resume_of_def split: if_splits wait_object.splits)

lemma cleanup_keeps:
  assumes "ThreadCleanupPostSchedule c (CurrentThread s c) (cur_pc s c) s = Some s'" "Pc s' (CurrentThread s c) \<noteq> Halted"
  shows "stays s c s' \<and> keeps_mutexes s c s'"
  using assms by (cases "cur_pc s c") (auto simp: step_defs busy_resume object_of_resume_pc split: if_splits)

lemma wait_keeps:
  assumes "ExEventWaitForSignal c (CurrentThread s c) (cur_pc s c) s = Some s'" "Pc s' (CurrentThread s c) \<noteq> Halted"
  shows "stays s c s' \<and> keeps_mutexes s c s'"
  using assms by (cases "cur_pc s c") (auto simp: step_defs split: if_splits)

lemma signal_keeps:
  assumes "ExEventSignal c (CurrentThread s c) (cur_pc s c) s = Some s'" "Pc s' (CurrentThread s c) \<noteq> Halted"
  shows "stays s c s' \<and> keeps_mutexes s c s'"
  using assms by (cases "cur_pc s c") (auto simp: step_defs split: if_splits)

lemma schedule_fields [simp]:
  "MutexHolder (ThreadSchedule c t r s) = MutexHolder s" "CurrentRecursivityDepth (ThreadSchedule c t r s) = CurrentRecursivityDepth s"
  "MaxRecursivityDepth (ThreadSchedule c t r s) = MaxRecursivityDepth s" "Inside (ThreadSchedule c t r s) = Inside s"
  by (simp_all add: ThreadSchedule_def ThreadGetReadyThread_def set_defs Let_def)

lemma switched_mutex:
  assumes inv: "ex_inv cpus s" "inv_mutex cpus s" and c: "c \<in> cpus" and sw: "switched c r n y s s'"
    and i: "idle_pc (cur_pc s c) \<longrightarrow> object_of r = None" and q: "same_class (cur_pc s c) (Cleanup r)"
    and f: "MutexHolder s' = MutexHolder s" "CurrentRecursivityDepth s' = CurrentRecursivityDepth s"
      "MaxRecursivityDepth s' = MaxRecursivityDepth s" "Inside s' = Inside s"
  shows "inv_mutex cpus s'"
proof (rule mutex_keep [OF inv c switchedD(4) [OF sw] q f])
  show "WaitingList s' (MutexAt m) = WaitingList s (MutexAt m)" for m using switchedD(8) [OF sw] by simp
  show "cur_pc s d = AcquireLoop m" if "d \<in> cpus" "cur_pc s' d = AcquireLoop m" for d m
    using switched_cpus(3) [OF inv(1) c sw i that(1)] that(2) next_thread(2) [OF inv(1) c sw] by (cases "d = c"; cases "n = CurrentThread s c") auto
qed

lemma switched_threads:
  assumes inv: "ex_inv cpus s" "inv_threads cpus ts s" and c: "c \<in> cpus" and sw: "switched c r n y s s'"
    and i: "idle_pc (cur_pc s c) \<longrightarrow> object_of r = None" and y: "object_of r = None \<Longrightarrow> y \<or> idle cpus s (CurrentThread s c)"
  shows "inv_threads cpus ts s'"
proof -
  note run = switched_cpus(2) [OF inv(1) c sw i] and f = switchedD [OF sw] and N = next_thread [OF inv(1) c sw]
  have "CurrentThread s' d = IdleThread s' d" if "d \<in> cpus" "idles (cur_pc s' d)" for d
  proof -
    have "d \<noteq> c" using switched_cpus(3) [OF inv(1) c sw i that(1)] that(2) N(2) by (cases "n = CurrentThread s c"; cases "Pc s n") auto
    then show ?thesis
      using switched_cpus(3) [OF inv(1) c sw i that(1)] that inv(2) f(1,2) by (simp add: inv_threads_def)
  qed
  moreover have "t \<noteq> 0 \<and> (runs cpus s' t \<or> idle cpus s' t \<or> out (Pc s' t) \<and> (waits_for (Pc s' t) = None \<longrightarrow> t \<in> set (ReadyThreadsList s')))"
    if t: "t \<in> ts" for t
  proof -
  have idle: "idle cpus s' t = idle cpus s t" using f(2) by (simp add: idle_def)
  have T: "t \<noteq> 0" "runs cpus s t \<or> idle cpus s t \<or> out (Pc s t) \<and> (waits_for (Pc s t) = None \<longrightarrow> t \<in> set (ReadyThreadsList s))"
    using inv(2) t by (simp_all add: inv_threads_def)
  show ?thesis
  proof (cases "t = n \<or> idle cpus s t")
    case True
    then show ?thesis using T(1) run idle by blast
  next
    case False
    show ?thesis
    proof (cases "t = CurrentThread s c")
      case True
      then have "out (Pc s' t)" "waits_for (Pc s' t) = object_of r" using f(4) by simp_all
      moreover have "t \<in> set (ReadyThreadsList s')" if "object_of r = None"
        using y [OF that] f(9) True False by auto
      ultimately show ?thesis using T(1) by simp
    next
      case tc: False
      then have "Pc s' t = Pc s t" using f(4) by simp
      moreover have "t \<in> set (ReadyThreadsList s')" if "t \<in> set (ReadyThreadsList s)"
      proof -
        have ne: "ReadyThreadsList s \<noteq> []" using that by auto
        then have "t \<noteq> hd (ReadyThreadsList s)" using f(10) False by simp
        then have "t \<in> set (tl (ReadyThreadsList s))" using that ne by (metis list.collapse set_ConsD)
        moreover have "n \<noteq> CurrentThread s c" using f(9) ne by (metis (full_types))
        ultimately show ?thesis using f(9) by simp
      qed
      moreover have "runs cpus s' t = runs cpus s t" using run [of t] tc False by simp
      ultimately show ?thesis using T False by auto
    qed
  qed
  qed
  ultimately show ?thesis by (simp add: inv_threads_def)
qed

lemma block_full:
  assumes inv: "full_inv cpus ts s" and c: "c \<in> cpus" and r: "ThreadBlock c (CurrentThread s c) (cur_pc s c) s = Some s'"
  shows "full_inv cpus ts s'"
proof -
  have I: "ex_inv cpus s" "inv_mutex cpus s" "inv_threads cpus ts s" using inv by (simp_all add: full_inv_def)
  have e: "ex_inv cpus s'" by (rule block_inv [OF I(1) c r])
  show ?thesis
  proof (cases "\<exists>r'. cur_pc s c = Schedule r'")
    case False
    have "stays s c s' \<and> keeps_mutexes s c s'"
    proof -
      have "Pc s' (CurrentThread s c) \<noteq> Halted \<Longrightarrow> ?thesis"
        using r False by (cases "cur_pc s c") (auto simp: step_defs busy_resume split: if_splits)
      moreover have "CurrentThread s' = CurrentThread s"
        using r False by (cases "cur_pc s c") (auto simp: step_defs split: if_splits)
      then have "Pc s' (CurrentThread s c) \<noteq> Halted" using lock_facts(6) [OF e c] by simp
      ultimately show ?thesis by blast
    qed
    then show ?thesis using e keeps_inv [OF I(1,2) c] stays_threads [OF I(1,3) c] by (simp add: full_inv_def)
  next
    case True
    then obtain r' where q: "cur_pc s c = Schedule r'" by blast
    then have s': "s' = ThreadSchedule c (CurrentThread s c) r' s" using r by simp
    obtain n where sw: "switched c r' n False s s'"
      using schedule_switched [OF idle_not_linked [OF I(1) c] cur_not_ready [OF I(1) c], of r'] s' by auto
    have i: "idle_pc (cur_pc s c) \<longrightarrow> object_of r' = None" using q by simp
    have "inv_mutex cpus s'"
      by (rule switched_mutex [OF I(1,2) c sw i]) (simp_all add: q s' same_class_def busy_resume)
    moreover have "inv_threads cpus ts s'"
      by (rule switched_threads [OF I(1,3) c sw i]) (use I(3) c q idle_cur [OF I(1) c] in \<open>auto simp: inv_threads_def\<close>)
    ultimately show ?thesis using e by (simp add: full_inv_def)
  qed
qed

lemma yield_full:
  assumes inv: "full_inv cpus ts s" and c: "c \<in> cpus" and r: "ThreadYield c (CurrentThread s c) (cur_pc s c) s = Some s'"
  shows "full_inv cpus ts s'"
proof -
  have I: "ex_inv cpus s" "inv_mutex cpus s" "inv_threads cpus ts s" using inv by (simp_all add: full_inv_def)
  have e: "ex_inv cpus s'" by (rule yield_inv [OF I(1) c r])
  show ?thesis
  proof (cases "cur_pc s c")
    case YieldLock
    then have "CurrentThread s' = CurrentThread s" using r by (auto simp: step_defs split: if_splits)
    then have "Pc s' (CurrentThread s c) \<noteq> Halted" using lock_facts(6) [OF e c] by simp
    then have "stays s c s' \<and> keeps_mutexes s c s'" using r YieldLock by (auto simp: step_defs split: if_splits)
    then show ?thesis using e keeps_inv [OF I(1,2) c] stays_threads [OF I(1,3) c] by (simp add: full_inv_def)
  next
    case YieldInsert
    have nl: "\<not> Linked s (CurrentThread s c)" by (rule not_linked [OF I(1) c]) (simp add: YieldInsert)
    let ?s = "set_state (CurrentThread s c) ThreadStateReady s"
    have e': "CurrentThread ?s = CurrentThread s" "IdleThread ?s = IdleThread s" "Linked ?s = Linked s" "ReadyThreadsList ?s = ReadyThreadsList s"
      by (simp_all add: set_state_def)
    obtain n y where sw: "switched c ResumeRun n y s s'" and y: "y \<or> idle cpus s (CurrentThread s c)"
    proof (cases "CurrentThread s c = IdleThread s c")
      case True
      then have "s' = ThreadSchedule c (CurrentThread s c) ResumeRun ?s" using r YieldInsert by simp
      then obtain n where "switched c ResumeRun n False s s'"
        using schedule_switched [of ?s c ResumeRun, unfolded e' schedule_state, OF idle_not_linked [OF I(1) c] cur_not_ready [OF I(1) c]] by blast
      then show thesis using that True idle_cur [OF I(1) c] by blast
    next
      case False
      obtain n where "switched c ResumeRun n True s s'"
        using yield_switched [OF nl cur_not_ready [OF I(1) c], of ResumeRun ThreadStateReady] r YieldInsert False nl by auto
      then show thesis using that by blast
    qed
    have i: "idle_pc (cur_pc s c) \<longrightarrow> object_of ResumeRun = None" by simp
    have "MutexHolder s' = MutexHolder s \<and> CurrentRecursivityDepth s' = CurrentRecursivityDepth s \<and>
      MaxRecursivityDepth s' = MaxRecursivityDepth s \<and> Inside s' = Inside s"
      using r YieldInsert nl by (auto simp: set_state_def insert_ready_def link_def split: if_splits)
    then have "inv_mutex cpus s'" by (intro switched_mutex [OF I(1,2) c sw i]) (simp_all add: YieldInsert same_class_def)
    moreover have "inv_threads cpus ts s'" by (rule switched_threads [OF I(1,3) c sw i]) (rule y)
    ultimately show ?thesis using e by (simp add: full_inv_def)
  qed (use r in simp_all)
qed

text \<open>A step that changes one mutex.\<close>

lemma mutex_change:
  assumes inv: "ex_inv cpus s" "inv_mutex cpus s" and st: "local_step cpus c p s s'"
    and same: "\<And>m'. m' \<noteq> m \<Longrightarrow> MutexHolder s' m' = MutexHolder s m' \<and> CurrentRecursivityDepth s' m' = CurrentRecursivityDepth s m' \<and>
       WaitingList s' (MutexAt m') = WaitingList s (MutexAt m') \<and> (\<forall>u. Inside s' u m' = Inside s u m')"
      "MaxRecursivityDepth s' = MaxRecursivityDepth s"
    and cl: "\<And>m'. m' \<noteq> m \<Longrightarrow> (busy p = Some m') = (busy (cur_pc s c) = Some m') \<and> (entering p = Some m') = (entering (cur_pc s c) = Some m') \<and>
       p \<noteq> AcquireLoop m' \<and> cur_pc s c \<noteq> AcquireLoop m'"
    and ok: "\<And>u. u \<noteq> 0 \<Longrightarrow> mutex_ok s' m u" "mutex_free_ok cpus s' m"
  shows "inv_mutex cpus s'"
proof -
  have Pc: "Pc s' = (Pc s)(CurrentThread s c := p)" using st by (simp add: local_step_def)
  have "mutex_ok s' m' u" if u: "u \<noteq> 0" "m' \<noteq> m" for m' u
  proof -
    have o: "mutex_ok s m' u" using inv(2) u(1) by (simp add: inv_mutex_def)
    have e: "(busy (Pc s' u) = Some m') = (busy (Pc s u) = Some m')" "(entering (Pc s' u) = Some m') = (entering (Pc s u) = Some m')"
      "(Pc s' u = AcquireLoop m') = (Pc s u = AcquireLoop m')"
      using cl [OF u(2)] unfolding Pc by (cases "u = CurrentThread s c"; simp)+
    have f: "MutexHolder s' m' = MutexHolder s m'" "CurrentRecursivityDepth s' m' = CurrentRecursivityDepth s m'"
       "WaitingList s' (MutexAt m') = WaitingList s (MutexAt m')" "Inside s' u m' = Inside s u m'" using same(1) [OF u(2)] by simp_all
    show ?thesis using o unfolding mutex_ok_def e f .
  qed
  moreover have "mutex_free_ok cpus s' m'" if m: "m' \<noteq> m" for m'
  proof -
    have o: "mutex_free_ok cpus s m'" using inv(2) by (simp add: inv_mutex_def)
    have e: "(cur_pc s' d = AcquireLoop m') = (cur_pc s d = AcquireLoop m')" if "d \<in> cpus" for d
      using local_pc(2) [OF ex_invD(1) [OF inv(1)] st that] cl [OF m] by (cases "d = c") simp_all
    show ?thesis using o same(1) [OF m] same(2) e by (simp add: mutex_free_ok_def)
  qed
  ultimately show ?thesis using ok unfolding inv_mutex_def by metis
qed

text \<open>What the invariant says of the current thread.\<close>

lemma mutex_facts:
  assumes "ex_inv cpus s" "inv_mutex cpus s" "c \<in> cpus"
  shows "mutex_ok s m (CurrentThread s c)" "mutex_free_ok cpus s m" "CurrentThread s c \<noteq> 0"
    "waits_for (cur_pc s c) = None \<Longrightarrow> CurrentThread s c \<notin> set (WaitingList s ob)"
proof -
  show t: "CurrentThread s c \<noteq> 0" using ex_invD(1) [OF assms(1)] assms(3) by (simp add: inv_cpus_def)
  show "mutex_ok s m (CurrentThread s c)" "mutex_free_ok cpus s m" using assms(2) t by (simp_all add: inv_mutex_def)
  show "waits_for (cur_pc s c) = None \<Longrightarrow> CurrentThread s c \<notin> set (WaitingList s ob)"
    using not_linked [OF assms(1,3)] inv_queueD(5) [OF ex_invD(4) [OF assms(1)]] by blast
qed

lemma keep_or_halt:
  assumes inv: "full_inv cpus ts s" and c: "c \<in> cpus" and e: "ex_inv cpus s'"
    and k: "Pc s' (CurrentThread s c) \<noteq> Halted \<Longrightarrow> stays s c s' \<and> keeps_mutexes s c s'" and cur: "CurrentThread s' = CurrentThread s"
  shows "full_inv cpus ts s'"
proof -
  have I: "ex_inv cpus s" "inv_mutex cpus s" "inv_threads cpus ts s" using inv by (simp_all add: full_inv_def)
  have "Pc s' (CurrentThread s c) \<noteq> Halted" using lock_facts(6) [OF e c] cur by simp
  then have "stays s c s'" "keeps_mutexes s c s'" using k by simp_all
  then show ?thesis using e keeps_inv [OF I(1,2) c] stays_threads [OF I(1,3) c] by (simp add: full_inv_def)
qed

lemma acquire_mutex:
  assumes inv: "ex_inv cpus s" "inv_mutex cpus s" and c: "c \<in> cpus" and st: "local_step cpus c p s s'"
    and q: "cur_pc s c = AcquireFree m \<or> cur_pc s c = AcquireRelock m \<or> cur_pc s c = AcquireLoop m \<or> cur_pc s c = AcquireDone m"
    and r: "MutexAcquire c (CurrentThread s c) (cur_pc s c) s = Some s'" and nh: "p \<noteq> Halted"
  shows "inv_mutex cpus s'"
proof -
  let ?t = "CurrentThread s c"
  have Pc: "Pc s' = (Pc s)(?t := p)" using st by (simp add: local_step_def)
  have p: "p = Pc s' ?t" using Pc by simp
  have F: "mutex_ok s m ?t" "mutex_free_ok cpus s m" "?t \<noteq> 0" "\<And>ob. waits_for (cur_pc s c) = None \<Longrightarrow> ?t \<notin> set (WaitingList s ob)"
    using mutex_facts [OF inv c] by blast+
  have pc: "cur_pc s' d = (if d = c then p else cur_pc s d)" if "d \<in> cpus" for d by (rule local_pc(2) [OF ex_invD(1) [OF inv(1)] st that])
  have U: "mutex_ok s m u" if "u \<noteq> 0" for u using inv(2) that by (simp add: inv_mutex_def)
  consider (free) "cur_pc s c = AcquireFree m" "p = AcquireLoop m" "MutexHolder s m = 0" "s' = at_pc ?t p (set_depth m 1 (set_holder m ?t s))"
    | (keep) "cur_pc s c = AcquireFree m" "p = AcquireLoop m" "MutexHolder s m \<noteq> 0" "s' = at_pc ?t p s"
    | (relock) "cur_pc s c = AcquireRelock m" "p = AcquireLoop m" "s' = at_pc ?t p (set_object_lock (MutexAt m) c s)"
    | (queue) "cur_pc s c = AcquireLoop m" "p = QueueBlock (MutexAt m)" "MutexHolder s m \<noteq> ?t" "s' = at_pc ?t p (insert_waiting (MutexAt m) ?t s)"
    | (hold) "cur_pc s c = AcquireLoop m" "p = AcquireDone m" "MutexHolder s m = ?t" "s' = at_pc ?t p s"
    | (leave) "cur_pc s c = AcquireDone m" "p = Outside" "s' = at_pc ?t p (set_inside ?t m (Inside s ?t m + 1) (set_object_lock (MutexAt m) 0 s))"
    using q r nh unfolding p by (auto simp: locking_def unlocking_def queue_thread_def at_pc_def split: if_splits)
  then show ?thesis
  proof cases
    case free
    have no: "Inside s u m = 0" "busy (Pc s u) \<noteq> Some m \<or> Pc s u = AcquireLoop m \<or> u = ?t" if "u \<noteq> 0" for u
      using U [OF that] F(2) free(3) that by (auto simp: mutex_ok_def mutex_free_ok_def)
    have none: "WaitingList s (MutexAt m) = []" using F(2) free(3) by (simp add: mutex_free_ok_def)
    show ?thesis
    proof (rule mutex_change [OF inv st, where m = m])
      show "mutex_ok s' m u" if "u \<noteq> 0" for u
        using U [OF that] no [OF that] none free by (cases "u = ?t") (auto simp: mutex_ok_def set_defs)
      show "mutex_free_ok cpus s' m" using F(2,3) free(3,4) unfolding mutex_free_ok_def by (simp add: set_defs)
    qed (use free in \<open>simp_all add: set_defs\<close>)
  next
    case keep
    show ?thesis
    proof (rule mutex_change [OF inv st, where m = m])
      show "mutex_ok s' m u" if "u \<noteq> 0" for u using U [OF that] keep by (cases "u = ?t") (auto simp: mutex_ok_def set_defs)
      show "mutex_free_ok cpus s' m" using F(2) keep(3,4) unfolding mutex_free_ok_def by (simp add: set_defs)
    qed (use keep in \<open>simp_all add: set_defs\<close>)
  next
    case relock
    have h: "MutexHolder s m = ?t" using F(1) F(4) [of "MutexAt m"] relock(1) by (simp add: mutex_ok_def)
    show ?thesis
    proof (rule mutex_change [OF inv st, where m = m])
      show "mutex_ok s' m u" if "u \<noteq> 0" for u using U [OF that] relock h by (cases "u = ?t") (auto simp: mutex_ok_def set_defs)
      show "mutex_free_ok cpus s' m" using F(2,3) h relock(3) unfolding mutex_free_ok_def by (simp add: set_defs)
    qed (use relock in \<open>simp_all add: set_defs\<close>)
  next
    case queue
    have h: "MutexHolder s m \<noteq> 0" using F(2) c queue(1) by (auto simp: mutex_free_ok_def)
    show ?thesis
    proof (rule mutex_change [OF inv st, where m = m])
      show "mutex_ok s' m u" if "u \<noteq> 0" for u using U [OF that] queue by (cases "u = ?t") (auto simp: mutex_ok_def set_defs)
      show "mutex_free_ok cpus s' m" using F(2) h queue(4) unfolding mutex_free_ok_def by (simp add: set_defs)
    qed (use queue in \<open>simp_all add: set_defs\<close>)
  next
    case hold
    show ?thesis
    proof (rule mutex_change [OF inv st, where m = m])
      show "mutex_ok s' m u" if "u \<noteq> 0" for u using U [OF that] hold by (cases "u = ?t") (auto simp: mutex_ok_def set_defs)
      show "mutex_free_ok cpus s' m" using F(2,3) hold(3,4) unfolding mutex_free_ok_def by (simp add: set_defs)
    qed (use hold in \<open>simp_all add: set_defs\<close>)
  next
    case leave
    have h: "MutexHolder s m = ?t" using F(1) F(4) [of "MutexAt m"] leave(1) by (simp add: mutex_ok_def)
    show ?thesis
    proof (rule mutex_change [OF inv st, where m = m])
      show "mutex_ok s' m u" if "u \<noteq> 0" for u using U [OF that] leave h by (cases "u = ?t") (auto simp: mutex_ok_def set_defs)
      show "mutex_free_ok cpus s' m" using F(2,3) h leave(3) unfolding mutex_free_ok_def by (simp add: set_defs)
    qed (use leave in \<open>simp_all add: set_defs\<close>)
  qed
qed

lemma busy_entering: "busy p = Some m \<Longrightarrow> entering p = None"
  by (cases p) simp_all

lemma release_mutex:
  assumes inv: "ex_inv cpus s" "inv_mutex cpus s" and c: "c \<in> cpus" and st: "local_step cpus c p s s'"
    and q: "cur_pc s c = ReleaseWake m" and r: "MutexRelease c (CurrentThread s c) (cur_pc s c) s = Some s'"
  shows "inv_mutex cpus s'"
proof -
  let ?t = "CurrentThread s c"
  have Pc: "Pc s' = (Pc s)(?t := p)" using st by (simp add: local_step_def)
  have p: "p = Pc s' ?t" using Pc by simp
  have F: "mutex_ok s m ?t" "mutex_free_ok cpus s m" "?t \<noteq> 0" "?t \<notin> set (WaitingList s (MutexAt m))"
    using mutex_facts(1-3) [OF inv c] mutex_facts(4) [OF inv c] q by simp_all
  have h: "MutexHolder s m = ?t" "Inside s ?t m = 0" using F(1,4) q by (auto simp: mutex_ok_def)
  have U: "mutex_ok s m u" if "u \<noteq> 0" for u using inv(2) that by (simp add: inv_mutex_def)
  have zero: "Inside s u m = 0" if "u \<noteq> 0" for u using U [OF that] h by (cases "u = ?t") (simp_all add: mutex_ok_def)
  have other: "cur_pc s d \<noteq> AcquireLoop m" if "d \<in> cpus" for d
    using lock_facts(2) [OF inv(1) c, of "MutexAt m"] lock_facts(2) [OF inv(1) that, of "MutexAt m"] q by auto
  show ?thesis
  proof (cases "WaitingList s (MutexAt m)")
    case Nil
    then have s': "p = ReleaseDone m" "s' = at_pc ?t p (set_holder m 0 s)" using r q unfolding p by (auto simp: at_pc_def)
    show ?thesis
    proof (rule mutex_change [OF inv st, where m = m])
      show "mutex_ok s' m u" if "u \<noteq> 0" for u
        using U [OF that] zero [OF that] h Nil s' F(3) that by (cases "u = ?t") (auto simp: mutex_ok_def set_defs)
      have "cur_pc s' d \<noteq> AcquireLoop m" if "d \<in> cpus" for d
        using local_pc(2) [OF ex_invD(1) [OF inv(1)] st that] other [OF that] s'(1) by simp
      then show "mutex_free_ok cpus s' m" using F(2) Nil s' by (simp add: mutex_free_ok_def set_defs)
    qed (use s' q in \<open>simp_all add: set_defs\<close>)
  next
    case (Cons w ws)
    then have s': "p = Unblock (MutexAt m) w" "s' = at_pc ?t p (set_depth m 1 (set_holder m w (remove_waiting (MutexAt m) s)))"
      using r q unfolding p by (auto simp: at_pc_def)
    have w: "w \<noteq> ?t" "w \<notin> set ws" "busy (Pc s w) = Some m" "w \<noteq> 0"
      using Cons F(4) inv_queueD(3) [OF ex_invD(4) [OF inv(1)], where ob = "MutexAt m"]
        inv_queueD(4) [OF ex_invD(4) [OF inv(1)], where ob = "MutexAt m"] waits_busy by (auto simp: parked_def)
    show ?thesis
    proof (rule mutex_change [OF inv st, where m = m])
      show "mutex_ok s' m u" if "u \<noteq> 0" for u
        using U [OF that] zero [OF that] h Cons s' w busy_entering [OF w(3)] by (cases "u = ?t"; cases "u = w") (auto simp: mutex_ok_def set_defs)
      show "mutex_free_ok cpus s' m" using F(2) s' w(4) by (simp add: mutex_free_ok_def set_defs)
    qed (use s' q in \<open>simp_all add: set_defs\<close>)
  qed
qed

lemma acquire_full:
  assumes inv: "full_inv cpus ts s" and c: "c \<in> cpus" and r: "MutexAcquire c (CurrentThread s c) (cur_pc s c) s = Some s'"
  shows "full_inv cpus ts s'"
proof -
  have I: "ex_inv cpus s" "inv_mutex cpus s" "inv_threads cpus ts s" using inv by (simp_all add: full_inv_def)
  have e: "ex_inv cpus s'" by (rule acquire_inv [OF I(1) c r])
  have stay: "stays s c s'" using r by (cases "cur_pc s c") (auto simp: step_defs split: if_splits)
  then have "CurrentThread s' = CurrentThread s" by (simp add: stays_def)
  then have nh: "Pc s' (CurrentThread s c) \<noteq> Halted" using lock_facts(6) [OF e c] by simp
  have "inv_mutex cpus s'"
  proof (cases "\<exists>m. cur_pc s c = AcquireLock m")
    case True
    then have "keeps_mutexes s c s'" using r nh by (auto simp: step_defs split: if_splits)
    then show ?thesis by (rule keeps_inv [OF I(1,2) c stay])
  next
    case False
    then obtain m where "cur_pc s c = AcquireFree m \<or> cur_pc s c = AcquireRelock m \<or> cur_pc s c = AcquireLoop m \<or> cur_pc s c = AcquireDone m"
      using r by (cases "cur_pc s c") auto
    then show ?thesis by (rule acquire_mutex [OF I(1,2) c stays_local [OF stay c] _ r nh])
  qed
  then show ?thesis using e stays_threads [OF I(1,3) c stay] by (simp add: full_inv_def)
qed

lemma release_full:
  assumes inv: "full_inv cpus ts s" and c: "c \<in> cpus" and r: "MutexRelease c (CurrentThread s c) (cur_pc s c) s = Some s'"
  shows "full_inv cpus ts s'"
proof -
  have I: "ex_inv cpus s" "inv_mutex cpus s" "inv_threads cpus ts s" using inv by (simp_all add: full_inv_def)
  have e: "ex_inv cpus s'" by (rule release_inv [OF I(1) c r])
  have stay: "stays s c s'" using r by (cases "cur_pc s c") (auto simp: step_defs split: if_splits)
  then have "CurrentThread s' = CurrentThread s" by (simp add: stays_def)
  then have nh: "Pc s' (CurrentThread s c) \<noteq> Halted" using lock_facts(6) [OF e c] by simp
  have "inv_mutex cpus s'"
  proof (cases "\<exists>m. cur_pc s c = ReleaseWake m")
    case False
    then have "keeps_mutexes s c s'" using r nh by (cases "cur_pc s c") (auto simp: step_defs split: if_splits)
    then show ?thesis by (rule keeps_inv [OF I(1,2) c stay])
  next
    case True
    then show ?thesis using release_mutex [OF I(1,2) c stays_local [OF stay c] _ r] by blast
  qed
  then show ?thesis using e stays_threads [OF I(1,3) c stay] by (simp add: full_inv_def)
qed

text \<open>The steps that leave the mutexes alone.\<close>

lemma quiet_full:
  assumes inv: "full_inv cpus ts s" and c: "c \<in> cpus"
    and r: "ThreadUnblock c (CurrentThread s c) (cur_pc s c) s = Some s' \<or> ThreadTakeBlockLock c (CurrentThread s c) (cur_pc s c) s = Some s' \<or>
      ThreadCleanupPostSchedule c (CurrentThread s c) (cur_pc s c) s = Some s' \<or>
      ExEventWaitForSignal c (CurrentThread s c) (cur_pc s c) s = Some s' \<or> ExEventSignal c (CurrentThread s c) (cur_pc s c) s = Some s'"
  shows "full_inv cpus ts s'"
proof (rule keep_or_halt [OF inv c])
  have e: "ex_inv cpus s" using inv by (simp add: full_inv_def)
  show "ex_inv cpus s'"
    using r unblock_inv [OF e c] take_block_lock_inv [OF e c] cleanup_inv [OF e c] wait_inv [OF e c] signal_inv [OF e c] by blast
  show "stays s c s' \<and> keeps_mutexes s c s'" if "Pc s' (CurrentThread s c) \<noteq> Halted"
    using r that unblock_keeps take_block_keeps cleanup_keeps wait_keeps signal_keeps by blast
  show "CurrentThread s' = CurrentThread s"
    using r by (cases "cur_pc s c") (auto simp: step_defs split: if_splits)
qed

lemma enter_step:
  assumes inv: "full_inv cpus ts s" and c: "c \<in> cpus" and q: "cur_pc s c = Outside"
    and p: "p \<in> {WaitTest e, SignalLock e, YieldLock} \<or> p = AcquireLock m \<and> MutexHolder s m \<noteq> CurrentThread s c \<or>
      p = IdleTake \<and> CurrentThread s c = IdleThread s c"
    and ni: "CurrentThread s c \<noteq> IdleThread s c \<or> idle_pc p" and s': "s' = at_pc (CurrentThread s c) p s"
  shows "full_inv cpus ts s'"
proof -
  have I: "ex_inv cpus s" "inv_mutex cpus s" "inv_threads cpus ts s" using inv by (simp_all add: full_inv_def)
  have st: "local_step cpus c p s s'" by (rule local_stepI [OF c]) (simp_all add: s' at_pc_def)
  have P: "obj_held p = None" "\<not> ready_held p" "\<not> blocker p" "unblocks p = None" "\<not> cleaning p" "p \<noteq> Halted" "\<not> out p"
    "waits_for p = None" "target p = None" "busy p = None" "\<And>m. p \<noteq> AcquireLoop m" using p by auto
  have e: "ex_inv cpus s'"
    by (rule plain_step [OF I(1) c q st]) (use P ni in \<open>auto simp: s' at_pc_def\<close>)
  have "inv_mutex cpus s'"
  proof (cases "\<exists>m. p = AcquireLock m")
    case True
    then obtain m where m: "p = AcquireLock m" "MutexHolder s m \<noteq> CurrentThread s c" using p by auto
    have U: "mutex_ok s m u" if "u \<noteq> 0" for u using I(2) that by (simp add: inv_mutex_def)
    show ?thesis
    proof (rule mutex_change [OF I(1,2) st, where m = m])
      show "mutex_ok s' m u" if "u \<noteq> 0" for u
        using U [OF that] m q by (cases "u = CurrentThread s c") (auto simp: mutex_ok_def s' at_pc_def)
      have "cur_pc s' d \<noteq> AcquireLoop m" if "cur_pc s d \<noteq> AcquireLoop m" "d \<in> cpus" for d
        using local_pc(2) [OF ex_invD(1) [OF I(1)] st that(2)] that m by simp
      then show "mutex_free_ok cpus s' m"
        using mutex_facts(2) [OF I(1,2) c, of m] by (simp add: mutex_free_ok_def) (simp add: s' at_pc_def)
    qed (use m q in \<open>simp_all add: s' at_pc_def\<close>)
  next
    case False
    then have "entering p = None" using p by auto
    then have "keeps_mutexes s c s'" using P(10,11) q by (simp add: keeps_mutexes_def same_class_def s' at_pc_def)
    moreover have "local_step cpus c (Pc s' (CurrentThread s c)) s s'" using st by (simp add: s' at_pc_def)
    ultimately show ?thesis by (intro mutex_keep_local [OF I(1,2)]) (auto simp: keeps_mutexes_def)
  qed
  moreover have "inv_threads cpus ts s'"
  proof -
    have "Pc s' t = Pc s t" if "\<not> runs cpus s t" for t
    proof -
      have "t \<noteq> CurrentThread s c" using that c by auto
      then show ?thesis by (simp add: s' at_pc_def)
    qed
    moreover have "CurrentThread s' d = IdleThread s' d" if "d \<in> cpus" "idles (cur_pc s' d)" for d
    proof (cases "d = c")
      case True
      then have "idles p" using that local_pc(2) [OF ex_invD(1) [OF I(1)] st c] by simp
      then show ?thesis using p True by (auto simp: s' at_pc_def)
    next
      case False
      then show ?thesis using that local_pc(2) [OF ex_invD(1) [OF I(1)] st that(1)] I(3) by (simp add: inv_threads_def) (simp add: s' at_pc_def)
    qed
    ultimately show ?thesis using I(3) runs_cur [OF c, of s] unfolding inv_threads_def local_runs [OF st] local_idle [OF st]
      by (auto simp: s' at_pc_def)
  qed
  ultimately show ?thesis using e by (simp add: full_inv_def)
qed

lemma depth_full:
  assumes inv: "full_inv cpus ts s" and c: "c \<in> cpus" and q: "cur_pc s c = Outside" and ni: "CurrentThread s c \<noteq> IdleThread s c"
    and h: "MutexHolder s m = CurrentThread s c" and p: "p = Outside \<or> p = ReleaseLock m"
    and s': "s' = at_pc (CurrentThread s c) p (set_inside (CurrentThread s c) m i (set_depth m n s))"
    and d: "unat n = i + (if p = Outside then 0 else 1)" "p \<noteq> Outside \<longrightarrow> i = 0" "n \<noteq> 0 \<and> n \<le> MaxRecursivityDepth s m"
  shows "full_inv cpus ts s'"
proof -
  have I: "ex_inv cpus s" "inv_mutex cpus s" "inv_threads cpus ts s" using inv by (simp_all add: full_inv_def)
  have st: "local_step cpus c p s s'" by (rule local_stepI [OF c]) (simp_all add: s' set_defs)
  have e: "ex_inv cpus s'" by (rule plain_step [OF I(1) c q st]) (use p ni in \<open>auto simp: s' set_defs\<close>)
  have U: "mutex_ok s m u" if "u \<noteq> 0" for u using I(2) that by (simp add: inv_mutex_def)
  have "inv_mutex cpus s'"
  proof (rule mutex_change [OF I(1,2) st, where m = m])
    show "mutex_ok s' m u" if "u \<noteq> 0" for u
      using U [OF that] h p d q mutex_facts(4) [OF I(1,2) c, of "MutexAt m"]
      by (cases "u = CurrentThread s c") (auto simp: mutex_ok_def s' set_defs)
    show "mutex_free_ok cpus s' m"
      using mutex_facts(2,3) [OF I(1,2) c] h d(3) by (simp add: mutex_free_ok_def s' set_defs)
  qed (use p q in \<open>auto simp: s' set_defs\<close>)
  moreover have "stays s c s'" using p by (auto simp: stays_def s' set_defs)
  ultimately show ?thesis using e stays_threads [OF I(1,3) c] by (simp add: full_inv_def)
qed

lemma call_full:
  assumes inv: "full_inv cpus ts s" and c: "c \<in> cpus" and q: "cur_pc s c = Outside" and k: "may_call s c (CurrentThread s c) k"
  shows "full_inv cpus ts (calls (CurrentThread s c) k s)"
proof -
  let ?t = "CurrentThread s c"
  have I: "ex_inv cpus s" "inv_mutex cpus s" "inv_threads cpus ts s" using inv by (simp_all add: full_inv_def)
  show ?thesis
  proof (cases k)
    case (CallAcquire m)
    have F: "mutex_ok s m ?t" using mutex_facts(1) [OF I(1,2) c] by simp
    show ?thesis
    proof (cases "?t = MutexHolder s m")
      case True
      have d: "unat (CurrentRecursivityDepth s m) = Inside s ?t m" using F True q by (simp add: mutex_ok_def)
      then have lt: "CurrentRecursivityDepth s m < MaxRecursivityDepth s m" using k CallAcquire by (simp add: may_call_def word_less_nat_alt)
      have max: "unat (MaxRecursivityDepth s m) < 256" using unsigned_less [of "MaxRecursivityDepth s m"] by simp
      have un: "unat (CurrentRecursivityDepth s m + 1) = unat (CurrentRecursivityDepth s m) + 1"
        using lt max unat_add_small [of "CurrentRecursivityDepth s m" 1] by (simp add: word_less_nat_alt)
      have eq: "calls ?t k s = at_pc ?t Outside (set_inside ?t m (Inside s ?t m + 1) (set_depth m (CurrentRecursivityDepth s m + 1) s))"
        using CallAcquire True lt q by (intro machine.equality) (simp_all add: enter_acquire_def set_defs fun_upd_idem)
      show ?thesis
        by (rule depth_full [OF inv c q _ True [symmetric] _ eq])
          (use k CallAcquire un d lt in \<open>auto simp: may_call_def inc_le unat_eq_0 [symmetric] simp del: unat_eq_0\<close>)
    next
      case False
      then show ?thesis
        by (intro enter_step [OF inv c q, where p = "AcquireLock m"]) (use k CallAcquire in \<open>auto simp: may_call_def enter_acquire_def\<close>)
    qed
  next
    case (CallRelease m)
    have F: "mutex_ok s m ?t" using mutex_facts(1) [OF I(1,2) c] by simp
    have i: "0 < Inside s ?t m" "?t \<noteq> IdleThread s c" using k CallRelease by (simp_all add: may_call_def)
    then have h: "MutexHolder s m = ?t" using F by (auto simp: mutex_ok_def)
    have d: "unat (CurrentRecursivityDepth s m) = Inside s ?t m" using F h q by (simp add: mutex_ok_def)
    have mx: "CurrentRecursivityDepth s m \<noteq> 0" "CurrentRecursivityDepth s m \<le> MaxRecursivityDepth s m"
      using mutex_facts(2) [OF I(1,2) c, of m] mutex_facts(3) [OF I(1,2) c] h unfolding mutex_free_ok_def by auto
    show ?thesis
    proof (cases "1 < CurrentRecursivityDepth s m")
      case True
      have un: "unat (CurrentRecursivityDepth s m - 1) = unat (CurrentRecursivityDepth s m) - 1" using True unat_sub_small [of 1 "CurrentRecursivityDepth s m"] by (simp add: word_less_nat_alt word_le_nat_alt)
      have eq: "calls ?t k s = at_pc ?t Outside (set_inside ?t m (Inside s ?t m - 1) (set_depth m (CurrentRecursivityDepth s m - 1) s))"
        using CallRelease True h q by (intro machine.equality) (simp_all add: enter_release_def set_defs Let_def fun_upd_idem)
      show ?thesis
        by (rule depth_full [OF inv c q i(2) h _ eq]) (use un d mx True in \<open>auto simp: word_le_nat_alt word_less_nat_alt unat_eq_0 [symmetric] simp del: unat_eq_0\<close>)
    next
      case False
      then have "unat (CurrentRecursivityDepth s m) = 1" using i(1) d by (simp add: word_less_nat_alt)
      moreover have eq: "calls ?t k s = at_pc ?t (ReleaseLock m) (set_inside ?t m (Inside s ?t m - 1) (set_depth m (CurrentRecursivityDepth s m) s))"
        using CallRelease False h by (intro machine.equality) (simp_all add: enter_release_def set_defs Let_def fun_upd_idem)
      ultimately show ?thesis
        using mx by (intro depth_full [OF inv c q i(2) h _ eq]) (use d in auto)
    qed
  next
    case (CallWait e)
    then show ?thesis by (intro enter_step [OF inv c q, where p = "WaitTest e" and e = e]) (use k in \<open>auto simp: may_call_def\<close>)
  next
    case (CallSignal e)
    then show ?thesis by (intro enter_step [OF inv c q, where p = "SignalLock e" and e = e]) (use k in \<open>auto simp: may_call_def\<close>)
  next
    case CallYield
    then show ?thesis by (intro enter_step [OF inv c q, where p = YieldLock]) auto
  next
    case CallIdle
    then show ?thesis by (intro enter_step [OF inv c q, where p = IdleTake]) (use k in \<open>auto simp: may_call_def\<close>)
  next
    case (CallClear e)
    let ?s = "s\<lparr>Signaled := (Signaled s)(e := False)\<rparr>"
    have s': "calls ?t k s = ?s" using CallClear by simp
    have st: "local_step cpus c Outside s ?s" by (rule local_stepI [OF c]) (use q in \<open>auto simp: fun_eq_iff\<close>)
    have "ex_inv cpus ?s" by (rule plain_step [OF I(1) c q st]) simp_all
    moreover have "stays s c ?s" "keeps_mutexes s c ?s" using q by (auto simp: stays_def keeps_mutexes_def same_class_def fun_eq_iff)
    ultimately show ?thesis
      unfolding s' using keeps_inv [OF I(1,2) c] stays_threads [OF I(1,3) c] by (simp add: full_inv_def)
  qed
qed

lemma ex_step_full:
  assumes "full_inv cpus ts s" "ex_step cpus s s'"
  shows "full_inv cpus ts s'"
  using assms(2,1)
proof cases
  case (call c k)
  then show ?thesis using call_full assms(1) by blast
next
  case (acquire c)
  then show ?thesis using acquire_full assms(1) by blast
next
  case (release c)
  then show ?thesis using release_full assms(1) by blast
next
  case (block c)
  then show ?thesis using block_full assms(1) by blast
next
  case (yield c)
  then show ?thesis using yield_full assms(1) by blast
qed (use quiet_full [OF assms(1)] in blast)+

section \<open>Reachable states\<close>

definition thread_set :: "u64 set \<Rightarrow> machine \<Rightarrow> u64 set" where
  "thread_set cpus s = IdleThread s ` cpus \<union> set (ReadyThreadsList s)"

lemma start_full:
  assumes "ex_start cpus s"
  shows "full_inv cpus (thread_set cpus s) s"
proof -
  have S: "0 \<notin> cpus" "inj_on (IdleThread s) cpus" "\<And>c. c \<in> cpus \<Longrightarrow> CurrentThread s c = IdleThread s c \<and> IdleThread s c \<noteq> 0 \<and>
      IdleThread s c \<notin> set (ReadyThreadsList s) \<and> Pc s (IdleThread s c) = Outside"
    "distinct (ReadyThreadsList s)" "\<And>t. t \<in> set (ReadyThreadsList s) \<Longrightarrow> t \<noteq> 0 \<and> Pc s t = Cleanup ResumeRun"
    "\<And>t. t \<notin> thread_set cpus s \<Longrightarrow> Pc s t = Outside"
    "ReadyThreadsLock s = 0" "\<And>t. BlockLock s t = 0" "\<And>t. Linked s t = (t \<in> set (ReadyThreadsList s))"
    "\<And>ob. ObjectLock s ob = 0 \<and> WaitingList s ob = []"
    "\<And>m. MutexHolder s m = 0 \<and> 1 \<le> MaxRecursivityDepth s m \<and> (\<forall>t. Inside s t m = 0)"
    using assms unfolding ex_start_def thread_set_def by blast+
  have cur: "cur_pc s c = Outside" if "c \<in> cpus" for c using S(3) [OF that] by simp
  have pcs: "Pc s t = Outside \<or> Pc s t = Cleanup ResumeRun" for t
  proof -
    consider c where "c \<in> cpus" "t = IdleThread s c" | "t \<in> set (ReadyThreadsList s)" | "t \<notin> thread_set cpus s"
      by (auto simp: thread_set_def)
    then show ?thesis by cases (use S(3,5,6) in blast)+
  qed
  then have nb: "busy (Pc s t) = None \<and> entering (Pc s t) = None \<and> Pc s t \<noteq> AcquireLoop m" for t m
    by (metis busy.simps entering.simps pc.distinct)
  have np: "\<not> parked cpus s t ob" for t ob using pcs [of t] by (auto simp: parked_def)
  have runs: "runs cpus s t = idle cpus s t" for t using S(3) by (auto simp: runs_def idle_def)
  have "inj_on (CurrentThread s) cpus" using S(2,3) by (simp add: inj_on_def)
  then have "inv_cpus cpus s" using S(1-3) cur by (simp add: inv_cpus_def)
  moreover have "inv_locks cpus s" using S(1,7,10) cur by (auto simp: inv_locks_def)
  moreover have "inv_block cpus s" using S(1,8) cur by (auto simp: inv_block_def)
  moreover have "inv_queue cpus s"
    by (rule inv_queueI) (use S(3-5,9,10) cur runs in \<open>auto simp: idle_def\<close>)
  moreover have "inv_wait cpus s" using np by (simp add: inv_wait_def)
  moreover have "inv_mutex cpus s"
    using S(10,11) cur pcs unfolding inv_mutex_def mutex_ok_def mutex_free_ok_def by (auto, metis busy.simps(17) busy.simps option.distinct(1))
  moreover have "inv_threads cpus (thread_set cpus s) s"
    using S(3,5) cur by (auto simp: inv_threads_def thread_set_def runs_def idle_def)
  ultimately show ?thesis by (simp add: full_inv_def ex_inv_def)
qed

lemma reach_full: "ex_reach cpus s0 s \<Longrightarrow> full_inv cpus (thread_set cpus s0) s"
  by (induction rule: ex_reach.induct) (auto intro: start_full ex_step_full)

text \<open>C1: whatever the processors do in whatever order, no assertion fails and no list is corrupted: no thread runs on two
  processors, none that runs is ready, and the entry of a thread is in at most one place of at most one list.\<close>

theorem scheduler_safe:
  assumes "ex_reach cpus s0 s"
  shows "inj_on (CurrentThread s) cpus \<and> (\<forall>c \<in> cpus. Pc s (CurrentThread s c) \<noteq> Halted) \<and>
    distinct (ReadyThreadsList s) \<and> (\<forall>c \<in> cpus. CurrentThread s c \<notin> set (ReadyThreadsList s)) \<and>
    (\<forall>ob. distinct (WaitingList s ob) \<and> set (WaitingList s ob) \<inter> set (ReadyThreadsList s) = {}) \<and>
    (\<forall>ob ob'. ob \<noteq> ob' \<longrightarrow> set (WaitingList s ob) \<inter> set (WaitingList s ob') = {})"
proof -
  have e: "ex_inv cpus s" using reach_full [OF assms] by (simp add: full_inv_def)
  note Q = inv_queueD [OF ex_invD(4) [OF e]]
  have "set (WaitingList s ob) \<inter> set (WaitingList s ob') = {}" if "ob \<noteq> ob'" for ob ob'
    using Q(4) parked_object that by blast
  moreover have "set (WaitingList s ob) \<inter> set (ReadyThreadsList s) = {}" for ob using Q(4) by blast
  ultimately show ?thesis
    using ex_invD(1) [OF e] Q(1,3) cur_not_ready [OF e] unfolding inv_cpus_def by blast
qed

text \<open>C2: a thread that is inside a mutex is its holder, no other thread is inside, and it is inside exactly as often as the counter
  of the mutex says, which never exceeds the depth the mutex allows; and a mutex does not stay with a thread that has left it:
  its holder is inside or, in \<open>MutexAcquire\<close> or \<open>MutexRelease\<close>, about to get inside or to give it up.\<close>

theorem mutex_exclusive:
  assumes "ex_reach cpus s0 s" "t \<in> thread_set cpus s0"
  shows "(0 < Inside s t m \<longrightarrow> MutexHolder s m = t \<and> (\<forall>u \<in> thread_set cpus s0. u \<noteq> t \<longrightarrow> Inside s u m = 0) \<and>
      unat (CurrentRecursivityDepth s m) = Inside s t m \<and> Inside s t m \<le> unat (MaxRecursivityDepth s m)) \<and>
    (MutexHolder s m = t \<longrightarrow> 0 < Inside s t m \<or> busy (Pc s t) = Some m)"
proof (intro conjI impI)
  have f: "inv_mutex cpus s" "inv_threads cpus (thread_set cpus s0) s" using reach_full [OF assms(1)] by (simp_all add: full_inv_def)
  have M: "mutex_ok s m u" if "u \<in> thread_set cpus s0" for u using f that by (simp add: inv_mutex_def inv_threads_def)
  have "t \<noteq> 0" using f(2) assms(2) by (simp add: inv_threads_def)
  then have D: "CurrentRecursivityDepth s m \<noteq> 0 \<and> CurrentRecursivityDepth s m \<le> MaxRecursivityDepth s m" if "MutexHolder s m = t"
    using f(1) that by (simp add: inv_mutex_def mutex_free_ok_def)
  show "0 < Inside s t m \<or> busy (Pc s t) = Some m" if "MutexHolder s m = t"
  proof -
    have "0 < unat (CurrentRecursivityDepth s m)" using D [OF that] by (simp add: unat_gt_0)
    then show ?thesis using M [OF assms(2)] that by (auto simp: mutex_ok_def split: if_splits)
  qed
  assume i: "0 < Inside s t m"
  show h: "MutexHolder s m = t" using M [OF assms(2)] i by (auto simp: mutex_ok_def)
  show "\<forall>u \<in> thread_set cpus s0. u \<noteq> t \<longrightarrow> Inside s u m = 0" using M h by (auto simp: mutex_ok_def)
  show d: "unat (CurrentRecursivityDepth s m) = Inside s t m" using M [OF assms(2)] h i by (auto simp: mutex_ok_def)
  show "Inside s t m \<le> unat (MaxRecursivityDepth s m)" using D [OF h] d by (simp add: word_le_nat_alt)
qed

text \<open>C3: no thread is ever lost: it runs, is an idle thread, is ready, waits in the list of a mutex or event, or has been taken out
  of one by a thread that is about to make it ready.\<close>

theorem no_thread_lost:
  assumes "ex_reach cpus s0 s" "t \<in> thread_set cpus s0"
  shows "(\<exists>c \<in> cpus. CurrentThread s c = t) \<or> (\<exists>c \<in> cpus. IdleThread s c = t) \<or> t \<in> set (ReadyThreadsList s) \<or>
    (\<exists>ob. t \<in> set (WaitingList s ob)) \<or> (\<exists>c \<in> cpus. \<exists>ob. target (Pc s (CurrentThread s c)) = Some (ob, t))"
proof -
  have f: "ex_inv cpus s" "inv_threads cpus (thread_set cpus s0) s" using reach_full [OF assms(1)] by (simp_all add: full_inv_def)
  consider "runs cpus s t" | "idle cpus s t" | "t \<in> set (ReadyThreadsList s)" | ob where "waits_for (Pc s t) = Some ob" "out (Pc s t)" "\<not> runs cpus s t" "t \<noteq> 0"
    using f(2) assms(2) unfolding inv_threads_def by blast
  then show ?thesis
  proof cases
    case 4
    then have "parked cpus s t ob" by (simp add: parked_def)
    then show ?thesis using ex_invD(5) [OF f(1)] unfolding inv_wait_def by blast
  qed (auto simp: runs_def idle_def)
qed

section \<open>Handing a mutex over\<close>

text \<open>The threads that wait for the mutex and its holder, before and after a step.\<close>

definition in_order :: "machine \<Rightarrow> machine \<Rightarrow> u64 \<Rightarrow> bool" where
  "in_order s s' m \<longleftrightarrow> (let ws = WaitingList s (MutexAt m); ws' = WaitingList s' (MutexAt m); h = MutexHolder s m; h' = MutexHolder s' m in
     h' = h \<and> (ws' = ws \<or> (\<exists>t. ws' = ws @ [t])) \<or> ws = [] \<and> ws' = [] \<or> ws \<noteq> [] \<and> ws' = tl ws \<and> h' = hd ws)"

lemma in_order_same: "WaitingList s' (MutexAt m) = WaitingList s (MutexAt m) \<Longrightarrow> MutexHolder s' m = MutexHolder s m \<Longrightarrow> in_order s s' m"
  by (simp add: in_order_def)

lemmas order_defs = set_defs locking_def unlocking_def

lemma schedule_waits [simp]: "WaitingList (ThreadSchedule c t r s) = WaitingList s" "MutexHolder (ThreadSchedule c t r s) = MutexHolder s"
  by (simp_all add: ThreadSchedule_def ThreadGetReadyThread_def set_defs Let_def)

lemma queue_order: "WaitingList (queue_thread t ob s) (MutexAt m) = WaitingList s (MutexAt m) \<or>
    WaitingList (queue_thread t ob s) (MutexAt m) = WaitingList s (MutexAt m) @ [t]" "MutexHolder (queue_thread t ob s) = MutexHolder s"
  by (simp_all add: set_defs)

lemma acquire_order:
  assumes "MutexAcquire c t p s = Some s'" "mutex_free_ok cpus s m"
  shows "in_order s s' m"
proof (cases "(c, t, p, s)" rule: MutexAcquire.cases)
  case (2 c' t' m' s'')
  then show ?thesis using assms
    by (cases "MutexHolder s m' = 0"; cases "m' = m") (auto simp: in_order_def mutex_free_ok_def order_defs Let_def)
next
  case (3 c' t' m' s'')
  then show ?thesis using assms queue_order(1) [of t "MutexAt m'" s m] queue_order(2) [of t "MutexAt m'" s] by (auto simp: in_order_def at_pc_def split: if_splits)
qed (use assms in \<open>auto intro!: in_order_same simp: order_defs split: if_splits\<close>)

lemma release_order:
  assumes "MutexRelease c t p s = Some s'"
  shows "in_order s s' m"
proof (cases "(c, t, p, s)" rule: MutexRelease.cases)
  case (2 c' t' m' s'')
  then show ?thesis using assms
    by (cases "WaitingList s (MutexAt m') = []"; cases "m' = m") (auto simp: in_order_def order_defs Let_def)
qed (use assms in \<open>auto intro!: in_order_same simp: order_defs split: if_splits\<close>)

lemma wait_order: "ExEventWaitForSignal c t p s = Some s' \<Longrightarrow> in_order s s' m"
  by (cases "(c, t, p, s)" rule: ExEventWaitForSignal.cases) (auto intro!: in_order_same simp: order_defs split: if_splits)

lemma signal_order: "ExEventSignal c t p s = Some s' \<Longrightarrow> in_order s s' m"
  by (cases "(c, t, p, s)" rule: ExEventSignal.cases) (auto intro!: in_order_same simp: order_defs Let_def split: if_splits)

lemma queueing_order: "ThreadTakeBlockLock c t p s = Some s' \<Longrightarrow> in_order s s' m"
  by (cases "(c, t, p, s)" rule: ThreadTakeBlockLock.cases) (auto intro!: in_order_same simp: order_defs split: if_splits)

lemma block_order: "ThreadBlock c t p s = Some s' \<Longrightarrow> in_order s s' m"
  by (cases "(c, t, p, s)" rule: ThreadBlock.cases) (auto intro!: in_order_same simp: order_defs split: if_splits)

lemma yield_order: "ThreadYield c t p s = Some s' \<Longrightarrow> in_order s s' m"
  by (cases "(c, t, p, s)" rule: ThreadYield.cases) (auto intro!: in_order_same simp: order_defs split: if_splits)

lemma unblock_order: "ThreadUnblock c t p s = Some s' \<Longrightarrow> in_order s s' m"
  by (cases "(c, t, p, s)" rule: ThreadUnblock.cases) (auto intro!: in_order_same simp: order_defs split: if_splits)

lemma cleanup_order: "ThreadCleanupPostSchedule c t p s = Some s' \<Longrightarrow> in_order s s' m"
  by (cases "(c, t, p, s)" rule: ThreadCleanupPostSchedule.cases) (auto intro!: in_order_same simp: order_defs Let_def split: if_splits)

lemma calls_order: "in_order s (calls t k s) m"
  by (cases k) (auto intro!: in_order_same simp: order_defs enter_acquire_def enter_release_def Let_def)

lemma step_order:
  assumes "ex_step cpus s s'" "\<And>m. mutex_free_ok cpus s m"
  shows "in_order s s' m"
  using assms(1)
proof cases
  case (call c k)
  then show ?thesis by (simp add: calls_order)
next
  case (acquire c)
  then show ?thesis using acquire_order assms(2) by blast
qed (rule release_order wait_order signal_order queueing_order block_order yield_order unblock_order cleanup_order, assumption)+

text \<open>C4: a mutex is handed over in the order of arrival: while threads wait for it, they stay in their order behind the holder, and when
  it changes the holder is the first of them. Only a mutex nobody waits for becomes free or is taken by a thread that has
  not waited.\<close>

theorem mutex_hand_over:
  assumes "ex_reach cpus s0 s" "ex_step cpus s s'"
  shows "MutexHolder s' m = MutexHolder s m \<and>
      (WaitingList s' (MutexAt m) = WaitingList s (MutexAt m) \<or> (\<exists>t. WaitingList s' (MutexAt m) = WaitingList s (MutexAt m) @ [t])) \<or>
    WaitingList s (MutexAt m) = [] \<and> WaitingList s' (MutexAt m) = [] \<or>
    (\<exists>t ws. WaitingList s (MutexAt m) = t # ws \<and> WaitingList s' (MutexAt m) = ws \<and> MutexHolder s' m = t)"
proof -
  have "in_order s s' m"
    by (rule step_order [OF assms(2)]) (use reach_full [OF assms(1)] in \<open>simp add: full_inv_def inv_mutex_def\<close>)
  then show ?thesis
    by (cases "WaitingList s (MutexAt m)") (auto simp: in_order_def Let_def)
qed

end
