(* ===== verification/EventWakeup.thy ===== *)
theory EventWakeup
  imports Executive
begin

text \<open>
  The lost wake-up of \<open>ExEventWaitForSignal\<close> (\<open>HAL9000/src/executive/ex_event.c\<close>): the function tests \<open>Signaled\<close> before it
  takes \<open>EventLock\<close> and does not test it again under the lock. The theorem is about every reachable state of theory
  \<open>Scheduler\<close> in which a signal has come in between.
\<close>

section \<open>Steps that wake no thread\<close>

text \<open>A thread is inside \<open>ExEventSignal\<close> on the event.\<close>

fun signalling :: "u64 \<Rightarrow> pc \<Rightarrow> bool" where
  "signalling e (SignalLock e') = (e' = e)"
| "signalling e (SignalSet e') = (e' = e)"
| "signalling e (SignalNext e') = (e' = e)"
| "signalling e (SignalDone e') = (e' = e)"
| "signalling e (Unblock ob u) = (ob = EventAt e)"
| "signalling e (UnblockReady ob u) = (ob = EventAt e)"
| "signalling e (UnblockInsert ob u) = (ob = EventAt e)"
| "signalling e (UnblockLeave ob u) = (ob = EventAt e)"
| "signalling e (UnblockDone ob u) = (ob = EventAt e)"
| "signalling e p = False"

text \<open>Runs in which no thread calls \<open>ExEventSignal\<close> on the event.\<close>

inductive quiet_run :: "u64 set \<Rightarrow> u64 \<Rightarrow> machine \<Rightarrow> machine \<Rightarrow> bool" for cpus e s where
  here: "quiet_run cpus e s s"
| later: "quiet_run cpus e s s' \<Longrightarrow> ex_step cpus s' s'' \<Longrightarrow> \<forall>u. Pc s'' u \<noteq> SignalLock e \<Longrightarrow> quiet_run cpus e s s''"

text \<open>No thread leaves the list of the event, and a thread that is now signalling it was before, or has just called.\<close>

definition wakes_none :: "u64 \<Rightarrow> machine \<Rightarrow> machine \<Rightarrow> bool" where
  "wakes_none e s s' \<longleftrightarrow> set (WaitingList s (EventAt e)) \<subseteq> set (WaitingList s' (EventAt e)) \<and>
     (\<forall>u. signalling e (Pc s' u) \<longrightarrow> signalling e (Pc s u) \<or> Pc s' u = SignalLock e)"

lemma schedule_pc [simp]: "Pc (ThreadSchedule c t r s) = (Pc s)(t := Cleanup r)"
  by (simp add: ThreadSchedule_def ThreadGetReadyThread_def set_defs Let_def)

lemmas wake_defs = wakes_none_def order_defs Let_def

lemma signalling_resume [simp]: "\<not> signalling e (resume_pc s r)"
  by (simp add: resume_pc_def split: resume.split)

lemma acquire_wakes_none: "MutexAcquire c t p s = Some s' \<Longrightarrow> wakes_none e s s'"
  by (cases "(c, t, p, s)" rule: MutexAcquire.cases) (auto simp: wake_defs split: if_splits)

lemma release_wakes_none: "MutexRelease c t p s = Some s' \<Longrightarrow> wakes_none e s s'"
  by (cases "(c, t, p, s)" rule: MutexRelease.cases) (auto simp: wake_defs split: if_splits)

lemma wait_wakes_none: "ExEventWaitForSignal c t p s = Some s' \<Longrightarrow> wakes_none e s s'"
  by (cases "(c, t, p, s)" rule: ExEventWaitForSignal.cases) (auto simp: wake_defs split: if_splits)

lemma signal_wakes_none: "ExEventSignal c t (Pc s t) s = Some s' \<Longrightarrow> \<not> signalling e (Pc s t) \<Longrightarrow> wakes_none e s s'"
  by (cases "Pc s t") (auto simp: wake_defs split: if_splits)

lemma queueing_wakes_none: "ThreadTakeBlockLock c t p s = Some s' \<Longrightarrow> wakes_none e s s'"
  by (cases "(c, t, p, s)" rule: ThreadTakeBlockLock.cases) (auto simp: wake_defs split: if_splits)

lemma block_wakes_none: "ThreadBlock c t p s = Some s' \<Longrightarrow> wakes_none e s s'"
  by (cases "(c, t, p, s)" rule: ThreadBlock.cases) (auto simp: wake_defs split: if_splits)

lemma yield_wakes_none: "ThreadYield c t p s = Some s' \<Longrightarrow> wakes_none e s s'"
  by (cases "(c, t, p, s)" rule: ThreadYield.cases) (auto simp: wake_defs split: if_splits)

lemma unblock_wakes_none: "ThreadUnblock c t (Pc s t) s = Some s' \<Longrightarrow> \<not> signalling e (Pc s t) \<Longrightarrow> wakes_none e s s'"
  by (cases "Pc s t") (auto simp: wake_defs unblocked_pc_def split: if_splits wait_object.splits)

lemma cleanup_wakes_none: "ThreadCleanupPostSchedule c t p s = Some s' \<Longrightarrow> wakes_none e s s'"
  by (cases "(c, t, p, s)" rule: ThreadCleanupPostSchedule.cases) (auto simp: wake_defs split: if_splits)

lemma calls_wakes_none: "wakes_none e s (calls t k s)"
  by (cases k) (auto simp: wake_defs enter_acquire_def enter_release_def)

lemma step_wakes_none:
  assumes "ex_step cpus s s'" "\<forall>u. \<not> signalling e (Pc s u)"
  shows "wakes_none e s s'"
  using assms(1)
proof cases
  case (signal c)
  then show ?thesis using signal_wakes_none assms(2) by blast
next
  case (unblock c)
  then show ?thesis using unblock_wakes_none assms(2) by blast
qed (auto intro: calls_wakes_none acquire_wakes_none release_wakes_none wait_wakes_none queueing_wakes_none block_wakes_none
    yield_wakes_none cleanup_wakes_none)

lemma quiet_run_waits:
  assumes "quiet_run cpus e s s'" "t \<in> set (WaitingList s (EventAt e))" "\<forall>u. \<not> signalling e (Pc s u)"
  shows "t \<in> set (WaitingList s' (EventAt e)) \<and> (\<forall>u. \<not> signalling e (Pc s' u))"
  using assms(1)
proof induction
  case here
  then show ?case using assms(2,3) by simp
next
  case (later s' s'')
  then show ?case using step_wakes_none [of cpus s' s'' e] by (auto simp: wakes_none_def)
qed

lemma quiet_run_reach: "quiet_run cpus e s s' \<Longrightarrow> ex_reach cpus s0 s \<Longrightarrow> ex_reach cpus s0 s'"
  by (induction rule: quiet_run.induct) (auto intro: ex_reach.step)

text \<open>The step that puts the thread into the list.\<close>

lemma insert_step:
  assumes "ex_reach cpus s0 s" "c \<in> cpus" "Pc s t = WaitInsert e" "CurrentThread s c = t"
  obtains s1 where "s1 = at_pc t (QueueBlock (EventAt e)) (insert_waiting (EventAt e) t s)" "ex_step cpus s s1"
    "ExEventWaitForSignal c t (Pc s t) s = Some s1"
proof -
  have i: "ex_inv cpus s" using reach_full [OF assms(1)] by (simp add: full_inv_def)
  have "\<not> Linked s (CurrentThread s c)" by (rule not_linked [OF i assms(2)]) (simp add: assms(3,4))
  then have "ExEventWaitForSignal c (CurrentThread s c) (cur_pc s c) s
      = Some (at_pc t (QueueBlock (EventAt e)) (insert_waiting (EventAt e) t s))"
    using assms(3,4) by (simp add: queue_thread_def)
  then show thesis using that ex_step.wait [OF assms(2)] assms(4) by blast
qed

section \<open>Property\<close>

text \<open>C5: a wake-up can get lost: when an event has been signalled since a thread in \<open>ExEventWaitForSignal\<close> has tested it, and no
  call of \<open>ExEventSignal\<close> on it is under way, then the thread goes on to put itself into the list of the signalled event,
  and whatever all processors do after that, it stays there, inside the call, as long as nobody signals the event
  another time.\<close>

theorem event_wakeup_lost:
  assumes "ex_reach cpus s0 s" "c \<in> cpus" "CurrentThread s c = t" "Pc s t = WaitInsert e" "Signaled s e"
    and "\<forall>u. \<not> signalling e (Pc s u)"
  shows "\<exists>s1. ExEventWaitForSignal c t (Pc s t) s = Some s1 \<and> Signaled s1 e \<and>
    (\<forall>s'. quiet_run cpus e s1 s' \<longrightarrow> t \<in> set (WaitingList s' (EventAt e)) \<and> waits_for (Pc s' t) = Some (EventAt e))"
proof -
  obtain s1 where s1: "s1 = at_pc t (QueueBlock (EventAt e)) (insert_waiting (EventAt e) t s)" "ex_step cpus s s1"
    "ExEventWaitForSignal c t (Pc s t) s = Some s1"
    using insert_step [OF assms(1,2,4,3)] by blast
  have q: "Signaled s1 e" "t \<in> set (WaitingList s1 (EventAt e))" "\<forall>u. \<not> signalling e (Pc s1 u)"
    using assms(5,6) by (simp_all add: s1(1) order_defs)
  have "t \<in> set (WaitingList s' (EventAt e)) \<and> waits_for (Pc s' t) = Some (EventAt e)" if r: "quiet_run cpus e s1 s'" for s'
  proof -
    have "ex_reach cpus s0 s'" by (rule quiet_run_reach [OF r ex_reach.step [OF assms(1) s1(2)]])
    then have "inv_queue cpus s'" using reach_full ex_invD(4) unfolding full_inv_def by blast
    moreover have w: "t \<in> set (WaitingList s' (EventAt e))" using quiet_run_waits [OF r q(2,3)] by simp
    ultimately show ?thesis using inv_queueD(4) [OF _ w] by (simp add: parked_def)
  qed
  then show ?thesis using s1(3) q(1) by blast
qed

end
