(* ===== verification/ExecutiveRuns.thy ===== *)
theory ExecutiveRuns
  imports EventWakeup
begin

text \<open>
  Runs of the model of theory \<open>Scheduler\<close> on two processors and two threads, by a function that performs a sequence
  of actions and is sound for \<open>ex_step\<close>: the inputs at which the theorems of the theories \<open>Executive\<close> and
  \<open>EventWakeup\<close> apply.
\<close>

section \<open>Running the model\<close>

text \<open>An action of the processor \<open>c\<close>: the call of a function, or the next step inside the one its thread is in.\<close>

datatype action = Call call | Go

definition go :: "u64 \<Rightarrow> machine \<Rightarrow> machine option" where
  "go c s = (let t = CurrentThread s c; p = Pc s t in
     case p of
       AcquireLock _ \<Rightarrow> MutexAcquire c t p s | AcquireFree _ \<Rightarrow> MutexAcquire c t p s | AcquireLoop _ \<Rightarrow> MutexAcquire c t p s
     | AcquireRelock _ \<Rightarrow> MutexAcquire c t p s | AcquireDone _ \<Rightarrow> MutexAcquire c t p s
     | ReleaseLock _ \<Rightarrow> MutexRelease c t p s | ReleaseWake _ \<Rightarrow> MutexRelease c t p s | ReleaseDone _ \<Rightarrow> MutexRelease c t p s
     | WaitTest _ \<Rightarrow> ExEventWaitForSignal c t p s | WaitLock _ \<Rightarrow> ExEventWaitForSignal c t p s
     | WaitInsert _ \<Rightarrow> ExEventWaitForSignal c t p s
     | SignalLock _ \<Rightarrow> ExEventSignal c t p s | SignalSet _ \<Rightarrow> ExEventSignal c t p s | SignalNext _ \<Rightarrow> ExEventSignal c t p s
     | SignalDone _ \<Rightarrow> ExEventSignal c t p s
     | QueueBlock _ \<Rightarrow> ThreadTakeBlockLock c t p s | QueueUnlock _ \<Rightarrow> ThreadTakeBlockLock c t p s | IdleTake \<Rightarrow> ThreadTakeBlockLock c t p s
     | Block _ \<Rightarrow> ThreadBlock c t p s | BlockLocking _ \<Rightarrow> ThreadBlock c t p s | Schedule _ \<Rightarrow> ThreadBlock c t p s
     | YieldLock \<Rightarrow> ThreadYield c t p s | YieldInsert \<Rightarrow> ThreadYield c t p s
     | Cleanup _ \<Rightarrow> ThreadCleanupPostSchedule c t p s | CleanupBlock _ \<Rightarrow> ThreadCleanupPostSchedule c t p s
     | Outside \<Rightarrow> None | Halted \<Rightarrow> None
     | _ \<Rightarrow> ThreadUnblock c t p s)"

definition act :: "u64 \<Rightarrow> action \<Rightarrow> machine \<Rightarrow> machine option" where
  "act c a s = (case a of
     Go \<Rightarrow> go c s
   | Call k \<Rightarrow> if Pc s (CurrentThread s c) = Outside \<and> may_call s c (CurrentThread s c) k
       then Some (calls (CurrentThread s c) k s) else None)"

fun perform :: "(u64 \<times> action) list \<Rightarrow> machine \<Rightarrow> machine option" where
  "perform [] s = Some s"
| "perform ((c, a) # as) s = (case act c a s of None \<Rightarrow> None | Some s' \<Rightarrow> perform as s')"

lemma act_step: "act c a s = Some s' \<Longrightarrow> c \<in> cpus \<Longrightarrow> ex_step cpus s s'"
proof (cases a)
  case (Call k)
  then show "act c a s = Some s' \<Longrightarrow> c \<in> cpus \<Longrightarrow> ex_step cpus s s'"
    by (auto simp: act_def intro: ex_step.call split: if_splits)
next
  case Go
  assume "act c a s = Some s'" "c \<in> cpus"
  then show ?thesis using Go
    by (cases "Pc s (CurrentThread s c)") (auto simp: act_def go_def Let_def simp del: MutexAcquire.simps MutexRelease.simps
      ExEventWaitForSignal.simps ExEventSignal.simps ThreadTakeBlockLock.simps ThreadBlock.simps ThreadYield.simps ThreadUnblock.simps
      ThreadCleanupPostSchedule.simps
      intro: ex_step.intros(2-10) [of c cpus s s'])
qed

lemma perform_reach: "perform as s = Some s' \<Longrightarrow> ex_reach cpus s0 s \<Longrightarrow> fst ` set as \<subseteq> cpus \<Longrightarrow> ex_reach cpus s0 s'"
proof (induction as s rule: perform.induct)
  case (2 c a as s)
  then show ?case by (auto split: option.splits intro: ex_reach.step act_step)
qed simp

section \<open>Two processors and two threads\<close>

definition two_threads :: machine where
  "two_threads = \<lparr>CurrentThread = (\<lambda>c. c + 10), PreviousThread = (\<lambda>c. 0), IdleThread = (\<lambda>c. c + 10), ReadyThreadsLock = 0,
     ReadyThreadsList = [21, 22], ThreadState = (\<lambda>t. ThreadStateReady), BlockLock = (\<lambda>t. 0), Linked = (\<lambda>t. t = 21 \<or> t = 22),
     ObjectLock = (\<lambda>ob. 0), WaitingList = (\<lambda>ob. []), MutexHolder = (\<lambda>m. 0), CurrentRecursivityDepth = (\<lambda>m. 0),
     MaxRecursivityDepth = (\<lambda>m. 2), EventType = (\<lambda>e. ExEventTypeNotification), Signaled = (\<lambda>e. False),
     Pc = (\<lambda>t. if t = 21 \<or> t = 22 then Cleanup ResumeRun else Outside), Inside = (\<lambda>t m. 0)\<rparr>"

lemma two_threads_start: "ex_reach {1, 2} two_threads two_threads"
  by (rule ex_reach.start) (simp add: ex_start_def two_threads_def inj_on_def)

text \<open>Each processor leaves its idle thread for one of the two.\<close>

definition dispatch :: "(u64 \<times> action) list" where
  "dispatch = map (Pair 1) [Call CallYield, Go, Go, Go, Go] @ map (Pair 2) [Call CallYield, Go, Go, Go, Go]"

definition two_running :: machine where
  "two_running = two_threads\<lparr>CurrentThread := (\<lambda>c. if c = 1 then 21 else if c = 2 then 22 else c + 10),
     PreviousThread := (\<lambda>c. if c = 1 then 11 else if c = 2 then 12 else 0), ReadyThreadsList := [],
     ThreadState := (\<lambda>t. if t = 21 \<or> t = 22 then ThreadStateRunning else ThreadStateReady), Linked := (\<lambda>t. False),
     Pc := (\<lambda>t. if t = 11 \<or> t = 12 then Cleanup ResumeRun else Outside)\<rparr>"

lemmas run_defs = act_def go_def Let_def calls.simps enter_acquire_def enter_release_def may_call_def order_defs
  ThreadSchedule_def ThreadGetReadyThread_def resume_pc_def unblocked_pc_def resume_of_def two_threads_def two_running_def

lemma replicate_unroll: "replicate (numeral k) x = x # replicate (pred_numeral k) x"
  by (simp add: numeral_eq_Suc)

lemma dispatch_end: "perform dispatch two_threads = Some two_running"
  by (simp add: dispatch_def run_defs fun_eq_iff)

lemma two_running_reach: "ex_reach {1, 2} two_threads two_running"
  by (rule perform_reach [OF dispatch_end two_threads_start]) (simp add: dispatch_def)

lemma run_reach:
  assumes "case perform as two_running of None \<Rightarrow> False | Some s \<Rightarrow> P s" "fst ` set as \<subseteq> {1, 2}"
  obtains s where "ex_reach {1, 2} two_threads s" "P s"
proof -
  obtain s where "perform as two_running = Some s" "P s" using assms(1) by (cases "perform as two_running") auto
  then show thesis using that perform_reach [OF _ two_running_reach assms(2)] by blast
qed

definition lost_wakeup_run :: "(u64 \<times> action) list" where
  "lost_wakeup_run = [(1, Call (CallWait 5)), (1, Go)] @ map (Pair 2) (Call (CallSignal 5) # replicate 4 Go) @ replicate 9 (1, Go)"

text \<open>The same run up to where the first thread has \<open>EventLock\<close>.\<close>

definition missed_signal_run :: "(u64 \<times> action) list" where
  "missed_signal_run = [(1, Call (CallWait 5)), (1, Go)] @ map (Pair 2) (Call (CallSignal 5) # replicate 4 Go) @ [(1, Go)]"

text \<open>The other processor passes a mutex on that the first is waiting for.\<close>

definition hand_over_run :: "(u64 \<times> action) list" where
  "hand_over_run = map (Pair 2) (Call (CallAcquire 7) # replicate 4 Go) @ map (Pair 1) (Call (CallAcquire 7) # replicate 10 Go) @
     [(2, Call (CallRelease 7)), (2, Go)]"

definition inside_run :: "(u64 \<times> action) list" where
  "inside_run = map (Pair 2) (Call (CallAcquire 7) # replicate 4 Go) @ [(2, Call (CallAcquire 7))]"

lemma lost_wakeup_end: "case perform lost_wakeup_run two_running of None \<Rightarrow> False | Some s \<Rightarrow>
    Signaled s 5 \<and> WaitingList s (EventAt 5) = [21] \<and> ThreadState s 21 = ThreadStateBlocked \<and>
    Pc s (CurrentThread s 1) = Outside \<and> Pc s (CurrentThread s 2) = Outside \<and> ReadyThreadsList s = []"
  by (simp add: lost_wakeup_run_def replicate_unroll run_defs)

lemma hand_over_end: "case perform hand_over_run two_running of None \<Rightarrow> False | Some s \<Rightarrow>
    (case go 2 s of None \<Rightarrow> False | Some s' \<Rightarrow>
      MutexHolder s 7 = 22 \<and> WaitingList s (MutexAt 7) = [21] \<and> MutexHolder s' 7 = 21 \<and> WaitingList s' (MutexAt 7) = [])"
  by (simp add: hand_over_run_def replicate_unroll run_defs)

lemma missed_signal_end: "case perform missed_signal_run two_running of None \<Rightarrow> False | Some s \<Rightarrow>
    CurrentThread s 1 = 21 \<and> Pc s 21 = WaitInsert 5 \<and> Signaled s 5 \<and> (\<forall>u. \<not> signalling 5 (Pc s u))"
  by (simp add: missed_signal_run_def replicate_unroll run_defs)

lemma inside_end: "case perform inside_run two_running of None \<Rightarrow> False | Some s \<Rightarrow> Inside s 22 7 = 2"
  by (simp add: inside_run_def replicate_unroll run_defs)

lemma two_threads_set: "thread_set {1, 2} two_threads = {11, 12, 21, 22}"
  by (simp add: thread_set_def two_threads_def insert_commute)

lemma lost_wakeup_reach:
  obtains s where "ex_reach {1, 2} two_threads s" "Signaled s 5" "WaitingList s (EventAt 5) = [21]"
    "ThreadState s 21 = ThreadStateBlocked" "Pc s (CurrentThread s 1) = Outside" "Pc s (CurrentThread s 2) = Outside"
    "ReadyThreadsList s = []"
  by (rule run_reach [OF lost_wakeup_end]) (simp add: lost_wakeup_run_def replicate_unroll, blast)

lemma missed_signal_reach:
  obtains s where "ex_reach {1, 2} two_threads s" "CurrentThread s 1 = 21" "Pc s 21 = WaitInsert 5" "Signaled s 5"
    "\<forall>u. \<not> signalling 5 (Pc s u)"
  by (rule run_reach [OF missed_signal_end]) (simp add: missed_signal_run_def replicate_unroll, blast)

lemma hand_over_reach:
  obtains s s' where "ex_reach {1, 2} two_threads s" "ex_step {1, 2} s s'" "MutexHolder s 7 = 22"
    "WaitingList s (MutexAt 7) = [21]" "MutexHolder s' 7 = 21"
proof (rule run_reach [OF hand_over_end])
  show "fst ` set hand_over_run \<subseteq> {1, 2}" by (simp add: hand_over_run_def replicate_unroll)
  fix s assume s: "ex_reach {1, 2} two_threads s" "case go 2 s of None \<Rightarrow> False | Some s' \<Rightarrow>
    MutexHolder s 7 = 22 \<and> WaitingList s (MutexAt 7) = [21] \<and> MutexHolder s' 7 = 21 \<and> WaitingList s' (MutexAt 7) = []"
  then obtain s' where g: "go 2 s = Some s'" by (cases "go 2 s") auto
  then have "act 2 Go s = Some s'" by (simp add: act_def)
  then have "ex_step {1, 2} s s'" by (rule act_step) simp
  then show thesis using s g that by simp
qed

lemma inside_reach: obtains s where "ex_reach {1, 2} two_threads s" "Inside s 22 7 = 2"
  by (rule run_reach [OF inside_end]) (simp_all add: inside_run_def replicate_unroll)

lemma scheduler_safe_witness: "\<exists>s. ex_reach {1, 2} two_threads s \<and> WaitingList s (EventAt 5) = [21] \<and> inj_on (CurrentThread s) {1, 2}"
proof -
  obtain s where "ex_reach {1, 2} two_threads s" "WaitingList s (EventAt 5) = [21]" by (rule lost_wakeup_reach)
  then show ?thesis using scheduler_safe [of "{1, 2}" two_threads s] by auto
qed

lemma mutex_exclusive_witness: "\<exists>s. ex_reach {1, 2} two_threads s \<and> Inside s 22 7 = 2 \<and> MutexHolder s 7 = 22 \<and> Inside s 21 7 = 0 \<and>
    unat (CurrentRecursivityDepth s 7) = 2"
proof -
  obtain s where s: "ex_reach {1, 2} two_threads s" "Inside s 22 7 = 2" by (rule inside_reach)
  moreover have "MutexHolder s 7 = 22 \<and> Inside s 21 7 = 0 \<and> unat (CurrentRecursivityDepth s 7) = 2"
    using mutex_exclusive [OF s(1), of 22 7] s(2) by (simp add: two_threads_set)
  ultimately show ?thesis by blast
qed

text \<open>The first thread tests event 5, the other one signals it, and the first thread has the lock.\<close>

lemma event_wakeup_lost_witness: "\<exists>s s1. ex_reach {1, 2} two_threads s \<and> Signaled s 5 \<and>
    ExEventWaitForSignal 1 21 (Pc s 21) s = Some s1 \<and> Signaled s1 5 \<and>
    (\<forall>s'. quiet_run {1, 2} 5 s1 s' \<longrightarrow> 21 \<in> set (WaitingList s' (EventAt 5)) \<and> waits_for (Pc s' 21) = Some (EventAt 5))"
proof -
  obtain s where s: "ex_reach {1, 2} two_threads s" "CurrentThread s 1 = 21" "Pc s 21 = WaitInsert 5" "Signaled s 5"
    "\<forall>u. \<not> signalling 5 (Pc s u)" by (rule missed_signal_reach)
  then show ?thesis using event_wakeup_lost [OF s(1) _ s(2-5)] by blast
qed

lemma mutex_hand_over_witness: "\<exists>s s'. ex_step {1, 2} s s' \<and> WaitingList s (MutexAt 7) = [21] \<and> MutexHolder s 7 = 22 \<and> MutexHolder s' 7 = 21 \<and>
    WaitingList s' (MutexAt 7) = []"
proof -
  obtain s s' where s: "ex_reach {1, 2} two_threads s" "ex_step {1, 2} s s'" "MutexHolder s 7 = 22"
    "WaitingList s (MutexAt 7) = [21]" "MutexHolder s' 7 = 21" by (rule hand_over_reach)
  then show ?thesis using mutex_hand_over [OF s(1,2), of 7] by auto
qed

lemma no_thread_lost_witness: "\<exists>s. ex_reach {1, 2} two_threads s \<and> ((\<exists>c \<in> {1, 2}. CurrentThread s c = 21) \<or> (\<exists>c \<in> {1, 2}. IdleThread s c = 21) \<or>
    21 \<in> set (ReadyThreadsList s) \<or> (\<exists>ob. 21 \<in> set (WaitingList s ob)) \<or>
    (\<exists>c \<in> {1, 2}. \<exists>ob. target (Pc s (CurrentThread s c)) = Some (ob, 21)))"
proof -
  obtain s where s: "ex_reach {1, 2} two_threads s" by (rule lost_wakeup_reach)
  have "21 \<in> thread_set {1, 2} two_threads" by (simp add: two_threads_set)
  then show ?thesis using no_thread_lost [OF s] s by blast
qed

text \<open>A thread that yields when no other is ready stays on its processor, but leaves its state \<open>ThreadStateReady\<close>.\<close>

lemma yield_alone:
  assumes "ReadyThreadsList s = []" "\<not> Linked s t" "t \<noteq> IdleThread s c" "CurrentThread s c = t"
  shows "\<exists>s'. ThreadYield c t YieldInsert s = Some s' \<and> CurrentThread s' c = t \<and> ThreadState s' t = ThreadStateReady \<and>
    ReadyThreadsList s' = []"
  using assms by (simp add: ThreadSchedule_def ThreadGetReadyThread_def set_defs Let_def)

end
