(* ===== verification/Ticks.thy ===== *)
theory Ticks
  imports HAL_Prelude
begin

text \<open>
  The ticks of the timer in \<open>HAL9000/src/executive/thread.c\<close>: the counters of a processor and of the threads, and when the
  interrupt makes the thread yield. A processor is followed through its timer interrupts and the switches between
  its threads, with \<open>next\<close> the thread that \<open>_ThreadGetReadyThread\<close> chooses.
\<close>

section \<open>Counters\<close>

record processor_ticks =
  RunningThreadTicks :: u32
  YieldOnInterruptReturn :: bool
  IdleTicks :: u64
  KernelTicks :: u64

record thread_ticks =
  TickCountCompleted :: u64
  UninterruptedTicks :: u64
  TickCountEarly :: u64
  TotalTicksRun :: u32
  CurrentQuantum :: u32
  QuantaAllocatedCount :: u32

text \<open>The counters \<open>_ThreadInit\<close> leaves in a new thread.\<close>

definition new_thread_ticks :: thread_ticks where
  "new_thread_ticks = \<lparr>TickCountCompleted = 0, UninterruptedTicks = 0, TickCountEarly = 0, TotalTicksRun = 0,
     CurrentQuantum = 4, QuantaAllocatedCount = 0\<rparr>"

definition ThreadTick :: "bool \<Rightarrow> processor_ticks \<Rightarrow> thread_ticks \<Rightarrow> processor_ticks \<times> thread_ticks" where
  "ThreadTick is_idle p t =
     (let (p1, t1) =
        (if is_idle then (p\<lparr>IdleTicks := IdleTicks p + 1\<rparr>, t)
         else let t' = t\<lparr>TotalTicksRun := TotalTicksRun t + 1\<rparr> in
           (p\<lparr>KernelTicks := KernelTicks p + 1\<rparr>, if 16 \<le> TotalTicksRun t' then t'\<lparr>CurrentQuantum := 2\<rparr> else t'));
        t2 = t1\<lparr>TickCountCompleted := TickCountCompleted t1 + 1\<rparr>;
        p2 = p1\<lparr>RunningThreadTicks := RunningThreadTicks p1 + 1\<rparr> in
      (if CurrentQuantum t2 \<le> RunningThreadTicks p2 then p2\<lparr>YieldOnInterruptReturn := True\<rparr> else p2, t2))"

definition ThreadYieldOnInterrupt :: "processor_ticks \<Rightarrow> bool" where
  "ThreadYieldOnInterrupt p = YieldOnInterruptReturn p"

section \<open>One processor\<close>

record processor =
  Counters :: processor_ticks
  Running :: nat
  IdleOne :: nat
  Threads :: "nat \<Rightarrow> thread_ticks"

definition schedule_ticks :: "nat \<Rightarrow> processor \<Rightarrow> processor" where
  "schedule_ticks next p =
     (let cur = Running p; th = Threads p in
      if next \<noteq> cur
      then (let th1 = th(cur := th cur\<lparr>UninterruptedTicks := 0\<rparr>) in
        p\<lparr>Running := next, Threads := th1(next := th1 next\<lparr>QuantaAllocatedCount := QuantaAllocatedCount (th1 next) + 1\<rparr>)\<rparr>)
      else p\<lparr>Threads := th(cur := th cur\<lparr>UninterruptedTicks := UninterruptedTicks (th cur) + 1\<rparr>)\<rparr>)"

definition early :: "processor \<Rightarrow> processor" where
  "early p = p\<lparr>Threads := (Threads p)(Running p := Threads p (Running p)\<lparr>TickCountEarly := TickCountEarly (Threads p (Running p)) + 1\<rparr>)\<rparr>"

definition yield_ticks :: "nat \<Rightarrow> processor \<Rightarrow> processor" where
  "yield_ticks next p =
     (let forced = YieldOnInterruptReturn (Counters p);
          p1 = p\<lparr>Counters := (Counters p)\<lparr>YieldOnInterruptReturn := False\<rparr>\<rparr> in
      schedule_ticks next (if \<not> forced then early p1 else p1))"

definition block_ticks :: "nat \<Rightarrow> processor \<Rightarrow> processor" where
  "block_ticks next p = schedule_ticks next (early p)"

text \<open>A timer interrupt; on its way out it calls \<open>ThreadYield\<close> when \<open>ThreadYieldOnInterrupt\<close> says so.\<close>

definition tick :: "processor \<Rightarrow> processor" where
  "tick p = (let (k, t) = ThreadTick (IdleOne p = Running p) (Counters p) (Threads p (Running p)) in
     p\<lparr>Counters := k, Threads := (Threads p)(Running p := t)\<rparr>)"

datatype happening = Tick nat | Yield nat | BlockFor nat

fun happens :: "happening \<Rightarrow> processor \<Rightarrow> processor" where
  "happens (Tick next) p = (let p1 = tick p in if ThreadYieldOnInterrupt (Counters p1) then yield_ticks next p1 else p1)"
| "happens (Yield next) p = yield_ticks next p"
| "happens (BlockFor next) p = block_ticks next p"

definition booted :: "nat \<Rightarrow> processor" where
  "booted i = \<lparr>Counters = \<lparr>RunningThreadTicks = 0, YieldOnInterruptReturn = False, IdleTicks = 0, KernelTicks = 0\<rparr>,
     Running = i, IdleOne = i, Threads = (\<lambda>t. new_thread_ticks)\<rparr>"

fun ticks_in :: "happening list \<Rightarrow> nat" where
  "ticks_in [] = 0"
| "ticks_in (Tick n # es) = ticks_in es + 1"
| "ticks_in (e # es) = ticks_in es"

section \<open>Properties\<close>

definition small_quantum :: "processor \<Rightarrow> bool" where
  "small_quantum p \<longleftrightarrow> (\<forall>t. CurrentQuantum (Threads p t) \<in> {2, 4})"

lemma schedule_keeps [simp]: "Counters (schedule_ticks n p) = Counters p"
  "CurrentQuantum (Threads (schedule_ticks n p) t) = CurrentQuantum (Threads p t)"
  by (simp_all add: schedule_ticks_def Let_def)

lemma early_keeps [simp]: "Counters (early p) = Counters p" "CurrentQuantum (Threads (early p) t) = CurrentQuantum (Threads p t)"
  by (simp_all add: early_def)

lemma yield_keeps [simp]: "Counters (yield_ticks n p) = (Counters p)\<lparr>YieldOnInterruptReturn := False\<rparr>"
  "CurrentQuantum (Threads (yield_ticks n p) t) = CurrentQuantum (Threads p t)"
  by (simp_all add: yield_ticks_def Let_def)

lemma block_keeps [simp]: "Counters (block_ticks n p) = Counters p" "CurrentQuantum (Threads (block_ticks n p) t) = CurrentQuantum (Threads p t)"
  by (simp_all add: block_ticks_def)

lemma small_keeps [simp]: "small_quantum (yield_ticks n p) = small_quantum p" "small_quantum (block_ticks n p) = small_quantum p"
  by (simp_all add: small_quantum_def)

lemma tick_counters:
  "RunningThreadTicks (Counters (tick p)) = RunningThreadTicks (Counters p) + 1"
  "IdleTicks (Counters (tick p)) + KernelTicks (Counters (tick p)) = IdleTicks (Counters p) + KernelTicks (Counters p) + 1"
  by (simp_all add: tick_def ThreadTick_def Let_def split: prod.splits)

lemma tick_small: "small_quantum p \<Longrightarrow> small_quantum (tick p)"
  by (auto simp: tick_def ThreadTick_def Let_def small_quantum_def split: prod.splits)

text \<open>What the counters say after \<open>n\<close> ticks.\<close>

definition ticks_counted :: "nat \<Rightarrow> processor \<Rightarrow> bool" where
  "ticks_counted n p \<longleftrightarrow> RunningThreadTicks (Counters p) = of_nat n \<and> IdleTicks (Counters p) + KernelTicks (Counters p) = of_nat n \<and> small_quantum p"

lemma happens_counted: "ticks_counted n p \<Longrightarrow> ticks_counted (n + ticks_in [e]) (happens e p)"
  by (cases e) (auto simp: ticks_counted_def Let_def tick_counters tick_small add.commute)

lemma ticks_in_Cons: "ticks_in (e # es) = ticks_in [e] + ticks_in es"
  by (cases e) simp_all

lemma fold_counted: "ticks_counted n p \<Longrightarrow> ticks_counted (n + ticks_in es) (fold happens es p)"
proof (induction es arbitrary: n p)
  case (Cons e es)
  then show ?case using happens_counted [OF Cons.prems, of e] ticks_in_Cons [of e es] by (metis add.assoc fold_simps(2))
qed simp

lemma booted_counted: "ticks_counted 0 (booted i)"
  by (simp add: ticks_counted_def booted_def new_thread_ticks_def small_quantum_def)

text \<open>\<open>IdleTicks\<close> and \<open>KernelTicks\<close> together count the timer interrupts of the processor, and so does \<open>RunningThreadTicks\<close>, which
  should count those of the thread that runs: no switch resets it.\<close>

theorem ticks_accounted:
  "let k = Counters (fold happens es (booted i)) in
    IdleTicks k + KernelTicks k = of_nat (ticks_in es) \<and> RunningThreadTicks k = of_nat (ticks_in es)"
  using fold_counted [OF booted_counted, of es i] by (simp add: ticks_counted_def Let_def)

text \<open>C6: from the fourth timer interrupt on (and until the counter wraps), every interrupt makes its thread yield, however short a time the
  thread has run: no thread gets its quantum of four or two ticks.\<close>

theorem every_tick_yields:
  assumes "4 \<le> ticks_in es + 1" "ticks_in es + 1 < 2 ^ 32"
  shows "ThreadYieldOnInterrupt (Counters (tick (fold happens es (booted i))))"
proof -
  define p where "p = fold happens es (booted i)"
  have c: "ticks_counted (ticks_in es) p" using fold_counted [OF booted_counted, of es i] by (simp add: p_def)
  have "CurrentQuantum (Threads (tick p) (Running p)) \<in> {2, 4}" using tick_small c by (simp add: ticks_counted_def small_quantum_def)
  moreover have "RunningThreadTicks (Counters (tick p)) = of_nat (ticks_in es + 1)" using c by (simp add: tick_counters ticks_counted_def)
  then have "4 \<le> RunningThreadTicks (Counters (tick p))" using assms by (simp add: word_le_nat_alt unat_of_nat del: of_nat_Suc of_nat_add)
  ultimately have "CurrentQuantum (Threads (tick p) (Running p)) \<le> RunningThreadTicks (Counters (tick p))"
    by (auto simp: word_le_nat_alt)
  then show ?thesis unfolding p_def [symmetric]
    by (auto simp: tick_def ThreadTick_def ThreadYieldOnInterrupt_def Let_def split: prod.splits if_splits)
qed

lemma every_tick_yields_witness:
  "let p = fold happens [Tick 1, Tick 1, Tick 1, Yield 2] (booted 0) in
    Running p = 2 \<and> TickCountCompleted (Threads p 2) = 0 \<and> ThreadYieldOnInterrupt (Counters (tick p))"
proof -
  have "Running (fold happens [Tick 1, Tick 1, Tick 1, Yield 2] (booted 0)) = 2 \<and>
    TickCountCompleted (Threads (fold happens [Tick 1, Tick 1, Tick 1, Yield 2] (booted 0)) 2) = 0" by code_simp
  then show ?thesis using every_tick_yields [of "[Tick 1, Tick 1, Tick 1, Yield 2]" 0] unfolding Let_def by simp
qed

end
