(* ===== verification/Spec2Isabelle.thy ===== *)
theory Spec2Isabelle
  imports CL_HashTable CL_Bitmap CL_Heap CL_String CL_Lock CL_RwLock CL_StrUtils CL_Format CL_Sync Pmm CL_Crc32 CL_Stack VmReservation PagingOps ExecutiveRuns Ticks
begin

text \<open>
  A model of HAL9000, an x86-64 kernel written in C, and of the library it shares with its drivers.
  The code lies under \<open>src/HAL\<close>; paths in these theories are relative to it.

  \<^bold>\<open>The parts of the program.\<close> \<open>CommonLib\<close> holds what the kernel and its drivers are built from: byte
  and string functions, lists, hash tables, bitmaps, a heap, stacks, checksums, locks, events, reference
  counts and the formatted output. On it rest the managers of the kernel (\<open>HAL9000/src/core\<close>): the
  physical memory manager keeps a bitmap of frames, the virtual memory manager keeps reservations with a
  bitmap of committed pages each, the heap hands out blocks. The executive (\<open>HAL9000/src/executive\<close>) has
  threads, processes, mutexes, events and timers; the drivers have a file system for FAT32 and one for
  the swap partition; \<open>HAL\<close> holds the code that talks to the hardware.

  \<^bold>\<open>How the code is modelled.\<close> One definition per function, with the name of the function. A structure is a
  record, with the names of its fields where they do not clash, an enumeration a datatype or the number the code
  stores, BYTE, WORD, DWORD and QWORD the words \<open>u8\<close> to \<open>u64\<close> with wrap-around, a STATUS a word. Pointers are
  addresses into stores that map them to the structures, so that aliasing and dangling pointers behave as in the
  code, or positions in a list of bytes where the code works in a buffer. The result \<open>None\<close> is a fault: an ASSERT that fails
  (it halts the system), an access outside the memory that exists, or a loop that does not end
  (\<open>partial_function\<close>). Each theorem about a function that does its work says that its result is \<open>Some\<close>, so that it also says
  that the function returns; no fuel is used. Code that several processors run at the same time is a step relation over
  the points of the code at which it touches what they share, as an inductive predicate, and a failed assertion is the point
  \<open>Halted\<close>. Output parameters are part of the result, an
  output parameter that the code does not write in a branch is \<open>None\<close> there. Log output is left out.

  \<^bold>\<open>The theories.\<close>
    \<^item> \<open>HAL_Prelude\<close>: word types, status codes, the macros of \<open>base.h\<close> and \<open>assert.h\<close>, arrays, counted loops.
    \<^item> \<open>HAL_Interfaces\<close>: the contracts between components as locales, with the lemmas of their clients:
      \<open>range_allocator\<close> (bitmap, physical memory manager), \<open>fifo\<close> (list), \<open>lock\<close> (spin and monitor lock),
      \<open>map_store\<close> (hash table), \<open>stack_store\<close> (stack) and \<open>address_map\<close> (page tables). Each is interpreted in the theory of its provider.
    \<^item> \<open>CL_Memory\<close> (\<open>cl_memory.c\<close>), \<open>CL_String\<close> and \<open>CL_Format\<close> (\<open>cl_string.c\<close>), \<open>CL_StrUtils\<close>
      (\<open>strutils.c\<close>): functions on bytes and text. The lemmas show that each computes the textbook function
      of its operands, writes only where it says, and give the inputs at which it does not.
    \<^item> \<open>CL_List\<close> (\<open>list.c\<close>), \<open>CL_HashTable\<close> (\<open>hash_table.c\<close>), \<open>CL_Stack\<close> (\<open>stack_dynamic.c\<close>,
      \<open>stack_interface.c\<close>), \<open>CL_Bitmap\<close> (\<open>bitmap.c\<close>): containers, each refined to the abstract one
      (list of entries, finite map, list of items, list of bits).
    \<^item> \<open>CL_Heap\<close> (\<open>cl_heap.c\<close>): the invariant of the heap, that allocation and release keep it and that
      live blocks never overlap; two kinds of states in which the code fails, one of them
      reached by calls from the initialisation on.
    \<^item> \<open>CL_Lock\<close> (\<open>spinlock.c\<close>, \<open>monlock.c\<close>, \<open>lock_common.c\<close>), \<open>CL_RwLock\<close> (\<open>rw_spinlock.c\<close>,
      \<open>rec_rw_spinlock.c\<close>), \<open>CL_Sync\<close> (\<open>event.c\<close>, \<open>ref_cnt.c\<close>, \<open>checkin_queue.c\<close>, \<open>intutils.c\<close>): the
      functions as one processor runs them, and step relations in which any number of processors interleave,
      with mutual exclusion as an invariant of the reachable states; for the spin lock with the interrupt state of
      every processor.
    \<^item> \<open>CL_Crc32\<close> (\<open>crc32.c\<close>): the table driven checksum against the definition by polynomial division.
    \<^item> \<open>Pmm\<close> (\<open>pmm.c\<close>): the set-up from the memory map of the firmware, and that clients hold disjoint runs of frames.
    \<^item> \<open>VmReservation\<close> (\<open>vm_reservation_space.c\<close> and the buffer check of \<open>vmm.c\<close>): the address space as a
      map from addresses to reservations, and what allocation, release, page faults and buffer checks do to it.
    \<^item> \<open>Paging\<close> and \<open>PagingOps\<close> (\<open>HAL/src/pte.c\<close>, the walks of \<open>vmm.c\<close>): page tables as memory, the translation that the
      processor makes from them, and that mapping and unmapping change it as they should.
    \<^item> \<open>Scheduler\<close> (\<open>thread.c\<close>, \<open>mutex.c\<close>, \<open>ex_event.c\<close>): threads, mutexes and events as steps of any number of processors;
      \<open>SchedulerInv\<close> has the invariants of locks and lists, \<open>Executive\<close> those of mutexes and threads and the theorems about the
      reachable states, \<open>EventWakeup\<close> the wake-up that an event can lose, \<open>ExecutiveRuns\<close> concrete runs.
    \<^item> \<open>Ticks\<close> (\<open>ThreadTick\<close> and what it counts, in \<open>thread.c\<close> and \<open>ex_system.c\<close>): when the timer interrupt makes a thread yield.

  \<^bold>\<open>Bounds.\<close> The conditions of the theorems are the sizes that the code assumes (a buffer that holds its
  string, fewer than 65536 processors at a lock whose counters are WORDs, sizes below \<open>2 ^ 43\<close> so that a
  number of pages fits a DWORD). Where a bound is missing in the code, a lemma gives the input that breaks it.

  \<^bold>\<open>Not modelled.\<close> What reads and writes descriptors, ports or device memory (\<open>mmu.c\<close>, \<open>HAL/src\<close> but for the page table
  entries, the disk, network and platform drivers), context switches and start-up in assembly, the vendored ACPICA library,
  the boot loader over the headers of EDK2, screen and log output, and the tests. Of the executive, the creation and the
  end of threads, processes, timers, and the interrupt state in the steps of the scheduler; and the file systems, the I/O manager
  and the parsers of executables, which rest on the drivers or are left out for their size.
\<close>

end
